(* ===== verification/Prelude.thy ===== *)
theory Prelude
  imports Main "HOL-Library.Char_ord" "HOL-Library.List_Lexorder"
begin

text \<open>
  Shared vocabulary of the development: the outcomes a C++ operation can have besides returning
  (a failed \<open>assert\<close>, an access outside an allocated range, a reversed iterator range, an exception
  of the standard library), a result type with its sequencing operator, arithmetic of
  \<open>size_t\<close> and of 32-bit \<open>int\<close> with the wrap-around written out, and the iterator algorithms
  \<open>std::find\<close>, \<open>std::search\<close> and the range constructor of \<open>std::string\<close> on a memory block
  (a list of characters addressed by index). The last part is a locale for invariants of step
  relations, which the state machines of the development interpret.
\<close>

named_theorems cpp_simps \<open>rewrite rules of the modelled C++ primitives\<close>

section \<open>Results\<close>

datatype cpp_error =
    AssertFail        \<comment> \<open>\<open>assert(...)\<close> does not hold\<close>
  | OutOfBounds       \<comment> \<open>an access outside the allocated block\<close>
  | InvalidRange      \<comment> \<open>a pair of iterators in the wrong order\<close>
  | InvalidArgument   \<comment> \<open>\<open>std::invalid_argument\<close>\<close>
  | OutOfRange        \<comment> \<open>\<open>std::out_of_range\<close>\<close>
  | Arithmetic        \<comment> \<open>signed overflow or division by zero\<close>
  | Abort             \<comment> \<open>\<open>abort()\<close> or \<open>_exit\<close>\<close>

type_synonym 'a result = "cpp_error + 'a"

definition bind_result :: "'a result \<Rightarrow> ('a \<Rightarrow> 'b result) \<Rightarrow> 'b result" where
  "bind_result m f = (case m of Inl e \<Rightarrow> Inl e | Inr x \<Rightarrow> f x)"

definition assert_that :: "bool \<Rightarrow> unit result" where
  "assert_that P = (if P then Inr () else Inl AssertFail)"

lemma bind_result_Inl [simp]: "bind_result (Inl e) f = Inl e"
  by (simp add: bind_result_def)

lemma bind_result_Inr [simp]: "bind_result (Inr x) f = f x"
  by (simp add: bind_result_def)

lemma bind_result_eq_Inr:
  "bind_result m f = Inr y \<longleftrightarrow> (\<exists>x. m = Inr x \<and> f x = Inr y)"
  by (cases m) auto

lemma bind_result_eq_Inl:
  "bind_result m f = Inl e \<longleftrightarrow> m = Inl e \<or> (\<exists>x. m = Inr x \<and> f x = Inl e)"
  by (cases m) auto

lemma bind_result_assoc: "bind_result (bind_result m f) g = bind_result m (\<lambda>x. bind_result (f x) g)"
  by (cases m) auto

lemma bind_result_cong [fundef_cong]:
  "m = m' \<Longrightarrow> (\<And>x. m' = Inr x \<Longrightarrow> f x = f' x) \<Longrightarrow> bind_result m f = bind_result m' f'"
  by (cases m') auto

lemma assert_that_simps [simp]:
  "assert_that True = Inr ()" "assert_that False = Inl AssertFail"
  by (simp_all add: assert_that_def)

lemma assert_that_eq_Inr [simp]: "assert_that P = Inr u \<longleftrightarrow> P"
  by (simp add: assert_that_def)

section \<open>Machine integers\<close>

text \<open>\<open>size_t\<close> is unsigned and 64 bits wide; \<open>int\<close> is two's complement and 32 bits wide.\<close>

definition size_add :: "nat \<Rightarrow> nat \<Rightarrow> nat" where
  "size_add a b = (a + b) mod 2 ^ 64"

definition size_sub :: "nat \<Rightarrow> nat \<Rightarrow> nat" where
  "size_sub a b = (a + (2 ^ 64 - b mod 2 ^ 64)) mod 2 ^ 64"

definition to_int32 :: "int \<Rightarrow> int" where
  "to_int32 i = (i + 2 ^ 31) mod 2 ^ 32 - 2 ^ 31"

definition to_size :: "int \<Rightarrow> nat" where
  "to_size i = nat (i mod 2 ^ 64)"

lemma size_add_small [cpp_simps]: "a + b < 2 ^ 64 \<Longrightarrow> size_add a b = a + b"
  by (simp add: size_add_def)

lemma size_sub_small [cpp_simps]: "b \<le> a \<Longrightarrow> a < 2 ^ 64 \<Longrightarrow> size_sub a b = a - b"
proof -
  assume ba: "b \<le> a" and a: "a < 2 ^ 64"
  then have "a + (2 ^ 64 - b) = (a - b) + 2 ^ 64" by simp
  moreover have "(a - b + 2 ^ 64) mod 2 ^ 64 = a - b" using a by simp
  moreover have "b mod 2 ^ 64 = b" using ba a by simp
  ultimately show ?thesis by (simp only: size_sub_def)
qed

lemma size_add_sub_cancel: "a \<le> b \<Longrightarrow> b < 2 ^ 64 \<Longrightarrow> size_add a (size_sub b a) = b"
  by (simp add: cpp_simps)

lemma to_int32_small: "- (2 ^ 31) \<le> i \<Longrightarrow> i < 2 ^ 31 \<Longrightarrow> to_int32 i = i"
  by (simp add: to_int32_def)

lemma to_int32_range: "- (2 ^ 31) \<le> to_int32 i \<and> to_int32 i < 2 ^ 31"
  by (simp add: to_int32_def)

lemma to_size_nonneg: "0 \<le> i \<Longrightarrow> i < 2 ^ 64 \<Longrightarrow> to_size i = nat i"
  by (simp add: to_size_def)

section \<open>Memory blocks and iterator ranges\<close>

text \<open>\<open>slice m i j\<close> is the range \<open>[m + i, m + j)\<close> of the block \<open>m\<close>.\<close>

definition slice :: "'a list \<Rightarrow> nat \<Rightarrow> nat \<Rightarrow> 'a list" where
  "slice m i j = take (j - i) (drop i m)"

lemma length_slice [simp]: "j \<le> length m \<Longrightarrow> length (slice m i j) = j - i"
  by (simp add: slice_def)

lemma slice_empty [simp]: "j \<le> i \<Longrightarrow> slice m i j = []"
  by (simp add: slice_def)

lemma slice_Cons: "i < j \<Longrightarrow> j \<le> length m \<Longrightarrow> slice m i j = m ! i # slice m (Suc i) j"
proof -
  assume ij: "i < j" "j \<le> length m"
  then have "drop i m = m ! i # drop (Suc i) m" by (simp add: Cons_nth_drop_Suc)
  moreover from ij have "j - i = Suc (j - Suc i)" by simp
  ultimately show ?thesis by (simp add: slice_def)
qed

lemma slice_append: "i \<le> k \<Longrightarrow> k \<le> j \<Longrightarrow> slice m i j = slice m i k @ slice m k j"
proof -
  assume ik: "i \<le> k" "k \<le> j"
  then have "take (j - i) (drop i m) = take ((k - i) + (j - k)) (drop i m)" by simp
  also have "\<dots> = take (k - i) (drop i m) @ take (j - k) (drop (k - i) (drop i m))"
    by (rule take_add)
  also from ik have "drop (k - i) (drop i m) = drop k m" by simp
  finally show ?thesis by (simp add: slice_def)
qed

lemma slice_snoc: "i \<le> j \<Longrightarrow> j < length m \<Longrightarrow> slice m i (Suc j) = slice m i j @ [m ! j]"
  using slice_append [of i j "Suc j" m] slice_Cons [of j "Suc j" m] by simp

lemma nth_slice: "j \<le> length m \<Longrightarrow> k < j - i \<Longrightarrow> slice m i j ! k = m ! (i + k)"
  by (simp add: slice_def)

lemma take_slice: "take k (slice m i j) = slice m i (min j (i + k))"
proof -
  have "min k (j - i) = min j (i + k) - i" by arith
  then show ?thesis by (simp add: slice_def)
qed

lemma drop_slice: "drop k (slice m i j) = slice m (i + k) j"
  by (simp add: slice_def drop_take add.commute)

text \<open>\<open>std::string(first, last)\<close> over a block: a range out of order has no string.\<close>

definition range_string :: "string \<Rightarrow> nat \<Rightarrow> nat \<Rightarrow> string result" where
  "range_string m i j =
     (if i \<le> j then if j \<le> length m then Inr (slice m i j) else Inl OutOfBounds
      else Inl InvalidRange)"

lemma range_string_ok [cpp_simps]:
  "i \<le> j \<Longrightarrow> j \<le> length m \<Longrightarrow> range_string m i j = Inr (slice m i j)"
  by (simp add: range_string_def)

text \<open>Access to one element of an array.\<close>

definition load :: "string \<Rightarrow> nat \<Rightarrow> char result" where
  "load s i = (if i < length s then Inr (s ! i) else Inl OutOfBounds)"

definition store :: "string \<Rightarrow> nat \<Rightarrow> char \<Rightarrow> string result" where
  "store s i c = (if i < length s then Inr (s[i := c]) else Inl OutOfBounds)"

text \<open>\<open>std::find(first, last, c)\<close>: the first position of \<open>c\<close>, or \<open>last\<close>.\<close>

function cpp_find :: "string \<Rightarrow> nat \<Rightarrow> nat \<Rightarrow> char \<Rightarrow> nat" where
  "cpp_find m i j c = (if i < j \<and> m ! i \<noteq> c then cpp_find m (Suc i) j c else i)"
  by pat_completeness auto
termination
  by (relation "measure (\<lambda>(m, i, j, c). j - i)") auto

declare cpp_find.simps [simp del]

lemma cpp_find_eq:
  "i \<le> j \<Longrightarrow> j \<le> length m \<Longrightarrow>
   cpp_find m i j c = i + length (takeWhile (\<lambda>x. x \<noteq> c) (slice m i j))"
proof (induction m i j c rule: cpp_find.induct)
  case (1 m i j c)
  show ?case
  proof (cases "i < j")
    case True
    then have sl: "slice m i j = m ! i # slice m (Suc i) j"
      using 1 by (simp add: slice_Cons)
    show ?thesis
    proof (cases "m ! i = c")
      case True
      then show ?thesis using sl by (simp add: cpp_find.simps [of m i j c])
    next
      case False
      with \<open>i < j\<close> 1 have
        "cpp_find m (Suc i) j c = Suc i + length (takeWhile (\<lambda>x. x \<noteq> c) (slice m (Suc i) j))"
        by simp
      with False \<open>i < j\<close> sl show ?thesis by (simp add: cpp_find.simps [of m i j c])
    qed
  next
    case False
    with 1 show ?thesis by (subst cpp_find.simps) simp
  qed
qed

lemma cpp_find_bounds: "i \<le> j \<Longrightarrow> j \<le> length m \<Longrightarrow> i \<le> cpp_find m i j c \<and> cpp_find m i j c \<le> j"
  using length_takeWhile_le [of "\<lambda>x. x \<noteq> c" "slice m i j"] by (simp add: cpp_find_eq)

text \<open>\<open>std::search(first, last, p, p + length p)\<close>: the first occurrence of \<open>p\<close>, or \<open>last\<close>.\<close>

function cpp_search :: "string \<Rightarrow> nat \<Rightarrow> nat \<Rightarrow> string \<Rightarrow> nat" where
  "cpp_search m i j p =
     (if i + length p \<le> j \<and> i < j
      then if slice m i (i + length p) = p then i else cpp_search m (Suc i) j p
      else j)"
  by pat_completeness auto
termination
  by (relation "measure (\<lambda>(m, i, j, p). j - i)") auto

declare cpp_search.simps [simp del]

text \<open>The same searches on lists; the iterator versions compute them on a range.\<close>

definition find_char :: "char \<Rightarrow> string \<Rightarrow> nat option" where
  "find_char c xs =
     (let k = length (takeWhile (\<lambda>x. x \<noteq> c) xs) in if k = length xs then None else Some k)"

fun find_sub :: "string \<Rightarrow> string \<Rightarrow> nat option" where
  "find_sub p [] = None"
| "find_sub p (x # xs) =
     (if take (length p) (x # xs) = p then Some 0 else map_option Suc (find_sub p xs))"

lemma takeWhile_neq_length:
  "length (takeWhile (\<lambda>x. x \<noteq> c) xs) = length xs \<longleftrightarrow> c \<notin> set xs"
  by (induction xs) auto

lemma find_char_None: "find_char c xs = None \<longleftrightarrow> c \<notin> set xs"
  by (simp add: find_char_def takeWhile_neq_length Let_def)

lemma takeWhile_neq_append: "c \<notin> set xs \<Longrightarrow> takeWhile (\<lambda>x. x \<noteq> c) (xs @ c # ys) = xs"
  by (induction xs) auto

lemma find_char_append [simp]: "c \<notin> set xs \<Longrightarrow> find_char c (xs @ c # ys) = Some (length xs)"
  by (simp add: find_char_def Let_def takeWhile_neq_append)

lemma find_char_SomeD:
  assumes "find_char c xs = Some k"
  shows "k < length xs" and "xs ! k = c" and "c \<notin> set (take k xs)"
proof -
  have k: "k = length (takeWhile (\<lambda>x. x \<noteq> c) xs)" and "k \<noteq> length xs"
    using assms by (auto simp: find_char_def Let_def split: if_splits)
  then show "k < length xs" using length_takeWhile_le [of "\<lambda>x. x \<noteq> c" xs] by simp
  then show "xs ! k = c" using nth_length_takeWhile [of "\<lambda>x. x \<noteq> c" xs] k by simp
  have "take k xs = takeWhile (\<lambda>x. x \<noteq> c) xs" using k takeWhile_eq_take by metis
  then show "c \<notin> set (take k xs)" by (auto dest: set_takeWhileD)
qed

lemma find_sub_SomeD:
  "find_sub p xs = Some k \<Longrightarrow> k + length p \<le> length xs \<and> take (length p) (drop k xs) = p"
proof (induction xs arbitrary: k)
  case Nil
  then show ?case by simp
next
  case (Cons x xs)
  show ?case
  proof (cases "take (length p) (x # xs) = p")
    case True
    then have "length p \<le> length (x # xs)" by (metis length_take min.cobounded1)
    with True Cons.prems show ?thesis by simp
  next
    case False
    with Cons obtain k' where "find_sub p xs = Some k'" "k = Suc k'" by auto
    with Cons.IH show ?thesis by simp
  qed
qed

lemma cpp_find_find_char:
  "i \<le> j \<Longrightarrow> j \<le> length m \<Longrightarrow>
   cpp_find m i j c = (case find_char c (slice m i j) of None \<Rightarrow> j | Some k \<Rightarrow> i + k)"
  by (auto simp: cpp_find_eq find_char_def Let_def)

lemma take_slice_eq_iff:
  "i < j \<Longrightarrow> j \<le> length m \<Longrightarrow>
   take (length p) (slice m i j) = p \<longleftrightarrow> i + length p \<le> j \<and> slice m i (i + length p) = p"
proof -
  assume ij: "i < j" "j \<le> length m"
  show ?thesis
  proof (cases "i + length p \<le> j")
    case True
    then show ?thesis by (simp add: take_slice min_def)
  next
    case False
    then have "length (take (length p) (slice m i j)) < length p" using ij by simp
    with False show ?thesis by auto
  qed
qed

lemma cpp_search_find_sub:
  "p \<noteq> [] \<Longrightarrow> i \<le> j \<Longrightarrow> j \<le> length m \<Longrightarrow>
   cpp_search m i j p = (case find_sub p (slice m i j) of None \<Rightarrow> j | Some k \<Rightarrow> i + k)"
proof (induction m i j p rule: cpp_search.induct)
  case (1 m i j p)
  show ?case
  proof (cases "i < j")
    case False
    with 1 show ?thesis by (subst cpp_search.simps) simp
  next
    case True
    with 1 have sl: "slice m i j = m ! i # slice m (Suc i) j" by (simp add: slice_Cons)
    have eq: "take (length p) (slice m i j) = p \<longleftrightarrow>
        i + length p \<le> j \<and> slice m i (i + length p) = p"
      using True 1 by (intro take_slice_eq_iff) auto
    show ?thesis
    proof (cases "i + length p \<le> j")
      case False
      have "find_sub p (slice m i j) = None"
        using find_sub_SomeD [of p "slice m i j"] False 1 True by (cases "find_sub p (slice m i j)") auto
      with False True show ?thesis by (subst cpp_search.simps) simp
    next
      case long: True
      show ?thesis
      proof (cases "slice m i (i + length p) = p")
        case True
        then show ?thesis using eq long \<open>i < j\<close> sl by (subst cpp_search.simps) simp
      next
        case False
        then have "cpp_search m i j p = cpp_search m (Suc i) j p"
          using long \<open>i < j\<close> by (subst cpp_search.simps) simp
        moreover have "\<dots> = (case find_sub p (slice m (Suc i) j) of None \<Rightarrow> j | Some k \<Rightarrow> Suc i + k)"
          using 1 False long \<open>i < j\<close> by simp
        ultimately show ?thesis
          using eq False sl by (auto split: option.splits)
      qed
    qed
  qed
qed

section \<open>Loops\<close>

text \<open>
  \<open>cpp_while b f s\<close> runs the loop \<open>while (b) f\<close>. \<open>None\<close> means that the loop does not end, an error
  of the body ends it. \<open>cpp_while_total\<close> is the rule for total correctness and
  \<open>cpp_while_diverges\<close> recognises a state the body leaves unchanged.
\<close>

partial_function (option) cpp_while ::
  "('s \<Rightarrow> bool) \<Rightarrow> ('s \<Rightarrow> 's result option) \<Rightarrow> 's \<Rightarrow> 's result option" where
  "cpp_while b f s =
     (if b s then
        (case f s of
           None \<Rightarrow> None
         | Some r \<Rightarrow> (case r of Inl e \<Rightarrow> Some (Inl e) | Inr s' \<Rightarrow> cpp_while b f s'))
      else Some (Inr s))"

lemma cpp_while_done: "\<not> b s \<Longrightarrow> cpp_while b f s = Some (Inr s)"
  by (simp add: cpp_while.simps)

lemma cpp_while_step: "b s \<Longrightarrow> f s = Some (Inr s') \<Longrightarrow> cpp_while b f s = cpp_while b f s'"
  by (simp add: cpp_while.simps [of b f s])

lemma cpp_while_error: "b s \<Longrightarrow> f s = Some (Inl e) \<Longrightarrow> cpp_while b f s = Some (Inl e)"
  by (simp add: cpp_while.simps)

lemma cpp_while_total:
  assumes "I s"
    and "\<And>s. I s \<Longrightarrow> b s \<Longrightarrow>
      \<exists>r. f s = Some r \<and> (\<forall>s'. r = Inr s' \<longrightarrow> I s' \<and> (b s' \<longrightarrow> (m s' :: nat) < m s))"
  shows "\<exists>r. cpp_while b f s = Some r \<and> (\<forall>s'. r = Inr s' \<longrightarrow> I s' \<and> \<not> b s')"
  using assms(1)
proof (induction "m s" arbitrary: s rule: less_induct)
  case less
  show ?case
  proof (cases "b s")
    case False
    then show ?thesis using less.prems by (simp add: cpp_while_done)
  next
    case True
    then obtain r where r: "f s = Some r"
        "\<And>s'. r = Inr s' \<Longrightarrow> I s' \<and> (b s' \<longrightarrow> m s' < m s)"
      using assms(2) less.prems by blast
    show ?thesis
    proof (cases r)
      case (Inl e)
      then show ?thesis using r True by (simp add: cpp_while_error)
    next
      case (Inr s')
      then show ?thesis
        using r True less.hyps [of s'] by (cases "b s'") (auto simp: cpp_while_step cpp_while_done)
    qed
  qed
qed

lemma cpp_while_diverges:
  assumes "b s" and "f s = Some (Inr s)"
  shows "cpp_while b f s = None"
proof (rule ccontr)
  assume "cpp_while b f s \<noteq> None"
  then obtain r where ret: "cpp_while b f s = Some r" by blast
  have "b0 = b \<longrightarrow> f0 = f \<longrightarrow> s0 = s \<longrightarrow> False" if "cpp_while b0 f0 s0 = Some r0" for b0 f0 s0 r0
    using that
  proof (rule cpp_while.raw_induct
      [where P = "\<lambda>b0 f0 s0 r0. b0 = b \<longrightarrow> f0 = f \<longrightarrow> s0 = s \<longrightarrow> False", rotated])
    fix w b0 f0 s0 r0
    assume IH: "\<And>b0 f0 s0 r0. w b0 f0 s0 = Some r0 \<Longrightarrow> b0 = b \<longrightarrow> f0 = f \<longrightarrow> s0 = s \<longrightarrow> False"
      and eq: "(if b0 s0 then
          (case f0 s0 of None \<Rightarrow> None
           | Some r \<Rightarrow> (case r of Inl e \<Rightarrow> Some (Inl e) | Inr s' \<Rightarrow> w b0 f0 s'))
        else Some (Inr s0)) = Some r0"
    show "b0 = b \<longrightarrow> f0 = f \<longrightarrow> s0 = s \<longrightarrow> False"
    proof (intro impI)
      assume "b0 = b" "f0 = f" "s0 = s"
      with eq assms have "w b f s = Some r0" by simp
      then show False using IH by blast
    qed
  qed
  with ret show False by blast
qed

section \<open>Invariants of step relations\<close>

text \<open>
  A state machine is a predicate of initial states and a step relation. A predicate that holds
  initially and is kept by every step holds in every reachable state.
\<close>

inductive reachable :: "('s \<Rightarrow> bool) \<Rightarrow> ('s \<Rightarrow> 's \<Rightarrow> bool) \<Rightarrow> 's \<Rightarrow> bool"
  for start step where
  reachable_start: "start s \<Longrightarrow> reachable start step s"
| reachable_step: "reachable start step s \<Longrightarrow> step s t \<Longrightarrow> reachable start step t"

locale step_invariant =
  fixes start :: "'s \<Rightarrow> bool"
    and step :: "'s \<Rightarrow> 's \<Rightarrow> bool"
    and inv :: "'s \<Rightarrow> bool"
  assumes inv_start: "start s \<Longrightarrow> inv s"
    and inv_step: "inv s \<Longrightarrow> step s t \<Longrightarrow> inv t"
begin

lemma reachable_inv: "reachable start step s \<Longrightarrow> inv s"
proof (induction rule: reachable.induct)
  case (reachable_start s)
  then show ?case by (rule inv_start)
next
  case (reachable_step s t)
  then show ?case by (blast intro: inv_step)
qed

end

end
