(* ===== verification/HyBuffer.thy ===== *)
theory HyBuffer
  imports Prelude
begin

text \<open>
  The read/write buffer of \<^verbatim>\<open>include/core/HyBuffer.hpp\<close> and \<^verbatim>\<open>src/HyBuffer.cpp\<close>: a byte vector
  with a reader and a writer index. Pointers into the vector are indices. A copy or a system
  call that touches bytes outside the vector is the error \<open>OutOfBounds\<close>, so the theorems about
  \<open>append\<close> and \<open>readFd\<close> say exactly when these operations stay inside their memory.
  Failing allocations are not modelled.
\<close>

section \<open>Data\<close>

record HyBuffer =
  buffer :: string
  readerIndex :: nat
  writerIndex :: nat

definition PREPENDABLEBYTES :: nat where
  "PREPENDABLEBYTES = 8"

definition INITIALSIZE :: nat where
  "INITIALSIZE = 1024"

definition HyBuffer_new :: HyBuffer where
  "HyBuffer_new =
     \<lparr>buffer = replicate (PREPENDABLEBYTES + INITIALSIZE) (CHR 0x00),
      readerIndex = PREPENDABLEBYTES, writerIndex = PREPENDABLEBYTES\<rparr>"

section \<open>Operations\<close>

definition HyBuffer_prependableBytes :: "HyBuffer \<Rightarrow> nat" where
  "HyBuffer_prependableBytes b = readerIndex b"

definition HyBuffer_readableBytes :: "HyBuffer \<Rightarrow> nat" where
  "HyBuffer_readableBytes b = size_sub (writerIndex b) (readerIndex b)"

definition HyBuffer_writableBytes :: "HyBuffer \<Rightarrow> nat" where
  "HyBuffer_writableBytes b = size_sub (length (buffer b)) (readerIndex b)"

definition HyBuffer_clear :: "HyBuffer \<Rightarrow> nat \<Rightarrow> HyBuffer" where
  "HyBuffer_clear b len = b\<lparr>readerIndex := size_add (readerIndex b) len\<rparr>"

definition HyBuffer_payload :: "HyBuffer \<Rightarrow> nat" where
  "HyBuffer_payload b = readerIndex b"

definition HyBuffer_clearUntil :: "HyBuffer \<Rightarrow> nat \<Rightarrow> HyBuffer" where
  "HyBuffer_clearUntil b until = HyBuffer_clear b (size_sub until (HyBuffer_payload b))"

definition HyBuffer_clearAll :: "HyBuffer \<Rightarrow> HyBuffer" where
  "HyBuffer_clearAll b = b\<lparr>readerIndex := PREPENDABLEBYTES, writerIndex := PREPENDABLEBYTES\<rparr>"

definition HyBuffer_readAsString :: "HyBuffer \<Rightarrow> (string \<times> HyBuffer) result" where
  "HyBuffer_readAsString b =
     bind_result
       (range_string (buffer b) (HyBuffer_payload b)
          (size_add (HyBuffer_payload b) (HyBuffer_readableBytes b)))
       (\<lambda>contentStr. Inr (contentStr, HyBuffer_clearAll b))"

text \<open>\<open>std::copy\<close> of the bytes \<open>d\<close> to position \<open>i\<close> of a vector, and \<open>vector::resize\<close>.\<close>

definition copy_to :: "string \<Rightarrow> nat \<Rightarrow> string \<Rightarrow> string result" where
  "copy_to m i d =
     (if i + length d \<le> length m then Inr (take i m @ d @ drop (i + length d) m)
      else Inl OutOfBounds)"

definition vector_resize :: "string \<Rightarrow> nat \<Rightarrow> string" where
  "vector_resize m n = take n m @ replicate (n - length m) (CHR 0x00)"

definition HyBuffer_reserve :: "HyBuffer \<Rightarrow> nat \<Rightarrow> HyBuffer result" where
  "HyBuffer_reserve b len =
     (if HyBuffer_writableBytes b < len then
        if size_add (HyBuffer_writableBytes b) (HyBuffer_prependableBytes b)
             < size_add len PREPENDABLEBYTES
        then Inr (b\<lparr>buffer := vector_resize (buffer b) (size_add (writerIndex b) len)\<rparr>)
        else
          (let readable = HyBuffer_readableBytes b in
           bind_result (range_string (buffer b) (readerIndex b) (writerIndex b)) (\<lambda>d.
           bind_result (copy_to (buffer b) PREPENDABLEBYTES d) (\<lambda>m.
           Inr (b\<lparr>buffer := m, readerIndex := PREPENDABLEBYTES,
                  writerIndex := size_add PREPENDABLEBYTES readable\<rparr>))))
      else Inr b)"

definition HyBuffer_append :: "HyBuffer \<Rightarrow> string \<Rightarrow> HyBuffer result" where
  "HyBuffer_append b res =
     bind_result (HyBuffer_reserve b (length res)) (\<lambda>b.
     bind_result (copy_to (buffer b) (writerIndex b) res) (\<lambda>m.
     Inr (b\<lparr>buffer := m, writerIndex := size_add (writerIndex b) (length res)\<rparr>)))"

definition HyBuffer_prepend :: "HyBuffer \<Rightarrow> string \<Rightarrow> HyBuffer result" where
  "HyBuffer_prepend b res =
     bind_result (assert_that (length res \<le> HyBuffer_prependableBytes b)) (\<lambda>_.
     (let r = size_sub (readerIndex b) (length res) in
      bind_result (copy_to (buffer b) r res) (\<lambda>m.
      Inr (b\<lparr>buffer := m, readerIndex := r\<rparr>))))"

text \<open>
  \<open>readFd\<close>: the kernel's answer to \<open>readv\<close> is an argument, \<open>None\<close> for \<open>-1\<close> and \<open>Some d\<close> for the
  bytes \<open>d\<close>. The kernel stores the first \<open>writable\<close> of them at the writer index and the rest in
  the temporary block of 65536 bytes.
\<close>

definition HyBuffer_readFd :: "HyBuffer \<Rightarrow> string option \<Rightarrow> (int \<times> HyBuffer) result" where
  "HyBuffer_readFd b answer =
     (let writable = HyBuffer_writableBytes b in
      case answer of
        None \<Rightarrow> Inr (-1, b)
      | Some d \<Rightarrow>
          bind_result (copy_to (buffer b) (writerIndex b) (take writable d)) (\<lambda>m.
          if length d \<le> writable
          then Inr (int (length d),
                    b\<lparr>buffer := m, writerIndex := size_add (writerIndex b) (length d)\<rparr>)
          else
            bind_result
              (HyBuffer_append (b\<lparr>buffer := m, writerIndex := length m\<rparr>) (drop writable d))
              (\<lambda>b'. Inr (int (length d), b'))))"

text \<open>
  The searches return the position of the match as an index. They scan the range from the
  payload to the writer index, which must be in order.
\<close>

definition CRLF :: string where
  "CRLF = [CHR 0x0D, CHR 0x0A]"

definition HyBuffer_range :: "HyBuffer \<Rightarrow> unit result" where
  "HyBuffer_range b =
     (if HyBuffer_payload b \<le> writerIndex b
      then if writerIndex b \<le> length (buffer b) then Inr () else Inl OutOfBounds
      else Inl InvalidRange)"

definition HyBuffer_getCRLF :: "HyBuffer \<Rightarrow> nat option result" where
  "HyBuffer_getCRLF b =
     bind_result (HyBuffer_range b) (\<lambda>_.
     (let crlf = cpp_search (buffer b) (HyBuffer_payload b) (writerIndex b) CRLF in
      Inr (if crlf = writerIndex b then None else Some crlf)))"

definition HyBuffer_getAND :: "HyBuffer \<Rightarrow> nat option result" where
  "HyBuffer_getAND b =
     bind_result (HyBuffer_range b) (\<lambda>_.
     (let andOp = cpp_find (buffer b) (HyBuffer_payload b) (writerIndex b) (CHR ''&'') in
      Inr (if andOp = writerIndex b then None else Some andOp)))"

definition HyBuffer_getAssignment :: "HyBuffer \<Rightarrow> nat option result" where
  "HyBuffer_getAssignment b =
     bind_result (HyBuffer_range b) (\<lambda>_.
     (let assignment = cpp_find (buffer b) (HyBuffer_payload b) (writerIndex b) (CHR ''='') in
      Inr (if assignment = writerIndex b then None else Some assignment)))"

definition HyBuffer_getEOL :: "HyBuffer \<Rightarrow> nat" where
  "HyBuffer_getEOL b = writerIndex b"

section \<open>Invariant and abstraction\<close>

text \<open>
  The unread bytes are the abstract contents. Every vector is smaller than \<open>2 ^ 63\<close> bytes
  (\<open>vector::max_size\<close>).
\<close>

definition buf_wf :: "HyBuffer \<Rightarrow> bool" where
  "buf_wf b \<longleftrightarrow> readerIndex b \<le> writerIndex b \<and> writerIndex b \<le> length (buffer b)
     \<and> length (buffer b) < 2 ^ 63"

definition contents :: "HyBuffer \<Rightarrow> string" where
  "contents b = slice (buffer b) (readerIndex b) (writerIndex b)"

definition buf_space :: "HyBuffer \<Rightarrow> nat" where
  "buf_space b = length (buffer b) - writerIndex b"

text \<open>
  \<open>append_fits b n\<close> is the condition, read off \<open>reserve\<close>, under which appending \<open>n\<close> bytes stays
  inside the vector.
\<close>

definition append_fits :: "HyBuffer \<Rightarrow> nat \<Rightarrow> bool" where
  "append_fits b n \<longleftrightarrow>
     (if n \<le> length (buffer b) - readerIndex b then n \<le> buf_space b
      else length (buffer b) < n + PREPENDABLEBYTES
        \<or> PREPENDABLEBYTES + (writerIndex b - readerIndex b) + n \<le> length (buffer b))"

lemmas buf_defs = HyBuffer_prependableBytes_def HyBuffer_readableBytes_def
  HyBuffer_writableBytes_def HyBuffer_payload_def PREPENDABLEBYTES_def

lemma buf_wf_new [simp]: "buf_wf HyBuffer_new"
  by (simp add: buf_wf_def HyBuffer_new_def PREPENDABLEBYTES_def INITIALSIZE_def)

lemma contents_new [simp]: "contents HyBuffer_new = []"
  by (simp add: contents_def HyBuffer_new_def)

lemma buf_space_new [simp]: "buf_space HyBuffer_new = 1024"
  by (simp add: buf_space_def HyBuffer_new_def PREPENDABLEBYTES_def INITIALSIZE_def)

lemma buf_wf_less: "buf_wf b \<Longrightarrow> readerIndex b < 2 ^ 63 \<and> writerIndex b < 2 ^ 63"
  by (auto simp: buf_wf_def)

lemma readableBytes_wf [cpp_simps]:
  "buf_wf b \<Longrightarrow> HyBuffer_readableBytes b = writerIndex b - readerIndex b"
  by (auto simp: buf_wf_def HyBuffer_readableBytes_def cpp_simps)

lemma writableBytes_wf [cpp_simps]:
  "buf_wf b \<Longrightarrow> HyBuffer_writableBytes b = length (buffer b) - readerIndex b"
  by (auto simp: buf_wf_def HyBuffer_writableBytes_def cpp_simps)

lemma length_contents: "buf_wf b \<Longrightarrow> length (contents b) = writerIndex b - readerIndex b"
  by (simp add: contents_def buf_wf_def)

lemma HyBuffer_range_wf [simp]: "buf_wf b \<Longrightarrow> HyBuffer_range b = Inr ()"
  by (simp add: HyBuffer_range_def buf_wf_def HyBuffer_payload_def)

lemma clear_wf:
  assumes "buf_wf b" and "n \<le> length (contents b)"
  shows "buf_wf (HyBuffer_clear b n)" and "contents (HyBuffer_clear b n) = drop n (contents b)"
    and "buf_space (HyBuffer_clear b n) = buf_space b"
proof -
  from assms have n: "readerIndex b + n \<le> writerIndex b"
    by (auto simp: length_contents buf_wf_def)
  with assms(1) have r: "size_add (readerIndex b) n = readerIndex b + n"
    by (intro size_add_small) (auto simp: buf_wf_def)
  show "buf_wf (HyBuffer_clear b n)"
    using assms(1) n by (simp add: HyBuffer_clear_def r buf_wf_def)
  show "contents (HyBuffer_clear b n) = drop n (contents b)"
    by (simp add: HyBuffer_clear_def r contents_def drop_slice)
  show "buf_space (HyBuffer_clear b n) = buf_space b"
    by (simp add: HyBuffer_clear_def buf_space_def)
qed

lemma clearUntil_wf:
  assumes "buf_wf b" and "readerIndex b \<le> p" and "p \<le> writerIndex b"
  shows "HyBuffer_clearUntil b p = HyBuffer_clear b (p - readerIndex b)"
  using assms by (simp add: HyBuffer_clearUntil_def HyBuffer_payload_def cpp_simps buf_wf_def)

lemma clearAll_wf [simp]:
  "buf_wf b \<Longrightarrow> 8 \<le> length (buffer b) \<Longrightarrow> buf_wf (HyBuffer_clearAll b)"
  "contents (HyBuffer_clearAll b) = []"
  by (simp_all add: buf_wf_def HyBuffer_clearAll_def PREPENDABLEBYTES_def contents_def)

section \<open>Appending\<close>

lemma copy_to_ok: "i + length d \<le> length m \<Longrightarrow>
  copy_to m i d = Inr (take i m @ d @ drop (i + length d) m)"
  by (simp add: copy_to_def)

lemma slice_copy_before:
  "j \<le> i \<Longrightarrow> i \<le> length m \<Longrightarrow> slice (take i m @ d @ e) r j = slice m r j"
  by (cases "r \<le> j") (simp_all add: slice_def drop_take min_def)

lemma slice_copy_at:
  "r \<le> i \<Longrightarrow> i \<le> length m \<Longrightarrow> slice (take i m @ d @ e) r (i + length d) = slice m r i @ d"
  by (simp add: slice_def drop_take)

lemma copy_at_writer:
  assumes wf: "buf_wf b" and room: "length d \<le> buf_space b"
  defines "b' \<equiv> b\<lparr>buffer := take (writerIndex b) (buffer b) @ d
      @ drop (writerIndex b + length d) (buffer b),
      writerIndex := writerIndex b + length d\<rparr>"
  shows "copy_to (buffer b) (writerIndex b) d = Inr (buffer b')"
    and "buf_wf b'" and "contents b' = contents b @ d"
    and "buf_space b' = buf_space b - length d"
proof -
  from wf room have le: "writerIndex b + length d \<le> length (buffer b)"
    by (auto simp: buf_space_def buf_wf_def)
  show "copy_to (buffer b) (writerIndex b) d = Inr (buffer b')"
    using le by (simp add: b'_def copy_to_ok)
  have len: "length (buffer b') = length (buffer b)" using le by (simp add: b'_def)
  show "buf_wf b'" using wf le len by (simp add: b'_def buf_wf_def)
  show "buf_space b' = buf_space b - length d" using len by (simp add: b'_def buf_space_def)
  show "contents b' = contents b @ d"
    using wf by (simp add: b'_def contents_def buf_wf_def slice_copy_at)
qed

lemma append_in_place:
  assumes wf: "buf_wf b" and room: "length d \<le> buf_space b"
  shows "\<exists>b'. HyBuffer_append b d = Inr b' \<and> buf_wf b' \<and> contents b' = contents b @ d
    \<and> buf_space b' = buf_space b - length d \<and> readerIndex b' = readerIndex b"
proof -
  from wf room have "HyBuffer_reserve b (length d) = Inr b"
    by (auto simp: HyBuffer_reserve_def cpp_simps buf_space_def buf_wf_def)
  moreover from wf room have "size_add (writerIndex b) (length d) = writerIndex b + length d"
    by (intro size_add_small) (auto simp: buf_wf_def buf_space_def)
  ultimately show ?thesis
    using copy_at_writer [OF wf room] by (simp add: HyBuffer_append_def)
qed

text \<open>The three branches of \<open>reserve\<close>: enough room by its own measure, growing, compacting.\<close>

lemma reserve_keep:
  "buf_wf b \<Longrightarrow> n \<le> length (buffer b) - readerIndex b \<Longrightarrow> HyBuffer_reserve b n = Inr b"
  by (simp add: HyBuffer_reserve_def cpp_simps)

lemma reserve_sizes:
  assumes "buf_wf b"
  shows "size_add (HyBuffer_writableBytes b) (HyBuffer_prependableBytes b) = length (buffer b)"
  using assms by (auto simp: buf_wf_def HyBuffer_prependableBytes_def cpp_simps)

lemma reserve_grow:
  assumes wf: "buf_wf b" and big: "\<not> n \<le> length (buffer b) - readerIndex b"
    and small: "length (buffer b) < n + 8" and bound: "writerIndex b + n < 2 ^ 63"
  shows "\<exists>b1. HyBuffer_reserve b n = Inr b1 \<and> buf_wf b1 \<and> contents b1 = contents b
    \<and> buf_space b1 = n \<and> writerIndex b1 = writerIndex b"
proof -
  let ?b1 = "b\<lparr>buffer := vector_resize (buffer b) (writerIndex b + n)\<rparr>"
  have len: "length (vector_resize (buffer b) (writerIndex b + n)) = writerIndex b + n"
    by (simp add: vector_resize_def)
  have "size_add (writerIndex b) n = writerIndex b + n" "size_add n 8 = n + 8"
    using bound by (auto simp: cpp_simps)
  then have "HyBuffer_reserve b n = Inr ?b1"
    using big small reserve_sizes [OF wf] wf
    by (simp add: HyBuffer_reserve_def cpp_simps PREPENDABLEBYTES_def)
  moreover have "buf_wf ?b1" using wf bound len by (simp add: buf_wf_def)
  moreover have "contents ?b1 = contents b"
    using wf by (simp add: contents_def vector_resize_def buf_wf_def slice_def drop_take min_def)
  ultimately show ?thesis using len by (simp add: buf_space_def)
qed

lemma reserve_compact:
  assumes wf: "buf_wf b" and big: "\<not> n \<le> length (buffer b) - readerIndex b"
    and large: "n + 8 \<le> length (buffer b)"
  shows "\<exists>b1. HyBuffer_reserve b n = Inr b1 \<and> buf_wf b1 \<and> contents b1 = contents b
    \<and> buf_space b1 = length (buffer b) - (8 + (writerIndex b - readerIndex b))
    \<and> writerIndex b1 = 8 + (writerIndex b - readerIndex b)"
proof -
  let ?k = "writerIndex b - readerIndex b"
  let ?m = "take 8 (buffer b) @ contents b @ drop (8 + ?k) (buffer b)"
  let ?b1 = "b\<lparr>buffer := ?m, readerIndex := 8, writerIndex := 8 + ?k\<rparr>"
  have k: "length (contents b) = ?k" using wf by (rule length_contents)
  have room: "8 + ?k \<le> length (buffer b)" using wf big large by (auto simp: buf_wf_def)
  then have len: "length ?m = length (buffer b)" using k by simp
  have sizes: "size_add 8 ?k = 8 + ?k" "size_add n 8 = n + 8"
    using room wf large by (auto simp: buf_wf_def cpp_simps)
  have rs: "range_string (buffer b) (readerIndex b) (writerIndex b) = Inr (contents b)"
    using wf by (simp add: buf_wf_def contents_def cpp_simps)
  have cp: "copy_to (buffer b) 8 (contents b) = Inr ?m"
    using room k by (simp add: copy_to_ok)
  have "HyBuffer_reserve b n = Inr ?b1"
    using big large reserve_sizes [OF wf] wf rs cp sizes
    by (simp add: HyBuffer_reserve_def readableBytes_wf writableBytes_wf PREPENDABLEBYTES_def)
  moreover have "buf_wf ?b1" using wf room len by (auto simp: buf_wf_def)
  moreover have "contents ?b1 = contents b"
    using slice_copy_at [of 8 8 "buffer b" "contents b" "drop (8 + ?k) (buffer b)"] k large
    by (simp add: contents_def [of ?b1])
  ultimately show ?thesis using len by (simp add: buf_space_def)
qed

lemma append_after_reserve:
  assumes res: "HyBuffer_reserve b (length d) = Inr b1" and wf: "buf_wf b1"
  shows "length d \<le> buf_space b1 \<Longrightarrow>
      \<exists>b'. HyBuffer_append b d = Inr b' \<and> buf_wf b' \<and> contents b' = contents b1 @ d"
    and "\<not> length d \<le> buf_space b1 \<Longrightarrow> HyBuffer_append b d = Inl OutOfBounds"
proof -
  assume room: "length d \<le> buf_space b1"
  from wf room have "size_add (writerIndex b1) (length d) = writerIndex b1 + length d"
    by (intro size_add_small) (auto simp: buf_wf_def buf_space_def)
  then show "\<exists>b'. HyBuffer_append b d = Inr b' \<and> buf_wf b' \<and> contents b' = contents b1 @ d"
    using copy_at_writer [OF wf room] res by (simp add: HyBuffer_append_def)
next
  assume "\<not> length d \<le> buf_space b1"
  then have "\<not> writerIndex b1 + length d \<le> length (buffer b1)" by (simp add: buf_space_def)
  then show "HyBuffer_append b d = Inl OutOfBounds"
    using res by (simp add: HyBuffer_append_def copy_to_def)
qed

lemma reserve_fits:
  assumes wf: "buf_wf b" and bound: "length (buffer b) + n < 2 ^ 63"
  shows "\<exists>b1. HyBuffer_reserve b n = Inr b1 \<and> buf_wf b1 \<and> contents b1 = contents b
    \<and> (n \<le> buf_space b1 \<longleftrightarrow> append_fits b n)"
proof -
  consider (keep) "n \<le> length (buffer b) - readerIndex b"
    | (grow) "\<not> n \<le> length (buffer b) - readerIndex b" "length (buffer b) < n + 8"
    | (compact) "\<not> n \<le> length (buffer b) - readerIndex b" "n + 8 \<le> length (buffer b)"
    by linarith
  then show ?thesis
  proof cases
    case keep
    then show ?thesis using wf by (auto simp: reserve_keep append_fits_def)
  next
    case grow
    have "writerIndex b + n < 2 ^ 63" using wf bound by (simp add: buf_wf_def)
    then show ?thesis
      using reserve_grow [OF wf grow] grow by (auto simp: append_fits_def PREPENDABLEBYTES_def)
  next
    case compact
    then show ?thesis
      using reserve_compact [OF wf compact]
      by (auto simp: append_fits_def PREPENDABLEBYTES_def)
  qed
qed

lemma append_outcome:
  assumes wf: "buf_wf b" and bound: "length (buffer b) + length d < 2 ^ 63"
  shows "if append_fits b (length d)
    then \<exists>b'. HyBuffer_append b d = Inr b' \<and> buf_wf b' \<and> contents b' = contents b @ d
    else HyBuffer_append b d = Inl OutOfBounds"
proof -
  obtain b1 where b1: "HyBuffer_reserve b (length d) = Inr b1" "buf_wf b1"
      "contents b1 = contents b" "length d \<le> buf_space b1 \<longleftrightarrow> append_fits b (length d)"
    using reserve_fits [OF wf bound] by blast
  then show ?thesis using append_after_reserve [OF b1(1,2)] by simp
qed

text \<open>An empty buffer always fits: there \<open>writableBytes\<close> counts exactly the free bytes.\<close>

lemma append_fits_empty: "readerIndex b = writerIndex b \<Longrightarrow> append_fits b n"
  by (auto simp: append_fits_def buf_space_def PREPENDABLEBYTES_def)

section \<open>Reading from a descriptor\<close>

definition readFd_fits :: "HyBuffer \<Rightarrow> nat \<Rightarrow> bool" where
  "readFd_fits b n \<longleftrightarrow>
     (let w = length (buffer b) - readerIndex b in
      if n \<le> w then n \<le> buf_space b
      else w \<le> buf_space b
        \<and> append_fits (b\<lparr>writerIndex := length (buffer b)\<rparr>) (n - w))"

lemma append_fits_cong:
  "length (buffer b) = length (buffer c) \<Longrightarrow> readerIndex b = readerIndex c \<Longrightarrow>
   writerIndex b = writerIndex c \<Longrightarrow> append_fits b n = append_fits c n"
  by (simp add: append_fits_def buf_space_def)

text \<open>The kernel fills the vector to its end and \<open>readFd\<close> appends the rest of the bytes.\<close>

lemma readFd_spill:
  assumes wf: "buf_wf b" and w: "w = length (buffer b) - readerIndex b"
    and big: "\<not> length d \<le> w" and room: "w \<le> buf_space b"
  shows "\<exists>b2. HyBuffer_readFd b (Some d) =
        bind_result (HyBuffer_append b2 (drop w d)) (\<lambda>b'. Inr (int (length d), b'))
      \<and> buf_wf b2 \<and> contents b2 = contents b @ take w d
      \<and> length (buffer b2) = length (buffer b)
      \<and> (\<forall>n. append_fits (b\<lparr>writerIndex := length (buffer b)\<rparr>) n = append_fits b2 n)"
proof -
  let ?d1 = "take w d"
  have len: "length ?d1 = w" using big by simp
  have rw: "readerIndex b = writerIndex b" using room w wf by (auto simp: buf_space_def buf_wf_def)
  have room1: "length ?d1 \<le> buf_space b" using len room by simp
  note cp = copy_at_writer [OF wf room1]
  define b2 where "b2 = b\<lparr>buffer := take (writerIndex b) (buffer b) @ ?d1
    @ drop (writerIndex b + length ?d1) (buffer b), writerIndex := writerIndex b + length ?d1\<rparr>"
  have l2: "length (buffer b2) = length (buffer b)"
    using cp(1) by (auto simp: copy_to_def b2_def split: if_splits)
  have w2: "writerIndex b2 = length (buffer b)" "readerIndex b2 = readerIndex b"
    using len rw w wf by (auto simp: b2_def buf_wf_def)
  have "HyBuffer_readFd b (Some d) =
      bind_result (HyBuffer_append b2 (drop w d)) (\<lambda>b'. Inr (int (length d), b'))"
    using big wf cp(1) w2 l2 w unfolding b2_def [symmetric]
    by (simp add: HyBuffer_readFd_def writableBytes_wf Let_def) (simp add: b2_def)
  moreover have "append_fits (b\<lparr>writerIndex := length (buffer b)\<rparr>) n = append_fits b2 n" for n
    using w2 l2 by (intro append_fits_cong) simp_all
  ultimately show ?thesis
    using cp(2,3) l2 unfolding b2_def [symmetric] by blast
qed

lemma readFd_outcome_aux:
  assumes wf: "buf_wf b" and bound: "length (buffer b) + length d < 2 ^ 63"
  shows "if readFd_fits b (length d)
    then \<exists>b'. HyBuffer_readFd b (Some d) = Inr (int (length d), b') \<and> buf_wf b'
      \<and> contents b' = contents b @ d
    else HyBuffer_readFd b (Some d) = Inl OutOfBounds"
proof -
  define w where "w = length (buffer b) - readerIndex b"
  consider (overrun) "\<not> length (take w d) \<le> buf_space b"
    | (within) "length (take w d) \<le> buf_space b" "length d \<le> w"
    | (spill) "length (take w d) \<le> buf_space b" "\<not> length d \<le> w" by blast
  then show ?thesis
  proof cases
    case overrun
    then have "\<not> writerIndex b + length (take w d) \<le> length (buffer b)"
      by (simp add: buf_space_def)
    then show ?thesis using overrun wf
      by (auto simp: w_def readFd_fits_def HyBuffer_readFd_def writableBytes_wf copy_to_def Let_def)
  next
    case within
    then have "size_add (writerIndex b) (length d) = writerIndex b + length d"
      using wf by (intro size_add_small) (auto simp: buf_wf_def buf_space_def)
    then show ?thesis using within wf copy_at_writer [OF wf within(1)]
      by (simp add: w_def readFd_fits_def HyBuffer_readFd_def writableBytes_wf Let_def)
  next
    case spill
    then have room: "w \<le> buf_space b" by simp
    obtain b2 where b2: "HyBuffer_readFd b (Some d) =
          bind_result (HyBuffer_append b2 (drop w d)) (\<lambda>b'. Inr (int (length d), b'))"
        "buf_wf b2" "contents b2 = contents b @ take w d" "length (buffer b2) = length (buffer b)"
        "\<And>n. append_fits (b\<lparr>writerIndex := length (buffer b)\<rparr>) n = append_fits b2 n"
      using readFd_spill [OF wf w_def spill(2) room] by blast
    have "readFd_fits b (length d) \<longleftrightarrow> append_fits b2 (length (drop w d))"
      using spill room b2(5) by (simp add: readFd_fits_def w_def Let_def)
    moreover have "length (buffer b2) + length (drop w d) < 2 ^ 63" using bound b2(4) by simp
    ultimately show ?thesis
      using append_outcome [OF b2(2), of "drop w d"] b2(1,3) by (auto split: if_splits)
  qed
qed

lemma readFd_fits_new: "readFd_fits HyBuffer_new n \<longleftrightarrow> n \<le> 1024 \<or> 2048 < n"
  by (auto simp: readFd_fits_def append_fits_def buf_space_def HyBuffer_new_def
      PREPENDABLEBYTES_def INITIALSIZE_def Let_def)

lemma readFd_new_overrun:
  assumes "1024 < length d" and "length d \<le> 2048"
  shows "HyBuffer_readFd HyBuffer_new (Some d) = Inl OutOfBounds"
proof -
  have "length (buffer HyBuffer_new) + length d < 2 ^ 63"
    using assms by (simp add: HyBuffer_new_def PREPENDABLEBYTES_def INITIALSIZE_def)
  then show ?thesis
    using readFd_outcome_aux [OF buf_wf_new, of d] assms by (simp add: readFd_fits_new)
qed

section \<open>Searching\<close>

lemma getCRLF_contents:
  assumes "buf_wf b"
  shows "HyBuffer_getCRLF b =
    Inr (map_option (\<lambda>k. readerIndex b + k) (find_sub CRLF (contents b)))"
proof -
  have "find_sub CRLF (contents b) = Some k \<Longrightarrow> readerIndex b + k < writerIndex b" for k
    using find_sub_SomeD [of CRLF "contents b" k] length_contents [OF assms] by (auto simp: CRLF_def)
  then show ?thesis
    using assms cpp_search_find_sub [of CRLF "readerIndex b" "writerIndex b" "buffer b"]
    by (auto simp: HyBuffer_getCRLF_def HyBuffer_payload_def Let_def contents_def buf_wf_def
        CRLF_def split: option.splits)
qed

lemma find_in_contents:
  assumes "buf_wf b"
  shows "(let p = cpp_find (buffer b) (HyBuffer_payload b) (writerIndex b) c in
      if p = writerIndex b then None else Some p)
    = map_option (\<lambda>k. readerIndex b + k) (find_char c (contents b))"
proof -
  have "find_char c (contents b) = Some k \<Longrightarrow> readerIndex b + k < writerIndex b" for k
    using find_char_SomeD(1) [of c "contents b" k] length_contents [OF assms] by simp
  then show ?thesis
    using assms cpp_find_find_char [of "readerIndex b" "writerIndex b" "buffer b" c]
    by (auto simp: HyBuffer_payload_def Let_def contents_def buf_wf_def split: option.splits)
qed

lemma getAND_contents: "buf_wf b \<Longrightarrow> HyBuffer_getAND b =
    Inr (map_option (\<lambda>k. readerIndex b + k) (find_char (CHR ''&'') (contents b)))"
  using find_in_contents [of b "CHR ''&''"] by (simp add: HyBuffer_getAND_def Let_def)

lemma getAssignment_contents: "buf_wf b \<Longrightarrow> HyBuffer_getAssignment b =
    Inr (map_option (\<lambda>k. readerIndex b + k) (find_char (CHR ''='') (contents b)))"
  using find_in_contents [of b "CHR ''=''"] by (simp add: HyBuffer_getAssignment_def Let_def)

section \<open>Prepending and draining\<close>

lemma prepend_outcome_aux:
  assumes wf: "buf_wf b"
  shows "if length d \<le> readerIndex b
    then \<exists>b'. HyBuffer_prepend b d = Inr b' \<and> buf_wf b' \<and> contents b' = d @ contents b
    else HyBuffer_prepend b d = Inl AssertFail"
proof (cases "length d \<le> readerIndex b")
  case True
  let ?r = "readerIndex b - length d"
  let ?m = "take ?r (buffer b) @ d @ drop (readerIndex b) (buffer b)"
  have r: "size_sub (readerIndex b) (length d) = ?r"
    using True wf by (intro size_sub_small) (auto simp: buf_wf_def)
  have "copy_to (buffer b) ?r d = Inr ?m" using True wf by (simp add: copy_to_def buf_wf_def)
  then have "HyBuffer_prepend b d = Inr (b\<lparr>buffer := ?m, readerIndex := ?r\<rparr>)"
    using True r by (simp add: HyBuffer_prepend_def HyBuffer_prependableBytes_def Let_def)
  moreover have "length ?m = length (buffer b)" using True wf by (auto simp: buf_wf_def min_def)
  moreover have "slice ?m ?r (writerIndex b) = d @ contents b"
  proof -
    have "length (take ?r (buffer b)) = ?r" using True wf by (auto simp: buf_wf_def)
    then have "drop ?r ?m = d @ drop (readerIndex b) (buffer b)" by (metis append_eq_conv_conj)
    moreover have "writerIndex b - ?r = length d + (writerIndex b - readerIndex b)"
      using True wf by (auto simp: buf_wf_def)
    ultimately show ?thesis by (simp add: slice_def contents_def)
  qed
  ultimately show ?thesis using True wf by (auto simp: buf_wf_def contents_def)
next
  case False
  then show ?thesis by (simp add: HyBuffer_prepend_def HyBuffer_prependableBytes_def)
qed

lemma readAsString_ok:
  "buf_wf b \<Longrightarrow> HyBuffer_readAsString b = Inr (contents b, HyBuffer_clearAll b)"
  by (auto simp: HyBuffer_readAsString_def HyBuffer_payload_def cpp_simps buf_wf_def contents_def)

section \<open>The buffer as a byte queue\<close>

text \<open>
  What the HTTP and TCP layers use of a buffer: bytes are appended behind the unread ones and
  consumed from the front. \<open>accepts b n\<close> is the provider's condition for taking \<open>n\<close> bytes and
  \<open>space b\<close> a number of bytes that any sequence of appends can use.
\<close>

fun append_seq :: "('b \<Rightarrow> string \<Rightarrow> 'b result) \<Rightarrow> 'b \<Rightarrow> string list \<Rightarrow> 'b result" where
  "append_seq app b [] = Inr b"
| "append_seq app b (p # ps) = bind_result (app b p) (\<lambda>b. append_seq app b ps)"

lemma append_seq_append:
  "append_seq app b (ps @ qs) = bind_result (append_seq app b ps) (\<lambda>b. append_seq app b qs)"
  by (induction ps arbitrary: b) (auto simp: bind_result_def split: sum.splits)

locale byte_queue =
  fixes wf :: "'b \<Rightarrow> bool"
    and bytes :: "'b \<Rightarrow> string"
    and space :: "'b \<Rightarrow> nat"
    and accepts :: "'b \<Rightarrow> nat \<Rightarrow> bool"
    and app :: "'b \<Rightarrow> string \<Rightarrow> 'b result"
    and clear :: "'b \<Rightarrow> nat \<Rightarrow> 'b"
  assumes app_accepts: "wf b \<Longrightarrow> accepts b (length d) \<Longrightarrow>
      \<exists>b'. app b d = Inr b' \<and> wf b' \<and> bytes b' = bytes b @ d"
    and app_space: "wf b \<Longrightarrow> length d \<le> space b \<Longrightarrow>
      \<exists>b'. app b d = Inr b' \<and> wf b' \<and> bytes b' = bytes b @ d \<and> space b' = space b - length d"
    and wf_clear: "wf b \<Longrightarrow> n \<le> length (bytes b) \<Longrightarrow> wf (clear b n)"
    and bytes_clear: "wf b \<Longrightarrow> n \<le> length (bytes b) \<Longrightarrow> bytes (clear b n) = drop n (bytes b)"
begin

lemma append_seq_ok:
  "wf b \<Longrightarrow> length (concat ps) \<le> space b \<Longrightarrow>
   \<exists>b'. append_seq app b ps = Inr b' \<and> wf b' \<and> bytes b' = bytes b @ concat ps
     \<and> space b' = space b - length (concat ps)"
proof (induction ps arbitrary: b)
  case Nil
  then show ?case by simp
next
  case (Cons p ps)
  then have "length p \<le> space b" by simp
  with Cons.prems(1) obtain b1 where b1: "app b p = Inr b1" "wf b1" "bytes b1 = bytes b @ p"
      "space b1 = space b - length p"
    using app_space by blast
  moreover from Cons.prems(2) b1(4) have "length (concat ps) \<le> space b1" by simp
  ultimately show ?case using Cons.IH [OF b1(2)] by fastforce
qed

text \<open>Consuming what was appended to an empty queue gives it back in order.\<close>

lemma app_then_clear:
  assumes "wf b" "accepts b (length d)" "bytes b = []" "n \<le> length d"
  shows "\<exists>b'. app b d = Inr b' \<and> bytes (clear b' n) = drop n d \<and> wf (clear b' n)"
  using app_accepts [OF assms(1,2)] assms(3,4) by (fastforce simp: wf_clear bytes_clear)

end

definition buf_accepts :: "HyBuffer \<Rightarrow> nat \<Rightarrow> bool" where
  "buf_accepts b n \<longleftrightarrow> append_fits b n \<and> length (buffer b) + n < 2 ^ 63"

interpretation hybuf: byte_queue buf_wf contents buf_space buf_accepts HyBuffer_append HyBuffer_clear
proof unfold_locales
  fix b and d :: string
  assume "buf_wf b" "buf_accepts b (length d)"
  then show "\<exists>b'. HyBuffer_append b d = Inr b' \<and> buf_wf b' \<and> contents b' = contents b @ d"
    using append_outcome [of b d] by (simp add: buf_accepts_def)
next
  fix b and d :: string
  assume "buf_wf b" "length d \<le> buf_space b"
  then show "\<exists>b'. HyBuffer_append b d = Inr b' \<and> buf_wf b' \<and> contents b' = contents b @ d
      \<and> buf_space b' = buf_space b - length d"
    using append_in_place by blast
qed (simp_all add: clear_wf)

section \<open>Properties\<close>

text \<open>
  C10. \<open>append\<close> on a well-formed buffer either stores all the bytes behind the unread ones and keeps
  the buffer well formed, or writes outside the vector; \<open>append_fits\<close> is the exact condition, and
  it holds for every length when nothing is unread.
\<close>

theorem append_exact:
  assumes "buf_wf b" and "length (buffer b) + length d < 2 ^ 63"
  shows "(append_fits b (length d) \<longrightarrow>
      (\<exists>b'. HyBuffer_append b d = Inr b' \<and> buf_wf b' \<and> contents b' = contents b @ d))
    \<and> (\<not> append_fits b (length d) \<longrightarrow> HyBuffer_append b d = Inl OutOfBounds)
    \<and> (contents b = [] \<longrightarrow> append_fits b (length d))"
  using append_outcome [OF assms] append_fits_empty [of b] length_contents [OF assms(1)] assms(1)
  by (auto simp: buf_wf_def split: if_splits)

theorem append_exact_witness:
  "(\<exists>b'. HyBuffer_append HyBuffer_new ''GET '' = Inr b' \<and> buf_wf b' \<and> contents b' = ''GET '')
   \<and> append_fits HyBuffer_new (length ''GET '')"
proof -
  have "length (buffer HyBuffer_new) + length ''GET '' < 2 ^ 63"
    by (simp add: HyBuffer_new_def PREPENDABLEBYTES_def INITIALSIZE_def)
  from append_exact [OF buf_wf_new this] show ?thesis by simp
qed

text \<open>
  C11. \<open>readFd\<close> with \<open>d\<close> delivered by the kernel appends \<open>d\<close> to the unread bytes and returns its
  length when \<open>readFd_fits\<close> holds; otherwise a byte is written outside the vector.
\<close>

theorem readFd_exact:
  assumes "buf_wf b" and "length (buffer b) + length d < 2 ^ 63"
  shows "(readFd_fits b (length d) \<longrightarrow>
      (\<exists>b'. HyBuffer_readFd b (Some d) = Inr (int (length d), b') \<and> buf_wf b'
         \<and> contents b' = contents b @ d))
    \<and> (\<not> readFd_fits b (length d) \<longrightarrow> HyBuffer_readFd b (Some d) = Inl OutOfBounds)"
  using readFd_outcome_aux [OF assms] by (simp split: if_splits)

theorem readFd_exact_witness:
  "HyBuffer_readFd HyBuffer_new (Some (replicate 1500 CHR ''a'')) = Inl OutOfBounds
   \<and> (\<exists>b'. HyBuffer_readFd HyBuffer_new (Some (replicate 1000 CHR ''a'')) = Inr (1000, b')
        \<and> contents b' = replicate 1000 CHR ''a'')"
proof -
  have b: "length (buffer HyBuffer_new) + length (replicate n CHR ''a'') < 2 ^ 63"
    if "n < 2000" for n
    using that by (simp add: HyBuffer_new_def PREPENDABLEBYTES_def INITIALSIZE_def)
  show ?thesis
    using readFd_exact [OF buf_wf_new b, of 1500] readFd_exact [OF buf_wf_new b, of 1000]
    by (auto simp: readFd_fits_new)
qed

text \<open>
  \<open>prepend\<close> puts the bytes in front of the unread ones when the reader index leaves room for
  them and fails its assertion otherwise.
\<close>

theorem prepend_exact:
  assumes "buf_wf b"
  shows "(length d \<le> HyBuffer_prependableBytes b \<longrightarrow>
      (\<exists>b'. HyBuffer_prepend b d = Inr b' \<and> buf_wf b' \<and> contents b' = d @ contents b))
    \<and> (HyBuffer_prependableBytes b < length d \<longrightarrow> HyBuffer_prepend b d = Inl AssertFail)"
  using prepend_outcome_aux [OF assms, of d] by (auto simp: HyBuffer_prependableBytes_def split: if_splits)

theorem prepend_exact_witness:
  "\<exists>b'. HyBuffer_prepend HyBuffer_new ''abcd'' = Inr b' \<and> contents b' = ''abcd''"
  using prepend_exact [OF buf_wf_new, of "''abcd''"]
  by (auto simp: HyBuffer_prependableBytes_def HyBuffer_new_def PREPENDABLEBYTES_def
      contents_new [unfolded HyBuffer_new_def PREPENDABLEBYTES_def])


section \<open>Sequences of operations\<close>

datatype buf_op = Append string | Prepend string | ReadFd string | Clear nat | ClearAll | ReadAll

fun do_op :: "buf_op \<Rightarrow> HyBuffer \<Rightarrow> HyBuffer result" where
  "do_op (Append d) b = HyBuffer_append b d"
| "do_op (Prepend d) b = HyBuffer_prepend b d"
| "do_op (ReadFd d) b = bind_result (HyBuffer_readFd b (Some d)) (\<lambda>(n, b). Inr b)"
| "do_op (Clear n) b = Inr (HyBuffer_clear b n)"
| "do_op ClearAll b = Inr (HyBuffer_clearAll b)"
| "do_op ReadAll b = bind_result (HyBuffer_readAsString b) (\<lambda>(s, b). Inr b)"

fun do_ops :: "buf_op list \<Rightarrow> HyBuffer \<Rightarrow> HyBuffer result" where
  "do_ops [] b = Inr b"
| "do_ops (p # ps) b = bind_result (do_op p b) (do_ops ps)"

text \<open>The same operations on plain byte strings.\<close>

fun spec_op :: "buf_op \<Rightarrow> string \<Rightarrow> string" where
  "spec_op (Append d) s = s @ d"
| "spec_op (Prepend d) s = d @ s"
| "spec_op (ReadFd d) s = s @ d"
| "spec_op (Clear n) s = drop n s"
| "spec_op ClearAll s = []"
| "spec_op ReadAll s = []"

text \<open>No more bytes are consumed than there are, and no vector gets larger than it can.\<close>

fun op_ok :: "buf_op \<Rightarrow> HyBuffer \<Rightarrow> bool" where
  "op_ok (Append d) b = (length (buffer b) + length d < 2 ^ 63)"
| "op_ok (ReadFd d) b = (length (buffer b) + length d < 2 ^ 63)"
| "op_ok (Clear n) b = (n \<le> length (contents b))"
| "op_ok _ b = True"

fun ops_ok :: "buf_op list \<Rightarrow> HyBuffer \<Rightarrow> bool" where
  "ops_ok [] b = True"
| "ops_ok (p # ps) b = (op_ok p b \<and> (case do_op p b of Inl e \<Rightarrow> True | Inr b' \<Rightarrow> ops_ok ps b'))"

text \<open>No operation makes the vector smaller, so there is always room for the 8 bytes in front.\<close>

lemma copy_to_length: "copy_to m i d = Inr m' \<Longrightarrow> length m' = length m"
  by (auto simp: copy_to_def split: if_splits)

lemma reserve_grows:
  assumes "buf_wf b" "length (buffer b) + n < 2 ^ 63" "HyBuffer_reserve b n = Inr b'"
  shows "length (buffer b) \<le> length (buffer b')"
proof -
  have w: "HyBuffer_writableBytes b = length (buffer b) - readerIndex b"
    using assms(1) by (simp add: writableBytes_wf)
  have a: "size_add (writerIndex b) n = writerIndex b + n"
    using assms(1,2) by (intro size_add_small) (auto simp: buf_wf_def)
  show ?thesis
    using assms w a copy_to_length
    by (auto simp: HyBuffer_reserve_def Let_def bind_result_eq_Inr vector_resize_def buf_wf_def split: if_splits)
qed

lemma append_grows:
  assumes "buf_wf b" "length (buffer b) + length d < 2 ^ 63" "HyBuffer_append b d = Inr b'"
  shows "length (buffer b) \<le> length (buffer b')"
  using assms reserve_grows [of b "length d"] copy_to_length
  by (fastforce simp: HyBuffer_append_def bind_result_eq_Inr)

definition buf_typed :: "HyBuffer \<Rightarrow> bool" where
  "buf_typed b \<longleftrightarrow> buf_wf b \<and> PREPENDABLEBYTES \<le> length (buffer b)"

lemma clearAll_typed: "buf_typed b \<Longrightarrow> buf_typed (HyBuffer_clearAll b)"
  by (auto simp: buf_typed_def buf_wf_def HyBuffer_clearAll_def)

lemma prepend_length: "HyBuffer_prepend b d = Inr b' \<Longrightarrow> length (buffer b') = length (buffer b)"
  using copy_to_length by (auto simp: HyBuffer_prepend_def bind_result_eq_Inr Let_def)

lemma readFd_grows:
  assumes wf: "buf_wf b" and len: "length (buffer b) + length d < 2 ^ 63"
    and run: "HyBuffer_readFd b (Some d) = Inr (n, b')"
  shows "length (buffer b) \<le> length (buffer b')"
proof -
  obtain m where m: "copy_to (buffer b) (writerIndex b) (take (HyBuffer_writableBytes b) d) = Inr m"
    using run by (auto simp: HyBuffer_readFd_def Let_def bind_result_eq_Inr)
  have lm: "length m = length (buffer b)" using copy_to_length [OF m] .
  let ?b = "b\<lparr>buffer := m, writerIndex := length m\<rparr>"
  have "buf_wf ?b" using wf lm by (auto simp: buf_wf_def)
  then show ?thesis
    using run m lm len append_grows [of ?b "drop (HyBuffer_writableBytes b) d" b']
    by (auto simp: HyBuffer_readFd_def Let_def bind_result_eq_Inr split: if_splits)
qed

lemma do_op_typed:
  assumes "buf_typed b" "op_ok p b"
  shows "(\<exists>b'. do_op p b = Inr b' \<and> buf_typed b' \<and> contents b' = spec_op p (contents b))
    \<or> do_op p b \<in> {Inl OutOfBounds, Inl AssertFail}"
proof (cases p)
  case (Append d)
  then show ?thesis using append_outcome [of b d] append_grows [of b d] assms
    by (auto simp: buf_typed_def split: if_splits)
next
  case (Prepend d)
  then show ?thesis using prepend_outcome_aux [of b d] prepend_length [of b d] assms
    by (auto simp: buf_typed_def split: if_splits)
next
  case (ReadFd d)
  then show ?thesis using readFd_outcome_aux [of b d] readFd_grows [of b d] assms
    by (auto simp: buf_typed_def split: if_splits)
next
  case (Clear n)
  then show ?thesis using hybuf.wf_clear [of b n] hybuf.bytes_clear [of b n] assms
    by (simp add: buf_typed_def HyBuffer_clear_def)
next
  case ClearAll
  then show ?thesis using clearAll_typed assms by simp
next
  case ReadAll
  then show ?thesis using clearAll_typed readAsString_ok [of b] assms by (simp add: buf_typed_def)
qed

text \<open>
  C24. A buffer stays well formed under any sequence of its operations that consumes no more than is
  there, and its contents are those of a plain byte string under the same operations; the sequence
  can only end early in an access outside the vector or the assertion of \<open>prepend\<close>.
\<close>

theorem operations_typed:
  assumes "buf_typed b" and "ops_ok ps b"
  shows "(\<exists>b'. do_ops ps b = Inr b' \<and> buf_typed b' \<and> contents b' = fold spec_op ps (contents b))
    \<or> do_ops ps b \<in> {Inl OutOfBounds, Inl AssertFail}"
  using assms
proof (induction ps arbitrary: b)
  case Nil
  then show ?case by simp
next
  case (Cons p ps)
  from Cons.prems have "op_ok p b" by simp
  from do_op_typed [OF Cons.prems(1) this] show ?case
  proof
    assume "\<exists>b'. do_op p b = Inr b' \<and> buf_typed b' \<and> contents b' = spec_op p (contents b)"
    then obtain b1 where b1: "do_op p b = Inr b1" "buf_typed b1" "contents b1 = spec_op p (contents b)" by blast
    then show ?thesis using Cons.IH [OF b1(2)] Cons.prems(2) by simp
  qed auto
qed

definition small_buffer :: HyBuffer where
  "small_buffer = \<lparr>buffer = [CHR 0x00, CHR 0x00, CHR 0x00, CHR 0x00, CHR 0x00, CHR 0x00,
     CHR 0x00, CHR 0x00, CHR 0x00, CHR 0x00, CHR 0x00, CHR 0x00], readerIndex = 8, writerIndex = 8\<rparr>"

theorem operations_typed_witness:
  "\<exists>b. do_ops [Append ''llo'', Prepend ''he'', Clear 1] small_buffer = Inr b \<and> contents b = ''ello''"
proof -
  let ?ps = "[Append ''llo'', Prepend ''he'', Clear 1]"
  let ?z = "[CHR 0x00, CHR 0x00, CHR 0x00, CHR 0x00, CHR 0x00, CHR 0x00]"
  let ?b1 = "\<lparr>buffer = ?z @ [CHR 0x00, CHR 0x00] @ ''llo'' @ [CHR 0x00], readerIndex = 8, writerIndex = 11\<rparr>"
  let ?b2 = "\<lparr>buffer = ?z @ ''hello'' @ [CHR 0x00], readerIndex = 6, writerIndex = 11\<rparr>"
  have "do_op (Append ''llo'') small_buffer = Inr ?b1"
    by (simp add: small_buffer_def HyBuffer_append_def HyBuffer_reserve_def HyBuffer_writableBytes_def
        copy_to_def size_add_def size_sub_def)
  moreover have "do_op (Prepend ''he'') ?b1 = Inr ?b2"
    by (simp add: HyBuffer_prepend_def HyBuffer_prependableBytes_def copy_to_def size_add_def size_sub_def)
  moreover have c2: "contents ?b2 = ''hello''" by (simp add: contents_def slice_def)
  ultimately have "ops_ok ?ps small_buffer" "\<exists>b. do_ops ?ps small_buffer = Inr b"
    by (simp_all add: small_buffer_def)
  moreover have "buf_typed small_buffer" "contents small_buffer = []"
    by (simp_all add: buf_typed_def buf_wf_def small_buffer_def PREPENDABLEBYTES_def contents_def slice_def)
  ultimately show ?thesis using operations_typed [of small_buffer ?ps] by auto
qed

end
