(* ===== verification/Format.thy ===== *)
theory Format
  imports Prelude
begin

text \<open>
  The text conversions of the C and C++ libraries that the program relies on: the decimal
  conversions \<open>%d\<close> and \<open>%0wd\<close> of \<open>snprintf\<close> (the same text as \<open>std::to_string\<close>) with its truncation
  to the size of the destination, the character class \<open>isspace\<close> in the C locale, and \<open>std::stoi\<close>
  with its two exceptions. The lemmas show that printing and reading decimal numbers are inverse.
\<close>

section \<open>Decimal digits\<close>

definition digit :: "nat \<Rightarrow> char" where
  "digit n = char_of (48 + n)"

definition is_digit :: "char \<Rightarrow> bool" where
  "is_digit c \<longleftrightarrow> 48 \<le> (of_char c :: nat) \<and> (of_char c :: nat) \<le> 57"

definition digit_value :: "char \<Rightarrow> nat" where
  "digit_value c = of_char c - 48"

fun dec_digits :: "nat \<Rightarrow> string" where
  "dec_digits n = (if n < 10 then [digit n] else dec_digits (n div 10) @ [digit (n mod 10)])"

declare dec_digits.simps [simp del]

definition digits_val :: "string \<Rightarrow> nat" where
  "digits_val ds = foldl (\<lambda>a c. a * 10 + digit_value c) 0 ds"

lemma of_char_digit: "n < 10 \<Longrightarrow> (of_char (digit n) :: nat) = 48 + n"
  by (simp add: digit_def)

lemma digit_value_digit [simp]: "n < 10 \<Longrightarrow> digit_value (digit n) = n"
  by (simp add: digit_value_def of_char_digit)

lemma is_digit_digit [simp]: "n < 10 \<Longrightarrow> is_digit (digit n)"
  by (simp add: is_digit_def of_char_digit)

lemma digits_val_snoc: "digits_val (ds @ [c]) = digits_val ds * 10 + digit_value c"
  by (simp add: digits_val_def)

lemma digits_val_dec_digits [simp]: "digits_val (dec_digits n) = n"
proof (induction n rule: dec_digits.induct)
  case (1 n)
  show ?case
  proof (cases "n < 10")
    case True
    then show ?thesis by (subst dec_digits.simps) (simp add: digits_val_def)
  next
    case False
    with 1 have "digits_val (dec_digits (n div 10)) = n div 10" by simp
    with False show ?thesis by (subst dec_digits.simps) (simp add: digits_val_snoc)
  qed
qed

lemma dec_digits_nonempty [simp]: "dec_digits n \<noteq> []"
  by (subst dec_digits.simps) simp

lemma dec_digits_digits: "c \<in> set (dec_digits n) \<Longrightarrow> is_digit c"
proof (induction n rule: dec_digits.induct)
  case (1 n)
  show ?case
  proof (cases "n < 10")
    case True
    with 1 show ?thesis by (subst (asm) dec_digits.simps) simp
  next
    case False
    with 1 show ?thesis by (subst (asm) (2) dec_digits.simps) auto
  qed
qed

lemma dec_digits_inject: "dec_digits m = dec_digits n \<longleftrightarrow> m = n"
  by (metis digits_val_dec_digits)

lemma length_dec_digits_le: "n < 10 ^ k \<Longrightarrow> 0 < k \<Longrightarrow> length (dec_digits n) \<le> k"
proof (induction k arbitrary: n)
  case 0
  then show ?case by simp
next
  case (Suc k)
  show ?case
  proof (cases "n < 10")
    case True
    then show ?thesis by (subst dec_digits.simps) simp
  next
    case False
    with Suc.prems have k: "0 < k" by (cases k) auto
    have "n div 10 < 10 ^ k" using Suc.prems by (simp add: less_mult_imp_div_less mult.commute)
    with k have "length (dec_digits (n div 10)) \<le> k" by (intro Suc.IH) auto
    with False show ?thesis by (subst dec_digits.simps) simp
  qed
qed

section \<open>Formatted output\<close>

definition fmt_d :: "int \<Rightarrow> string" where
  "fmt_d i = (if i < 0 then CHR ''-'' # dec_digits (nat (- i)) else dec_digits (nat i))"

definition fmt_0d :: "nat \<Rightarrow> int \<Rightarrow> string" where
  "fmt_0d w i =
     (let sign = (if i < 0 then ''-'' else ''''); ds = dec_digits (nat \<bar>i\<bar>)
      in sign @ replicate (w - length sign - length ds) (CHR ''0'') @ ds)"

text \<open>\<open>snprintf\<close> into an array of \<open>n\<close> bytes keeps at most \<open>n - 1\<close> characters.\<close>

definition snprintf :: "nat \<Rightarrow> string \<Rightarrow> string" where
  "snprintf n s = take (n - 1) s"

lemma minus_not_digit: "\<not> is_digit (CHR ''-'')"
  by (simp add: is_digit_def)

lemma fmt_d_inject: "fmt_d i = fmt_d j \<longleftrightarrow> i = j"
proof
  assume eq: "fmt_d i = fmt_d j"
  have minus: "CHR ''-'' # xs \<noteq> dec_digits n" for xs n
    using minus_not_digit dec_digits_digits [of "CHR ''-''" n] by (metis list.set_intros(1))
  show "i = j"
  proof (cases "i < 0"; cases "j < 0")
    assume "\<not> i < 0" "j < 0"
    with eq minus show ?thesis by (simp add: fmt_d_def) metis
  qed (use eq minus in \<open>auto simp: fmt_d_def dec_digits_inject\<close>)
qed simp

lemma length_fmt_0d: "nat \<bar>i\<bar> < 10 ^ w \<Longrightarrow> 0 \<le> i \<Longrightarrow> 0 < w \<Longrightarrow> length (fmt_0d w i) = w"
  using length_dec_digits_le [of "nat \<bar>i\<bar>" w] by (simp add: fmt_0d_def Let_def)

lemma foldl_digits_zeros: "foldl (\<lambda>a c. a * 10 + digit_value c) 0 (replicate k (CHR ''0'')) = 0"
  by (induction k) (simp_all add: digit_value_def)

lemma digits_val_zeros [simp]: "digits_val (replicate k (CHR ''0'') @ ds) = digits_val ds"
  by (simp add: digits_val_def foldl_digits_zeros)

lemma fmt_0d_digits: "0 \<le> i \<Longrightarrow> list_all is_digit (fmt_0d w i)"
proof -
  have "is_digit (CHR ''0'')" by code_simp
  then show "0 \<le> i \<Longrightarrow> list_all is_digit (fmt_0d w i)"
    using dec_digits_digits by (auto simp: fmt_0d_def Let_def list_all_iff)
qed

lemma digits_val_fmt_0d: "0 \<le> i \<Longrightarrow> digits_val (fmt_0d w i) = nat i"
  by (simp add: fmt_0d_def Let_def)

section \<open>Reading numbers\<close>

definition isspace :: "char \<Rightarrow> bool" where
  "isspace c \<longleftrightarrow> c = CHR '' '' \<or> 9 \<le> (of_char c :: nat) \<and> (of_char c :: nat) \<le> 13"

definition stoi :: "string \<Rightarrow> int result" where
  "stoi s =
     (let s1 = dropWhile isspace s;
          neg = (s1 \<noteq> [] \<and> hd s1 = CHR ''-'');
          s2 = (if s1 \<noteq> [] \<and> (hd s1 = CHR ''-'' \<or> hd s1 = CHR ''+'') then tl s1 else s1);
          ds = takeWhile is_digit s2;
          v = (if neg then - int (digits_val ds) else int (digits_val ds))
      in if ds = [] then Inl InvalidArgument
         else if - (2 ^ 31) \<le> v \<and> v < 2 ^ 31 then Inr v else Inl OutOfRange)"

lemma is_digit_not_space: "is_digit c \<Longrightarrow> \<not> isspace c"
  by (auto simp: is_digit_def isspace_def)

lemma isspace_CR [simp]: "isspace (CHR 0x0D)" and isspace_blank [simp]: "isspace (CHR '' '')"
  by (simp_all add: isspace_def)

lemma stoi_dec_digits:
  assumes "n < 2 ^ 31"
  shows "stoi (dec_digits n) = Inr (int n)"
proof -
  obtain c cs where ds: "dec_digits n = c # cs" by (cases "dec_digits n") auto
  then have c: "is_digit c" using dec_digits_digits [of c n] by simp
  then have "\<not> isspace c" "c \<noteq> CHR ''-''" "c \<noteq> CHR ''+''"
    using is_digit_not_space by (auto simp: is_digit_def)
  moreover have "digits_val (c # takeWhile is_digit cs) = n"
    using ds dec_digits_digits [of _ n]
    by (metis digits_val_dec_digits list.set_intros(2) takeWhile_eq_all_conv)
  ultimately show ?thesis using ds assms c by (simp add: stoi_def Let_def)
qed

lemma stoi_no_digits: "(\<And>c. c \<in> set s \<Longrightarrow> \<not> is_digit c) \<Longrightarrow> stoi s = Inl InvalidArgument"
proof -
  assume nd: "\<And>c. c \<in> set s \<Longrightarrow> \<not> is_digit c"
  have "takeWhile is_digit xs = []" if "set xs \<subseteq> set s" for xs
    using that nd by (cases xs) auto
  moreover have "set (dropWhile isspace s) \<subseteq> set s" by (auto dest: set_dropWhileD)
  moreover have "set (tl xs) \<subseteq> set xs" for xs :: string by (cases xs) auto
  ultimately show ?thesis by (simp add: stoi_def Let_def) (meson subset_trans)
qed

end
