(* ===== verification/StdMap.thy ===== *)
theory StdMap
  imports Prelude
begin

text \<open>
  \<open>std::map<std::string, std::string>\<close> as a list of bindings in increasing key order, the order in
  which the program iterates over it. The locale states what the HTTP classes use of a map; it
  is interpreted on the list operations.
\<close>

type_synonym smap = "(string \<times> string) list"

fun map_assign :: "'k::linorder \<Rightarrow> 'v \<Rightarrow> ('k \<times> 'v) list \<Rightarrow> ('k \<times> 'v) list" where
  "map_assign k v [] = [(k, v)]"
| "map_assign k v ((k', v') # m) =
     (if k < k' then (k, v) # (k', v') # m
      else if k = k' then (k, v) # m
      else (k', v') # map_assign k v m)"

definition map_lookup :: "('k \<times> 'v) list \<Rightarrow> 'k \<Rightarrow> 'v option" where
  "map_lookup m k = map_of m k"

definition map_wf :: "('k::linorder \<times> 'v) list \<Rightarrow> bool" where
  "map_wf m \<longleftrightarrow> sorted (map fst m) \<and> distinct (map fst m)"

lemma map_lookup_Nil [simp]: "map_lookup [] k = None"
  by (simp add: map_lookup_def)

lemma map_lookup_assign [simp]:
  "map_lookup (map_assign k v m) k' = (if k' = k then Some v else map_lookup m k')"
  by (induction k v m rule: map_assign.induct) (auto simp: map_lookup_def)

lemma set_map_assign: "fst ` set (map_assign k v m) = insert k (fst ` set m)"
  by (induction k v m rule: map_assign.induct) auto

lemma map_wf_Nil [simp]: "map_wf []"
  by (simp add: map_wf_def)

lemma map_wf_assign [simp]: "map_wf m \<Longrightarrow> map_wf (map_assign k v m)"
proof (induction k v m rule: map_assign.induct)
  case (1 k v)
  then show ?case by (simp add: map_wf_def)
next
  case (2 k v k' v' m)
  then have "map_wf m" by (simp add: map_wf_def)
  with 2 show ?case by (auto simp: map_wf_def set_map_assign image_iff intro: order.strict_implies_order)
qed

locale string_map =
  fixes assign :: "'k \<Rightarrow> 'v \<Rightarrow> 'm \<Rightarrow> 'm"
    and find :: "'m \<Rightarrow> 'k \<Rightarrow> 'v option"
    and none :: 'm
    and wf :: "'m \<Rightarrow> bool"
  assumes find_none: "find none k = None"
    and find_assign: "find (assign k v m) k' = (if k' = k then Some v else find m k')"
    and wf_none: "wf none"
    and wf_assign: "wf m \<Longrightarrow> wf (assign k v m)"
begin

text \<open>A sequence of assignments: the last one to a key wins, other keys are unaffected.\<close>

lemma find_fold_other:
  "k \<notin> fst ` set kvs \<Longrightarrow> find (fold (\<lambda>(k, v). assign k v) kvs m) k = find m k"
  by (induction kvs arbitrary: m) (auto simp: find_assign)

lemma find_fold_last:
  assumes "kvs = as @ (k, v) # bs" and "k \<notin> fst ` set bs"
  shows "find (fold (\<lambda>(k, v). assign k v) kvs m) k = Some v"
  using assms by (simp add: find_fold_other find_assign)

lemma wf_fold: "wf m \<Longrightarrow> wf (fold (\<lambda>(k, v). assign k v) kvs m)"
  by (induction kvs arbitrary: m) (auto simp: wf_assign)

end

interpretation smap: string_map map_assign map_lookup "[]" map_wf
  by unfold_locales simp_all

end
