(* ===== verification/Timestamp.thy ===== *)
theory Timestamp
  imports Format "HOL-Library.Signed_Division"
begin

text \<open>
  \<^verbatim>\<open>include/core/Timestamp.hpp\<close> and \<^verbatim>\<open>src/Timestamp.cpp\<close>. A time point of \<open>std::chrono::system_clock\<close>
  counts nanoseconds since the epoch, and \<open>duration_cast\<close> divides towards zero. The comparison
  operators compare whole microseconds, so they form a preorder: two different time points
  within one microsecond are equivalent. A \<open>double\<close> is a significand times a power of two, and a
  product is rounded to 53 bits, ties to even; infinities and subnormal numbers are not modelled.
\<close>

section \<open>Floating point numbers\<close>

record double =
  significand :: int
  exponent :: int

fun bit_length :: "nat \<Rightarrow> nat" where
  "bit_length n = (if n = 0 then 0 else Suc (bit_length (n div 2)))"

declare bit_length.simps [simp del]

definition round_shift :: "nat \<Rightarrow> nat \<Rightarrow> nat" where
  "round_shift n k =
     (let q = n div 2 ^ k; r = n mod 2 ^ k in
      if 2 * r > 2 ^ k \<or> (2 * r = 2 ^ k \<and> odd q) then q + 1 else q)"

definition round53 :: "double \<Rightarrow> double" where
  "round53 d =
     (let a = nat \<bar>significand d\<bar>; k = bit_length a - 53 in
      \<lparr>significand = sgn (significand d) * int (round_shift a k), exponent = exponent d + int k\<rparr>)"

definition double_mul :: "double \<Rightarrow> double \<Rightarrow> double" where
  "double_mul x y =
     round53 \<lparr>significand = significand x * significand y, exponent = exponent x + exponent y\<rparr>"

text \<open>A quotient is computed to more than 53 bits; the last bit tells whether there is a remainder.\<close>

definition double_div :: "double \<Rightarrow> double \<Rightarrow> double" where
  "double_div x y =
     (let a = nat \<bar>significand x\<bar>; b = nat \<bar>significand y\<bar>; k = 55 + bit_length b;
          q = a * 2 ^ k div b; rest = (if a * 2 ^ k mod b = 0 then 0 else 1)
      in round53 \<lparr>significand = sgn (significand x) * sgn (significand y) * int (2 * q + rest),
                  exponent = exponent x - exponent y - int k - 1\<rparr>)"

definition double_of_int :: "int \<Rightarrow> double" where
  "double_of_int i = \<lparr>significand = i, exponent = 0\<rparr>"

text \<open>\<open>static_cast<int64_t>\<close> of a \<open>double\<close> drops the fraction.\<close>

definition double_to_int64 :: "double \<Rightarrow> int" where
  "double_to_int64 d =
     (if 0 \<le> exponent d then significand d * 2 ^ nat (exponent d)
      else significand d sdiv 2 ^ nat (- exponent d))"

definition double_positive :: "double \<Rightarrow> bool" where
  "double_positive d \<longleftrightarrow> significand d > 0"

section \<open>Time points\<close>

datatype Timestamp = Timestamp (timePoint: int)

definition microSecsPerSecond :: int where
  "microSecsPerSecond = 1000000"

definition Timestamp_toMicroSec :: "Timestamp \<Rightarrow> int" where
  "Timestamp_toMicroSec t = timePoint t sdiv 1000"

definition Timestamp_toMilliSec :: "Timestamp \<Rightarrow> int" where
  "Timestamp_toMilliSec t = timePoint t sdiv 1000000"

definition Timestamp_toSec :: "Timestamp \<Rightarrow> int" where
  "Timestamp_toSec t = timePoint t sdiv 1000000000"

definition Timestamp_less :: "Timestamp \<Rightarrow> Timestamp \<Rightarrow> bool" where
  "Timestamp_less lhs rhs \<longleftrightarrow> Timestamp_toMicroSec lhs < Timestamp_toMicroSec rhs"

definition Timestamp_less_eq :: "Timestamp \<Rightarrow> Timestamp \<Rightarrow> bool" where
  "Timestamp_less_eq lhs rhs \<longleftrightarrow> Timestamp_toMicroSec lhs \<le> Timestamp_toMicroSec rhs"

text \<open>\<open>operator<\<close> and \<open>operator<=\<close> make the time points a preorder.\<close>

instantiation Timestamp :: preorder
begin

definition less_eq_Timestamp_inst [simp]: "less_eq = Timestamp_less_eq"

definition less_Timestamp_inst [simp]: "less = Timestamp_less"

instance
  by standard (auto simp: Timestamp_less_eq_def Timestamp_less_def)

end

lemma less_eq_Timestamp_iff: "lhs \<le> rhs \<longleftrightarrow> Timestamp_toMicroSec lhs \<le> Timestamp_toMicroSec rhs"
  by (simp add: Timestamp_less_eq_def)

lemma less_Timestamp_iff: "lhs < rhs \<longleftrightarrow> Timestamp_toMicroSec lhs < Timestamp_toMicroSec rhs"
  by (simp add: Timestamp_less_def)

declare less_eq_Timestamp_inst [simp del] less_Timestamp_inst [simp del]

definition Timestamp_eq :: "Timestamp \<Rightarrow> Timestamp \<Rightarrow> bool" where
  "Timestamp_eq lhs rhs \<longleftrightarrow> Timestamp_toMicroSec lhs = Timestamp_toMicroSec rhs"

text \<open>
  The counts are 64-bit integers: a \<open>double\<close> out of their range and an overflow of the product, when
  the microseconds become nanoseconds, or of the sum are undefined.
\<close>

definition fits_int64 :: "int \<Rightarrow> bool" where
  "fits_int64 i \<longleftrightarrow> - (2 ^ 63) \<le> i \<and> i < 2 ^ 63"

definition Timestamp_plus :: "Timestamp \<Rightarrow> double \<Rightarrow> Timestamp result" where
  "Timestamp_plus lhs sec =
     (let microSecs = double_to_int64 (double_mul sec (double_of_int microSecsPerSecond)) in
      if fits_int64 microSecs \<and> fits_int64 (microSecs * 1000) \<and> fits_int64 (timePoint lhs + microSecs * 1000)
      then Inr (Timestamp (timePoint lhs + microSecs * 1000)) else Inl Arithmetic)"

definition Timestamp_toString :: "Timestamp \<Rightarrow> string" where
  "Timestamp_toString t =
     (let microSec = Timestamp_toMicroSec t;
          seconds = microSec sdiv microSecsPerSecond;
          micros = microSec smod microSecsPerSecond
      in snprintf 63 (fmt_d seconds @ ''.'' @ fmt_0d 6 micros))"

definition Timestamp_swap :: "Timestamp \<Rightarrow> Timestamp \<Rightarrow> Timestamp \<times> Timestamp" where
  "Timestamp_swap t other = (other, t)"

section \<open>Lemmas\<close>

lemma Timestamp_total: "(x::Timestamp) \<le> y \<or> y \<le> x"
  by (auto simp: less_eq_Timestamp_iff)

lemma Timestamp_not_le: "\<not> x \<le> y \<longleftrightarrow> y < (x::Timestamp)"
  by (auto simp: less_eq_Timestamp_iff less_Timestamp_iff)

lemma Timestamp_not_less: "\<not> x < y \<longleftrightarrow> y \<le> (x::Timestamp)"
  by (auto simp: less_eq_Timestamp_iff less_Timestamp_iff)

lemma sdiv_nonneg: "0 \<le> (a::int) \<Longrightarrow> 0 < b \<Longrightarrow> a sdiv b = a div b"
  by (cases "a = 0") (simp_all add: signed_divide_int_def)

lemma smod_nonneg: "0 \<le> (a::int) \<Longrightarrow> 0 < b \<Longrightarrow> a smod b = a mod b"
  by (cases "a = 0") (simp_all add: signed_modulo_int_def)

lemma sdiv_mono: "(a::int) \<le> b \<Longrightarrow> 0 < c \<Longrightarrow> a sdiv c \<le> b sdiv c"
proof -
  assume ab: "a \<le> b" and c: "0 < c"
  show ?thesis
  proof (cases "0 \<le> a")
    case True
    with ab c show ?thesis by (simp add: sdiv_nonneg zdiv_mono1)
  next
    case neg: False
    show ?thesis
    proof (cases "0 \<le> b")
      case True
      have "a sdiv c \<le> 0" using neg c by (simp add: signed_divide_int_def pos_imp_zdiv_nonneg_iff)
      moreover have "0 \<le> b sdiv c" using True c by (simp add: sdiv_nonneg pos_imp_zdiv_nonneg_iff)
      ultimately show ?thesis by linarith
    next
      case False
      have "(- b) div c \<le> (- a) div c" using ab c by (simp add: zdiv_mono1)
      with False neg c show ?thesis by (simp add: signed_divide_int_def)
    qed
  qed
qed

lemma bit_length_less: "n < 2 ^ k \<Longrightarrow> bit_length n \<le> k"
proof (induction k arbitrary: n)
  case 0
  then show ?case by (simp add: bit_length.simps)
next
  case (Suc k)
  then have "n div 2 < 2 ^ k" by auto
  then have "bit_length (n div 2) \<le> k" by (rule Suc.IH)
  then show ?case by (subst bit_length.simps) simp
qed

lemma round_shift_0 [simp]: "round_shift n 0 = n"
  by (simp add: round_shift_def)

lemma round53_exact: "\<bar>significand d\<bar> < 2 ^ 53 \<Longrightarrow> round53 d = d"
proof -
  assume "\<bar>significand d\<bar> < 2 ^ 53"
  then have "nat \<bar>significand d\<bar> < 2 ^ 53" by simp
  then have "bit_length (nat \<bar>significand d\<bar>) - 53 = 0" using bit_length_less by simp
  then show ?thesis by (simp add: round53_def Let_def sgn_mult_abs)
qed

text \<open>Adding a whole number of seconds is exact: no rounding and no fraction is involved.\<close>

lemma plus_whole_seconds:
  assumes "\<bar>k\<bar> < 2 ^ 33"
  shows "Timestamp_plus t (double_of_int k) =
    (if fits_int64 (timePoint t + k * 1000000000) then Inr (Timestamp (timePoint t + k * 1000000000)) else Inl Arithmetic)"
proof -
  have "\<bar>k * 1000000\<bar> < 2 ^ 53" using assms by (simp add: abs_mult)
  moreover have "fits_int64 (k * 1000000)" "fits_int64 (1000000000 * k)"
    using assms by (auto simp: fits_int64_def abs_less_iff)
  ultimately show ?thesis
    by (simp add: Timestamp_plus_def double_mul_def double_of_int_def microSecsPerSecond_def
        round53_exact double_to_int64_def Let_def mult.commute [of k 1000000000])
qed

lemma toMicroSec_mono: "timePoint s \<le> timePoint t \<Longrightarrow> s \<le> t"
  by (simp add: less_eq_Timestamp_iff Timestamp_toMicroSec_def sdiv_mono)

section \<open>Properties\<close>

text \<open>
  C15. The text of a time after the epoch is the whole seconds in digits, a point and exactly six decimal
  digits, and reading the two numbers back gives the microseconds the time was printed from.
\<close>

theorem toString_roundtrip:
  assumes "0 \<le> timePoint t" and "timePoint t < 2 ^ 63"
  shows "\<exists>s m. Timestamp_toString t = s @ ''.'' @ m \<and> length m = 6 \<and> list_all is_digit m
    \<and> s \<noteq> [] \<and> list_all is_digit s
    \<and> digits_val s * 1000000 + digits_val m = nat (Timestamp_toMicroSec t)"
proof -
  let ?us = "Timestamp_toMicroSec t"
  have us: "?us = timePoint t div 1000" using assms by (simp add: Timestamp_toMicroSec_def sdiv_nonneg)
  then have us0: "0 \<le> ?us" using assms by (simp add: pos_imp_zdiv_nonneg_iff)
  let ?s = "fmt_d (?us div 1000000)" and ?m = "fmt_0d 6 (?us mod 1000000)"
  have m: "length ?m = 6" by (rule length_fmt_0d) (auto simp: nat_less_iff)
  have "?us div 1000000 < 10 ^ 19" using us assms by simp
  then have "length ?s \<le> 19"
    using length_dec_digits_le [of "nat (?us div 1000000)" 19] us0
    by (auto simp: fmt_d_def nat_less_iff)
  then have "Timestamp_toString t = ?s @ ''.'' @ ?m"
    using us0 m by (simp add: Timestamp_toString_def microSecsPerSecond_def sdiv_nonneg
        smod_nonneg snprintf_def Let_def)
  moreover have "digits_val ?s = nat (?us div 1000000)" using us0 by (simp add: fmt_d_def pos_imp_zdiv_neg_iff)
  moreover have "digits_val ?m = nat (?us mod 1000000)" by (simp add: digits_val_fmt_0d)
  moreover have "nat (?us div 1000000) * 1000000 + nat (?us mod 1000000) = nat ?us"
    using us0 by (simp add: nat_div_distrib nat_mod_distrib)
  moreover have "list_all is_digit ?m" by (rule fmt_0d_digits) simp
  moreover have "?s \<noteq> []" "list_all is_digit ?s"
    using us0 dec_digits_digits by (auto simp: fmt_d_def list_all_iff pos_imp_zdiv_neg_iff)
  ultimately show ?thesis using m by metis
qed

theorem toString_roundtrip_witness:
  "\<exists>s m. Timestamp_toString (Timestamp 1592000000000042999) = s @ ''.'' @ m \<and> length m = 6
    \<and> list_all is_digit m \<and> s \<noteq> [] \<and> list_all is_digit s \<and> digits_val s * 1000000 + digits_val m = 1592000000000042"
  using toString_roundtrip [of "Timestamp 1592000000000042999"]
  by (simp add: Timestamp_toMicroSec_def sdiv_nonneg)

text \<open>
  Adding \<open>k\<close> seconds, as long as the sum fits 64 bits, moves the microsecond and millisecond counts by exactly \<open>k\<close> seconds (no
  rounding), and is monotone: a positive number of seconds gives a strictly later time.
\<close>

theorem plus_seconds_exact:
  assumes "\<bar>k\<bar> < 2 ^ 33" and "0 \<le> timePoint t" and "0 \<le> timePoint t + k * 1000000000"
    and "timePoint t + k * 1000000000 < 2 ^ 63"
  shows "\<exists>t'. Timestamp_plus t (double_of_int k) = Inr t'
    \<and> Timestamp_toMicroSec t' = Timestamp_toMicroSec t + k * 1000000
    \<and> Timestamp_toMilliSec t' = Timestamp_toMilliSec t + k * 1000
    \<and> (0 < k \<longrightarrow> t < t')"
proof -
  have "(timePoint t + k * 1000000000) div 1000 = timePoint t div 1000 + k * 1000000" by simp
  moreover have "(timePoint t + k * 1000000000) div 1000000 = timePoint t div 1000000 + k * 1000"
    by simp
  ultimately show ?thesis
    using assms by (auto simp: plus_whole_seconds fits_int64_def Timestamp_toMicroSec_def
        Timestamp_toMilliSec_def sdiv_nonneg less_Timestamp_iff)
qed

theorem plus_seconds_exact_witness:
  "\<exists>t'. Timestamp_plus (Timestamp 5000000000) (double_of_int 1000) = Inr t'
    \<and> Timestamp_toMilliSec t' = 5000 + 1000000"
  using plus_seconds_exact [of 1000 "Timestamp 5000000000"]
  by (auto simp: Timestamp_toMilliSec_def sdiv_nonneg)

end
