(* ===== verification/HttpRequest.thy ===== *)
theory HttpRequest
  imports Format StdMap Timestamp
begin

text \<open>
  The request object of \<^verbatim>\<open>include/network/http/HttpRequest.hpp\<close>. Setters that take two or three
  \<open>const char*\<close> arguments take the memory block and indices into it. The lemmas give the values
  \<open>addHeader\<close> and \<open>addBody\<close> store in terms of the text between the pointers.
\<close>

section \<open>Data\<close>

datatype Method = INVALID | GET | POST

datatype Version = UNKNOWN | HTTP10 | HTTP11

record HttpRequest =
  req_method :: Method
  req_version :: Version
  req_path :: string
  req_query :: string
  req_receiveTime :: Timestamp
  req_headers :: smap
  req_bodys :: smap

definition HttpRequest_new :: HttpRequest where
  "HttpRequest_new =
     \<lparr>req_method = INVALID, req_version = UNKNOWN, req_path = '''', req_query = '''',
      req_receiveTime = Timestamp 0, req_headers = [], req_bodys = []\<rparr>"

section \<open>Operations\<close>

definition HttpRequest_setVersion :: "HttpRequest \<Rightarrow> Version \<Rightarrow> HttpRequest result" where
  "HttpRequest_setVersion r ver =
     bind_result (assert_that (req_version r = UNKNOWN)) (\<lambda>_. Inr (r\<lparr>req_version := ver\<rparr>))"

definition HttpRequest_setMethod ::
  "HttpRequest \<Rightarrow> string \<Rightarrow> nat \<Rightarrow> nat \<Rightarrow> (bool \<times> HttpRequest) result" where
  "HttpRequest_setMethod r mem start endp =
     bind_result (assert_that (req_method r = INVALID)) (\<lambda>_.
     bind_result (range_string mem start endp) (\<lambda>m.
     (let r' = (if m = ''GET'' then r\<lparr>req_method := GET\<rparr>
                else if m = ''POST'' then r\<lparr>req_method := POST\<rparr>
                else r\<lparr>req_method := INVALID\<rparr>)
      in Inr (req_method r' \<noteq> INVALID, r'))))"

definition HttpRequest_methodString :: "HttpRequest \<Rightarrow> string" where
  "HttpRequest_methodString r =
     (case req_method r of GET \<Rightarrow> ''GET'' | POST \<Rightarrow> ''POST'' | INVALID \<Rightarrow> ''UNKNOWN'')"

definition HttpRequest_setPath ::
  "HttpRequest \<Rightarrow> string \<Rightarrow> nat \<Rightarrow> nat \<Rightarrow> HttpRequest result" where
  "HttpRequest_setPath r mem start endp =
     bind_result (range_string mem start endp) (\<lambda>s. Inr (r\<lparr>req_path := s\<rparr>))"

definition HttpRequest_setQuery ::
  "HttpRequest \<Rightarrow> string \<Rightarrow> nat \<Rightarrow> nat \<Rightarrow> HttpRequest result" where
  "HttpRequest_setQuery r mem start endp =
     bind_result (range_string mem start endp) (\<lambda>s. Inr (r\<lparr>req_query := s\<rparr>))"

definition HttpRequest_setReceiveTime :: "HttpRequest \<Rightarrow> Timestamp \<Rightarrow> HttpRequest" where
  "HttpRequest_setReceiveTime r t = r\<lparr>req_receiveTime := t\<rparr>"

text \<open>The two \<open>while\<close> loops of \<open>addHeader\<close>.\<close>

function skip_space :: "string \<Rightarrow> nat \<Rightarrow> nat \<Rightarrow> nat" where
  "skip_space mem colon endp =
     (if colon < endp \<and> isspace (mem ! colon) then skip_space mem (Suc colon) endp else colon)"
  by pat_completeness auto
termination
  by (relation "measure (\<lambda>(mem, colon, endp). endp - colon)") auto

function skip_space_back :: "string \<Rightarrow> nat \<Rightarrow> nat \<Rightarrow> nat" where
  "skip_space_back mem colon endp =
     (if colon < endp \<and> isspace (mem ! endp) then skip_space_back mem colon (endp - 1) else endp)"
  by pat_completeness auto
termination
  by (relation "measure (\<lambda>(mem, colon, endp). endp)") auto

declare skip_space.simps [simp del] skip_space_back.simps [simp del]

definition HttpRequest_addHeader ::
  "HttpRequest \<Rightarrow> string \<Rightarrow> nat \<Rightarrow> nat \<Rightarrow> nat \<Rightarrow> HttpRequest result" where
  "HttpRequest_addHeader r mem beginp colon endp =
     bind_result (range_string mem beginp colon) (\<lambda>name.
     (let colon = skip_space mem (colon + 1) endp;
          endp = skip_space_back mem colon endp
      in bind_result (range_string mem colon (endp + 1)) (\<lambda>value.
         Inr (r\<lparr>req_headers := map_assign name value (req_headers r)\<rparr>))))"

definition HttpRequest_getHeader :: "HttpRequest \<Rightarrow> string \<Rightarrow> string" where
  "HttpRequest_getHeader r name =
     (case map_lookup (req_headers r) name of None \<Rightarrow> '''' | Some v \<Rightarrow> v)"

definition HttpRequest_addBody ::
  "HttpRequest \<Rightarrow> string \<Rightarrow> nat \<Rightarrow> nat \<Rightarrow> nat \<Rightarrow> HttpRequest result" where
  "HttpRequest_addBody r mem beginp assignment endp =
     bind_result (range_string mem beginp assignment) (\<lambda>name.
     bind_result (range_string mem (assignment + 1) endp) (\<lambda>value.
     Inr (r\<lparr>req_headers := map_assign name value (req_headers r)\<rparr>)))"

definition HttpRequest_getBody :: "HttpRequest \<Rightarrow> string \<Rightarrow> string" where
  "HttpRequest_getBody r name =
     (case map_lookup (req_headers r) name of None \<Rightarrow> '''' | Some v \<Rightarrow> v)"

text \<open>\<open>swap\<close> returns the two objects after the exchange; \<open>_bodys\<close> is not exchanged.\<close>

definition HttpRequest_swap :: "HttpRequest \<Rightarrow> HttpRequest \<Rightarrow> HttpRequest \<times> HttpRequest" where
  "HttpRequest_swap r other =
     (let (t, t') = Timestamp_swap (req_receiveTime r) (req_receiveTime other) in
      (r\<lparr>req_method := req_method other, req_version := req_version other,
         req_path := req_path other, req_query := req_query other,
         req_receiveTime := t, req_headers := req_headers other\<rparr>,
       other\<lparr>req_method := req_method r, req_version := req_version r,
         req_path := req_path r, req_query := req_query r,
         req_receiveTime := t', req_headers := req_headers r\<rparr>))"

section \<open>Header values\<close>

text \<open>
  \<open>strip\<close> removes white space at both ends. \<open>header_value\<close> is what \<open>addHeader\<close> stores: the
  stripped text, except that for a blank text both loops meet at the carriage return, which then
  becomes the value.
\<close>

definition rstrip :: "string \<Rightarrow> string" where
  "rstrip s = rev (dropWhile isspace (rev s))"

definition strip :: "string \<Rightarrow> string" where
  "strip s = rstrip (dropWhile isspace s)"

definition header_value :: "string \<Rightarrow> string" where
  "header_value s = (if strip s = [] then [CHR 0x0D] else strip s)"

lemma rstrip_snoc [simp]: "rstrip (s @ [c]) = (if isspace c then rstrip s else s @ [c])"
  by (simp add: rstrip_def)

lemma rstrip_Nil [simp]: "rstrip [] = []"
  by (simp add: rstrip_def)

lemma rstrip_Cons_nonspace: "\<not> isspace c \<Longrightarrow> rstrip (c # s) \<noteq> []"
  by (simp add: rstrip_def)

lemma strip_eq_Nil: "strip s = [] \<longleftrightarrow> (\<forall>c \<in> set s. isspace c)"
proof
  assume "strip s = []"
  then have "dropWhile isspace s = []"
    using rstrip_Cons_nonspace
    by (cases "dropWhile isspace s") (auto simp: strip_def dropWhile_eq_Cons_conv)
  then show "\<forall>c \<in> set s. isspace c" by simp
next
  assume "\<forall>c \<in> set s. isspace c"
  then have "dropWhile isspace s = []" by simp
  then show "strip s = []" by (simp only: strip_def rstrip_Nil)
qed

lemma skip_space_eq:
  "i \<le> j \<Longrightarrow> j \<le> length m \<Longrightarrow>
   skip_space m i j = i + length (takeWhile isspace (slice m i j))"
proof (induction m i j rule: skip_space.induct)
  case (1 m i j)
  show ?case
  proof (cases "i < j \<and> isspace (m ! i)")
    case True
    with 1 have "skip_space m (Suc i) j = Suc i + length (takeWhile isspace (slice m (Suc i) j))"
      by simp
    with True 1 show ?thesis by (subst skip_space.simps) (simp add: slice_Cons)
  next
    case False
    with 1 show ?thesis
      by (cases "i < j") (subst skip_space.simps, simp add: slice_Cons)+
  qed
qed

lemma skip_space_back_slice:
  "i \<le> j \<Longrightarrow> j < length m \<Longrightarrow> \<not> isspace (m ! i) \<Longrightarrow>
   i \<le> skip_space_back m i j \<and> skip_space_back m i j \<le> j
   \<and> slice m i (Suc (skip_space_back m i j)) = rstrip (slice m i (Suc j))"
proof (induction m i j rule: skip_space_back.induct)
  case (1 m i j)
  show ?case
  proof (cases "i < j \<and> isspace (m ! j)")
    case True
    then obtain j' where j': "j = Suc j'" by (cases j) auto
    with 1 True have IH: "i \<le> skip_space_back m i j' \<and> skip_space_back m i j' \<le> j'
        \<and> slice m i (Suc (skip_space_back m i j')) = rstrip (slice m i (Suc j'))"
      by simp
    have "skip_space_back m i j = skip_space_back m i j'"
      using True j' by (subst skip_space_back.simps) simp
    moreover have "rstrip (slice m i (Suc j)) = rstrip (slice m i j)"
      using True 1 by (simp add: slice_snoc)
    ultimately show ?thesis using IH j' by simp
  next
    case False
    then have eq: "skip_space_back m i j = j" by (subst skip_space_back.simps) auto
    have "\<not> isspace (m ! j)" using False 1 by (cases "i = j") auto
    then show ?thesis using 1 eq by (simp add: slice_snoc)
  qed
qed

text \<open>\<open>addHeader\<close> on a line that ends at a white space character, as a line ended by CRLF does.\<close>

lemma addHeader_value:
  assumes "b \<le> c" "c < e" "e < length m" and cr: "m ! e = CHR 0x0D"
  shows "HttpRequest_addHeader r m b c e = Inr (r\<lparr>req_headers :=
    map_assign (slice m b c) (header_value (slice m (Suc c) e)) (req_headers r)\<rparr>)"
proof -
  define i where "i = skip_space m (Suc c) e"
  have i: "i = Suc c + length (takeWhile isspace (slice m (Suc c) e))"
    using assms by (simp add: i_def skip_space_eq)
  then have ie: "i \<le> e" using assms length_takeWhile_le [of isspace "slice m (Suc c) e"] by simp
  have rest: "slice m i e = dropWhile isspace (slice m (Suc c) e)"
    using i by (simp add: dropWhile_eq_drop drop_slice)
  have "slice m i (Suc (skip_space_back m i e)) = header_value (slice m (Suc c) e)
      \<and> i \<le> skip_space_back m i e \<and> skip_space_back m i e \<le> e"
  proof (cases "i = e")
    case True
    then have "skip_space_back m i e = e" by (subst skip_space_back.simps) simp
    moreover have "strip (slice m (Suc c) e) = []" using rest True by (simp add: strip_def)
    ultimately show ?thesis
      using True cr assms(3) by (simp add: header_value_def slice_Cons)
  next
    case False
    then have cons: "slice m i e = m ! i # slice m (Suc i) e" using ie assms by (simp add: slice_Cons)
    with rest have ns: "\<not> isspace (m ! i)" by (metis dropWhile_eq_Cons_conv)
    have "rstrip (slice m i (Suc e)) = strip (slice m (Suc c) e)"
      using ie assms rest by (simp add: slice_snoc cr strip_def)
    moreover have "strip (slice m (Suc c) e) \<noteq> []"
      using rest cons ns rstrip_Cons_nonspace by (metis strip_def)
    ultimately show ?thesis
      using skip_space_back_slice [of i e m] ns ie assms by (simp add: header_value_def)
  qed
  then show ?thesis
    using assms ie by (simp add: HttpRequest_addHeader_def i_def cpp_simps Let_def)
qed

end
