(* ===== verification/HttpParser.thy ===== *)
theory HttpParser
  imports HttpContext
begin

text \<open>
  A reference parser on strings and the proof that \<open>HttpContext::parseRequest\<close> refines it: the
  string is the unread part of the buffer, a line is the text before the first CRLF, and the
  pointer arithmetic, the loops and the index updates of the code are gone. The properties of the
  parser are proved on the reference and transferred.
\<close>

section \<open>The reference parser\<close>

definition put_header :: "HttpContext \<Rightarrow> string \<Rightarrow> string \<Rightarrow> HttpContext" where
  "put_header c name value =
     c\<lparr>ctx_request := (ctx_request c)
         \<lparr>req_headers := map_assign name value (req_headers (ctx_request c))\<rparr>\<rparr>"

definition line_parse :: "HttpContext \<Rightarrow> string \<Rightarrow> (bool \<times> HttpContext) result" where
  "line_parse c line = HttpContext_parseRequestLine c line 0 (length line)"

definition begin_headers :: "Timestamp \<Rightarrow> HttpContext \<Rightarrow> HttpContext" where
  "begin_headers t c =
     c\<lparr>ctx_request := HttpRequest_setReceiveTime (ctx_request c) t, ctx_state := EXPECTHEADERS\<rparr>"

function spec_fields :: "HttpContext \<Rightarrow> string \<Rightarrow> (bool \<times> HttpContext \<times> string) result" where
  "spec_fields c w =
     (case find_char (CHR ''='') w of
        None \<Rightarrow> Inr (False, c, w)
      | Some a \<Rightarrow>
          (case find_char (CHR ''&'') w of
             Some k \<Rightarrow>
               if a < k
               then spec_fields (put_header c (take a w) (slice w (Suc a) k)) (drop (Suc k) w)
               else Inl InvalidRange
           | None \<Rightarrow>
               Inr (True, (put_header c (take a w) (drop (Suc a) w))\<lparr>ctx_state := ALLOK\<rparr>, [])))"
  by pat_completeness auto
termination
  by (relation "measure (\<lambda>(c, w). length w)") (auto dest: find_char_SomeD(1))

declare spec_fields.simps [simp del]

definition spec_body :: "HttpContext \<Rightarrow> string \<Rightarrow> (bool \<times> HttpContext \<times> string) result" where
  "spec_body c w =
     bind_result (stoi (HttpRequest_getHeader (ctx_request c) ''Content-Length'')) (\<lambda>n.
     if n \<noteq> to_int32 (int (length w)) then Inr (False, c, w) else spec_fields c w)"

definition spec_header :: "HttpContext \<Rightarrow> string \<Rightarrow> HttpContext" where
  "spec_header c line =
     (case find_char (CHR '':'') line of
        Some k \<Rightarrow> put_header c (take k line) (header_value (drop (Suc k) line))
      | None \<Rightarrow> c\<lparr>ctx_state :=
          (if req_method (ctx_request c) = GET then ALLOK else EXPECTBODY)\<rparr>)"

function spec_parse ::
  "Timestamp \<Rightarrow> HttpContext \<Rightarrow> string \<Rightarrow> (bool \<times> HttpContext \<times> string) result" where
  "spec_parse t c w =
     (case ctx_state c of
        EXPECTREQUESTLINE \<Rightarrow>
          (case find_sub CRLF w of
             None \<Rightarrow> Inr (True, c, w)
           | Some k \<Rightarrow>
               (case line_parse c (take k w) of
                  Inl e \<Rightarrow> Inl e
                | Inr (ok, c') \<Rightarrow>
                    if ok then spec_parse t (begin_headers t c') (drop (k + 2) w)
                    else Inr (False, c', w)))
      | EXPECTHEADERS \<Rightarrow>
          (case find_sub CRLF w of
             None \<Rightarrow> Inr (True, c, w)
           | Some k \<Rightarrow> spec_parse t (spec_header c (take k w)) (drop (k + 2) w))
      | EXPECTBODY \<Rightarrow> spec_body c w
      | ALLOK \<Rightarrow> Inr (True, c, w))"
  by pat_completeness auto
termination
  by (relation "measure (\<lambda>(t, c, w). length w)")
    (auto dest!: find_sub_SomeD simp: CRLF_def)

declare spec_parse.simps [simp del]

section \<open>Pointers into a line\<close>

text \<open>
  Code that runs on the range \<open>[b, e)\<close> of a block does what it does on the extracted line, with
  every pointer moved by \<open>b\<close>.
\<close>

definition in_block :: "string \<Rightarrow> nat \<Rightarrow> nat \<Rightarrow> bool" where
  "in_block m b e \<longleftrightarrow> b \<le> e \<and> e \<le> length m"

named_theorems shift_simps \<open>moving pointers from a block to a line of it\<close>

lemma slice_shift [shift_simps]:
  "in_block m b e \<Longrightarrow> j \<le> e - b \<Longrightarrow> slice m (b + i) (b + j) = slice (slice m b e) i j"
  by (auto simp: in_block_def slice_def drop_take min_def add.commute)

lemma length_line [shift_simps]: "in_block m b e \<Longrightarrow> length (slice m b e) = e - b"
  by (simp add: in_block_def)

lemma nth_shift [shift_simps]: "in_block m b e \<Longrightarrow> k < e - b \<Longrightarrow> m ! (b + k) = slice m b e ! k"
  by (simp add: in_block_def nth_slice)

lemma range_string_shift [shift_simps]:
  "in_block m b e \<Longrightarrow> j \<le> e - b \<Longrightarrow>
   range_string m (b + i) (b + j) = range_string (slice m b e) i j"
  using slice_shift [of m b e j i] by (auto simp: range_string_def in_block_def)

lemma cpp_find_shift [shift_simps]:
  assumes "in_block m b e" "i \<le> j" "j \<le> e - b"
  shows "cpp_find m (b + i) (b + j) ch = b + cpp_find (slice m b e) i j ch"
proof -
  have "slice m (b + i) (b + j) = slice (slice m b e) i j" using assms by (intro slice_shift)
  moreover have "b + j \<le> length m" "b + i \<le> b + j" using assms by (auto simp: in_block_def)
  ultimately show ?thesis
    using assms by (simp add: cpp_find_eq [of "b + i"] cpp_find_eq [of i] length_line)
qed

lemma find_in_line: "in_block m b e \<Longrightarrow> i \<le> j \<Longrightarrow> j \<le> e - b \<Longrightarrow>
   i \<le> cpp_find (slice m b e) i j ch \<and> cpp_find (slice m b e) i j ch \<le> j"
  by (intro cpp_find_bounds) (simp_all add: length_line)

lemma setMethod_shift [shift_simps]:
  "in_block m b e \<Longrightarrow> j \<le> e - b \<Longrightarrow>
   HttpRequest_setMethod r m (b + i) (b + j) = HttpRequest_setMethod r (slice m b e) i j"
  by (simp add: HttpRequest_setMethod_def range_string_shift)

lemma parse_target_shift [shift_simps]:
  assumes "in_block m b e" "i \<le> j" "j \<le> e - b"
  shows "parse_target r m (b + i) (b + j) = parse_target r (slice m b e) i j"
  using find_in_line [OF assms, of "CHR ''?''"] assms
    range_string_shift [of m b e j "Suc (cpp_find (slice m b e) i j (CHR ''?''))"]
  by (simp add: parse_target_def HttpRequest_setPath_def HttpRequest_setQuery_def
      cpp_find_shift range_string_shift Let_def)

lemma parse_version_shift [shift_simps]:
  assumes "in_block m b e" "i \<le> e - b"
  shows "parse_version r m (b + i) e = parse_version r (slice m b e) i (e - b)"
proof (cases "e - b - i = 8")
  case True
  then have "slice m (b + i) (e - 1) = slice (slice m b e) i (e - b - 1)"
    using slice_shift [of m b e "e - b - 1" i] assms by (simp add: in_block_def)
  moreover have "m ! (e - 1) = slice m b e ! (e - b - 1)"
    using nth_shift [of m b e "e - b - 1"] assms True by (simp add: in_block_def)
  ultimately show ?thesis by (simp add: parse_version_def)
next
  case False
  then show ?thesis by (simp add: parse_version_def)
qed

lemma parseRequestLine_line:
  assumes blk: "in_block m b e"
  shows "HttpContext_parseRequestLine c m b e = line_parse c (slice m b e)"
proof -
  let ?l = "slice m b e" and ?n = "e - b"
  define s where "s = cpp_find ?l 0 ?n (CHR '' '')"
  have s: "s \<le> ?n" using find_in_line [OF blk, of 0 ?n "CHR '' ''"] by (simp add: s_def)
  have e: "b + ?n = e" using blk by (simp add: in_block_def)
  have s1: "cpp_find m b e (CHR '' '') = b + s"
    using cpp_find_shift [OF blk, of 0 ?n "CHR '' ''"] e by (simp add: s_def)
  show ?thesis
  proof (cases "s = ?n")
    case True
    then show ?thesis
      using s1 e blk
      by (simp add: HttpContext_parseRequestLine_def line_parse_def length_line s_def)
  next
    case False
    then have sn: "Suc s \<le> ?n" using s by simp
    define q where "q = cpp_find ?l (Suc s) ?n (CHR '' '')"
    have q: "Suc s \<le> q" "q \<le> ?n" using find_in_line [OF blk sn, of "CHR '' ''"] by (simp_all add: q_def)
    have q1: "cpp_find m (Suc (b + s)) e (CHR '' '') = b + q"
      using cpp_find_shift [OF blk sn, of "CHR '' ''"] e by (simp add: q_def)
    have tgt: "parse_target r m (Suc (b + s)) (b + q) = parse_target r ?l (Suc s) q" for r
      using parse_target_shift [OF blk q] by simp
    have ver: "parse_version r m (Suc (b + q)) e = parse_version r ?l (Suc q) ?n" if "q \<noteq> ?n" for r
      using parse_version_shift [OF blk, of "Suc q" r] q that by simp
    have met: "HttpRequest_setMethod r m b (b + s) = HttpRequest_setMethod r ?l 0 s" for r
      using setMethod_shift [OF blk s, of r 0] by simp
    have ne: "b + s \<noteq> e" and qe: "b + q = e \<longleftrightarrow> q = ?n" using False e by auto
    have ls: "cpp_find ?l 0 ?n (CHR '' '') = s" "cpp_find ?l (Suc s) ?n (CHR '' '') = q"
      by (simp_all add: s_def q_def)
    show ?thesis
      using blk False ver
      by (cases "q = ?n")
        (simp_all add: HttpContext_parseRequestLine_def line_parse_def length_line
          s1 q1 ls tgt met ne qe e Let_def cong: if_cong)
  qed
qed

section \<open>Refinement\<close>

text \<open>After a body the reader index is one past the writer index.\<close>

definition overrun :: "HyBuffer \<Rightarrow> bool" where
  "overrun b \<longleftrightarrow> readerIndex b = Suc (writerIndex b) \<and> writerIndex b \<le> length (buffer b)
     \<and> length (buffer b) < 2 ^ 63"

definition final_buf :: "bool \<Rightarrow> HttpContext \<Rightarrow> string \<Rightarrow> HyBuffer \<Rightarrow> bool" where
  "final_buf ok c w b \<longleftrightarrow>
     (if ok \<and> ctx_state c = ALLOK \<and> req_method (ctx_request c) \<noteq> GET then overrun b
      else buf_wf b \<and> contents b = w)"

lemma slice_contents:
  assumes "buf_wf b" "k \<le> length (contents b)"
  shows "slice (buffer b) (readerIndex b + i) (readerIndex b + k) = slice (contents b) i k"
proof -
  from assms have "in_block (buffer b) (readerIndex b) (writerIndex b)"
    by (simp add: in_block_def buf_wf_def)
  then show ?thesis
    using assms slice_shift [of "buffer b" "readerIndex b" "writerIndex b" k i]
    by (simp add: length_contents contents_def [symmetric])
qed

lemma range_string_contents:
  assumes "buf_wf b" "k \<le> length (contents b)"
  shows "range_string (buffer b) (readerIndex b + i) (readerIndex b + k)
    = range_string (contents b) i k"
  using assms slice_contents [OF assms] by (auto simp: range_string_def length_contents buf_wf_def)

lemma clearUntil_contents:
  assumes "buf_wf b" "k \<le> length (contents b)"
  shows "buf_wf (HyBuffer_clearUntil b (readerIndex b + k))"
    and "contents (HyBuffer_clearUntil b (readerIndex b + k)) = drop k (contents b)"
proof -
  have "HyBuffer_clearUntil b (readerIndex b + k) = HyBuffer_clear b k"
    using assms by (subst clearUntil_wf) (auto simp: length_contents buf_wf_def)
  then show "buf_wf (HyBuffer_clearUntil b (readerIndex b + k))"
    and "contents (HyBuffer_clearUntil b (readerIndex b + k)) = drop k (contents b)"
    using clear_wf [OF assms] by simp_all
qed

lemma overrun_after_body:
  "buf_wf b \<Longrightarrow> overrun (HyBuffer_clearUntil b (HyBuffer_getEOL b + 1))"
  by (simp add: overrun_def HyBuffer_clearUntil_def HyBuffer_clear_def HyBuffer_payload_def
      HyBuffer_getEOL_def cpp_simps buf_wf_def)

text \<open>One field of a body.\<close>

lemma step_body_field_spec:
  assumes wf: "buf_wf (pv_buf v)" and w: "w = contents (pv_buf v)"
  shows "find_char (CHR ''='') w = None \<Longrightarrow>
      step_body_field v = Inr (v\<lparr>pv_correct := False, pv_hasMore := False\<rparr>)"
    and "find_char (CHR ''='') w = Some a \<Longrightarrow> find_char (CHR ''&'') w = None \<Longrightarrow>
      step_body_field v = Inr (v\<lparr>pv_hasMore := False,
        pv_ctx := (put_header (pv_ctx v) (take a w) (drop (Suc a) w))\<lparr>ctx_state := ALLOK\<rparr>,
        pv_buf := HyBuffer_clearUntil (pv_buf v) (HyBuffer_getEOL (pv_buf v) + 1)\<rparr>)"
    and "find_char (CHR ''='') w = Some a \<Longrightarrow> find_char (CHR ''&'') w = Some k \<Longrightarrow>
      step_body_field v = (if a < k then Inr (v\<lparr>
        pv_ctx := put_header (pv_ctx v) (take a w) (slice w (Suc a) k),
        pv_buf := HyBuffer_clearUntil (pv_buf v) (readerIndex (pv_buf v) + Suc k)\<rparr>)
        else Inl InvalidRange)"
proof -
  let ?b = "pv_buf v"
  have len: "writerIndex ?b = readerIndex ?b + length w"
    using wf w by (auto simp: length_contents buf_wf_def)
  note rs = range_string_contents [OF wf, folded w]
  show "step_body_field v = Inr (v\<lparr>pv_correct := False, pv_hasMore := False\<rparr>)"
    if "find_char (CHR ''='') w = None"
    using that wf w by (simp add: step_body_field_def getAssignment_contents)
  show "step_body_field v = Inr (v\<lparr>pv_hasMore := False,
        pv_ctx := (put_header (pv_ctx v) (take a w) (drop (Suc a) w))\<lparr>ctx_state := ALLOK\<rparr>,
        pv_buf := HyBuffer_clearUntil ?b (HyBuffer_getEOL ?b + 1)\<rparr>)"
    if "find_char (CHR ''='') w = Some a" "find_char (CHR ''&'') w = None"
    using that wf w find_char_SomeD(1) [OF that(1)] rs [of a 0] rs [of "length w" "Suc a"]
    by (simp add: step_body_field_def getAssignment_contents getAND_contents HttpRequest_addBody_def
        HyBuffer_payload_def HyBuffer_getEOL_def len put_header_def range_string_def slice_def Let_def)
  show "step_body_field v = (if a < k then Inr (v\<lparr>
        pv_ctx := put_header (pv_ctx v) (take a w) (slice w (Suc a) k),
        pv_buf := HyBuffer_clearUntil ?b (readerIndex ?b + Suc k)\<rparr>)
        else Inl InvalidRange)"
    if "find_char (CHR ''='') w = Some a" "find_char (CHR ''&'') w = Some k"
    using that wf w find_char_SomeD(1) [OF that(1)] find_char_SomeD(1) [OF that(2)]
      rs [of a 0] rs [of k "Suc a"]
    by (simp add: step_body_field_def getAssignment_contents getAND_contents HttpRequest_addBody_def
        HyBuffer_payload_def put_header_def range_string_def slice_def Let_def)
qed

text \<open>The body loop.\<close>

abbreviation parse_start :: "HttpContext \<Rightarrow> HyBuffer \<Rightarrow> parse_vars" where
  "parse_start c b \<equiv> \<lparr>pv_correct = True, pv_hasMore = True, pv_ctx = c, pv_buf = b\<rparr>"

abbreviation parse_end :: "bool \<Rightarrow> HttpContext \<Rightarrow> HyBuffer \<Rightarrow> parse_vars" where
  "parse_end ok c b \<equiv> \<lparr>pv_correct = ok, pv_hasMore = False, pv_ctx = c, pv_buf = b\<rparr>"

lemma body_loop_refines:
  assumes "buf_wf b" and "contents b = w"
  shows "case spec_fields c w of
      Inl e \<Rightarrow> cpp_while pv_hasMore (\<lambda>v. Some (step_body_field v)) (parse_start c b) = Some (Inl e)
    | Inr (ok, c', w') \<Rightarrow> \<exists>b'.
        cpp_while pv_hasMore (\<lambda>v. Some (step_body_field v)) (parse_start c b)
          = Some (Inr (parse_end ok c' b'))
        \<and> (if ok then overrun b' else buf_wf b' \<and> contents b' = w')"
  using assms
proof (induction c w arbitrary: b rule: spec_fields.induct)
  case (1 c w)
  let ?v = "parse_start c b" and ?f = "\<lambda>v. Some (step_body_field v)"
  have v: "buf_wf (pv_buf ?v)" "w = contents (pv_buf ?v)" using "1.prems" by simp_all
  note st = step_body_field_spec [OF v]
  show ?case
  proof (cases "find_char (CHR ''='') w")
    case None
    then have "cpp_while pv_hasMore ?f ?v = Some (Inr (parse_end False c b))"
      using st(1) by (simp add: cpp_while_step cpp_while_done)
    then show ?thesis using None "1.prems" by (simp add: spec_fields.simps [of c w])
  next
    case a: (Some a)
    show ?thesis
    proof (cases "find_char (CHR ''&'') w")
      case None
      then show ?thesis
        using st(2) [OF a None] a overrun_after_body [OF "1.prems"(1)]
        by (simp add: cpp_while_step cpp_while_done spec_fields.simps [of c w])
    next
      case k: (Some k)
      show ?thesis
      proof (cases "a < k")
        case True
        let ?b = "HyBuffer_clearUntil b (readerIndex b + Suc k)"
        have "Suc k \<le> length (contents b)" using find_char_SomeD(1) [OF k] "1.prems" by simp
        then have "buf_wf ?b" "contents ?b = drop (Suc k) w"
          using clearUntil_contents [OF "1.prems"(1), of "Suc k"] "1.prems"(2) by simp_all
        note IH = "1.IH" [OF a k True this]
        have "cpp_while pv_hasMore ?f ?v =
          cpp_while pv_hasMore ?f (parse_start (put_header c (take a w) (slice w (Suc a) k)) ?b)"
          using st(3) [OF a k] True by (simp add: cpp_while_step)
        moreover have "spec_fields c w =
          spec_fields (put_header c (take a w) (slice w (Suc a) k)) (drop (Suc k) w)"
          using a k True by (simp add: spec_fields.simps [of c w])
        ultimately show ?thesis using IH by (simp only:)
      next
        case False
        then show ?thesis
          using st(3) [OF a k] a k by (simp add: cpp_while_error spec_fields.simps [of c w])
      qed
    qed
  qed
qed

lemma spec_fields_method:
  "spec_fields c w = Inr (ok, c', w') \<Longrightarrow>
   req_method (ctx_request c') = req_method (ctx_request c)
   \<and> req_version (ctx_request c') = req_version (ctx_request c)
   \<and> ctx_state c' = (if ok then ALLOK else ctx_state c)"
proof (induction c w rule: spec_fields.induct)
  case (1 c w)
  show ?case
    using "1.prems" "1.IH" unfolding spec_fields.simps [of c w]
    by (auto simp: put_header_def split: option.splits if_splits)
qed

definition body_not_get :: "HttpContext \<Rightarrow> bool" where
  "body_not_get c \<longleftrightarrow> (ctx_state c = EXPECTBODY \<longrightarrow> req_method (ctx_request c) \<noteq> GET)"

lemma step_body_refines:
  assumes wf: "buf_wf b" and w: "contents b = w" and c: "ctx_state c = EXPECTBODY"
    and post: "body_not_get c"
  shows "case spec_body c w of
      Inl e \<Rightarrow> step_body (parse_start c b) = Some (Inl e)
    | Inr (ok, c', w') \<Rightarrow> \<exists>b'. step_body (parse_start c b) = Some (Inr (parse_end ok c' b'))
        \<and> final_buf ok c' w' b'"
proof (cases "stoi (HttpRequest_getHeader (ctx_request c) ''Content-Length'')")
  case (Inl e)
  then show ?thesis by (simp add: spec_body_def step_body_def)
next
  case (Inr n)
  have len: "int (HyBuffer_getEOL b) - int (HyBuffer_payload b) = int (length w)"
    using length_contents [OF wf] w wf
    by (simp add: HyBuffer_getEOL_def HyBuffer_payload_def buf_wf_def)
  show ?thesis
  proof (cases "n = to_int32 (int (length w))")
    case False
    then show ?thesis
      using Inr len wf w by (simp add: spec_body_def step_body_def cpp_while_done final_buf_def)
  next
    case True
    then have eq: "step_body (parse_start c b) =
        cpp_while pv_hasMore (\<lambda>v. Some (step_body_field v)) (parse_start c b)"
      "spec_body c w = spec_fields c w"
      using Inr len by (simp_all add: step_body_def spec_body_def)
    show ?thesis
      using body_loop_refines [OF wf w, of c] spec_fields_method [of c w] post c
      by (auto simp: eq final_buf_def body_not_get_def split: sum.splits)
  qed
qed

text \<open>A line in the buffer: the first CRLF of the contents and what its pointer delimits.\<close>

lemma crlf_line:
  assumes wf: "buf_wf b" and k: "find_sub CRLF (contents b) = Some k"
  shows "k + 2 \<le> length (contents b)"
    and "in_block (buffer b) (readerIndex b) (readerIndex b + k)"
    and "slice (buffer b) (readerIndex b) (readerIndex b + k) = take k (contents b)"
    and "buffer b ! (readerIndex b + k) = CHR 0x0D"
    and "readerIndex b + k < length (buffer b)"
proof -
  have k2: "k + 2 \<le> length (contents b)" "take 2 (drop k (contents b)) = CRLF"
    using find_sub_SomeD [OF k] by (simp_all add: CRLF_def numeral_2_eq_2)
  show "k + 2 \<le> length (contents b)" by (rule k2(1))
  show "in_block (buffer b) (readerIndex b) (readerIndex b + k)"
    and lt: "readerIndex b + k < length (buffer b)"
    using wf k2(1) by (auto simp: in_block_def length_contents buf_wf_def)
  show "slice (buffer b) (readerIndex b) (readerIndex b + k) = take k (contents b)"
    using slice_contents [OF wf, of k 0] k2(1) by (simp add: slice_def)
  have "contents b ! k = hd (drop k (contents b))" using k2(1) by (simp add: hd_drop_conv_nth)
  also have "\<dots> = CHR 0x0D"
    using k2(2) by (cases "drop k (contents b)") (auto simp: CRLF_def numeral_2_eq_2)
  finally show "buffer b ! (readerIndex b + k) = CHR 0x0D"
    using nth_slice [of "writerIndex b" "buffer b" k "readerIndex b"] wf k2(1)
    by (simp add: contents_def [symmetric] length_contents buf_wf_def)
qed

lemma step_requestLine_spec:
  assumes wf: "buf_wf b"
  shows "find_sub CRLF (contents b) = None \<Longrightarrow>
      step_requestLine t (parse_start c b) = Inr (parse_end True c b)"
    and "find_sub CRLF (contents b) = Some k \<Longrightarrow>
      step_requestLine t (parse_start c b) =
        bind_result (line_parse c (take k (contents b))) (\<lambda>(ok, c').
          if ok then Inr (parse_start (begin_headers t c')
                 (HyBuffer_clearUntil b (readerIndex b + (k + 2))))
          else Inr (parse_end False c' b))"
proof -
  show "step_requestLine t (parse_start c b) = Inr (parse_end True c b)"
    if "find_sub CRLF (contents b) = None"
    using that by (simp add: step_requestLine_def getCRLF_contents [OF wf])
  assume k: "find_sub CRLF (contents b) = Some k"
  note line = crlf_line [OF wf k]
  show "step_requestLine t (parse_start c b) =
        bind_result (line_parse c (take k (contents b))) (\<lambda>(ok, c').
          if ok then Inr (parse_start (begin_headers t c')
                 (HyBuffer_clearUntil b (readerIndex b + (k + 2))))
          else Inr (parse_end False c' b))"
    by (simp add: step_requestLine_def getCRLF_contents [OF wf] k HyBuffer_payload_def
        parseRequestLine_line [OF line(2)] line(3) begin_headers_def cong: if_cong)
qed

lemma step_headers_spec:
  assumes wf: "buf_wf b" and st: "ctx_state c = EXPECTHEADERS"
  shows "find_sub CRLF (contents b) = None \<Longrightarrow>
      step_headers (parse_start c b) = Inr (parse_end True c b)"
    and "find_sub CRLF (contents b) = Some k \<Longrightarrow> c' = spec_header c (take k (contents b)) \<Longrightarrow>
      step_headers (parse_start c b) = Inr \<lparr>pv_correct = True, pv_hasMore = ctx_state c' \<noteq> ALLOK,
        pv_ctx = c', pv_buf = HyBuffer_clearUntil b (readerIndex b + (k + 2))\<rparr>"
proof -
  show "step_headers (parse_start c b) = Inr (parse_end True c b)"
    if "find_sub CRLF (contents b) = None"
    using that by (simp add: step_headers_def getCRLF_contents [OF wf])
  assume k: "find_sub CRLF (contents b) = Some k" and c': "c' = spec_header c (take k (contents b))"
  note line = crlf_line [OF wf k]
  let ?l = "take k (contents b)"
  have colon: "cpp_find (buffer b) (readerIndex b) (readerIndex b + k) (CHR '':'')
      = (case find_char (CHR '':'') ?l of None \<Rightarrow> readerIndex b + k | Some j \<Rightarrow> readerIndex b + j)"
    using line(2,3) by (simp add: cpp_find_find_char in_block_def)
  show "step_headers (parse_start c b) = Inr \<lparr>pv_correct = True, pv_hasMore = ctx_state c' \<noteq> ALLOK,
        pv_ctx = c', pv_buf = HyBuffer_clearUntil b (readerIndex b + (k + 2))\<rparr>"
  proof (cases "find_char (CHR '':'') ?l")
    case None
    then show ?thesis
      using c' colon
      by (simp add: step_headers_def getCRLF_contents [OF wf] k HyBuffer_payload_def spec_header_def Let_def)
  next
    case (Some j)
    then have j: "j < k" using find_char_SomeD(1) [OF Some] line(1) by simp
    have "slice (buffer b) (readerIndex b) (readerIndex b + j) = take j ?l"
      "slice (buffer b) (Suc (readerIndex b + j)) (readerIndex b + k) = drop (Suc j) ?l"
      using slice_contents [OF wf, of j 0] slice_contents [OF wf, of k "Suc j"] j line(1)
      by (simp_all add: slice_def min_def drop_take)
    then show ?thesis
      using c' colon Some st j line(4,5)
      by (simp add: step_headers_def getCRLF_contents [OF wf] k HyBuffer_payload_def
          addHeader_value spec_header_def put_header_def Let_def)
  qed
qed

lemma spec_header_cases:
  "ctx_state c = EXPECTHEADERS \<Longrightarrow> c' = spec_header c l \<Longrightarrow>
   body_not_get c' \<and> ctx_state c' \<noteq> EXPECTREQUESTLINE
   \<and> (ctx_state c' = ALLOK \<longrightarrow> req_method (ctx_request c') = GET)"
  by (auto simp: spec_header_def put_header_def body_not_get_def split: option.splits)

text \<open>\<open>parse_agrees\<close>: the loop run from here does what the reference parser does on the contents.\<close>

definition parse_agrees :: "Timestamp \<Rightarrow> HttpContext \<Rightarrow> HyBuffer \<Rightarrow> bool" where
  "parse_agrees t c b \<longleftrightarrow>
     (case spec_parse t c (contents b) of
        Inl e \<Rightarrow> cpp_while pv_hasMore (parse_step t) (parse_start c b) = Some (Inl e)
      | Inr (ok, c', w') \<Rightarrow> \<exists>b'.
          cpp_while pv_hasMore (parse_step t) (parse_start c b) = Some (Inr (parse_end ok c' b'))
          \<and> final_buf ok c' w' b')"

lemma agrees_next:
  assumes "parse_step t (parse_start c b) = Some (Inr (parse_start c1 b1))"
    and "spec_parse t c (contents b) = spec_parse t c1 (contents b1)"
    and "parse_agrees t c1 b1"
  shows "parse_agrees t c b"
proof -
  have "cpp_while pv_hasMore (parse_step t) (parse_start c b) =
      cpp_while pv_hasMore (parse_step t) (parse_start c1 b1)"
    by (rule cpp_while_step) (simp_all add: assms(1))
  with assms(2,3) show ?thesis by (simp only: parse_agrees_def)
qed

lemma agrees_stop:
  assumes "parse_step t (parse_start c b) = Some (Inr (parse_end ok c1 b1))"
    and "spec_parse t c (contents b) = Inr (ok, c1, w1)" and "final_buf ok c1 w1 b1"
  shows "parse_agrees t c b"
  using assms by (simp add: parse_agrees_def cpp_while_step cpp_while_done)

lemma agrees_error:
  assumes "parse_step t (parse_start c b) = Some (Inl e)"
    and "spec_parse t c (contents b) = Inl e"
  shows "parse_agrees t c b"
  using assms by (simp add: parse_agrees_def cpp_while_error)

abbreviation next_line :: "HyBuffer \<Rightarrow> nat \<Rightarrow> HyBuffer" where
  "next_line b k \<equiv> HyBuffer_clearUntil b (readerIndex b + (k + 2))"

lemma next_line_contents:
  assumes "buf_wf b" "find_sub CRLF (contents b) = Some k"
  shows "buf_wf (next_line b k)" "contents (next_line b k) = drop (k + 2) (contents b)"
    "length (contents (next_line b k)) < length (contents b)"
  using clearUntil_contents [OF assms(1), of "k + 2"] crlf_line(1) [OF assms] by simp_all

lemma agrees_requestLine:
  assumes wf: "buf_wf b" and st: "ctx_state c = EXPECTREQUESTLINE"
    and IH: "\<And>k c'. find_sub CRLF (contents b) = Some k \<Longrightarrow>
      parse_agrees t (begin_headers t c') (next_line b k)"
  shows "parse_agrees t c b"
proof (cases "find_sub CRLF (contents b)")
  case None
  then show ?thesis
    using step_requestLine_spec(1) [OF wf None] st wf
    by (intro agrees_stop) (auto simp: parse_step_def spec_parse.simps [of t c] final_buf_def)
next
  case (Some k)
  note step = step_requestLine_spec(2) [OF wf Some] and nl = next_line_contents [OF wf Some]
  show ?thesis
  proof (cases "line_parse c (take k (contents b))")
    case (Inl e)
    then show ?thesis
      using step Some st by (intro agrees_error) (auto simp: parse_step_def spec_parse.simps [of t c])
  next
    case (Inr r)
    obtain ok c' where r: "r = (ok, c')" by (cases r)
    show ?thesis
    proof (cases ok)
      case True
      then show ?thesis
        using step Some st Inr r nl IH [OF Some]
        by (intro agrees_next [of t c b "begin_headers t c'" "next_line b k"])
          (simp_all add: parse_step_def spec_parse.simps [of t c])
    next
      case False
      then show ?thesis
        using step Some st Inr r wf
        by (intro agrees_stop [of t c b False c' b "contents b"])
          (simp_all add: parse_step_def spec_parse.simps [of t c] final_buf_def)
    qed
  qed
qed

lemma agrees_headers:
  assumes wf: "buf_wf b" and st: "ctx_state c = EXPECTHEADERS"
    and IH: "\<And>k c'. find_sub CRLF (contents b) = Some k \<Longrightarrow> ctx_state c' \<noteq> ALLOK \<Longrightarrow>
      body_not_get c' \<Longrightarrow> parse_agrees t c' (next_line b k)"
  shows "parse_agrees t c b"
proof (cases "find_sub CRLF (contents b)")
  case None
  then show ?thesis
    using step_headers_spec(1) [OF wf st None] st wf
    by (intro agrees_stop) (auto simp: parse_step_def spec_parse.simps [of t c] final_buf_def)
next
  case (Some k)
  define c' where "c' = spec_header c (take k (contents b))"
  note step = step_headers_spec(2) [OF wf st Some c'_def] and nl = next_line_contents [OF wf Some]
  have sp: "spec_parse t c (contents b) = spec_parse t c' (contents (next_line b k))"
    using Some st nl by (simp add: spec_parse.simps [of t c] c'_def)
  note hc = spec_header_cases [OF st c'_def]
  show ?thesis
  proof (cases "ctx_state c' = ALLOK")
    case True
    then show ?thesis
      using step st sp nl hc
      by (intro agrees_stop [of t c b True c' "next_line b k" "contents (next_line b k)"])
        (simp_all add: parse_step_def spec_parse.simps [of t c'] final_buf_def)
  next
    case False
    then show ?thesis
      using step st sp hc IH [OF Some False]
      by (intro agrees_next [of t c b c' "next_line b k"]) (simp_all add: parse_step_def)
  qed
qed

lemma agrees_body:
  assumes "buf_wf b" and st: "ctx_state c = EXPECTBODY" and "body_not_get c"
  shows "parse_agrees t c b"
  using step_body_refines [OF assms(1) refl st assms(3)] st
  by (auto simp: spec_parse.simps [of t c] parse_step_def parse_agrees_def
      cpp_while_step cpp_while_done cpp_while_error split: sum.splits)

lemma parse_loop_refines:
  "buf_wf b \<Longrightarrow> ctx_state c \<noteq> ALLOK \<Longrightarrow> body_not_get c \<Longrightarrow> parse_agrees t c b"
proof (induction "length (contents b)" arbitrary: b c rule: less_induct)
  case less
  have IH: "parse_agrees t c' (next_line b k)"
    if "find_sub CRLF (contents b) = Some k" "ctx_state c' \<noteq> ALLOK" "body_not_get c'" for k c'
    using less.hyps [of "next_line b k" c'] next_line_contents [OF less.prems(1) that(1)] that(2,3)
    by simp
  show ?case
  proof (cases "ctx_state c")
    case EXPECTREQUESTLINE
    show ?thesis
      by (rule agrees_requestLine [OF less.prems(1) EXPECTREQUESTLINE], rule IH)
        (simp_all add: begin_headers_def body_not_get_def)
  next
    case EXPECTHEADERS
    show ?thesis
      by (rule agrees_headers [OF less.prems(1) EXPECTHEADERS], rule IH) simp_all
  next
    case EXPECTBODY
    then show ?thesis using less.prems by (intro agrees_body)
  next
    case ALLOK
    with less.prems show ?thesis by simp
  qed
qed

lemma parseRequest_refines:
  assumes "buf_wf b" and "ctx_state c \<noteq> ALLOK" and "body_not_get c"
  shows "case spec_parse t c (contents b) of
      Inl e \<Rightarrow> HttpContext_parseRequest c b t = Some (Inl e)
    | Inr (ok, c', w') \<Rightarrow> \<exists>b'. HttpContext_parseRequest c b t = Some (Inr (ok, c', b'))
        \<and> final_buf ok c' w' b'"
  using parse_loop_refines [OF assms, of t]
  by (auto simp: parse_agrees_def HttpContext_parseRequest_def split: sum.splits)

end
