(* ===== verification/HttpParserProps.thy ===== *)
theory HttpParserProps
  imports HttpParser
begin

text \<open>
  Properties of the request parser: it returns on every buffer and never fails an assertion from
  a context it left in good order, parsing inverts printing for GET and POST requests, and the
  way a GET request is split into reads does not matter. The error cases follow.
\<close>

section \<open>Lines\<close>

lemma find_sub_line: "CHR 0x0D \<notin> set l \<Longrightarrow> find_sub CRLF (l @ CRLF @ r) = Some (length l)"
proof (induction l)
  case Nil
  then show ?case by (simp add: CRLF_def)
next
  case (Cons x l)
  then have "take (length CRLF) (x # l @ CRLF @ r) \<noteq> CRLF" by (auto simp: CRLF_def)
  with Cons show ?case by simp
qed

lemma find_sub_prefix: "find_sub p w = Some k \<Longrightarrow> find_sub p (w @ x) = Some k"
proof (induction w arbitrary: k)
  case Nil
  then show ?case by simp
next
  case (Cons a w)
  show ?case
  proof (cases "take (length p) (a # w) = p")
    case True
    then have "length p \<le> length (a # w)" by (metis length_take min.cobounded1)
    with True Cons.prems show ?thesis using take_append [of "length p" "a # w" x] by simp
  next
    case False
    with Cons.prems obtain k' where k': "find_sub p w = Some k'" "k = Suc k'" by auto
    have "length p \<le> length (a # w)" using find_sub_SomeD [OF k'(1)] by simp
    then have "take (length p) (a # w @ x) = take (length p) (a # w)"
      by (simp add: take_append [of _ "a # w", simplified])
    with False k' Cons.IH [OF k'(1)] show ?thesis by simp
  qed
qed

section \<open>Well-formed request lines\<close>

definition method_text :: "Method \<Rightarrow> string" where
  "method_text m = (case m of GET \<Rightarrow> ''GET'' | POST \<Rightarrow> ''POST'' | INVALID \<Rightarrow> '''')"

definition version_text :: "Version \<Rightarrow> string" where
  "version_text v = (case v of HTTP10 \<Rightarrow> ''HTTP/1.0'' | HTTP11 \<Rightarrow> ''HTTP/1.1'' | UNKNOWN \<Rightarrow> '''')"

definition target_text :: "string \<Rightarrow> string option \<Rightarrow> string" where
  "target_text path q = path @ (case q of None \<Rightarrow> '''' | Some s \<Rightarrow> CHR ''?'' # s)"

definition request_line :: "Method \<Rightarrow> string \<Rightarrow> string option \<Rightarrow> Version \<Rightarrow> string" where
  "request_line m path q v =
     method_text m @ '' '' @ target_text path q @ '' '' @ version_text v"

definition target_ok :: "string \<Rightarrow> string option \<Rightarrow> bool" where
  "target_ok path q \<longleftrightarrow>
     CHR ''?'' \<notin> set path \<and> CHR '' '' \<notin> set (target_text path q)
     \<and> CHR 0x0D \<notin> set (target_text path q)"

lemma cpp_find_at:
  assumes "m = pre @ xs @ c # ys" "c \<notin> set xs" "i = length pre"
    "i + length xs < j" "j \<le> length m"
  shows "cpp_find m i j c = i + length xs"
proof -
  obtain zs where "slice m i j = xs @ c # zs"
  proof
    show "slice m i j = xs @ c # take (j - i - length xs - 1) ys"
      using assms by (auto simp: slice_def take_Cons' )
  qed
  then show ?thesis using assms by (simp add: cpp_find_find_char)
qed

lemma cpp_find_none:
  assumes "m = pre @ xs @ ys" "c \<notin> set xs" "i = length pre" "j = i + length xs"
  shows "cpp_find m i j c = j"
proof -
  have "slice m i j = xs" using assms by (simp add: slice_def)
  then have "find_char c (slice m i j) = None" using assms by (simp add: find_char_None)
  then show ?thesis using assms by (simp add: cpp_find_find_char)
qed

lemma parse_target_text:
  assumes "m = pre @ target_text path q @ post" "target_ok path q" "i = length pre"
    "j = i + length (target_text path q)"
  shows "parse_target r m i j = Inr (case q of
      None \<Rightarrow> r\<lparr>req_path := path\<rparr> | Some s \<Rightarrow> r\<lparr>req_path := path, req_query := s\<rparr>)"
proof (cases q)
  case None
  then have "cpp_find m i j (CHR ''?'') = j"
    using assms by (intro cpp_find_none) (auto simp: target_ok_def target_text_def)
  then show ?thesis
    using assms None
    by (simp add: parse_target_def HttpRequest_setPath_def range_string_def slice_def target_text_def)
next
  case (Some s)
  then have "cpp_find m i j (CHR ''?'') = i + length path"
    using assms by (intro cpp_find_at) (auto simp: target_ok_def target_text_def)
  then show ?thesis
    using assms Some
    by (simp add: parse_target_def HttpRequest_setPath_def HttpRequest_setQuery_def
        range_string_def slice_def target_text_def)
qed

lemma parse_version_text:
  assumes "m = pre @ version_text v" "v \<noteq> UNKNOWN" "i = length pre" "j = length m"
    "req_version r = UNKNOWN"
  shows "parse_version r m i j = Inr (True, r\<lparr>req_version := v\<rparr>)"
  using assms
  by (cases v) (simp_all add: parse_version_def version_text_def slice_def HttpRequest_setVersion_def
      nth_append)

definition request_after ::
  "HttpRequest \<Rightarrow> Method \<Rightarrow> string \<Rightarrow> string option \<Rightarrow> Version \<Rightarrow> HttpRequest" where
  "request_after r m path q v =
     r\<lparr>req_method := m, req_path := path,
       req_query := (case q of None \<Rightarrow> req_query r | Some s \<Rightarrow> s), req_version := v\<rparr>"

lemma line_parse_text:
  assumes m: "m \<noteq> INVALID" and v: "v \<noteq> UNKNOWN" and tgt: "target_ok path q"
    and fresh: "req_method (ctx_request c) = INVALID" "req_version (ctx_request c) = UNKNOWN"
  shows "line_parse c (request_line m path q v) =
    Inr (True, c\<lparr>ctx_request := request_after (ctx_request c) m path q v\<rparr>)"
proof -
  let ?M = "method_text m" and ?T = "target_text path q" and ?V = "version_text v"
  define l where "l = request_line m path q v"
  have l: "l = ?M @ CHR '' '' # ?T @ CHR '' '' # ?V" by (simp add: l_def request_line_def)
  have nosp: "CHR '' '' \<notin> set ?M" "CHR '' '' \<notin> set ?T"
    using tgt by (auto simp: method_text_def target_ok_def split: Method.splits)
  have s1: "cpp_find l 0 (length l) (CHR '' '') = length ?M"
    using nosp l cpp_find_at [of l "[]" ?M "CHR '' ''" "?T @ CHR '' '' # ?V" 0 "length l"] by simp
  have s2: "cpp_find l (Suc (length ?M)) (length l) (CHR '' '') = Suc (length ?M) + length ?T"
    using nosp l by (intro cpp_find_at [where pre = "?M @ '' ''"]) auto
  have sm: "HttpRequest_setMethod (ctx_request c) l 0 (length ?M)
      = Inr (True, (ctx_request c)\<lparr>req_method := m\<rparr>)"
    using fresh m l by (cases m) (simp_all add: HttpRequest_setMethod_def range_string_def
        slice_def method_text_def)
  have st: "parse_target r l (Suc (length ?M)) (Suc (length ?M) + length ?T) = Inr (case q of
      None \<Rightarrow> r\<lparr>req_path := path\<rparr> | Some s \<Rightarrow> r\<lparr>req_path := path, req_query := s\<rparr>)" for r
    using l tgt by (intro parse_target_text [where pre = "?M @ '' ''" and post = "CHR '' '' # ?V"]) auto
  have sv: "req_version r = UNKNOWN \<Longrightarrow>
      parse_version r l (Suc (Suc (length ?M) + length ?T)) (length l)
        = Inr (True, r\<lparr>req_version := v\<rparr>)" for r
    using l v by (intro parse_version_text [where pre = "?M @ '' '' @ ?T @ '' ''"]) auto
  have "Suc (length ?M) + length ?T \<noteq> length l" "length ?M \<noteq> length l" using l by auto
  then show ?thesis
    using s1 s2 sm st sv fresh unfolding l_def [symmetric]
    by (cases q) (simp_all add: line_parse_def HttpContext_parseRequestLine_def request_after_def Let_def)
qed

section \<open>Header lines\<close>

definition header_ok :: "string \<times> string \<Rightarrow> bool" where
  "header_ok h \<longleftrightarrow>
     (let (n, v) = h in CHR '':'' \<notin> set n \<and> CHR 0x0D \<notin> set n \<and> CHR 0x0D \<notin> set v
        \<and> strip v = v \<and> v \<noteq> [])"

definition header_line :: "string \<times> string \<Rightarrow> string" where
  "header_line h = fst h @ '': '' @ snd h @ CRLF"

definition headers_text :: "(string \<times> string) list \<Rightarrow> string" where
  "headers_text hs = concat (map header_line hs) @ CRLF"

definition put_headers :: "HttpContext \<Rightarrow> (string \<times> string) list \<Rightarrow> HttpContext" where
  "put_headers c hs =
     c\<lparr>ctx_request := (ctx_request c)
         \<lparr>req_headers := fold (\<lambda>(k, v). map_assign k v) hs (req_headers (ctx_request c))\<rparr>\<rparr>"

lemma put_headers_Nil [simp]: "put_headers c [] = c"
  by (simp add: put_headers_def)

lemma put_headers_Cons: "put_headers c ((k, v) # hs) = put_headers (put_header c k v) hs"
  by (simp add: put_headers_def put_header_def)

lemma put_header_state [simp]: "ctx_state (put_header c k v) = ctx_state c"
  "req_method (ctx_request (put_header c k v)) = req_method (ctx_request c)"
  by (simp_all add: put_header_def)

lemma strip_blank: "strip (CHR '' '' # v) = strip v"
  by (simp add: strip_def)

lemma spec_header_line:
  assumes "header_ok (n, v)"
  shows "spec_header c (n @ '': '' @ v) = put_header c n v"
proof -
  have "find_char (CHR '':'') (n @ CHR '':'' # CHR '' '' # v) = Some (length n)"
    using assms by (intro find_char_append) (simp add: header_ok_def)
  moreover have "header_value (CHR '' '' # v) = v"
    using assms by (simp add: header_value_def strip_blank header_ok_def)
  ultimately show ?thesis by (simp add: spec_header_def)
qed

text \<open>One complete line at the front of the input.\<close>

lemma spec_parse_header_line:
  assumes "ctx_state c = EXPECTHEADERS" and "CHR 0x0D \<notin> set l"
  shows "spec_parse t c (l @ CRLF @ r) = spec_parse t (spec_header c l) r"
proof -
  have "drop (length l + 2) (l @ CRLF @ r) = r" by (simp add: CRLF_def)
  then show ?thesis
    using assms find_sub_line [OF assms(2), of r] by (simp add: spec_parse.simps [of t c])
qed

lemma spec_parse_first_line:
  assumes "ctx_state c = EXPECTREQUESTLINE" and "CHR 0x0D \<notin> set l"
  shows "spec_parse t c (l @ CRLF @ r) =
    bind_result (line_parse c l) (\<lambda>(ok, c').
      if ok then spec_parse t (begin_headers t c') r else Inr (False, c', l @ CRLF @ r))"
proof -
  have "drop (length l + 2) (l @ CRLF @ r) = r" by (simp add: CRLF_def)
  then show ?thesis
    using assms find_sub_line [OF assms(2), of r]
    by (auto simp: spec_parse.simps [of t c] bind_result_def split: sum.splits prod.splits)
qed

lemma spec_parse_headers:
  "ctx_state c = EXPECTHEADERS \<Longrightarrow> list_all header_ok hs \<Longrightarrow>
   spec_parse t c (headers_text hs @ rest) =
   spec_parse t ((put_headers c hs)\<lparr>ctx_state :=
      (if req_method (ctx_request c) = GET then ALLOK else EXPECTBODY)\<rparr>) rest"
proof (induction hs arbitrary: c)
  case Nil
  have "spec_parse t c ([] @ CRLF @ rest) = spec_parse t (spec_header c []) rest"
    by (rule spec_parse_header_line) (simp_all add: Nil)
  then show ?case by (simp add: headers_text_def spec_header_def find_char_def)
next
  case (Cons h hs)
  obtain n v where h: "h = (n, v)" by (cases h)
  let ?l = "n @ '': '' @ v"
  have w: "headers_text (h # hs) @ rest = ?l @ CRLF @ headers_text hs @ rest"
    by (simp add: headers_text_def header_line_def h)
  have "CHR 0x0D \<notin> set ?l" using Cons.prems h by (auto simp: header_ok_def)
  then have "spec_parse t c (headers_text (h # hs) @ rest) =
      spec_parse t (put_header c n v) (headers_text hs @ rest)"
    using Cons.prems spec_header_line [of n v c] spec_parse_header_line [of c ?l t] h unfolding w
    by simp
  then show ?case using Cons h by (simp add: put_headers_Cons)
qed

lemma spec_parse_request_line:
  assumes "ctx_state c = EXPECTREQUESTLINE" "m \<noteq> INVALID" "v \<noteq> UNKNOWN" "target_ok path q"
    "req_method (ctx_request c) = INVALID" "req_version (ctx_request c) = UNKNOWN"
  shows "spec_parse t c (request_line m path q v @ CRLF @ rest) =
    spec_parse t (begin_headers t
      (c\<lparr>ctx_request := request_after (ctx_request c) m path q v\<rparr>)) rest"
proof -
  let ?l = "request_line m path q v"
  have "CHR 0x0D \<notin> set ?l"
    using assms by (auto simp: request_line_def method_text_def version_text_def target_ok_def
        split: Method.splits Version.splits)
  then show ?thesis
    using assms line_parse_text [of m v path q c] by (simp add: spec_parse_first_line)
qed

section \<open>Form bodies\<close>

definition field_ok :: "string \<times> string \<Rightarrow> bool" where
  "field_ok f \<longleftrightarrow>
     (let (n, v) = f in CHR ''='' \<notin> set n \<and> CHR ''&'' \<notin> set n \<and> CHR ''&'' \<notin> set v)"

fun fields_text :: "(string \<times> string) list \<Rightarrow> string" where
  "fields_text [] = []"
| "fields_text [(n, v)] = n @ ''='' @ v"
| "fields_text ((n, v) # f # fs) = n @ ''='' @ v @ ''&'' @ fields_text (f # fs)"

lemma spec_fields_text:
  "fs \<noteq> [] \<Longrightarrow> list_all field_ok fs \<Longrightarrow>
   spec_fields c (fields_text fs) = Inr (True, (put_headers c fs)\<lparr>ctx_state := ALLOK\<rparr>, [])"
proof (induction fs arbitrary: c rule: fields_text.induct)
  case 1
  then show ?case by simp
next
  case (2 n v)
  then have "find_char (CHR ''='') (n @ CHR ''='' # v) = Some (length n)"
    "find_char (CHR ''&'') (n @ CHR ''='' # v) = None"
    by (auto simp: field_ok_def find_char_None)
  then show ?case by (simp add: spec_fields.simps put_headers_Cons)
next
  case (3 n v f fs)
  let ?w = "fields_text ((n, v) # f # fs)" and ?p = "n @ CHR ''='' # v"
  have w: "?w = ?p @ CHR ''&'' # fields_text (f # fs)" by simp
  have "CHR ''&'' \<notin> set ?p" using 3 by (simp add: field_ok_def)
  then have k: "find_char (CHR ''&'') ?w = Some (length ?p)" unfolding w by (rule find_char_append)
  have a: "find_char (CHR ''='') ?w = Some (length n)"
    using 3 by (simp add: field_ok_def)
  have "slice ?w (Suc (length n)) (length ?p) = v" by (simp add: slice_def)
  moreover have "drop (Suc (length ?p)) ?w = fields_text (f # fs)" unfolding w by simp
  moreover have "take (length n) ?w = n" by simp
  ultimately have "spec_fields c ?w = spec_fields (put_header c n v) (fields_text (f # fs))"
    using a k by (simp add: spec_fields.simps [of c ?w] del: fields_text.simps)
  then show ?case using 3 by (simp add: put_headers_Cons del: fields_text.simps)
qed

section \<open>Splitting the input\<close>

lemma spec_parse_resume:
  "spec_parse t c w = Inr (True, c', w') \<Longrightarrow> ctx_state c' \<noteq> ALLOK \<Longrightarrow>
   spec_parse t c (w @ x) = spec_parse t c' (w' @ x)"
proof (induction t c w rule: spec_parse.induct)
  case (1 t c w)
  show ?case
  proof (cases "ctx_state c = EXPECTREQUESTLINE \<or> ctx_state c = EXPECTHEADERS")
    case True
    show ?thesis
    proof (cases "find_sub CRLF w")
      case None
      then show ?thesis using "1.prems" True by (auto simp: spec_parse.simps [of t c w])
    next
      case (Some k)
      note k = find_sub_prefix [OF Some, of x] find_sub_SomeD [OF Some]
      then have "take k (w @ x) = take k w" "drop (k + 2) (w @ x) = drop (k + 2) w @ x"
        by (simp_all add: CRLF_def)
      then show ?thesis
        using "1.prems" "1.IH" True Some k(1)
        by (auto simp: spec_parse.simps [of t c w] spec_parse.simps [of t c "w @ x"]
            split: sum.splits if_splits)
    qed
  next
    case False
    then have "ctx_state c = EXPECTBODY"
      using "1.prems" by (cases "ctx_state c") (auto simp: spec_parse.simps [of t c w])
    then show ?thesis
      using "1.prems" spec_fields_method [of c w True c' w']
      by (auto simp: spec_parse.simps [of t c w] spec_body_def bind_result_eq_Inr split: if_splits)
  qed
qed

section \<open>The context invariant\<close>

text \<open>
  Before a request line neither the method nor the version is set, after it both are; a body is
  expected only for POST. The assertions of \<open>setMethod\<close> and \<open>setVersion\<close> hold in such a context.
\<close>

definition ctx_inv :: "HttpContext \<Rightarrow> bool" where
  "ctx_inv c \<longleftrightarrow>
     (let r = ctx_request c in
      case ctx_state c of
        EXPECTREQUESTLINE \<Rightarrow> req_method r = INVALID \<and> req_version r = UNKNOWN
      | EXPECTBODY \<Rightarrow> req_method r = POST \<and> req_version r \<noteq> UNKNOWN
      | _ \<Rightarrow> req_method r \<noteq> INVALID \<and> req_version r \<noteq> UNKNOWN)"

lemma ctx_inv_new [simp]: "ctx_inv HttpContext_new"
  by (simp add: ctx_inv_def HttpContext_new_def HttpRequest_new_def)

lemma ctx_inv_body_not_get: "ctx_inv c \<Longrightarrow> body_not_get c"
  by (auto simp: ctx_inv_def body_not_get_def Let_def)

lemma parse_target_keeps:
  "i \<le> j \<Longrightarrow> j \<le> length m \<Longrightarrow>
   \<exists>r'. parse_target r m i j = Inr r' \<and> req_method r' = req_method r \<and> req_version r' = req_version r"
  using cpp_find_bounds [of i j m "CHR ''?''"]
  by (auto simp: parse_target_def HttpRequest_setPath_def HttpRequest_setQuery_def
      range_string_def Let_def)

lemma parse_version_keeps:
  "req_version r = UNKNOWN \<Longrightarrow>
   \<exists>ok r'. parse_version r m i j = Inr (ok, r') \<and> req_method r' = req_method r
     \<and> (ok \<longrightarrow> req_version r' \<noteq> UNKNOWN)"
  by (auto simp: parse_version_def HttpRequest_setVersion_def)

lemma line_parse_total:
  assumes "req_method (ctx_request c) = INVALID" "req_version (ctx_request c) = UNKNOWN"
  shows "\<exists>ok c'. line_parse c l = Inr (ok, c') \<and> ctx_state c' = ctx_state c
    \<and> (ok \<longrightarrow> req_method (ctx_request c') \<noteq> INVALID \<and> req_version (ctx_request c') \<noteq> UNKNOWN)"
proof -
  let ?n = "length l" and ?r = "ctx_request c"
  define s where "s = cpp_find l 0 ?n (CHR '' '')"
  define q where "q = cpp_find l (Suc s) ?n (CHR '' '')"
  have s: "s \<le> ?n" using cpp_find_bounds [of 0 ?n l] by (simp add: s_def)
  obtain ok r where m: "HttpRequest_setMethod ?r l 0 s = Inr (ok, r)"
      "ok \<longleftrightarrow> req_method r \<noteq> INVALID" "req_version r = UNKNOWN"
    using assms s by (auto simp: HttpRequest_setMethod_def range_string_def Let_def)
  show ?thesis
  proof (cases "s \<noteq> ?n \<and> ok \<and> q \<noteq> ?n")
    case True
    then have "Suc s \<le> q" "q \<le> ?n" using cpp_find_bounds [of "Suc s" ?n l] s by (simp_all add: q_def)
    then obtain r1 where r1: "parse_target r l (Suc s) q = Inr r1" "req_method r1 = req_method r"
        "req_version r1 = req_version r"
      using parse_target_keeps [of "Suc s" q l r] by auto
    then obtain ok2 r2 where r2: "parse_version r1 l (Suc q) ?n = Inr (ok2, r2)"
        "req_method r2 = req_method r1" "ok2 \<longrightarrow> req_version r2 \<noteq> UNKNOWN"
      using parse_version_keeps [of r1 l "Suc q" ?n] m(3) by auto
    show ?thesis using True m r1 r2
      by (simp add: line_parse_def HttpContext_parseRequestLine_def s_def [symmetric]
          q_def [symmetric] Let_def)
  next
    case False
    then show ?thesis using m
      by (auto simp: line_parse_def HttpContext_parseRequestLine_def s_def [symmetric]
          q_def [symmetric] Let_def)
  qed
qed

lemma spec_header_inv:
  "ctx_inv c \<Longrightarrow> ctx_state c = EXPECTHEADERS \<Longrightarrow> ctx_inv (spec_header c l)"
  by (cases "req_method (ctx_request c)")
    (auto simp: ctx_inv_def spec_header_def put_header_def Let_def split: option.splits)

lemma stoi_errors: "stoi s = Inl e \<Longrightarrow> e \<in> {InvalidArgument, OutOfRange}"
  by (auto simp: stoi_def Let_def split: if_splits)

lemma spec_fields_error: "spec_fields c w = Inl e \<Longrightarrow> e = InvalidRange"
proof (induction c w rule: spec_fields.induct)
  case (1 c w)
  show ?case
    using "1.prems" "1.IH" unfolding spec_fields.simps [of c w]
    by (auto split: option.splits if_splits)
qed

lemma spec_body_outcome:
  assumes "ctx_inv c" and "ctx_state c = EXPECTBODY"
  shows "case spec_body c w of Inl e \<Rightarrow> e \<in> {InvalidRange, InvalidArgument, OutOfRange}
    | Inr (ok, c', w') \<Rightarrow> (ok \<longrightarrow> ctx_inv c')"
  using assms stoi_errors [of "HttpRequest_getHeader (ctx_request c) ''Content-Length''"]
    spec_fields_error [of c w] spec_fields_method [of c w]
  by (auto simp: spec_body_def bind_result_def ctx_inv_def Let_def split: sum.splits)

lemma spec_parse_outcome:
  "ctx_inv c \<Longrightarrow> case spec_parse t c w of Inl e \<Rightarrow> e \<in> {InvalidRange, InvalidArgument, OutOfRange}
    | Inr (ok, c', w') \<Rightarrow> (ok \<longrightarrow> ctx_inv c')"
proof (induction t c w rule: spec_parse.induct)
  case (1 t c w)
  note IH = "1.IH" and inv = "1.prems"
  show ?case
  proof (cases "ctx_state c")
    case EXPECTREQUESTLINE
    then have fresh: "req_method (ctx_request c) = INVALID" "req_version (ctx_request c) = UNKNOWN"
      using inv by (simp_all add: ctx_inv_def Let_def)
    show ?thesis
    proof (cases "find_sub CRLF w")
      case None
      then show ?thesis using EXPECTREQUESTLINE inv by (simp add: spec_parse.simps [of t c])
    next
      case (Some k)
      obtain ok c' where lp: "line_parse c (take k w) = Inr (ok, c')"
          "ok \<longrightarrow> ctx_inv (begin_headers t c')"
        using line_parse_total [OF fresh, of "take k w"]
        by (auto simp: ctx_inv_def begin_headers_def HttpRequest_setReceiveTime_def Let_def)
      show ?thesis
        using EXPECTREQUESTLINE Some lp IH(1) [OF EXPECTREQUESTLINE Some lp(1) refl]
        by (simp add: spec_parse.simps [of t c])
    qed
  next
    case EXPECTHEADERS
    then show ?thesis
      using inv IH(2) [OF EXPECTHEADERS] spec_header_inv [OF inv]
      by (auto simp: spec_parse.simps [of t c] split: option.splits)
  next
    case EXPECTBODY
    then show ?thesis using spec_body_outcome [OF inv] by (simp add: spec_parse.simps [of t c])
  next
    case ALLOK
    then show ?thesis using inv by (simp add: spec_parse.simps [of t c])
  qed
qed

text \<open>
  What a connection's parser is in between two messages: it expects input, and the buffer is in order
  or, before a request line, in the state that a completed body leaves.
\<close>

definition parser_ready :: "HttpContext \<Rightarrow> HyBuffer \<Rightarrow> bool" where
  "parser_ready c b \<longleftrightarrow> ctx_state c \<noteq> ALLOK \<and> body_not_get c
     \<and> (buf_wf b \<or> overrun b \<and> ctx_state c = EXPECTREQUESTLINE)"

lemma line_parse_state: "line_parse c l = Inr (ok, c') \<Longrightarrow> ctx_state c' = ctx_state c"
  by (auto simp: line_parse_def HttpContext_parseRequestLine_def bind_result_eq_Inr Let_def split: if_splits)

lemma spec_parse_body_not_get:
  "body_not_get c \<Longrightarrow> spec_parse t c w = Inr (ok, c', w') \<Longrightarrow> body_not_get c'"
proof (induction t c w rule: spec_parse.induct)
  case (1 t c w)
  show ?case
  proof (cases "ctx_state c")
    case EXPECTREQUESTLINE
    show ?thesis
    proof (cases "find_sub CRLF w")
      case None
      then show ?thesis using "1.prems" EXPECTREQUESTLINE by (simp add: spec_parse.simps [of t c])
    next
      case (Some k)
      then obtain r d where d: "line_parse c (take k w) = Inr (r, d)"
        using "1.prems"(2) EXPECTREQUESTLINE by (auto simp: spec_parse.simps [of t c] split: sum.splits)
      have "body_not_get (begin_headers t d)" by (simp add: body_not_get_def begin_headers_def)
      then show ?thesis
        using "1.prems"(2) "1.IH"(1) [OF EXPECTREQUESTLINE Some d refl] d Some EXPECTREQUESTLINE line_parse_state [OF d]
        by (cases r) (simp_all add: spec_parse.simps [of t c] body_not_get_def)
    qed
  next
    case EXPECTHEADERS
    then show ?thesis
      using "1.prems" "1.IH"(2) [OF EXPECTHEADERS] spec_header_cases [OF EXPECTHEADERS refl]
      by (auto simp: spec_parse.simps [of t c] split: option.splits)
  next
    case EXPECTBODY
    then show ?thesis
      using "1.prems" spec_fields_method [of c w ok c' w']
      by (auto simp: spec_parse.simps [of t c] spec_body_def bind_result_eq_Inr body_not_get_def split: if_splits)
  next
    case ALLOK
    then show ?thesis using "1.prems" by (simp add: spec_parse.simps [of t c])
  qed
qed

text \<open>A message that the parser takes leaves it ready again, a completed request after \<open>reset\<close>.\<close>

lemma parse_stays_ready:
  assumes wf: "buf_wf b" and c: "ctx_state c \<noteq> ALLOK" "body_not_get c"
    and run: "HttpContext_parseRequest c b t = Some (Inr (ok, c', b'))"
  shows "ctx_state c' \<noteq> ALLOK \<Longrightarrow> parser_ready c' b'" and "parser_ready (HttpContext_reset c') b'"
proof -
  obtain w' where sp: "spec_parse t c (contents b) = Inr (ok, c', w')" and fin: "final_buf ok c' w' b'"
    using parseRequest_refines [OF wf c, of t] run by (auto split: sum.splits)
  show "ctx_state c' \<noteq> ALLOK \<Longrightarrow> parser_ready c' b'"
    using spec_parse_body_not_get [OF c(2) sp] fin by (simp add: parser_ready_def final_buf_def)
  show "parser_ready (HttpContext_reset c') b'"
    using fin by (auto simp: parser_ready_def final_buf_def HttpContext_reset_def body_not_get_def split: if_splits)
qed

text \<open>A search in the buffer that a body leaves has no valid range.\<close>

lemma parse_overrun:
  assumes "overrun b" "ctx_state c = EXPECTREQUESTLINE"
  shows "HttpContext_parseRequest c b t = Some (Inl InvalidRange)"
proof -
  have "parse_step t (parse_start c b) = Some (Inl InvalidRange)"
    using assms by (simp add: parse_step_def step_requestLine_def HyBuffer_getCRLF_def HyBuffer_range_def
        HyBuffer_payload_def overrun_def)
  then show ?thesis by (simp add: HttpContext_parseRequest_def cpp_while_error)
qed

text \<open>From any context the errors are the failed assertions of the setters and those of a body.\<close>

lemma parse_version_error: "parse_version r m i j = Inl e \<Longrightarrow> e = AssertFail"
  by (auto simp: parse_version_def HttpRequest_setVersion_def bind_result_eq_Inl assert_that_def split: if_splits)

lemma line_parse_error:
  assumes "line_parse c l = Inl e"
  shows "e = AssertFail"
proof -
  let ?n = "length l" and ?r = "ctx_request c"
  define s where "s = cpp_find l 0 ?n (CHR '' '')"
  define q where "q = cpp_find l (Suc s) ?n (CHR '' '')"
  have s: "s \<le> ?n" using cpp_find_bounds [of 0 ?n l] by (simp add: s_def)
  show ?thesis
  proof (cases "HttpRequest_setMethod ?r l 0 s")
    case (Inl e')
    then have "e' = AssertFail"
      using s by (auto simp: HttpRequest_setMethod_def range_string_def assert_that_def bind_result_eq_Inl Let_def split: if_splits)
    then show ?thesis
      using assms Inl by (auto simp: line_parse_def HttpContext_parseRequestLine_def s_def Let_def split: if_splits)
  next
    case (Inr y)
    obtain ok r where y: "y = (ok, r)" by (cases y)
    have "parse_target r l (Suc s) q \<noteq> Inl e'" if "s \<noteq> ?n" for r e'
      using parse_target_keeps [of "Suc s" q l r] cpp_find_bounds [of "Suc s" ?n l] s that by (auto simp: q_def)
    then show ?thesis
      using assms Inr y parse_version_error [of _ l "Suc q" ?n e]
      by (auto simp: line_parse_def HttpContext_parseRequestLine_def s_def [symmetric] q_def [symmetric] Let_def
          bind_result_eq_Inl split: if_splits)
  qed
qed

definition parser_errors :: "cpp_error set" where
  "parser_errors = {AssertFail, InvalidRange, InvalidArgument, OutOfRange}"

lemma spec_parse_error: "spec_parse t c w = Inl e \<Longrightarrow> e \<in> parser_errors"
proof (induction t c w rule: spec_parse.induct)
  case (1 t c w)
  show ?case
  proof (cases "ctx_state c")
    case EXPECTREQUESTLINE
    then obtain k where k: "find_sub CRLF w = Some k" using "1.prems" by (auto simp: spec_parse.simps [of t c] split: option.splits)
    show ?thesis
    proof (cases "line_parse c (take k w)")
      case (Inl e')
      then show ?thesis
        using "1.prems" EXPECTREQUESTLINE k line_parse_error [OF Inl] by (simp add: spec_parse.simps [of t c] parser_errors_def)
    next
      case (Inr y)
      obtain r d where "y = (r, d)" by (cases y)
      then show ?thesis
        using "1.prems" "1.IH"(1) [OF EXPECTREQUESTLINE k Inr] Inr k EXPECTREQUESTLINE
        by (cases r) (simp_all add: spec_parse.simps [of t c])
    qed
  next
    case EXPECTHEADERS
    then show ?thesis
      using "1.prems" "1.IH"(2) [OF EXPECTHEADERS] by (auto simp: spec_parse.simps [of t c] split: option.splits)
  next
    case EXPECTBODY
    then show ?thesis
      using "1.prems" stoi_errors [of "HttpRequest_getHeader (ctx_request c) ''Content-Length''"] spec_fields_error [of c w]
      by (auto simp: spec_parse.simps [of t c] spec_body_def bind_result_eq_Inl parser_errors_def split: if_splits)
  next
    case ALLOK
    then show ?thesis using "1.prems" by (simp add: spec_parse.simps [of t c])
  qed
qed

lemma parse_error:
  assumes "parser_ready c b" and "HttpContext_parseRequest c b t = Some (Inl e)"
  shows "e \<in> parser_errors"
proof (cases "buf_wf b")
  case True
  then have "spec_parse t c (contents b) = Inl e"
    using parseRequest_refines [of b c t] assms by (auto simp: parser_ready_def split: sum.splits)
  then show ?thesis by (rule spec_parse_error)
next
  case False
  then show ?thesis using assms parse_overrun [of b c t] by (simp add: parser_ready_def parser_errors_def)
qed

text \<open>From there the parser stops with an error or leaves the buffer and the context ready.\<close>

lemma parse_ready_outcome:
  assumes "parser_ready c b"
  shows "(\<exists>e. HttpContext_parseRequest c b t = Some (Inl e))
    \<or> buf_wf b \<and> (\<exists>ok c' b'. HttpContext_parseRequest c b t = Some (Inr (ok, c', b')))"
  using assms parse_overrun [of b c t] parseRequest_refines [of b c t]
  by (auto simp: parser_ready_def split: sum.splits)

section \<open>Properties\<close>

text \<open>
  C5. On every well-formed buffer, from every context that still expects input, \<open>parseRequest\<close>
  returns, and it does what the reference parser does on the unread bytes: the same error, or the
  same verdict and context with exactly the unparsed bytes left, except that after a body the
  reader index is one past the writer index.
\<close>

theorem parseRequest_refinement:
  assumes "buf_wf b" and "ctx_state c \<noteq> ALLOK" and "body_not_get c"
  shows "case spec_parse t c (contents b) of
      Inl e \<Rightarrow> HttpContext_parseRequest c b t = Some (Inl e)
    | Inr (ok, c', w') \<Rightarrow> \<exists>b'. HttpContext_parseRequest c b t = Some (Inr (ok, c', b'))
        \<and> final_buf ok c' w' b'"
  using parseRequest_refines [OF assms] .

theorem parseRequest_refinement_witness:
  "\<exists>b'. HttpContext_parseRequest HttpContext_new HyBuffer_new (Timestamp 0)
      = Some (Inr (True, HttpContext_new, b')) \<and> final_buf True HttpContext_new [] b'"
  using parseRequest_refinement [of HyBuffer_new HttpContext_new "Timestamp 0"]
  by (simp add: HttpContext_new_def body_not_get_def spec_parse.simps)

text \<open>
  C9. A context in good order stays in good order: \<open>parseRequest\<close> returns, no assertion fails and
  no access leaves the buffer, the only errors are the exceptions of \<open>stoi\<close> and a field whose
  separators are out of order, and a verdict \<open>true\<close> comes with a context in good order.
\<close>

theorem parseRequest_safe:
  assumes "buf_wf b" and "ctx_inv c" and "ctx_state c \<noteq> ALLOK"
  shows "(\<exists>e. HttpContext_parseRequest c b t = Some (Inl e)
        \<and> e \<in> {InvalidRange, InvalidArgument, OutOfRange})
    \<or> (\<exists>ok c' b'. HttpContext_parseRequest c b t = Some (Inr (ok, c', b'))
        \<and> (ok \<longrightarrow> ctx_inv c'))"
  using parseRequest_refines [OF assms(1,3) ctx_inv_body_not_get [OF assms(2)], of t]
    spec_parse_outcome [OF assms(2), of t "contents b"]
  by (auto split: sum.splits)

lemma lookup_put_headers:
  "req_headers (ctx_request (put_headers c hs)) =
   fold (\<lambda>(k, v). map_assign k v) hs (req_headers (ctx_request c))"
  by (simp add: put_headers_def)

lemma put_headers_append: "put_headers c (hs @ fs) = put_headers (put_headers c hs) fs"
  by (simp add: put_headers_def)

text \<open>The context after the request line and the headers of a printed request.\<close>

definition parsed :: "Timestamp \<Rightarrow> Method \<Rightarrow> string \<Rightarrow> string option \<Rightarrow> Version
    \<Rightarrow> (string \<times> string) list \<Rightarrow> HttpRequest" where
  "parsed t m path q v hs =
     \<lparr>req_method = m, req_version = v, req_path = path,
      req_query = (case q of None \<Rightarrow> '''' | Some s \<Rightarrow> s), req_receiveTime = t,
      req_headers = fold (\<lambda>(k, v). map_assign k v) hs [], req_bodys = []\<rparr>"

lemma spec_parse_printed:
  assumes "m \<noteq> INVALID" "v \<noteq> UNKNOWN" "target_ok path q" "list_all header_ok hs"
  shows "spec_parse t HttpContext_new (request_line m path q v @ CRLF @ headers_text hs @ rest) =
    spec_parse t \<lparr>ctx_state = (if m = GET then ALLOK else EXPECTBODY),
      ctx_request = parsed t m path q v hs\<rparr> rest"
  using assms
  by (cases q) (simp_all add: spec_parse_request_line spec_parse_headers HttpContext_new_def
      HttpRequest_new_def begin_headers_def request_after_def put_headers_def parsed_def
      HttpRequest_setReceiveTime_def)

lemma get_parsed:
  assumes "buf_wf b" and "target_ok path q" and "v \<noteq> UNKNOWN" and "list_all header_ok hs"
    and "contents b = request_line GET path q v @ CRLF @ headers_text hs @ rest"
  shows "\<exists>b'. HttpContext_parseRequest HttpContext_new b t =
      Some (Inr (True, \<lparr>ctx_state = ALLOK, ctx_request = parsed t GET path q v hs\<rparr>, b'))
    \<and> buf_wf b' \<and> contents b' = rest"
proof -
  have "spec_parse t HttpContext_new (contents b) =
      Inr (True, \<lparr>ctx_state = ALLOK, ctx_request = parsed t GET path q v hs\<rparr>, rest)"
    using assms(2-4) unfolding assms(5)
    by (subst spec_parse_printed) (simp_all add: spec_parse.simps)
  then show ?thesis
    using parseRequest_refines [OF assms(1), of HttpContext_new t] ctx_inv_body_not_get [OF ctx_inv_new]
    by (auto simp: final_buf_def parsed_def HttpContext_new_def)
qed

text \<open>
  C6. Parsing inverts printing for GET: on a buffer that holds a printed request followed by any
  bytes, a new context ends in \<open>ALLOK\<close> with exactly the printed method, path, query, version and
  headers (a later header of the same name wins), and exactly the bytes behind the request are left.
\<close>

theorem get_roundtrip:
  assumes "buf_wf b" and "target_ok path q" and "v \<noteq> UNKNOWN" and "list_all header_ok hs"
    and "contents b = request_line GET path q v @ CRLF @ headers_text hs @ rest"
  shows "\<exists>b'. HttpContext_parseRequest HttpContext_new b t =
      Some (Inr (True, \<lparr>ctx_state = ALLOK, ctx_request = parsed t GET path q v hs\<rparr>, b'))
    \<and> buf_wf b' \<and> contents b' = rest"
  using assms by (rule get_parsed)

lemma buffer_holding:
  "length s \<le> 1024 \<Longrightarrow> \<exists>b. HyBuffer_append HyBuffer_new s = Inr b \<and> buf_wf b \<and> contents b = s"
  using append_in_place [OF buf_wf_new, of s] by auto

theorem get_roundtrip_witness:
  "\<exists>b b'. HyBuffer_append HyBuffer_new
        (request_line GET ''/time'' (Some ''a=1'') HTTP11 @ CRLF @ headers_text [(''Host'', ''h'')] @ ''GET'')
        = Inr b
    \<and> HttpContext_parseRequest HttpContext_new b (Timestamp 9) =
        Some (Inr (True, \<lparr>ctx_state = ALLOK,
          ctx_request = parsed (Timestamp 9) GET ''/time'' (Some ''a=1'') HTTP11 [(''Host'', ''h'')]\<rparr>, b'))
    \<and> contents b' = ''GET''"
proof -
  let ?s = "request_line GET ''/time'' (Some ''a=1'') HTTP11 @ CRLF @ headers_text [(''Host'', ''h'')] @ ''GET''"
  have "length ?s \<le> 1024" by code_simp
  then obtain b where b: "HyBuffer_append HyBuffer_new ?s = Inr b" "buf_wf b" "contents b = ?s"
    using buffer_holding by blast
  have "target_ok ''/time'' (Some ''a=1'')" by code_simp
  moreover have "list_all header_ok [(''Host'', ''h'')]" by code_simp
  ultimately show ?thesis
    using get_roundtrip [OF b(2) _ _ _ b(3), of "Timestamp 9"] b(1) by blast
qed

text \<open>
  C7. Parsing inverts printing for POST: with a \<open>Content-Length\<close> header that is the length of the
  form body, a new context ends in \<open>ALLOK\<close> with the headers and, stored behind them in the same
  map, the fields of the body; the reader index ends one past the writer index.
\<close>

theorem post_roundtrip:
  assumes "buf_wf b" and "target_ok path q" and "v \<noteq> UNKNOWN" and "list_all header_ok hs"
    and "fs \<noteq> []" and "list_all field_ok fs" and "length (fields_text fs) < 2 ^ 31"
    and "map_lookup (fold (\<lambda>(k, v). map_assign k v) hs []) ''Content-Length''
        = Some (dec_digits (length (fields_text fs)))"
    and "contents b = request_line POST path q v @ CRLF @ headers_text hs @ fields_text fs"
  shows "\<exists>b'. HttpContext_parseRequest HttpContext_new b t =
      Some (Inr (True, \<lparr>ctx_state = ALLOK, ctx_request = parsed t POST path q v (hs @ fs)\<rparr>, b'))
    \<and> overrun b'"
proof -
  let ?c = "\<lparr>ctx_state = EXPECTBODY, ctx_request = parsed t POST path q v hs\<rparr>"
  have "stoi (HttpRequest_getHeader (ctx_request ?c) ''Content-Length'')
      = Inr (int (length (fields_text fs)))"
    using assms(7,8) by (simp add: HttpRequest_getHeader_def parsed_def stoi_dec_digits)
  moreover have "to_int32 (int (length (fields_text fs))) = int (length (fields_text fs))"
    using assms(7) by (intro to_int32_small) simp_all
  ultimately have "spec_parse t ?c (fields_text fs) = Inr (True, (put_headers ?c fs)\<lparr>ctx_state := ALLOK\<rparr>, [])"
    using spec_fields_text [OF assms(5,6)] by (simp add: spec_parse.simps spec_body_def)
  then have "spec_parse t HttpContext_new (contents b) =
      Inr (True, \<lparr>ctx_state = ALLOK, ctx_request = parsed t POST path q v (hs @ fs)\<rparr>, [])"
    using assms by (simp add: spec_parse_printed put_headers_def parsed_def)
  then show ?thesis
    using parseRequest_refines [OF assms(1), of HttpContext_new t] ctx_inv_body_not_get [OF ctx_inv_new]
    by (auto simp: final_buf_def parsed_def HttpContext_new_def)
qed

theorem post_roundtrip_witness:
  "\<exists>b b'. HyBuffer_append HyBuffer_new
        (request_line POST ''/signin'' None HTTP11 @ CRLF
          @ headers_text [(''Content-Length'', ''7'')] @ fields_text [(''u'', ''a''), (''p'', ''b'')]) = Inr b
    \<and> HttpContext_parseRequest HttpContext_new b (Timestamp 9) =
        Some (Inr (True, \<lparr>ctx_state = ALLOK, ctx_request = parsed (Timestamp 9) POST ''/signin'' None HTTP11
          ([(''Content-Length'', ''7'')] @ [(''u'', ''a''), (''p'', ''b'')])\<rparr>, b'))
    \<and> overrun b'"
proof -
  let ?hs = "[(''Content-Length'', ''7'')]" and ?fs = "[(''u'', ''a''), (''p'', ''b'')]"
  let ?s = "request_line POST ''/signin'' None HTTP11 @ CRLF @ headers_text ?hs @ fields_text ?fs"
  have "length ?s \<le> 1024" by code_simp
  then obtain b where b: "HyBuffer_append HyBuffer_new ?s = Inr b" "buf_wf b" "contents b = ?s"
    using buffer_holding by blast
  have h: "target_ok ''/signin'' None" "list_all header_ok ?hs" "list_all field_ok ?fs"
    by code_simp+
  have seven: "digit (Suc (Suc (Suc (Suc (Suc (Suc (Suc 0))))))) = CHR ''7''" by code_simp
  have l: "length (fields_text ?fs) < 2 ^ 31"
    "map_lookup (fold (\<lambda>(k, v). map_assign k v) ?hs []) ''Content-Length''
        = Some (dec_digits (length (fields_text ?fs)))"
    by (simp, simp add: map_lookup_def dec_digits.simps seven)
  show ?thesis
    using post_roundtrip [OF b(2) h(1) _ h(2) _ h(3) l b(3), of "Timestamp 9"] b(1) by blast
qed

section \<open>Reading in pieces\<close>

text \<open>What a caller sees of a call: the error, or the verdict, the context, the unread bytes and
  whether the reader index has passed the writer index.\<close>

definition observe :: "(bool \<times> HttpContext \<times> HyBuffer) result option
    \<Rightarrow> (bool \<times> HttpContext \<times> string \<times> bool) result option" where
  "observe = map_option (map_sum id (\<lambda>(ok, c, b). (ok, c, contents b, overrun b)))"

definition spec_view :: "(bool \<times> HttpContext \<times> string) result
    \<Rightarrow> (bool \<times> HttpContext \<times> string \<times> bool) result" where
  "spec_view = map_sum id (\<lambda>(ok, c, w).
     if ok \<and> ctx_state c = ALLOK \<and> req_method (ctx_request c) \<noteq> GET then (ok, c, [], True)
     else (ok, c, w, False))"

lemma observe_parse:
  assumes "buf_wf b" and "ctx_state c \<noteq> ALLOK" and "body_not_get c"
  shows "observe (HttpContext_parseRequest c b t) = Some (spec_view (spec_parse t c (contents b)))"
  using parseRequest_refines [OF assms, of t]
  by (auto simp: observe_def spec_view_def final_buf_def overrun_def contents_def buf_wf_def
      split: sum.splits if_splits)

lemma spec_parse_time:
  "ctx_state c \<noteq> EXPECTREQUESTLINE \<Longrightarrow> spec_parse t c w = spec_parse t' c w"
proof (induction t c w rule: spec_parse.induct)
  case (1 t c w)
  have "ctx_state (spec_header c l) \<noteq> EXPECTREQUESTLINE" if "ctx_state c = EXPECTHEADERS" for l
    using that by (simp add: spec_header_def put_header_def split: option.splits)
  then show ?case
    using 1 by (auto simp: spec_parse.simps [of _ c w] split: HttpRequestState.splits option.splits)
qed

lemma spec_parse_past_line:
  "spec_parse t c w = Inr (ok, c', w') \<Longrightarrow> ctx_state c \<noteq> EXPECTREQUESTLINE \<Longrightarrow>
   ctx_state c' \<noteq> EXPECTREQUESTLINE"
proof (induction t c w rule: spec_parse.induct)
  case (1 t c w)
  have "ctx_state (spec_header c l) \<noteq> EXPECTREQUESTLINE" if "ctx_state c = EXPECTHEADERS" for l
    using that by (simp add: spec_header_def put_header_def split: option.splits)
  then show ?case
    using 1 spec_fields_method [of c w ok c' w']
    by (auto simp: spec_parse.simps [of t c w] spec_body_def bind_result_eq_Inr
        split: HttpRequestState.splits option.splits if_splits)
qed

lemma spec_parse_waits:
  assumes "spec_parse t c w = Inr (True, c', w')" and "ctx_state c' = EXPECTREQUESTLINE"
  shows "spec_parse t' c w = Inr (True, c', w')"
proof -
  have st: "ctx_state c = EXPECTREQUESTLINE" using spec_parse_past_line [OF assms(1)] assms(2) by blast
  show ?thesis
  proof (cases "find_sub CRLF w")
    case None
    then have "c' = c" "w' = w" using assms st by (simp_all add: spec_parse.simps [of _ c w])
    then show ?thesis using None st by (simp add: spec_parse.simps [of _ c w])
  next
    case (Some k)
    have "ctx_state (begin_headers t c1) \<noteq> EXPECTREQUESTLINE" for c1
      by (simp add: begin_headers_def)
    then show ?thesis
      using assms st Some spec_parse_past_line [of t _ "drop (k + 2) w" True c' w']
      by (auto simp: spec_parse.simps [of _ c w] split: sum.splits if_splits) blast
  qed
qed

text \<open>
  C8. Reading on: when a call returns true with the request still incomplete, so that it waits for more
  input, and \<open>x\<close> arrives behind the bytes it left, the next call ends like one call on all the bytes: the
  same error, or the same verdict, context and unread bytes. The receive time of the request is that of
  the call that sees its first complete line. (A request line or header lines may be split anywhere. A
  call that sees only a part of the body of a POST does not wait but refuses the request, so a body
  that is split over two reads is not covered.)
\<close>

theorem parse_in_pieces:
  assumes "buf_wf b1" and "ctx_inv c" and "ctx_state c \<noteq> ALLOK"
    and "HttpContext_parseRequest c b1 t1 = Some (Inr (True, c1, b1'))" and "ctx_state c1 \<noteq> ALLOK"
    and "buf_wf b2" and "contents b2 = contents b1' @ x"
    and "buf_wf b" and "contents b = contents b1 @ x"
  shows "observe (HttpContext_parseRequest c1 b2 t2) =
    observe (HttpContext_parseRequest c b (if ctx_state c1 = EXPECTREQUESTLINE then t2 else t1))"
proof -
  let ?t = "if ctx_state c1 = EXPECTREQUESTLINE then t2 else t1"
  have c: "body_not_get c" using assms(2) by (rule ctx_inv_body_not_get)
  have sp: "spec_parse t1 c (contents b1) = Inr (True, c1, contents b1')"
    using parseRequest_refines [OF assms(1,3) c, of t1] assms(4,5)
    by (auto simp: final_buf_def split: sum.splits)
  then have c1: "body_not_get c1"
    using spec_parse_outcome [OF assms(2), of t1 "contents b1"] by (simp add: ctx_inv_body_not_get)
  have "spec_parse ?t c (contents b1) = Inr (True, c1, contents b1')"
    using sp spec_parse_waits [OF sp] by simp
  then have "spec_parse ?t c (contents b) = spec_parse ?t c1 (contents b2)"
    using spec_parse_resume assms(5,7,9) by simp
  also have "\<dots> = spec_parse t2 c1 (contents b2)" using spec_parse_time by auto
  finally show ?thesis
    using observe_parse [OF assms(8,3) c] observe_parse [OF assms(6,5) c1] by simp
qed

theorem parse_in_pieces_witness:
  "\<exists>b1 b2 b. HyBuffer_append HyBuffer_new ''GET / HT'' = Inr b1
    \<and> HttpContext_parseRequest HttpContext_new b1 (Timestamp 1) = Some (Inr (True, HttpContext_new, b1))
    \<and> HyBuffer_append b1 ''TP/1.1'' = Inr b2
    \<and> HyBuffer_append HyBuffer_new ''GET / HTTP/1.1'' = Inr b
    \<and> observe (HttpContext_parseRequest HttpContext_new b2 (Timestamp 2)) =
      observe (HttpContext_parseRequest HttpContext_new b (Timestamp 2))"
proof -
  obtain b1 where b1: "HyBuffer_append HyBuffer_new ''GET / HT'' = Inr b1" "buf_wf b1"
      "contents b1 = ''GET / HT''" "buf_space b1 = buf_space HyBuffer_new - 8"
    using append_in_place [OF buf_wf_new, of "''GET / HT''"] by auto
  obtain b2 where b2: "HyBuffer_append b1 ''TP/1.1'' = Inr b2" "buf_wf b2"
      "contents b2 = contents b1 @ ''TP/1.1''"
    using append_in_place [OF b1(2), of "''TP/1.1''"] b1(4) by auto
  obtain b where b: "HyBuffer_append HyBuffer_new ''GET / HTTP/1.1'' = Inr b" "buf_wf b"
      "contents b = ''GET / HTTP/1.1''"
    using buffer_holding [of "''GET / HTTP/1.1''"] by auto
  have n: "ctx_state HttpContext_new = EXPECTREQUESTLINE" by (simp add: HttpContext_new_def)
  have g: "HyBuffer_getCRLF b1 = Inr None"
    using b1 by (simp add: getCRLF_contents CRLF_def)
  let ?v = "\<lparr>pv_correct = True, pv_hasMore = True, pv_ctx = HttpContext_new, pv_buf = b1\<rparr>"
  have "parse_step (Timestamp 1) ?v = Some (Inr (?v\<lparr>pv_hasMore := False\<rparr>))"
    using n g by (simp add: parse_step_def step_requestLine_def)
  then have p: "HttpContext_parseRequest HttpContext_new b1 (Timestamp 1)
      = Some (Inr (True, HttpContext_new, b1))"
    by (simp add: HttpContext_parseRequest_def cpp_while_step cpp_while_done)
  show ?thesis
    using parse_in_pieces [OF b1(2) ctx_inv_new _ p _ b2(2,3) b(2), of "Timestamp 2"] p n b b1 b2 by auto
qed

section \<open>Requests the parser cannot handle\<close>

text \<open>
  C16. On a context that already holds a whole request \<open>parseRequest\<close> never returns: no branch of the
  loop handles \<open>ALLOK\<close>. \<open>onMessage\<close> resets the context before the next call.
\<close>

theorem parse_when_done_hangs:
  assumes "ctx_state c = ALLOK"
  shows "HttpContext_parseRequest c b t = None"
  using assms by (simp add: HttpContext_parseRequest_def cpp_while_diverges parse_step_def)

theorem parse_when_done_hangs_witness:
  "HttpContext_parseRequest (HttpContext_new\<lparr>ctx_state := ALLOK\<rparr>) HyBuffer_new (Timestamp 0) = None"
  by (rule parse_when_done_hangs) simp

lemma line_parse_method_set:
  assumes "req_method (ctx_request c) \<noteq> INVALID" and "CHR '' '' \<in> set l"
  shows "line_parse c l = Inl AssertFail"
proof -
  have "find_char (CHR '' '') l \<noteq> None" using assms(2) by (simp add: find_char_None)
  then obtain k where "find_char (CHR '' '') l = Some k" by blast
  then have "cpp_find l 0 (length l) (CHR '' '') < length l"
    using find_char_SomeD(1) [of "CHR '' ''" l k] by (simp add: cpp_find_find_char slice_def)
  then show ?thesis
    using assms(1) by (simp add: line_parse_def HttpContext_parseRequestLine_def
        HttpRequest_setMethod_def Let_def assert_that_def)
qed

lemma version_other:
  assumes "slice l i (length l) \<notin> {''HTTP/1.0'', ''HTTP/1.1''}"
  shows "parse_version r l i (length l) = Inr (False, r)"
proof (cases "length l - i = 8 \<and> slice l i (length l - 1) = ''HTTP/1.''")
  case True
  then obtain n where n: "length l = Suc n" "i \<le> n" by (cases "length l") auto
  then have "slice l i (length l) = slice l i (length l - 1) @ [l ! (length l - 1)]"
    using slice_snoc [of i n l] by simp
  then show ?thesis using assms True by (auto simp: parse_version_def)
next
  case False
  then show ?thesis by (auto simp: parse_version_def)
qed

lemma line_parse_bad_version:
  assumes m: "m \<noteq> INVALID" and tgt: "target_ok path q" and v: "v \<notin> {''HTTP/1.0'', ''HTTP/1.1''}"
    and fresh: "req_method (ctx_request c) = INVALID"
    and l: "l = method_text m @ '' '' @ target_text path q @ '' '' @ v"
  shows "\<exists>c'. line_parse c l = Inr (False, c') \<and> ctx_state c' = ctx_state c
    \<and> req_method (ctx_request c') = m"
proof -
  let ?M = "method_text m" and ?T = "target_text path q"
  have l': "l = ?M @ CHR '' '' # ?T @ CHR '' '' # v" by (simp add: l)
  have nosp: "CHR '' '' \<notin> set ?M" "CHR '' '' \<notin> set ?T"
    using tgt by (auto simp: method_text_def target_ok_def split: Method.splits)
  have s1: "cpp_find l 0 (length l) (CHR '' '') = length ?M"
    using nosp l' cpp_find_at [of l "[]" ?M "CHR '' ''" "?T @ CHR '' '' # v" 0 "length l"] by simp
  have s2: "cpp_find l (Suc (length ?M)) (length l) (CHR '' '') = Suc (length ?M) + length ?T"
    using nosp l' by (intro cpp_find_at [where pre = "?M @ '' ''"]) auto
  have sm: "HttpRequest_setMethod (ctx_request c) l 0 (length ?M)
      = Inr (True, (ctx_request c)\<lparr>req_method := m\<rparr>)"
    using fresh m l' by (cases m) (simp_all add: HttpRequest_setMethod_def range_string_def
        slice_def method_text_def)
  obtain r where st: "parse_target ((ctx_request c)\<lparr>req_method := m\<rparr>) l (Suc (length ?M))
        (Suc (length ?M) + length ?T) = Inr r" "req_method r = m"
    using parse_target_keeps [of "Suc (length ?M)" "Suc (length ?M) + length ?T" l] l' by fastforce
  have "slice l (Suc (Suc (length ?M) + length ?T)) (length l) = v"
    using l' by (simp add: slice_def)
  then have sv: "parse_version r l (Suc (Suc (length ?M) + length ?T)) (length l) = Inr (False, r)"
    using v version_other by blast
  have "Suc (length ?M) + length ?T \<noteq> length l" "length ?M \<noteq> length l" using l' by auto
  then show ?thesis
    using s1 s2 sm st sv by (simp add: line_parse_def HttpContext_parseRequestLine_def Let_def)
qed

text \<open>
  C17. A request line with a version other than 1.0 and 1.1 is refused and left in the buffer, but the
  context keeps the method: whatever bytes arrive behind it, the following call on the same connection
  fails the assertion of \<open>setMethod\<close>, which ends the program.
\<close>

theorem bad_version_then_assert:
  assumes "buf_wf b" and "m \<noteq> INVALID" and "target_ok path q"
    and "CHR 0x0D \<notin> set v" and "v \<notin> {''HTTP/1.0'', ''HTTP/1.1''}"
    and "contents b = method_text m @ '' '' @ target_text path q @ '' '' @ v @ CRLF @ rest"
  shows "\<exists>c' b'. HttpContext_parseRequest HttpContext_new b t = Some (Inr (False, c', b'))
    \<and> buf_wf b' \<and> contents b' = contents b
    \<and> (\<forall>b2 x t'. buf_wf b2 \<and> contents b2 = contents b' @ x
        \<longrightarrow> HttpContext_parseRequest c' b2 t' = Some (Inl AssertFail))"
proof -
  define l where "l = method_text m @ '' '' @ target_text path q @ '' '' @ v"
  have new: "ctx_state HttpContext_new = EXPECTREQUESTLINE"
      "req_method (ctx_request HttpContext_new) = INVALID" "body_not_get HttpContext_new"
    by (simp_all add: HttpContext_new_def HttpRequest_new_def body_not_get_def)
  have w: "contents b = l @ CRLF @ rest" using assms(6) by (simp add: l_def)
  have cr: "CHR 0x0D \<notin> set l"
    using assms by (auto simp: l_def method_text_def target_ok_def split: Method.splits)
  obtain c' where c': "line_parse HttpContext_new l = Inr (False, c')"
      "ctx_state c' = EXPECTREQUESTLINE" "req_method (ctx_request c') = m"
    using line_parse_bad_version [OF assms(2,3,5) new(2) l_def] new(1) by auto
  have "spec_parse t HttpContext_new (contents b) = Inr (False, c', contents b)"
    unfolding w using new c' cr by (simp add: spec_parse_first_line)
  moreover have "HttpContext_parseRequest c' b2 t' = Some (Inl AssertFail)"
    if "buf_wf b2" "contents b2 = contents b @ x" for b2 x t'
  proof -
    have "CHR '' '' \<in> set l" by (simp add: l_def)
    then have "line_parse c' l = Inl AssertFail"
      using line_parse_method_set [of c' l] c'(3) assms(2) by simp
    then have "spec_parse t' c' (contents b2) = Inl AssertFail"
      unfolding that(2) w using c'(2) cr spec_parse_first_line [of c' l t' "rest @ x"] by simp
    then show ?thesis
      using parseRequest_refines [OF that(1), of c' t'] c'(2) by (simp add: body_not_get_def)
  qed
  ultimately show ?thesis
    using parseRequest_refines [OF assms(1) _ new(3), of t] new(1) by (fastforce simp: final_buf_def)
qed

theorem bad_version_then_assert_witness:
  "\<exists>b c' b'. HyBuffer_append HyBuffer_new (''GET / HTTP/2.0'' @ CRLF) = Inr b
    \<and> HttpContext_parseRequest HttpContext_new b (Timestamp 0) = Some (Inr (False, c', b'))
    \<and> HttpContext_parseRequest c' b' (Timestamp 1) = Some (Inl AssertFail)"
proof -
  obtain b where b: "HyBuffer_append HyBuffer_new (''GET / HTTP/2.0'' @ CRLF) = Inr b" "buf_wf b"
      "contents b = ''GET / HTTP/2.0'' @ CRLF"
    using buffer_holding [of "''GET / HTTP/2.0'' @ CRLF"] by (auto simp: CRLF_def)
  have t: "target_ok ''/'' None" by code_simp
  have "contents b = method_text GET @ '' '' @ target_text ''/'' None @ '' '' @ ''HTTP/2.0'' @ CRLF @ []"
    using b by (simp add: method_text_def target_text_def)
  then obtain c' b' where
      "HttpContext_parseRequest HttpContext_new b (Timestamp 0) = Some (Inr (False, c', b'))"
      "buf_wf b'" "\<And>b2 x t'. buf_wf b2 \<and> contents b2 = contents b' @ x
        \<Longrightarrow> HttpContext_parseRequest c' b2 t' = Some (Inl AssertFail)"
    using bad_version_then_assert [OF b(2) _ t, of GET "''HTTP/2.0''" "[]" "Timestamp 0"] by auto
  then show ?thesis using b(1) by (metis append_Nil2)
qed

text \<open>
  A POST request whose \<open>Content-Length\<close> header is missing or does not begin with a number makes
  \<open>std::stoi\<close> throw out of \<open>parseRequest\<close>, before any byte of the body is looked at.
\<close>

theorem post_without_length:
  assumes "buf_wf b" and "target_ok path q" and "v \<noteq> UNKNOWN" and "list_all header_ok hs"
    and "stoi (HttpRequest_getHeader (parsed t POST path q v hs) ''Content-Length'') = Inl e"
    and "contents b = request_line POST path q v @ CRLF @ headers_text hs @ body"
  shows "HttpContext_parseRequest HttpContext_new b t = Some (Inl e)"
proof -
  have "spec_parse t HttpContext_new (contents b) = Inl e"
    using assms(2-5) unfolding assms(6)
    by (subst spec_parse_printed) (simp_all add: spec_parse.simps spec_body_def)
  then show ?thesis
    using parseRequest_refines [OF assms(1), of HttpContext_new t] ctx_inv_body_not_get [OF ctx_inv_new]
    by (simp add: HttpContext_new_def)
qed

theorem post_without_length_witness:
  "\<exists>b. HyBuffer_append HyBuffer_new
        (request_line POST ''/signin'' None HTTP11 @ CRLF @ headers_text [] @ ''u=a'') = Inr b
    \<and> HttpContext_parseRequest HttpContext_new b (Timestamp 9) = Some (Inl InvalidArgument)"
proof -
  let ?s = "request_line POST ''/signin'' None HTTP11 @ CRLF @ headers_text [] @ ''u=a''"
  have "length ?s \<le> 1024" by code_simp
  then obtain b where b: "HyBuffer_append HyBuffer_new ?s = Inr b" "buf_wf b" "contents b = ?s"
    using buffer_holding by blast
  have t: "target_ok ''/signin'' None" by code_simp
  have "stoi (HttpRequest_getHeader (parsed (Timestamp 9) POST ''/signin'' None HTTP11 [])
      ''Content-Length'') = Inl InvalidArgument"
    by (simp add: HttpRequest_getHeader_def parsed_def map_lookup_def stoi_def)
  then show ?thesis using post_without_length [OF b(2) t _ _ _ b(3)] b(1) by auto
qed

text \<open>A context in good order and a request that ends in one of the exceptions.\<close>

theorem parseRequest_safe_witness:
  "\<exists>b e. HyBuffer_append HyBuffer_new
        (request_line POST ''/signin'' None HTTP11 @ CRLF @ headers_text [] @ ''u=a'') = Inr b
    \<and> HttpContext_parseRequest HttpContext_new b (Timestamp 9) = Some (Inl e)
    \<and> e \<in> {InvalidRange, InvalidArgument, OutOfRange}"
proof -
  let ?s = "request_line POST ''/signin'' None HTTP11 @ CRLF @ headers_text [] @ ''u=a''"
  have "length ?s \<le> 1024" by code_simp
  then obtain b where b: "HyBuffer_append HyBuffer_new ?s = Inr b" "buf_wf b" "contents b = ?s"
    using buffer_holding by blast
  have t: "target_ok ''/signin'' None" by code_simp
  have "stoi (HttpRequest_getHeader (parsed (Timestamp 9) POST ''/signin'' None HTTP11 [])
      ''Content-Length'') = Inl InvalidArgument"
    by (simp add: HttpRequest_getHeader_def parsed_def map_lookup_def stoi_def)
  then have "HttpContext_parseRequest HttpContext_new b (Timestamp 9) = Some (Inl InvalidArgument)"
    using post_without_length [OF b(2) t _ _ _ b(3)] by auto
  moreover have "ctx_state HttpContext_new \<noteq> ALLOK" by (simp add: HttpContext_new_def)
  ultimately show ?thesis using parseRequest_safe [OF b(2) ctx_inv_new, of "Timestamp 9"] b(1) by auto
qed

end
