(* ===== verification/HttpResponse.thy ===== *)
theory HttpResponse
  imports HyBuffer Format StdMap
begin

text \<open>
  The response object of \<^verbatim>\<open>include/network/http/HttpResponse.hpp\<close> and its serialisation in
  \<^verbatim>\<open>src/HttpResponse.cpp\<close>. \<open>response_pieces\<close> lists the arguments of the calls of \<open>append\<close> in order;
  \<open>appendToBuffer\<close> runs these calls.
\<close>

section \<open>Data\<close>

text \<open>The constructor value-initialises the code: it is the number 0, no enumerator.\<close>

datatype HttpStatusCode =
  CODE_ZERO | OK200 | BADREQUEST400 | NOTFOUND404 | INTERNAL500 | STATUS_UNKNOWN

primrec status_value :: "HttpStatusCode \<Rightarrow> int" where
  "status_value CODE_ZERO = 0"
| "status_value OK200 = 200"
| "status_value BADREQUEST400 = 400"
| "status_value NOTFOUND404 = 404"
| "status_value INTERNAL500 = 500"
| "status_value STATUS_UNKNOWN = 501"

record HttpResponse =
  resp_headers :: smap
  resp_statusCode :: HttpStatusCode
  resp_statusMsg :: string
  resp_closeConnection :: bool
  resp_body :: string

definition HttpResponse_new :: "bool \<Rightarrow> HttpResponse" where
  "HttpResponse_new close =
     \<lparr>resp_headers = [], resp_statusCode = CODE_ZERO, resp_statusMsg = '''',
      resp_closeConnection = close, resp_body = ''''\<rparr>"

section \<open>Operations\<close>

definition HttpResponse_setStatusCode :: "HttpResponse \<Rightarrow> HttpStatusCode \<Rightarrow> HttpResponse" where
  "HttpResponse_setStatusCode r code = r\<lparr>resp_statusCode := code\<rparr>"

definition HttpResponse_setStatusMsg :: "HttpResponse \<Rightarrow> string \<Rightarrow> HttpResponse" where
  "HttpResponse_setStatusMsg r msg = r\<lparr>resp_statusMsg := msg\<rparr>"

definition HttpResponse_setCloseConnection :: "HttpResponse \<Rightarrow> bool \<Rightarrow> HttpResponse" where
  "HttpResponse_setCloseConnection r close = r\<lparr>resp_closeConnection := close\<rparr>"

definition HttpResponse_nonPersistent :: "HttpResponse \<Rightarrow> bool" where
  "HttpResponse_nonPersistent r = resp_closeConnection r"

definition HttpResponse_addHeader :: "HttpResponse \<Rightarrow> string \<Rightarrow> string \<Rightarrow> HttpResponse" where
  "HttpResponse_addHeader r key value = r\<lparr>resp_headers := map_assign key value (resp_headers r)\<rparr>"

definition HttpResponse_setContentType :: "HttpResponse \<Rightarrow> string \<Rightarrow> HttpResponse" where
  "HttpResponse_setContentType r contentType = HttpResponse_addHeader r ''Content-Type'' contentType"

definition HttpResponse_setBody :: "HttpResponse \<Rightarrow> string \<Rightarrow> HttpResponse" where
  "HttpResponse_setBody r body = r\<lparr>resp_body := body\<rparr>"

definition HttpResponse_setBody_range ::
  "HttpResponse \<Rightarrow> string \<Rightarrow> nat \<Rightarrow> nat \<Rightarrow> HttpResponse result" where
  "HttpResponse_setBody_range r mem addr len =
     bind_result (range_string mem addr (addr + len)) (\<lambda>s. Inr (r\<lparr>resp_body := s\<rparr>))"

definition HttpResponse_appendToBody :: "HttpResponse \<Rightarrow> string \<Rightarrow> HttpResponse" where
  "HttpResponse_appendToBody r msg = r\<lparr>resp_body := resp_body r @ msg\<rparr>"

definition header_pieces :: "string \<times> string \<Rightarrow> string list" where
  "header_pieces h = [fst h, '': '', snd h, CRLF]"

definition response_pieces :: "HttpResponse \<Rightarrow> string list" where
  "response_pieces r =
     [snprintf 32 (''HTTP/1.1 '' @ fmt_d (status_value (resp_statusCode r)) @ '' ''),
      resp_statusMsg r, CRLF]
     @ (if resp_closeConnection r then [''Connection: close'' @ CRLF]
        else [snprintf 32 (''Content-Length: '' @ fmt_d (int (length (resp_body r))) @ CRLF),
              ''Connection: keep-alive'' @ CRLF])
     @ concat (map header_pieces (resp_headers r))
     @ [CRLF, resp_body r]"

definition HttpResponse_appendToBuffer :: "HttpResponse \<Rightarrow> HyBuffer \<Rightarrow> HyBuffer result" where
  "HttpResponse_appendToBuffer r outputBuffer =
     append_seq HyBuffer_append outputBuffer (response_pieces r)"

section \<open>The serialised response\<close>

definition response_head :: "HttpResponse \<Rightarrow> string" where
  "response_head r =
     ''HTTP/1.1 '' @ fmt_d (status_value (resp_statusCode r)) @ '' '' @ resp_statusMsg r @ CRLF
     @ (if resp_closeConnection r then ''Connection: close'' @ CRLF
        else ''Content-Length: '' @ fmt_d (int (length (resp_body r))) @ CRLF
          @ ''Connection: keep-alive'' @ CRLF)
     @ concat (map (\<lambda>(k, v). k @ '': '' @ v @ CRLF) (resp_headers r)) @ CRLF"

lemma length_fmt_d_code: "length (fmt_d (status_value c)) \<le> 3"
proof -
  have "length (dec_digits n) \<le> 3" if "n < 1000" for n
    using that length_dec_digits_le [of n 3] by simp
  then show ?thesis by (cases c) (simp_all add: fmt_d_def)
qed

text \<open>The array of 32 bytes is large enough for both formatted lines: \<open>snprintf\<close> cuts nothing off.\<close>

lemma status_line_fits:
  "snprintf 32 (''HTTP/1.1 '' @ fmt_d (status_value c) @ '' '') =
   ''HTTP/1.1 '' @ fmt_d (status_value c) @ '' ''"
  using length_fmt_d_code [of c] by (simp add: snprintf_def)

lemma length_line_fits:
  assumes "n < 10 ^ 13"
  shows "snprintf 32 (''Content-Length: '' @ fmt_d (int n) @ CRLF) =
    ''Content-Length: '' @ fmt_d (int n) @ CRLF"
proof -
  have "length (dec_digits n) \<le> 13" using assms length_dec_digits_le [of n 13] by simp
  then show ?thesis by (simp add: snprintf_def fmt_d_def CRLF_def)
qed

lemma header_pieces_text:
  "concat (concat (map header_pieces hs)) = concat (map (\<lambda>(k, v). k @ '': '' @ v @ CRLF) hs)"
  by (induction hs) (auto simp: header_pieces_def)

lemma response_pieces_text:
  assumes "length (resp_body r) < 10 ^ 13"
  shows "\<exists>ps. response_pieces r = ps @ [resp_body r] \<and> concat ps = response_head r"
proof -
  let ?ps = "butlast (response_pieces r)"
  have "response_pieces r = ?ps @ [resp_body r]"
    by (simp add: response_pieces_def butlast_append)
  moreover have "concat ?ps = response_head r"
    using length_line_fits [OF assms] status_line_fits [of "resp_statusCode r"]
    by (simp add: response_pieces_def response_head_def butlast_append header_pieces_text)
  ultimately show ?thesis by blast
qed

text \<open>A sequence of appends that fits behind the writer index leaves the vector in place.\<close>

lemma append_seq_in_place:
  "buf_wf b \<Longrightarrow> length (concat ps) \<le> buf_space b \<Longrightarrow>
   \<exists>b'. append_seq HyBuffer_append b ps = Inr b' \<and> buf_wf b' \<and> contents b' = contents b @ concat ps
     \<and> readerIndex b' = readerIndex b \<and> length (buffer b') = length (buffer b)"
proof (induction ps arbitrary: b)
  case Nil
  then show ?case by simp
next
  case (Cons p ps)
  then obtain b1 where b1: "HyBuffer_append b p = Inr b1" "buf_wf b1" "contents b1 = contents b @ p"
      "buf_space b1 = buf_space b - length p" "readerIndex b1 = readerIndex b"
    using append_in_place [of b p] by auto
  have "length (buffer b1) = length (buffer b)"
    using b1 Cons.prems length_contents [OF b1(2)] length_contents [OF Cons.prems(1)]
    by (auto simp: buf_space_def buf_wf_def)
  moreover have "length (concat ps) \<le> buf_space b1" using Cons.prems b1(4) by simp
  ultimately show ?case using Cons.IH [OF b1(2)] b1 by fastforce
qed

lemma append_fits_after_head:
  assumes "buf_wf b" "readerIndex b = 8" "length (buffer b) = 1032" "length (contents b) = h" "h \<le> 1024"
  shows "append_fits b n \<longleftrightarrow> h + n \<le> 1024 \<or> 1024 < n"
  using assms length_contents [OF assms(1)]
  by (auto simp: append_fits_def buf_space_def PREPENDABLEBYTES_def buf_wf_def)

lemma appendToBuffer_outcome:
  assumes "length (response_head r) \<le> 1024" and "length (resp_body r) < 10 ^ 13"
  shows "if length (response_head r) + length (resp_body r) \<le> 1024 \<or> 1024 < length (resp_body r)
    then \<exists>b. HttpResponse_appendToBuffer r HyBuffer_new = Inr b \<and> buf_wf b
      \<and> contents b = response_head r @ resp_body r
    else HttpResponse_appendToBuffer r HyBuffer_new = Inl OutOfBounds"
proof -
  let ?h = "length (response_head r)" and ?n = "length (resp_body r)"
  obtain ps where ps: "response_pieces r = ps @ [resp_body r]" "concat ps = response_head r"
    using response_pieces_text [OF assms(2)] by blast
  obtain b where b: "append_seq HyBuffer_append HyBuffer_new ps = Inr b" "buf_wf b"
      "contents b = response_head r" "readerIndex b = 8" "length (buffer b) = 1032"
    using append_seq_in_place [OF buf_wf_new, of ps] assms(1) ps(2)
    by (auto simp: HyBuffer_new_def PREPENDABLEBYTES_def INITIALSIZE_def contents_def buf_space_def)
  have "HttpResponse_appendToBuffer r HyBuffer_new = HyBuffer_append b (resp_body r)"
    using ps(1) b(1)
    by (cases "HyBuffer_append b (resp_body r)")
      (simp_all add: HttpResponse_appendToBuffer_def append_seq_append)
  moreover have "append_fits b ?n \<longleftrightarrow> ?h + ?n \<le> 1024 \<or> 1024 < ?n"
    using append_fits_after_head [OF b(2,4,5)] b(3) assms(1) by simp
  ultimately show ?thesis
    using append_outcome [OF b(2), of "resp_body r"] b(3,5) assms(2) by (simp cong: if_cong)
qed

text \<open>
  C12. A response whose status line and headers take \<open>h\<close> bytes, at most 1024, goes into a new buffer
  completely and in order when its body has more than 1024 bytes or fits behind the headers; for
  every other body the copy runs past the end of the vector.
\<close>

theorem appendToBuffer_new:
  assumes "length (response_head r) \<le> 1024" and "length (resp_body r) < 10 ^ 13"
  shows "if length (response_head r) + length (resp_body r) \<le> 1024 \<or> 1024 < length (resp_body r)
    then \<exists>b. HttpResponse_appendToBuffer r HyBuffer_new = Inr b \<and> buf_wf b
      \<and> contents b = response_head r @ resp_body r
    else HttpResponse_appendToBuffer r HyBuffer_new = Inl OutOfBounds"
  using assms by (rule appendToBuffer_outcome)

theorem appendToBuffer_new_witness:
  "(\<exists>b. HttpResponse_appendToBuffer (HttpResponse_new True) HyBuffer_new = Inr b
      \<and> contents b = response_head (HttpResponse_new True))
   \<and> HttpResponse_appendToBuffer
       (HttpResponse_setBody (HttpResponse_new True) (replicate 1020 CHR ''x'')) HyBuffer_new
     = Inl OutOfBounds"
proof -
  let ?r = "HttpResponse_new True"
  let ?r' = "HttpResponse_setBody ?r (replicate 1020 CHR ''x'')"
  have len: "length (response_head ?r) \<le> 1024" "4 < length (response_head ?r)"
    "length (response_head ?r') = length (response_head ?r)"
    by (simp_all add: response_head_def HttpResponse_new_def HttpResponse_setBody_def fmt_d_def
        dec_digits.simps CRLF_def)
  have "length (resp_body ?r) = 0" "length (resp_body ?r') = 1020"
    by (simp_all add: HttpResponse_new_def HttpResponse_setBody_def)
  then show ?thesis
    using appendToBuffer_new [of ?r] appendToBuffer_new [of ?r'] len
    by (auto simp: HttpResponse_new_def)
qed

end
