(* ===== verification/Channel.thy ===== *)
theory Channel
  imports Prelude Timestamp "HOL-Library.Word"
begin

text \<open>
  \<^verbatim>\<open>include/network/Channel.hpp\<close> and \<^verbatim>\<open>src/Channel.cpp\<close>: a descriptor with the events it is
  interested in and the callbacks for the events that happened. A callback is a function on the
  state of its client. The operations that end in \<open>update()\<close> are in two parts: the change of the
  event mask here, the call of \<open>EventLoop::updateChannel\<close> in theory EventLoop.
\<close>

unbundle bit_operations_syntax

section \<open>Event masks\<close>

type_synonym mask = "32 word"

definition POLLIN :: mask where "POLLIN = 0x001"
definition POLLPRI :: mask where "POLLPRI = 0x002"
definition POLLOUT :: mask where "POLLOUT = 0x004"
definition POLLERR :: mask where "POLLERR = 0x008"
definition POLLHUP :: mask where "POLLHUP = 0x010"
definition POLLNVAL :: mask where "POLLNVAL = 0x020"
definition POLLRDHUP :: mask where "POLLRDHUP = 0x2000"

lemmas poll_defs = POLLIN_def POLLPRI_def POLLOUT_def POLLERR_def POLLHUP_def POLLNVAL_def POLLRDHUP_def

definition EMPTYEVENT :: mask where "EMPTYEVENT = 0"
definition READEVENT :: mask where "READEVENT = POLLIN OR POLLPRI"
definition WRITEEVENT :: mask where "WRITEEVENT = POLLOUT"

section \<open>Data\<close>

record Channel =
  ch_loop :: nat
  ch_fd :: int
  ch_events :: mask
  ch_revents :: mask
  ch_index :: int
  ch_handlingEvent :: bool

text \<open>The constructor leaves \<open>_handlingEvent\<close> uninitialised: its value is an argument.\<close>

definition Channel_new :: "nat \<Rightarrow> int \<Rightarrow> bool \<Rightarrow> Channel" where
  "Channel_new loop fd garbage =
     \<lparr>ch_loop = loop, ch_fd = fd, ch_events = 0, ch_revents = 0, ch_index = -1,
      ch_handlingEvent = garbage\<rparr>"

definition Channel_delete :: "Channel \<Rightarrow> unit result" where
  "Channel_delete c = assert_that (\<not> ch_handlingEvent c)"

definition Channel_isEmptyEvent :: "Channel \<Rightarrow> bool" where
  "Channel_isEmptyEvent c \<longleftrightarrow> ch_events c = EMPTYEVENT"

definition Channel_isWriting :: "Channel \<Rightarrow> bool" where
  "Channel_isWriting c \<longleftrightarrow> ch_events c AND WRITEEVENT \<noteq> 0"

definition Channel_set_revents :: "Channel \<Rightarrow> mask \<Rightarrow> Channel" where
  "Channel_set_revents c revents = c\<lparr>ch_revents := revents\<rparr>"

definition Channel_set_index :: "Channel \<Rightarrow> int \<Rightarrow> Channel" where
  "Channel_set_index c index = c\<lparr>ch_index := index\<rparr>"

definition Channel_enableReading :: "Channel \<Rightarrow> Channel" where
  "Channel_enableReading c = c\<lparr>ch_events := ch_events c OR READEVENT\<rparr>"

definition Channel_enableWriting :: "Channel \<Rightarrow> Channel" where
  "Channel_enableWriting c = c\<lparr>ch_events := ch_events c OR WRITEEVENT\<rparr>"

definition Channel_disableWriting :: "Channel \<Rightarrow> Channel" where
  "Channel_disableWriting c = c\<lparr>ch_events := ch_events c AND NOT WRITEEVENT\<rparr>"

definition Channel_disableAll :: "Channel \<Rightarrow> Channel" where
  "Channel_disableAll c = c\<lparr>ch_events := EMPTYEVENT\<rparr>"

section \<open>Dispatch\<close>

record 's callbacks =
  cb_read :: "(Timestamp \<Rightarrow> 's \<Rightarrow> 's result) option"
  cb_write :: "('s \<Rightarrow> 's result) option"
  cb_error :: "('s \<Rightarrow> 's result) option"
  cb_close :: "('s \<Rightarrow> 's result) option"

definition call_if :: "bool \<Rightarrow> ('s \<Rightarrow> 's result) option \<Rightarrow> 's \<Rightarrow> 's result" where
  "call_if b f s = (if b then case f of Some g \<Rightarrow> g s | None \<Rightarrow> Inr s else Inr s)"

text \<open>
  \<open>handleEvent\<close> on the client's state; \<open>chan\<close> and \<open>upd\<close> read and replace the channel in it. The mask
  \<open>_revents\<close> is only written by the poller, so it is read once.
\<close>

definition Channel_handleEvent ::
  "('s \<Rightarrow> Channel) \<Rightarrow> ((Channel \<Rightarrow> Channel) \<Rightarrow> 's \<Rightarrow> 's) \<Rightarrow> 's callbacks \<Rightarrow> Timestamp \<Rightarrow> 's \<Rightarrow> 's result" where
  "Channel_handleEvent chan upd cbs receiveTime s =
     (let revents = ch_revents (chan s);
          s = upd (\<lambda>c. c\<lparr>ch_handlingEvent := True\<rparr>) s
      in bind_result
           (call_if (revents AND POLLHUP \<noteq> 0 \<and> \<not> revents AND POLLIN \<noteq> 0) (cb_close cbs) s) (\<lambda>s.
         bind_result
           (call_if (revents AND (POLLERR OR POLLNVAL) \<noteq> 0) (cb_error cbs) s) (\<lambda>s.
         bind_result
           (call_if (revents AND (POLLIN OR POLLPRI OR POLLRDHUP) \<noteq> 0)
              (map_option (\<lambda>f. f receiveTime) (cb_read cbs)) s) (\<lambda>s.
         bind_result
           (call_if (revents AND POLLOUT \<noteq> 0) (cb_write cbs) s) (\<lambda>s.
         Inr (upd (\<lambda>c. c\<lparr>ch_handlingEvent := False\<rparr>) s))))))"

section \<open>Event masks of a channel\<close>

lemma isWriting_enable [simp]: "Channel_isWriting (Channel_enableWriting c)"
  by (simp add: Channel_isWriting_def Channel_enableWriting_def WRITEEVENT_def POLLOUT_def
      bit.conj_disj_distrib2)

lemma isWriting_disable [simp]: "\<not> Channel_isWriting (Channel_disableWriting c)"
  by (simp add: Channel_isWriting_def Channel_disableWriting_def and.assoc)

lemma isWriting_disableAll [simp]: "\<not> Channel_isWriting (Channel_disableAll c)"
  by (simp add: Channel_isWriting_def Channel_disableAll_def EMPTYEVENT_def)

lemma isWriting_enableReading [simp]:
  "Channel_isWriting (Channel_enableReading c) = Channel_isWriting c"
  by (simp add: Channel_isWriting_def Channel_enableReading_def bit.conj_disj_distrib2
      READEVENT_def WRITEEVENT_def poll_defs)

lemma empty_disableAll [simp]: "Channel_isEmptyEvent (Channel_disableAll c)"
  by (simp add: Channel_isEmptyEvent_def Channel_disableAll_def)

end
