(* ===== verification/Poller.thy ===== *)
theory Poller
  imports Channel
begin

text \<open>
  \<^verbatim>\<open>include/network/Poller.hpp\<close> and \<^verbatim>\<open>src/Poller.cpp\<close>: the array given to \<open>poll(2)\<close> and the map from
  descriptors to channels. Channels are objects reached through pointers (numbers) in
  \<open>po_objs\<close>, since the poller and the owner of a channel share it and the poller writes the
  channel's position in the array into it. A pointer to no object is an access out of bounds.
  The answer of the system call \<open>poll\<close> is an argument.
\<close>

section \<open>Data\<close>

record pollfd =
  pfd_fd :: int
  pfd_events :: "16 word"
  pfd_revents :: "16 word"

record Poller =
  po_thread :: nat   \<comment> \<open>thread of the owning loop\<close>
  po_fds :: "pollfd list"
  po_channels :: "int \<rightharpoonup> nat"
  po_objs :: "nat \<rightharpoonup> Channel"

definition Poller_new :: "nat \<Rightarrow> (nat \<rightharpoonup> Channel) \<Rightarrow> Poller" where
  "Poller_new thread objs =
     \<lparr>po_thread = thread, po_fds = [], po_channels = Map.empty, po_objs = objs\<rparr>"

definition deref :: "('a \<rightharpoonup> 'b) \<Rightarrow> 'a \<Rightarrow> 'b result" where
  "deref m a = (case m a of Some v \<Rightarrow> Inr v | None \<Rightarrow> Inl OutOfBounds)"

lemma deref_Some [simp]: "m a = Some v \<Longrightarrow> deref m a = Inr v"
  by (simp add: deref_def)

definition in_loop_thread :: "nat \<Rightarrow> nat \<Rightarrow> unit result" where
  "in_loop_thread me thread = (if me = thread then Inr () else Inl Abort)"

lemma in_loop_thread_same [simp]: "in_loop_thread t t = Inr ()"
  by (simp add: in_loop_thread_def)

section \<open>Operations\<close>

definition Poller_addNew :: "nat \<Rightarrow> Channel \<Rightarrow> Poller \<Rightarrow> Poller result" where
  "Poller_addNew channel c p =
     bind_result (assert_that (po_channels p (ch_fd c) = None)) (\<lambda>_.
     (let pfd = \<lparr>pfd_fd = ch_fd c, pfd_events = ucast (ch_events c), pfd_revents = 0\<rparr>;
          fds = po_fds p @ [pfd];
          idx = to_int32 (int (length fds)) - 1
      in Inr (p\<lparr>po_fds := fds,
                po_objs := (po_objs p)(channel \<mapsto> Channel_set_index c idx),
                po_channels := (po_channels p)(pfd_fd pfd \<mapsto> channel)\<rparr>)))"

definition Poller_updateChannel :: "nat \<Rightarrow> nat \<Rightarrow> Poller \<Rightarrow> Poller result" where
  "Poller_updateChannel me channel p =
     bind_result (in_loop_thread me (po_thread p)) (\<lambda>_.
     bind_result (deref (po_objs p) channel) (\<lambda>c.
     if ch_index c < 0 then Poller_addNew channel c p
     else
       bind_result (assert_that (po_channels p (ch_fd c) \<noteq> None)) (\<lambda>_.
       bind_result (assert_that (po_channels p (ch_fd c) = Some channel)) (\<lambda>_.
       (let idx = ch_index c; pfd = po_fds p ! nat idx in
        bind_result (assert_that (0 \<le> idx \<and> idx < int (length (po_fds p)))) (\<lambda>_.
        bind_result (assert_that (pfd_fd pfd = ch_fd c \<or> pfd_fd pfd = - ch_fd c - 1)) (\<lambda>_.
        (let pfd = pfd\<lparr>pfd_events := ucast (ch_events c), pfd_revents := 0\<rparr>;
             pfd = (if Channel_isEmptyEvent c then pfd\<lparr>pfd_fd := - ch_fd c - 1\<rparr> else pfd)
         in Inr (p\<lparr>po_fds := (po_fds p)[nat idx := pfd]\<rparr>)))))))))"

text \<open>The last part of \<open>removeChannel\<close>: the entry at \<open>idx\<close> is replaced by the last one.\<close>

definition Poller_dropEntry :: "int \<Rightarrow> Poller \<Rightarrow> Poller result" where
  "Poller_dropEntry idx p =
     (if nat idx = length (po_fds p) - 1 then Inr (p\<lparr>po_fds := butlast (po_fds p)\<rparr>)
      else
        (let lastFd = pfd_fd (last (po_fds p));
             fds = (po_fds p)[nat idx := last (po_fds p),
                              length (po_fds p) - 1 := po_fds p ! nat idx];
             lastFd = (if lastFd < 0 then - lastFd - 1 else lastFd)
         in bind_result (deref (po_channels p) lastFd) (\<lambda>lastChannel.
            bind_result (deref (po_objs p) lastChannel) (\<lambda>c.
            Inr (p\<lparr>po_fds := butlast fds,
                   po_objs := (po_objs p)(lastChannel \<mapsto> Channel_set_index c idx)\<rparr>)))))"

definition Poller_removeChannel :: "nat \<Rightarrow> nat \<Rightarrow> Poller \<Rightarrow> Poller result" where
  "Poller_removeChannel me channel p =
     bind_result (in_loop_thread me (po_thread p)) (\<lambda>_.
     bind_result (deref (po_objs p) channel) (\<lambda>c.
     bind_result (assert_that (po_channels p (ch_fd c) \<noteq> None)) (\<lambda>_.
     bind_result (assert_that (po_channels p (ch_fd c) = Some channel)) (\<lambda>_.
     bind_result (assert_that (Channel_isEmptyEvent c)) (\<lambda>_.
     (let idx = ch_index c; pfd = po_fds p ! nat idx;
          p = p\<lparr>po_channels := (po_channels p)(ch_fd c := None)\<rparr>
      in bind_result (assert_that (0 \<le> idx \<and> idx < int (length (po_fds p)))) (\<lambda>_.
         bind_result (assert_that (pfd_fd pfd = - ch_fd c - 1
             \<and> scast (pfd_events pfd) = ch_events c)) (\<lambda>_.
         Poller_dropEntry idx p))))))))"

fun fillActive :: "pollfd list \<Rightarrow> int \<Rightarrow> Poller \<Rightarrow> nat list \<Rightarrow> (Poller \<times> nat list) result" where
  "fillActive [] numEvents p active = Inr (p, active)"
| "fillActive (pfd # fds) numEvents p active =
     (if numEvents > 0 then
        if 0 <s pfd_revents pfd then
          (case po_channels p (pfd_fd pfd) of
             None \<Rightarrow> Inl AssertFail
           | Some channel \<Rightarrow>
               bind_result (deref (po_objs p) channel) (\<lambda>c.
               bind_result (assert_that (ch_fd c = pfd_fd pfd)) (\<lambda>_.
               fillActive fds (numEvents - 1)
                 (p\<lparr>po_objs := (po_objs p)(channel \<mapsto>
                      Channel_set_revents c (scast (pfd_revents pfd)))\<rparr>)
                 (active @ [channel]))))
        else fillActive fds numEvents p active
      else Inr (p, active))"

definition Poller_fillActiveChannels ::
  "int \<Rightarrow> Poller \<Rightarrow> nat list \<Rightarrow> (Poller \<times> nat list) result" where
  "Poller_fillActiveChannels numEvents p active = fillActive (po_fds p) numEvents p active"

text \<open>
  \<open>poll\<close>: the answer is the number of events and the \<open>revents\<close> the kernel stores in the array, or
  \<open>None\<close> for \<open>-1\<close>; \<open>now\<close> is the clock reading after the call.
\<close>

definition Poller_poll ::
  "(int \<times> 16 word list) option \<Rightarrow> Timestamp \<Rightarrow> Poller \<Rightarrow> nat list
    \<Rightarrow> (Timestamp \<times> Poller \<times> nat list) result" where
  "Poller_poll answer now p active =
     (case answer of
        None \<Rightarrow> Inr (now, p, active)
      | Some (numEvents, revents) \<Rightarrow>
          (let p = p\<lparr>po_fds := map2 (\<lambda>pfd r. pfd\<lparr>pfd_revents := r\<rparr>) (po_fds p) revents\<rparr> in
           if numEvents > 0 then
             bind_result (Poller_fillActiveChannels numEvents p active) (\<lambda>(p, active).
             Inr (now, p, active))
           else Inr (now, p, active)))"

section \<open>Invariant\<close>

definition pfd_owner :: "pollfd \<Rightarrow> int" where
  "pfd_owner pfd = (if pfd_fd pfd < 0 then - pfd_fd pfd - 1 else pfd_fd pfd)"

text \<open>Entry \<open>i\<close> of the array belongs to the channel \<open>c\<close> at the address \<open>ch\<close>.\<close>

definition slot :: "Poller \<Rightarrow> nat \<Rightarrow> nat \<Rightarrow> Channel \<Rightarrow> bool" where
  "slot p i ch c \<longleftrightarrow>
     i < length (po_fds p) \<and> po_objs p ch = Some c \<and> po_channels p (ch_fd c) = Some ch
     \<and> 0 \<le> ch_fd c \<and> ch_index c = int i \<and> pfd_owner (po_fds p ! i) = ch_fd c
     \<and> pfd_events (po_fds p ! i) = ucast (ch_events c)
     \<and> (ch_events c = 0 \<longrightarrow> pfd_fd (po_fds p ! i) < 0)"

definition poller_inv :: "Poller \<Rightarrow> bool" where
  "poller_inv p \<longleftrightarrow>
     length (po_fds p) < 2 ^ 31
     \<and> (\<forall>i < length (po_fds p). \<exists>ch c. slot p i ch c)
     \<and> (\<forall>fd ch. po_channels p fd = Some ch \<longrightarrow> (\<exists>i c. slot p i ch c \<and> ch_fd c = fd))"

text \<open>What the owner of a channel relies on.\<close>

definition registered :: "Poller \<Rightarrow> nat \<Rightarrow> bool" where
  "registered p ch \<longleftrightarrow>
     (case po_objs p ch of None \<Rightarrow> False | Some c \<Rightarrow> po_channels p (ch_fd c) = Some ch)"

definition channel_events :: "Poller \<Rightarrow> nat \<Rightarrow> mask" where
  "channel_events p ch = (case po_objs p ch of None \<Rightarrow> 0 | Some c \<Rightarrow> ch_events c)"

text \<open>An operation of a channel that changes its mask and ends in \<open>update()\<close>.\<close>

definition channel_change :: "(Channel \<Rightarrow> Channel) \<Rightarrow> nat \<Rightarrow> nat \<Rightarrow> Poller \<Rightarrow> Poller result" where
  "channel_change f me channel p =
     bind_result (deref (po_objs p) channel) (\<lambda>c.
     Poller_updateChannel me channel (p\<lparr>po_objs := (po_objs p)(channel \<mapsto> f c)\<rparr>))"

definition events_only :: "(Channel \<Rightarrow> Channel) \<Rightarrow> bool" where
  "events_only f \<longleftrightarrow> (\<forall>c. f c = c\<lparr>ch_events := ch_events (f c)\<rparr>)"

lemma events_only_ops [simp]:
  "events_only Channel_enableReading" "events_only Channel_enableWriting"
  "events_only Channel_disableWriting" "events_only Channel_disableAll"
  by (simp_all add: events_only_def Channel_enableReading_def Channel_enableWriting_def
      Channel_disableWriting_def Channel_disableAll_def)

lemma events_onlyD:
  "events_only f \<Longrightarrow> ch_fd (f c) = ch_fd c \<and> ch_index (f c) = ch_index c \<and> ch_loop (f c) = ch_loop c
    \<and> ch_revents (f c) = ch_revents c \<and> ch_handlingEvent (f c) = ch_handlingEvent c"
proof -
  assume "events_only f"
  then obtain e where "f c = c\<lparr>ch_events := e\<rparr>" unfolding events_only_def by blast
  then show ?thesis by simp
qed

section \<open>Slots\<close>

lemma poller_inv_new [simp]: "poller_inv (Poller_new t objs)"
  by (simp add: poller_inv_def Poller_new_def)

lemma slot_unique:
  assumes "slot p i ch c" and "slot p j ch' c'"
  shows "i = j \<longleftrightarrow> ch = ch'" and "ch = ch' \<Longrightarrow> c = c'" and "ch_fd c = ch_fd c' \<longleftrightarrow> ch = ch'"
  using assms by (auto simp: slot_def)

lemma registered_slot:
  assumes "poller_inv p" and "registered p ch"
  obtains i c where "slot p i ch c"
proof -
  from assms(2) obtain c where c: "po_objs p ch = Some c" "po_channels p (ch_fd c) = Some ch"
    by (auto simp: registered_def split: option.splits)
  with assms(1) obtain i c' where "slot p i ch c'" unfolding poller_inv_def by blast
  with c that show thesis by (auto simp: slot_def)
qed

lemma poller_inv_entry:
  assumes "poller_inv p" and "i < length (po_fds p)"
  obtains ch c where "slot p i ch c"
  using assms unfolding poller_inv_def by blast

lemma poller_inv_channel:
  assumes "poller_inv p" and "po_channels p fd = Some ch"
  obtains i c where "slot p i ch c" and "ch_fd c = fd"
  using assms unfolding poller_inv_def by blast

lemma slot_registered: "slot p i ch c \<Longrightarrow> registered p ch"
  by (simp add: slot_def registered_def)

lemma slot_events: "slot p i ch c \<Longrightarrow> channel_events p ch = ch_events c"
  by (simp add: slot_def channel_events_def)

text \<open>The assertions on the descriptor of an entry.\<close>

lemma slot_fd_cases: "slot p i ch c \<Longrightarrow>
    pfd_fd (po_fds p ! i) = ch_fd c \<or> pfd_fd (po_fds p ! i) = - ch_fd c - 1"
  by (auto simp: slot_def pfd_owner_def split: if_splits)

section \<open>Updating a registered channel\<close>

lemma channel_change_registered:
  assumes inv: "poller_inv p" and sl: "slot p i ch c" and f: "events_only f"
  defines "pfd' \<equiv> (po_fds p ! i)\<lparr>pfd_events := ucast (ch_events (f c)), pfd_revents := 0,
      pfd_fd := (if ch_events (f c) = 0 then - ch_fd c - 1 else pfd_fd (po_fds p ! i))\<rparr>"
  shows "channel_change f (po_thread p) ch p =
      Inr (p\<lparr>po_objs := (po_objs p)(ch \<mapsto> f c), po_fds := (po_fds p)[i := pfd']\<rparr>)"
  using sl slot_fd_cases [OF sl] events_onlyD [OF f, of c]
  by (auto simp: slot_def channel_change_def Poller_updateChannel_def pfd'_def
      Channel_isEmptyEvent_def EMPTYEVENT_def Let_def)

lemma slot_change_other:
  assumes "slot p i ch c" "slot p j ch' c'" "ch' \<noteq> ch"
  shows "slot (p\<lparr>po_objs := (po_objs p)(ch \<mapsto> d), po_fds := (po_fds p)[i := pfd']\<rparr>) j ch' c'"
  using assms slot_unique(1) [OF assms(1,2)] by (auto simp: slot_def)

lemma slot_change_same:
  assumes sl: "slot p i ch c" and f: "events_only f"
    and pfd': "pfd' = (po_fds p ! i)\<lparr>pfd_events := ucast (ch_events (f c)), pfd_revents := 0,
      pfd_fd := (if ch_events (f c) = 0 then - ch_fd c - 1 else pfd_fd (po_fds p ! i))\<rparr>"
  shows "slot (p\<lparr>po_objs := (po_objs p)(ch \<mapsto> f c), po_fds := (po_fds p)[i := pfd']\<rparr>) i ch (f c)"
  using sl events_onlyD [OF f, of c] by (auto simp: slot_def pfd' pfd_owner_def)

lemma poller_inv_by_slots:
  assumes inv: "poller_inv p" and len: "length (po_fds p') = length (po_fds p)"
    and chs: "po_channels p' = po_channels p"
    and slots: "\<And>i ch c. slot p i ch c \<Longrightarrow> \<exists>c'. slot p' i ch c' \<and> ch_fd c' = ch_fd c"
  shows "poller_inv p'"
proof -
  have "\<exists>ch c. slot p' i ch c" if i: "i < length (po_fds p')" for i
  proof -
    from i len have "i < length (po_fds p)" by simp
    then obtain ch c where "slot p i ch c" by (rule poller_inv_entry [OF inv])
    then show ?thesis using slots by blast
  qed
  moreover have "\<exists>i c. slot p' i ch c \<and> ch_fd c = fd" if ch: "po_channels p' fd = Some ch" for fd ch
  proof -
    from ch chs have "po_channels p fd = Some ch" by simp
    then obtain i c where "slot p i ch c" "ch_fd c = fd" by (rule poller_inv_channel [OF inv])
    then show ?thesis using slots by metis
  qed
  ultimately show ?thesis using inv len by (simp add: poller_inv_def)
qed

lemma channel_change_ok:
  assumes inv: "poller_inv p" and reg: "registered p ch" and f: "events_only f"
  shows "\<exists>p'. channel_change f (po_thread p) ch p = Inr p' \<and> poller_inv p'
    \<and> po_thread p' = po_thread p \<and> po_channels p' = po_channels p
    \<and> (\<forall>c. po_objs p ch = Some c \<longrightarrow> po_objs p' ch = Some (f c))
    \<and> (\<forall>ch'. ch' \<noteq> ch \<longrightarrow> po_objs p' ch' = po_objs p ch')
    \<and> (\<forall>ch'. registered p' ch' = registered p ch')"
proof -
  obtain i c where sl: "slot p i ch c" using registered_slot [OF inv reg] .
  define pfd' where "pfd' = (po_fds p ! i)\<lparr>pfd_events := ucast (ch_events (f c)), pfd_revents := 0,
      pfd_fd := (if ch_events (f c) = 0 then - ch_fd c - 1 else pfd_fd (po_fds p ! i))\<rparr>"
  let ?p' = "p\<lparr>po_objs := (po_objs p)(ch \<mapsto> f c), po_fds := (po_fds p)[i := pfd']\<rparr>"
  have "channel_change f (po_thread p) ch p = Inr ?p'"
    using channel_change_registered [OF inv sl f] by (simp add: pfd'_def)
  moreover have "poller_inv ?p'"
  proof (rule poller_inv_by_slots [OF inv])
    fix j ch' c'
    assume j: "slot p j ch' c'"
    show "\<exists>d. slot ?p' j ch' d \<and> ch_fd d = ch_fd c'"
    proof (cases "ch' = ch")
      case True
      then show ?thesis
        using slot_change_same [OF sl f pfd'_def] slot_unique [OF sl j] events_onlyD [OF f, of c]
        by auto
    next
      case False
      then show ?thesis using slot_change_other [OF sl j] by blast
    qed
  qed simp_all
  moreover have "po_objs p ch = Some c" using sl by (simp add: slot_def)
  moreover have "registered ?p' ch' = registered p ch'" for ch'
    using sl events_onlyD [OF f, of c]    by (cases "ch' = ch") (simp_all add: registered_def slot_def cong: option.case_cong)
  ultimately show ?thesis by (intro exI [of _ ?p']) auto
qed

section \<open>Registering a new channel\<close>

lemma channel_change_new:
  assumes inv: "poller_inv p" and c: "po_objs p ch = Some c" "ch_index c < 0" "0 \<le> ch_fd c"
    and free: "po_channels p (ch_fd c) = None" and room: "length (po_fds p) + 1 < 2 ^ 31"
    and f: "events_only f" and busy: "ch_events (f c) \<noteq> 0"
  shows "\<exists>p'. channel_change f (po_thread p) ch p = Inr p' \<and> poller_inv p'
    \<and> po_thread p' = po_thread p \<and> po_channels p' = (po_channels p)(ch_fd c \<mapsto> ch)
    \<and> registered p' ch \<and> channel_events p' ch = ch_events (f c)
    \<and> (\<forall>ch'. ch' \<noteq> ch \<longrightarrow> po_objs p' ch' = po_objs p ch') \<and> length (po_fds p') = length (po_fds p) + 1"
proof -
  let ?n = "length (po_fds p)"
  let ?c' = "Channel_set_index (f c) (int ?n)"
  define p' where "p' = p\<lparr>po_fds := po_fds p @ [\<lparr>pfd_fd = ch_fd c,
      pfd_events = ucast (ch_events (f c)), pfd_revents = 0\<rparr>],
    po_objs := (po_objs p)(ch \<mapsto> ?c'), po_channels := (po_channels p)(ch_fd c \<mapsto> ch)\<rparr>"
  have "to_int32 (int ?n + 1) = int ?n + 1" using room by (intro to_int32_small) simp_all
  then have "channel_change f (po_thread p) ch p = Inr p'"
    using c free events_onlyD [OF f, of c]
    by (simp add: channel_change_def Poller_updateChannel_def Poller_addNew_def p'_def Let_def
        add.commute)
  moreover have new: "slot p' ?n ch ?c'"
    using c busy events_onlyD [OF f, of c]
    by (simp add: slot_def p'_def Channel_set_index_def pfd_owner_def)
  moreover have old: "slot p' i ch' c'" if "slot p i ch' c'" for i ch' c'
  proof -
    have "ch' \<noteq> ch" using that c(1,2) by (auto simp: slot_def)
    moreover have "ch_fd c' \<noteq> ch_fd c" using that free by (auto simp: slot_def)
    ultimately show ?thesis using that by (simp add: slot_def p'_def nth_append)
  qed
  moreover have "poller_inv p'"
  proof -
    have "\<exists>ch c. slot p' i ch c" if i: "i < length (po_fds p')" for i
    proof (cases "i = ?n")
      case True
      then show ?thesis using new by blast
    next
      case False
      then have "i < ?n" using i by (simp add: p'_def)
      then show ?thesis using poller_inv_entry [OF inv] old by metis
    qed
    moreover have "\<exists>i c. slot p' i ch' c \<and> ch_fd c = fd" if "po_channels p' fd = Some ch'" for fd ch'
    proof (cases "fd = ch_fd c")
      case True
      then have "ch' = ch" using that by (simp add: p'_def)
      moreover have "ch_fd ?c' = fd" using True events_onlyD [OF f, of c] by (simp add: Channel_set_index_def)
      ultimately show ?thesis using new by blast
    next
      case False
      then have "po_channels p fd = Some ch'" using that by (simp add: p'_def)
      then show ?thesis using poller_inv_channel [OF inv] old by metis
    qed
    ultimately show ?thesis using room by (simp add: poller_inv_def p'_def)
  qed
  ultimately show ?thesis
    using slot_registered [OF new] slot_events [OF new]
    by (intro exI [of _ p']) (auto simp: p'_def Channel_set_index_def)
qed

section \<open>Removing a channel\<close>

text \<open>
  \<open>dropped p i c n chl cl p'\<close>: \<open>p'\<close> is \<open>p\<close> without the channel \<open>c\<close> of entry \<open>i\<close>; the last entry
  \<open>n\<close> has moved to position \<open>i\<close> and its channel has been told so.
\<close>

definition dropped :: "Poller \<Rightarrow> nat \<Rightarrow> Channel \<Rightarrow> nat \<Rightarrow> nat \<Rightarrow> Channel \<Rightarrow> Poller \<Rightarrow> bool" where
  "dropped p i c n chl cl p' \<longleftrightarrow>
     length (po_fds p') = n \<and> po_thread p' = po_thread p
     \<and> po_channels p' = (po_channels p)(ch_fd c := None)
     \<and> (\<forall>j < n. po_fds p' ! j = po_fds p ! (if j = i then n else j))
     \<and> po_objs p' = (if i = n then po_objs p else (po_objs p)(chl \<mapsto> Channel_set_index cl (int i)))"

lemma dropEntry_dropped:
  assumes sl: "slot p i ch c" and lst: "slot p n chl cl" and n: "length (po_fds p) = Suc n"
    and q: "q = p\<lparr>po_channels := (po_channels p)(ch_fd c := None)\<rparr>"
  shows "\<exists>p'. Poller_dropEntry (int i) q = Inr p' \<and> dropped p i c n chl cl p'"
proof (cases "i = n")
  case True
  then show ?thesis using n q by (auto simp: Poller_dropEntry_def nth_butlast dropped_def)
next
  case False
  let ?last = "last (po_fds p)"
  have last: "?last = po_fds p ! n" using n by (simp add: last_conv_nth flip: length_greater_0_conv)
  have i: "i < n" using sl n False by (simp add: slot_def)
  have owner: "(if pfd_fd ?last < 0 then - pfd_fd ?last - 1 else pfd_fd ?last) = ch_fd cl"
    using lst last by (auto simp: slot_def pfd_owner_def)
  have "ch_fd cl \<noteq> ch_fd c" using slot_unique [OF sl lst] False by auto
  then have "po_channels q (ch_fd cl) = Some chl" "po_objs q chl = Some cl"
    using lst q by (auto simp: slot_def)
  then show ?thesis
    using False n q owner last i
    by (auto simp: Poller_dropEntry_def Let_def nth_butlast nth_list_update dropped_def)
qed

lemma dropped_slot:
  assumes sl: "slot p i ch c" and lst: "slot p n chl cl" and n: "length (po_fds p) = Suc n"
    and d: "dropped p i c n chl cl p'" and j: "slot p j ch' c'" and ne: "ch' \<noteq> ch"
  shows "\<exists>c''. slot p' (if j = n then i else j) ch' c'' \<and> ch_fd c'' = ch_fd c'"
proof -
  have fd: "ch_fd c' \<noteq> ch_fd c" "j \<noteq> i" using slot_unique [OF sl j] ne by auto
  show ?thesis
  proof (cases "j = n")
    case True
    then have "ch' = chl" "c' = cl" "i < n"
      using slot_unique [OF lst j] fd(2) sl n by (auto simp: slot_def)
    then show ?thesis using True j fd d by (auto simp: slot_def dropped_def Channel_set_index_def)
  next
    case False
    then have "ch' \<noteq> chl" "j < n" using slot_unique [OF lst j] j n by (auto simp: slot_def)
    then show ?thesis using False j fd d by (auto simp: slot_def dropped_def)
  qed
qed

lemma dropped_inv:
  assumes inv: "poller_inv p" and sl: "slot p i ch c" and lst: "slot p n chl cl"
    and n: "length (po_fds p) = Suc n" and d: "dropped p i c n chl cl p'"
  shows "poller_inv p'"
proof -
  note kept = dropped_slot [OF sl lst n d]
  have "\<exists>ch c. slot p' k ch c" if k: "k < length (po_fds p')" for k
  proof -
    define j where "j = (if k = i then n else k)"
    have j: "j < length (po_fds p)" "j \<noteq> i" "(if j = n then i else j) = k"
      using k d n by (auto simp: j_def dropped_def)
    obtain ch' c' where sj: "slot p j ch' c'" using poller_inv_entry [OF inv j(1)] .
    then have "ch' \<noteq> ch" using slot_unique(1) [OF sl sj] j(2) by auto
    then show ?thesis using kept [OF sj] j(3) by auto
  qed
  moreover have "\<exists>i c. slot p' i ch' c \<and> ch_fd c = fd" if ch': "po_channels p' fd = Some ch'" for fd ch'
  proof -
    have fd: "fd \<noteq> ch_fd c" "po_channels p fd = Some ch'"
      using ch' d by (auto simp: dropped_def split: if_splits)
    obtain j c' where j: "slot p j ch' c'" "ch_fd c' = fd" using poller_inv_channel [OF inv fd(2)] .
    then have "ch' \<noteq> ch" using slot_unique [OF sl j(1)] fd(1) by auto
    then show ?thesis using kept [OF j(1)] j(2) by auto
  qed
  ultimately show ?thesis using inv n d by (simp add: poller_inv_def dropped_def)
qed

lemma dropped_registered:
  assumes sl: "slot p i ch c" and lst: "slot p n chl cl" and d: "dropped p i c n chl cl p'"
  shows "\<not> registered p' ch"
    and "ch' \<noteq> ch \<Longrightarrow> registered p' ch' = registered p ch' \<and> channel_events p' ch' = channel_events p ch'"
proof -
  have "po_objs p' ch = Some c"
    using sl d slot_unique [OF sl lst] by (auto simp: slot_def dropped_def)
  then show "\<not> registered p' ch" using d by (simp add: registered_def dropped_def)
  show "registered p' ch' = registered p ch' \<and> channel_events p' ch' = channel_events p ch'"
    if "ch' \<noteq> ch"
    using that d lst sl
    by (auto simp: registered_def channel_events_def dropped_def slot_def Channel_set_index_def
        split: option.splits)
qed

text \<open>An object that is the same but for its index, which an object outside the array keeps.\<close>

definition same_object :: "Channel option \<Rightarrow> Channel option \<Rightarrow> bool" where
  "same_object x y \<longleftrightarrow>
     (case x of None \<Rightarrow> y = None
      | Some c \<Rightarrow> \<exists>i. y = Some (c\<lparr>ch_index := i\<rparr>) \<and> (ch_index c < 0 \<longrightarrow> i = ch_index c))"

lemma same_object_refl [simp]: "same_object x x"
  by (cases x) (auto simp: same_object_def intro: exI [of _ "ch_index (the x)"])

lemma removeChannel_frame:
  assumes inv: "poller_inv p" and reg: "registered p ch" and obj: "po_objs p ch = Some c"
    and c0: "ch_events c = 0"
  shows "\<exists>p'. Poller_removeChannel (po_thread p) ch p = Inr p' \<and> poller_inv p'
    \<and> po_thread p' = po_thread p \<and> po_channels p' = (po_channels p)(ch_fd c := None)
    \<and> \<not> registered p' ch
    \<and> (\<forall>ch'. same_object (po_objs p ch') (po_objs p' ch'))
    \<and> (\<forall>ch'. ch' \<noteq> ch \<longrightarrow> registered p' ch' = registered p ch'
        \<and> channel_events p' ch' = channel_events p ch')"
proof -
  obtain i where sl: "slot p i ch c" using registered_slot [OF inv reg] obj by (auto simp: slot_def)
  obtain n where n: "length (po_fds p) = Suc n"
    using sl by (cases "length (po_fds p)") (auto simp: slot_def)
  obtain chl cl where lst: "slot p n chl cl" using poller_inv_entry [OF inv, of n] n by auto
  obtain p' where p': "Poller_dropEntry (int i) (p\<lparr>po_channels := (po_channels p)(ch_fd c := None)\<rparr>) = Inr p'"
      "dropped p i c n chl cl p'"
    using dropEntry_dropped [OF sl lst n refl] by blast
  have "pfd_fd (po_fds p ! i) = - ch_fd c - 1" "scast (pfd_events (po_fds p ! i)) = (0 :: mask)"
    using sl c0 slot_fd_cases [OF sl] by (auto simp: slot_def)
  then have "Poller_removeChannel (po_thread p) ch p = Inr p'"
    using sl c0 p'(1) by (simp add: Poller_removeChannel_def slot_def Channel_isEmptyEvent_def
        EMPTYEVENT_def Let_def)
  moreover have "same_object (po_objs p ch') (po_objs p' ch')" for ch'
  proof (cases "po_objs p' ch' = po_objs p ch'")
    case False
    then have "ch' = chl" "po_objs p' ch' = Some (Channel_set_index cl (int i))"
      using p'(2) by (auto simp: dropped_def split: if_splits)
    then show ?thesis using lst by (auto simp: slot_def same_object_def Channel_set_index_def)
  qed simp
  ultimately show ?thesis
    using dropped_inv [OF inv sl lst n p'(2)] dropped_registered [OF sl lst p'(2)] p'(2)
    by (intro exI [of _ p']) (auto simp: dropped_def)
qed

lemma removeChannel_ok:
  assumes inv: "poller_inv p" and reg: "registered p ch" and idle: "channel_events p ch = 0"
  shows "\<exists>p'. Poller_removeChannel (po_thread p) ch p = Inr p' \<and> poller_inv p'
    \<and> po_thread p' = po_thread p \<and> \<not> registered p' ch
    \<and> (\<forall>ch'. ch' \<noteq> ch \<longrightarrow> registered p' ch' = registered p ch'
        \<and> channel_events p' ch' = channel_events p ch')"
proof -
  obtain c where "po_objs p ch = Some c" "ch_events c = 0"
    using reg idle by (auto simp: registered_def channel_events_def split: option.splits)
  then show ?thesis using removeChannel_frame [OF inv reg] by blast
qed

section \<open>Reporting events\<close>

definition active_pfd :: "pollfd \<Rightarrow> bool" where
  "active_pfd pfd \<longleftrightarrow> 0 <s pfd_revents pfd"

definition pfd_target :: "Poller \<Rightarrow> pollfd \<Rightarrow> nat \<Rightarrow> Channel \<Rightarrow> bool" where
  "pfd_target p pfd ch c \<longleftrightarrow>
     po_channels p (pfd_fd pfd) = Some ch \<and> po_objs p ch = Some c \<and> ch_fd c = pfd_fd pfd"

text \<open>\<open>revents_set p fds p'\<close>: only the \<open>revents\<close> of the channels of active entries have changed.\<close>

definition revents_set :: "Poller \<Rightarrow> pollfd list \<Rightarrow> Poller \<Rightarrow> bool" where
  "revents_set p fds p' \<longleftrightarrow>
     po_fds p' = po_fds p \<and> po_channels p' = po_channels p \<and> po_thread p' = po_thread p
     \<and> (\<forall>ch c. po_objs p ch = Some c \<longrightarrow> (\<exists>r. po_objs p' ch = Some (c\<lparr>ch_revents := r\<rparr>)))
     \<and> (\<forall>ch c. po_objs p ch = Some c \<and> ch_fd c \<notin> pfd_fd ` set (filter active_pfd fds)
          \<longrightarrow> po_objs p' ch = Some c)
     \<and> (\<forall>pfd ch c. pfd \<in> set fds \<and> active_pfd pfd \<and> pfd_target p pfd ch c
          \<longrightarrow> po_objs p' ch = Some (c\<lparr>ch_revents := scast (pfd_revents pfd)\<rparr>))"

lemma revents_set_Nil [simp]: "revents_set p [] p"
proof -
  have "\<exists>r. c = c\<lparr>ch_revents := r\<rparr>" for c :: Channel by (intro exI [of _ "ch_revents c"]) simp
  then show ?thesis by (simp add: revents_set_def)
qed

lemma revents_set_Cons:
  assumes act: "active_pfd pfd" and tgt: "pfd_target p pfd ch c"
    and new: "pfd_fd pfd \<notin> pfd_fd ` set (filter active_pfd fds)"
    and p1: "p1 = p\<lparr>po_objs := (po_objs p)(ch \<mapsto> c\<lparr>ch_revents := scast (pfd_revents pfd)\<rparr>)\<rparr>"
    and rest: "revents_set p1 fds p'"
  shows "revents_set p (pfd # fds) p'"
proof -
  let ?c1 = "c\<lparr>ch_revents := scast (pfd_revents pfd)\<rparr>"
  note r = rest [unfolded revents_set_def]
  have ch: "po_objs p' ch = Some ?c1" using r new tgt p1 by (simp add: pfd_target_def)
  have "\<exists>r. po_objs p' ch' = Some (c'\<lparr>ch_revents := r\<rparr>)" if "po_objs p ch' = Some c'" for ch' c'
    using that ch r tgt p1 by (cases "ch' = ch") (auto simp: pfd_target_def)
  moreover have "po_objs p' ch' = Some c'"
    if "po_objs p ch' = Some c'" "ch_fd c' \<notin> pfd_fd ` set (filter active_pfd (pfd # fds))" for ch' c'
    using that act tgt r p1 by (cases "ch' = ch") (auto simp: pfd_target_def)
  moreover have "po_objs p' ch' = Some (c'\<lparr>ch_revents := scast (pfd_revents q)\<rparr>)"
    if "q \<in> set (pfd # fds)" "active_pfd q" "pfd_target p q ch' c'" for q ch' c'
  proof (cases "q \<in> set fds")
    case True
    then have "pfd_fd q \<in> pfd_fd ` set (filter active_pfd fds)" using that(2) by simp
    then have "pfd_fd q \<noteq> pfd_fd pfd" using new by metis
    then have "pfd_target p1 q ch' c'" using that(3) tgt p1 by (auto simp: pfd_target_def)
    then show ?thesis using r True that(2) by blast
  next
    case False
    then show ?thesis using that ch tgt by (auto simp: pfd_target_def)
  qed
  ultimately show ?thesis using r p1 by (simp add: revents_set_def)
qed

lemma revents_set_skip:
  "\<not> active_pfd pfd \<Longrightarrow> revents_set p fds p' \<Longrightarrow> revents_set p (pfd # fds) p'"
  by (simp add: revents_set_def) blast

lemma fillActive_skip:
  "\<not> active_pfd pfd \<Longrightarrow> fillActive (pfd # fds) n p act = fillActive fds n p act"
  by (cases fds) (simp_all add: active_pfd_def)

lemma fillActive_all:
  "\<forall>pfd \<in> set fds. active_pfd pfd \<longrightarrow> (\<exists>ch c. pfd_target p pfd ch c) \<Longrightarrow>
   distinct (map pfd_fd (filter active_pfd fds)) \<Longrightarrow>
   \<exists>p'. fillActive fds (int (length (filter active_pfd fds))) p act =
      Inr (p', act @ map (\<lambda>pfd. the (po_channels p (pfd_fd pfd))) (filter active_pfd fds))
     \<and> revents_set p fds p'"
proof (induction fds arbitrary: p act)
  case Nil
  then show ?case by simp
next
  case (Cons pfd fds)
  show ?case
  proof (cases "active_pfd pfd")
    case False
    then show ?thesis
      using Cons.IH [of p act] Cons.prems revents_set_skip [OF False]
      by (auto simp: fillActive_skip simp del: fillActive.simps)
  next
    case True
    then obtain ch c where t: "pfd_target p pfd ch c" using Cons.prems(1) by auto
    define p1 where "p1 = p\<lparr>po_objs := (po_objs p)(ch \<mapsto> c\<lparr>ch_revents := scast (pfd_revents pfd)\<rparr>)\<rparr>"
    have new: "pfd_fd pfd \<notin> pfd_fd ` set (filter active_pfd fds)" using Cons.prems(2) True by simp
    have "\<exists>ch' c'. pfd_target p1 q ch' c'" if q: "q \<in> set fds" "active_pfd q" for q
    proof -
      obtain ch' c' where "pfd_target p q ch' c'" using q Cons.prems(1) by auto
      moreover have "pfd_fd q \<in> pfd_fd ` set (filter active_pfd fds)" using q by simp
      then have "pfd_fd q \<noteq> pfd_fd pfd" using new by metis
      ultimately show ?thesis using t by (auto simp: pfd_target_def p1_def)
    qed
    then obtain p' where p': "fillActive fds (int (length (filter active_pfd fds))) p1 (act @ [ch]) =
        Inr (p', (act @ [ch]) @ map (\<lambda>pfd. the (po_channels p1 (pfd_fd pfd))) (filter active_pfd fds))"
        "revents_set p1 fds p'"
      using Cons.IH [of p1 "act @ [ch]"] Cons.prems(2) True by auto
    have "revents_set p (pfd # fds) p'" by (rule revents_set_Cons [OF True t new p1_def p'(2)])
    moreover have "0 <s pfd_revents pfd" using True by (simp add: active_pfd_def)
    ultimately show ?thesis
      using True t p'(1) by (auto simp: pfd_target_def p1_def Channel_set_revents_def)
  qed
qed

text \<open>
  What \<open>poll(2)\<close> documents about its answer: as many events as entries with non-zero \<open>revents\<close>, no
  event for a negative descriptor, and no flag in the sign bit.
\<close>

definition poll_answer :: "Poller \<Rightarrow> int \<Rightarrow> 16 word list \<Rightarrow> bool" where
  "poll_answer p numEvents revents \<longleftrightarrow>
     length revents = length (po_fds p)
     \<and> numEvents = int (length (filter (\<lambda>r. r \<noteq> 0) revents))
     \<and> list_all (\<lambda>(pfd, r). (pfd_fd pfd < 0 \<longrightarrow> r = 0) \<and> (r \<noteq> 0 \<longrightarrow> 0 <s r)) (zip (po_fds p) revents)"

definition answered :: "Poller \<Rightarrow> 16 word list \<Rightarrow> Poller" where
  "answered p revents =
     p\<lparr>po_fds := map2 (\<lambda>pfd r. pfd\<lparr>pfd_revents := r\<rparr>) (po_fds p) revents\<rparr>"

lemma slot_answered:
  "length revents = length (po_fds p) \<Longrightarrow> slot p i ch c \<Longrightarrow> slot (answered p revents) i ch c"
  by (auto simp: slot_def answered_def pfd_owner_def)

lemma answered_inv:
  "poller_inv p \<Longrightarrow> length revents = length (po_fds p) \<Longrightarrow> poller_inv (answered p revents)"
  by (rule poller_inv_by_slots [of p]) (auto simp: answered_def intro: slot_answered [unfolded answered_def])

lemma slot_revents: "revents_set p fds p' \<Longrightarrow> slot p i ch c \<Longrightarrow> \<exists>r. slot p' i ch (c\<lparr>ch_revents := r\<rparr>)"
  unfolding revents_set_def slot_def by fastforce

lemma revents_inv: "poller_inv p \<Longrightarrow> revents_set p fds p' \<Longrightarrow> poller_inv p'"
proof (rule poller_inv_by_slots [of p])
  fix i ch c
  assume "revents_set p fds p'" "slot p i ch c"
  then obtain r where "slot p' i ch (c\<lparr>ch_revents := r\<rparr>)" using slot_revents by blast
  moreover have "ch_fd (c\<lparr>ch_revents := r\<rparr>) = ch_fd c" by simp
  ultimately show "\<exists>c'. slot p' i ch c' \<and> ch_fd c' = ch_fd c" by blast
qed (simp_all add: revents_set_def)

lemma owners_distinct: "poller_inv p \<Longrightarrow> distinct (map pfd_owner (po_fds p))"
proof -
  assume inv: "poller_inv p"
  have "pfd_owner (po_fds p ! i) \<noteq> pfd_owner (po_fds p ! j)"
    if "i < length (po_fds p)" "j < length (po_fds p)" "i \<noteq> j" for i j
  proof -
    obtain ch c where i: "slot p i ch c" using poller_inv_entry [OF inv \<open>i < _\<close>] .
    obtain ch' c' where j: "slot p j ch' c'" using poller_inv_entry [OF inv \<open>j < _\<close>] .
    show ?thesis using slot_unique [OF i j] i j that(3) by (auto simp: slot_def)
  qed
  then show ?thesis by (simp add: distinct_conv_nth)
qed

lemma answered_active:
  assumes inv: "poller_inv p" and ans: "poll_answer p n revents" and q: "q = answered p revents"
  shows "\<forall>pfd \<in> set (po_fds q). active_pfd pfd \<longrightarrow> 0 \<le> pfd_fd pfd \<and> (\<exists>ch c. pfd_target q pfd ch c)"
    and "distinct (map pfd_fd (filter active_pfd (po_fds q)))"
    and "n = int (length (filter active_pfd (po_fds q)))"
proof -
  have len: "length revents = length (po_fds p)" using ans by (simp add: poll_answer_def)
  have fds: "po_fds q = map2 (\<lambda>pfd r. pfd\<lparr>pfd_revents := r\<rparr>) (po_fds p) revents"
    by (simp add: q answered_def)
  have zip: "(pfd, r) \<in> set (zip (po_fds p) revents) \<Longrightarrow> (pfd_fd pfd < 0 \<longrightarrow> r = 0) \<and> (r \<noteq> 0 \<longrightarrow> 0 <s r)"
    for pfd r using ans by (auto simp: poll_answer_def list_all_iff)
  have pos: "0 \<le> pfd_fd pfd" if mem: "pfd \<in> set (po_fds q)" and act: "active_pfd pfd" for pfd
  proof -
    obtain pf r where pf: "(pf, r) \<in> set (zip (po_fds p) revents)" "pfd = pf\<lparr>pfd_revents := r\<rparr>"
      using mem unfolding fds by auto
    then have "r \<noteq> 0" using act by (auto simp: active_pfd_def)
    then show ?thesis using zip [OF pf(1)] pf(2) by auto
  qed
  moreover have "\<exists>ch c. pfd_target q pfd ch c" if mem: "pfd \<in> set (po_fds q)" "active_pfd pfd" for pfd
  proof -
    obtain i where i: "i < length (po_fds q)" "pfd = po_fds q ! i" using mem(1) by (metis in_set_conv_nth)
    have "poller_inv q" using answered_inv [OF inv len] by (simp add: q)
    then obtain ch c where "slot q i ch c" using poller_inv_entry i(1) by blast
    then show ?thesis using pos [OF mem] i(2) by (auto simp: slot_def pfd_target_def pfd_owner_def)
  qed
  ultimately show "\<forall>pfd \<in> set (po_fds q). active_pfd pfd \<longrightarrow>
      0 \<le> pfd_fd pfd \<and> (\<exists>ch c. pfd_target q pfd ch c)" by blast
  have "distinct (map pfd_owner (po_fds q))"
    using owners_distinct [OF answered_inv [OF inv len]] by (simp add: q)
  then have "distinct (map pfd_owner (filter active_pfd (po_fds q)))" by (rule distinct_map_filter)
  moreover have "map pfd_owner (filter active_pfd (po_fds q)) = map pfd_fd (filter active_pfd (po_fds q))"
    using pos by (intro map_cong) (auto simp: pfd_owner_def not_le dest!: pos)
  ultimately show "distinct (map pfd_fd (filter active_pfd (po_fds q)))" by simp
  have "length (filter active_pfd (map2 (\<lambda>pfd r. pfd\<lparr>pfd_revents := r\<rparr>) fs rs))
      = length (filter (\<lambda>r. r \<noteq> 0) rs)"
    if "length rs = length fs" "\<forall>x \<in> set (zip fs rs). snd x \<noteq> 0 \<longrightarrow> 0 <s snd x" for fs rs
    using that by (induction fs rs rule: list_induct2') (auto simp: active_pfd_def)
  moreover have "\<forall>x \<in> set (zip (po_fds p) revents). snd x \<noteq> 0 \<longrightarrow> 0 <s snd x" using zip by auto
  ultimately show "n = int (length (filter active_pfd (po_fds q)))"
    using ans len unfolding fds poll_answer_def by simp
qed

lemma fillActive_zero [simp]: "fillActive fds 0 p act = Inr (p, act)"
  by (cases fds) simp_all

lemma poll_run:
  assumes "0 \<le> numEvents"
  shows "Poller_poll (Some (numEvents, revents)) now p act =
    bind_result (fillActive (po_fds (answered p revents)) numEvents (answered p revents) act)
      (\<lambda>(p, act). Inr (now, p, act))"
proof (cases "numEvents = 0")
  case True
  then show ?thesis by (simp add: Poller_poll_def answered_def fillActive_zero)
next
  case False
  then show ?thesis
    using assms by (simp add: Poller_poll_def Poller_fillActiveChannels_def answered_def)
qed

lemma answered_channels:
  assumes "poll_answer p n revents"
  shows "map (\<lambda>pfd. the (po_channels (answered p revents) (pfd_fd pfd)))
      (filter active_pfd (po_fds (answered p revents))) =
    map (\<lambda>(pfd, r). the (po_channels p (pfd_fd pfd)))
      (filter (\<lambda>(pfd, r). r \<noteq> 0) (zip (po_fds p) revents))"
proof -
  have "filter (\<lambda>x. active_pfd (case x of (pfd, r) \<Rightarrow> pfd\<lparr>pfd_revents := r\<rparr>)) (zip (po_fds p) revents) =
      filter (\<lambda>(pfd, r). r \<noteq> 0) (zip (po_fds p) revents)"
    using assms by (intro filter_cong) (auto simp: poll_answer_def list_all_iff active_pfd_def)
  then show ?thesis by (simp add: answered_def filter_map o_def case_prod_unfold)
qed

section \<open>Properties\<close>

text \<open>
  Changing the events of a registered channel fails no assertion and keeps the correspondence
  between array, map and channels; the channel has the new mask and nothing else changes for its
  neighbours.
\<close>

theorem update_registered_channel:
  assumes "poller_inv p" and "registered p ch" and "events_only f"
  shows "\<exists>p'. channel_change f (po_thread p) ch p = Inr p' \<and> poller_inv p' \<and> registered p' ch
    \<and> (\<forall>c. po_objs p ch = Some c \<longrightarrow> po_objs p' ch = Some (f c))
    \<and> (\<forall>ch'. ch' \<noteq> ch \<longrightarrow> po_objs p' ch' = po_objs p ch' \<and> registered p' ch' = registered p ch')"
  using channel_change_ok [OF assms] assms(2) by auto

text \<open>Two channels, registered one after the other, for the examples.\<close>

definition two_channels :: "nat \<rightharpoonup> Channel" where
  "two_channels = [1 \<mapsto> Channel_new 0 5 False, 2 \<mapsto> Channel_new 0 7 False]"

definition two_registered :: "Poller result" where
  "two_registered =
     bind_result (channel_change Channel_enableReading 0 1 (Poller_new 0 two_channels))
       (channel_change Channel_enableReading 0 2)"

lemma two_registered_ok:
  "\<exists>p. two_registered = Inr p \<and> poller_inv p \<and> registered p 1 \<and> registered p 2 \<and> po_thread p = 0"
proof -
  let ?p0 = "Poller_new 0 two_channels"
  have r: "ch_events (Channel_enableReading (Channel_new 0 fd False)) \<noteq> 0" for fd
    by (simp add: Channel_enableReading_def Channel_new_def READEVENT_def poll_defs)
  obtain p1 where p1: "channel_change Channel_enableReading 0 1 ?p0 = Inr p1" "poller_inv p1"
      "po_thread p1 = 0" "registered p1 1" "po_objs p1 2 = Some (Channel_new 0 7 False)"
      "po_channels p1 = [5 \<mapsto> 1]"
    using channel_change_new [of ?p0 1 "Channel_new 0 5 False" Channel_enableReading] r
    by (auto simp: Poller_new_def two_channels_def Channel_new_def poller_inv_def)
  have l: "length (po_fds p1) = 1"
    using p1(1) by (auto simp: channel_change_def Poller_updateChannel_def Poller_addNew_def
        Poller_new_def two_channels_def Channel_new_def Channel_enableReading_def Let_def)
  obtain p2 where p2: "channel_change Channel_enableReading 0 2 p1 = Inr p2" "poller_inv p2"
      "po_thread p2 = 0" "registered p2 2" "po_channels p2 = [5 \<mapsto> 1, 7 \<mapsto> 2]"
      "po_objs p2 1 = po_objs p1 1"
    using channel_change_new [of p1 2 "Channel_new 0 7 False" Channel_enableReading] r p1 l
    by (auto simp: Channel_new_def)
  have "registered p2 1" using p1(4,6) p2(5,6) by (auto simp: registered_def split: option.splits if_splits)
  then show ?thesis using p1 p2 by (auto simp: two_registered_def)
qed

theorem update_registered_channel_witness:
  "\<exists>p p'. two_registered = Inr p \<and> channel_change Channel_enableWriting 0 2 p = Inr p'
    \<and> poller_inv p' \<and> registered p' 2 \<and> po_objs p' 1 = po_objs p 1"
proof -
  obtain p where p: "two_registered = Inr p" "poller_inv p" "registered p 2" "po_thread p = 0"
    using two_registered_ok by blast
  obtain p' where "channel_change Channel_enableWriting 0 2 p = Inr p'" "poller_inv p'" "registered p' 2"
      "\<forall>ch'. ch' \<noteq> 2 \<longrightarrow> po_objs p' ch' = po_objs p ch' \<and> registered p' ch' = registered p ch'"
    using update_registered_channel [OF p(2,3) events_only_ops(2)] p(4) by auto
  moreover from this(4) have "po_objs p' 1 = po_objs p 1" by simp
  ultimately show ?thesis using p(1) by blast
qed

text \<open>
  C14. Removing a registered channel whose mask is empty fails no assertion and keeps the
  correspondence, also when the last entry of the array moves into the gap; the channel is no longer
  registered and every other channel keeps its registration and its mask.
\<close>

theorem remove_registered_channel:
  assumes "poller_inv p" and "registered p ch" and "channel_events p ch = 0"
  shows "\<exists>p'. Poller_removeChannel (po_thread p) ch p = Inr p' \<and> poller_inv p' \<and> \<not> registered p' ch
    \<and> (\<forall>ch'. ch' \<noteq> ch \<longrightarrow> registered p' ch' = registered p ch'
        \<and> channel_events p' ch' = channel_events p ch')"
  using removeChannel_ok [OF assms] by auto

theorem remove_registered_channel_witness:
  "\<exists>p p' p''. two_registered = Inr p \<and> channel_change Channel_disableAll 0 1 p = Inr p'
    \<and> Poller_removeChannel 0 1 p' = Inr p'' \<and> poller_inv p'' \<and> \<not> registered p'' 1 \<and> registered p'' 2"
proof -
  obtain p where p: "two_registered = Inr p" "poller_inv p" "registered p 1" "registered p 2"
      "po_thread p = 0"
    using two_registered_ok by blast
  obtain p' where p': "channel_change Channel_disableAll 0 1 p = Inr p'" "poller_inv p'"
      "po_thread p' = 0" "\<And>c. po_objs p 1 = Some c \<Longrightarrow> po_objs p' 1 = Some (Channel_disableAll c)"
      "\<And>ch. registered p' ch = registered p ch"
    using channel_change_ok [OF p(2,3) events_only_ops(4)] p(5) by auto
  have "channel_events p' 1 = 0"
    using p'(4) p(3) by (auto simp: channel_events_def registered_def Channel_disableAll_def EMPTYEVENT_def
        split: option.splits)
  then obtain p'' where "Poller_removeChannel 0 1 p' = Inr p''" "poller_inv p''" "\<not> registered p'' 1"
      "\<forall>ch'. ch' \<noteq> 1 \<longrightarrow> registered p'' ch' = registered p' ch'"
    using remove_registered_channel [OF p'(2), of 1] p'(3,5) p(3) by auto
  moreover from this(4) have "registered p'' 2" using p(4) p'(5) by simp
  ultimately show ?thesis using p p' by blast
qed

text \<open>
  C13. When the answer of \<open>poll(2)\<close> is as documented, \<open>Poller::poll\<close> reports exactly the channels
  whose entry has an event, in the order of the array, each once and with the events of its entry,
  and fails no assertion.
\<close>

theorem poll_reports_active:
  assumes "poller_inv p" and "poll_answer p numEvents revents"
  shows "\<exists>p'. Poller_poll (Some (numEvents, revents)) now p [] =
      Inr (now, p', map (\<lambda>(pfd, r). the (po_channels p (pfd_fd pfd)))
        (filter (\<lambda>(pfd, r). r \<noteq> 0) (zip (po_fds p) revents)))
    \<and> poller_inv p'
    \<and> (\<forall>i < length (po_fds p). revents ! i \<noteq> 0 \<longrightarrow>
        (\<exists>c. po_objs p' (the (po_channels p (pfd_fd (po_fds p ! i)))) = Some c
          \<and> ch_revents c = scast (revents ! i)))"
proof -
  define q where "q = answered p revents"
  note act = answered_active [OF assms q_def]
  have len: "length revents = length (po_fds p)" using assms(2) by (simp add: poll_answer_def)
  obtain p' where p': "fillActive (po_fds q) numEvents q [] =
        Inr (p', map (\<lambda>pfd. the (po_channels q (pfd_fd pfd))) (filter active_pfd (po_fds q)))"
      "revents_set q (po_fds q) p'"
    using fillActive_all [of "po_fds q" q "[]"] act by auto
  have "Poller_poll (Some (numEvents, revents)) now p [] =
      Inr (now, p', map (\<lambda>pfd. the (po_channels q (pfd_fd pfd))) (filter active_pfd (po_fds q)))"
    using p'(1) act(3) poll_run [of numEvents revents now p]
    by (simp add: q_def)
  moreover have "map (\<lambda>pfd. the (po_channels q (pfd_fd pfd))) (filter active_pfd (po_fds q)) =
      map (\<lambda>(pfd, r). the (po_channels p (pfd_fd pfd)))
        (filter (\<lambda>(pfd, r). r \<noteq> 0) (zip (po_fds p) revents))"
    using assms(2) unfolding q_def by (rule answered_channels)
  moreover have "poller_inv p'"
    using revents_inv [OF answered_inv [OF assms(1) len]] p'(2) by (simp add: q_def)
  moreover have "\<exists>c. po_objs p' (the (po_channels p (pfd_fd (po_fds p ! i)))) = Some c
      \<and> ch_revents c = scast (revents ! i)" if i: "i < length (po_fds p)" "revents ! i \<noteq> 0" for i
  proof -
    let ?pfd = "(po_fds p ! i)\<lparr>pfd_revents := revents ! i\<rparr>"
    have "0 <s revents ! i"
      using assms(2) i len by (auto simp: poll_answer_def list_all_length)
    moreover have "po_fds q ! i = ?pfd" "i < length (po_fds q)"
      using i len by (simp_all add: q_def answered_def)
    ultimately have a: "?pfd \<in> set (po_fds q)" "active_pfd ?pfd"
      by (metis nth_mem, simp add: active_pfd_def)
    then obtain ch c where t: "pfd_target q ?pfd ch c" using act(1) by blast
    then have "po_objs p' ch = Some (c\<lparr>ch_revents := scast (pfd_revents ?pfd)\<rparr>)"
      using p'(2) a unfolding revents_set_def by blast
    moreover have "po_channels p (pfd_fd (po_fds p ! i)) = Some ch"
      using t by (simp add: pfd_target_def q_def answered_def)
    ultimately show ?thesis by simp
  qed
  ultimately show ?thesis by (intro exI [of _ p']) simp
qed

theorem poll_reports_active_witness:
  "\<exists>p p'. two_registered = Inr p
    \<and> Poller_poll (Some (1, [0, 1])) (Timestamp 3) p [] = Inr (Timestamp 3, p', [2])
    \<and> poller_inv p'"
proof -
  obtain p where p: "two_registered = Inr p" "poller_inv p" using two_registered_ok by blast
  then have fds: "length (po_fds p) = 2" "pfd_fd (po_fds p ! 1) = 7" "po_channels p 7 = Some 2"
    by (auto simp: two_registered_def channel_change_def Poller_updateChannel_def Poller_addNew_def
        Poller_new_def two_channels_def Channel_new_def Channel_enableReading_def Channel_set_index_def
        Let_def)
  then obtain a b where ab: "po_fds p = [a, b]" "pfd_fd b = 7"
    by (auto simp: length_Suc_conv numeral_2_eq_2)
  moreover have "0 <s (1 :: 16 word)" by code_simp
  ultimately have "poll_answer p 1 [0, 1]" by (simp add: poll_answer_def)
  from poll_reports_active [OF p(2) this, of "Timestamp 3"] show ?thesis using p(1) ab fds(3) by auto
qed

text \<open>
  C18. A channel that was disabled completely stays invisible to \<open>poll\<close> when it is enabled again: no
  branch of \<open>updateChannel\<close> makes the descriptor of its entry positive again.
\<close>

theorem reenabled_stays_ignored:
  assumes "poller_inv p" and "slot p i ch c" and "pfd_fd (po_fds p ! i) < 0" and "events_only f"
  shows "\<exists>p'. channel_change f (po_thread p) ch p = Inr p' \<and> slot p' i ch (f c)
    \<and> pfd_fd (po_fds p' ! i) < 0"
  using channel_change_registered [OF assms(1,2,4)] slot_change_same [OF assms(2,4) refl] assms(2,3)
  by (auto simp: slot_def)

theorem reenabled_stays_ignored_witness:
  "\<exists>p p' i c p''. two_registered = Inr p \<and> channel_change Channel_disableAll 0 1 p = Inr p'
    \<and> channel_change Channel_enableReading 0 1 p' = Inr p'' \<and> slot p'' i 1 c \<and> pfd_fd (po_fds p'' ! i) < 0"
proof -
  obtain p where p: "two_registered = Inr p" "poller_inv p" "registered p 1" "po_thread p = 0"
    using two_registered_ok by blast
  obtain p' where p': "channel_change Channel_disableAll 0 1 p = Inr p'" "poller_inv p'"
      "po_thread p' = 0" "\<And>c. po_objs p 1 = Some c \<Longrightarrow> po_objs p' 1 = Some (Channel_disableAll c)"
      "registered p' 1"
    using channel_change_ok [OF p(2,3) events_only_ops(4)] p(3,4) by auto
  obtain i c where s: "slot p' i 1 c" using registered_slot [OF p'(2,5)] .
  then have "ch_events c = 0"
    using p'(4) p(3) by (auto simp: slot_def registered_def Channel_disableAll_def EMPTYEVENT_def
        split: option.splits)
  then have "pfd_fd (po_fds p' ! i) < 0" using s by (simp add: slot_def)
  from reenabled_stays_ignored [OF p'(2) s this events_only_ops(1), unfolded p'(3)] show ?thesis
    using p(1) p'(1) by blast
qed

section \<open>The poller as a registry of channels\<close>

text \<open>
  What the owner of a channel uses: while its channel is registered, changing the mask succeeds and
  affects no other channel, and a channel with an empty mask can be removed.
\<close>

locale channel_registry =
  fixes ok :: "'p \<Rightarrow> bool"
    and reg :: "'p \<Rightarrow> nat \<Rightarrow> bool"
    and obj :: "'p \<Rightarrow> nat \<Rightarrow> Channel option"
    and change :: "(Channel \<Rightarrow> Channel) \<Rightarrow> nat \<Rightarrow> 'p \<Rightarrow> 'p result"
    and remove :: "nat \<Rightarrow> 'p \<Rightarrow> 'p result"
  assumes reg_obj: "reg p ch \<Longrightarrow> \<exists>c. obj p ch = Some c"
    and change_ok: "ok p \<Longrightarrow> reg p ch \<Longrightarrow> events_only f \<Longrightarrow> \<exists>p'. change f ch p = Inr p' \<and> ok p'
      \<and> (\<forall>c. obj p ch = Some c \<longrightarrow> obj p' ch = Some (f c))
      \<and> (\<forall>ch'. ch' \<noteq> ch \<longrightarrow> obj p' ch' = obj p ch') \<and> (\<forall>ch'. reg p' ch' = reg p ch')"
    and remove_ok: "ok p \<Longrightarrow> reg p ch \<Longrightarrow> obj p ch = Some c \<Longrightarrow> ch_events c = 0 \<Longrightarrow>
      \<exists>p'. remove ch p = Inr p' \<and> ok p' \<and> \<not> reg p' ch"
begin

text \<open>The way a connection is torn down: \<open>disableAll\<close>, then \<open>removeChannel\<close>.\<close>

lemma disable_then_remove:
  assumes "ok p" "reg p ch"
  shows "\<exists>p1 p2. change Channel_disableAll ch p = Inr p1 \<and> remove ch p1 = Inr p2
    \<and> ok p2 \<and> \<not> reg p2 ch"
proof -
  obtain c where c: "obj p ch = Some c" using reg_obj [OF assms(2)] by blast
  obtain p1 where p1: "change Channel_disableAll ch p = Inr p1" "ok p1" "reg p1 ch"
      "obj p1 ch = Some (Channel_disableAll c)"
    using change_ok [OF assms events_only_ops(4)] c assms(2) by auto
  then show ?thesis
    using remove_ok [OF p1(2,3,4)] by (auto simp: Channel_disableAll_def EMPTYEVENT_def)
qed

end

interpretation poller: channel_registry "\<lambda>p. poller_inv p \<and> po_thread p = t" registered po_objs
  "\<lambda>f ch. channel_change f t ch" "\<lambda>ch. Poller_removeChannel t ch" for t
proof unfold_locales
  fix p ch
  assume "registered p ch"
  then show "\<exists>c. po_objs p ch = Some c" by (auto simp: registered_def split: option.splits)
next
  fix p ch f
  assume "poller_inv p \<and> po_thread p = t" "registered p ch" "events_only f"
  then show "\<exists>p'. channel_change f t ch p = Inr p' \<and> (poller_inv p' \<and> po_thread p' = t)
      \<and> (\<forall>c. po_objs p ch = Some c \<longrightarrow> po_objs p' ch = Some (f c))
      \<and> (\<forall>ch'. ch' \<noteq> ch \<longrightarrow> po_objs p' ch' = po_objs p ch') \<and> (\<forall>ch'. registered p' ch' = registered p ch')"
    using channel_change_ok [of p ch f] by auto
next
  fix p ch c
  assume "poller_inv p \<and> po_thread p = t" "registered p ch" "po_objs p ch = Some c" "ch_events c = 0"
  then show "\<exists>p'. Poller_removeChannel t ch p = Inr p' \<and> (poller_inv p' \<and> po_thread p' = t) \<and> \<not> registered p' ch"
    using removeChannel_ok [of p ch] by (auto simp: channel_events_def)
qed

end
