(* ===== verification/TimerQueue.thy ===== *)
theory TimerQueue
  imports Poller
begin

text \<open>
  \<^verbatim>\<open>include/core/Timer.hpp\<close>, \<^verbatim>\<open>src/Timer.cpp\<close>, \<^verbatim>\<open>include/core/TimerQueue.hpp\<close> and
  \<^verbatim>\<open>src/TimerQueue.cpp\<close>. The \<open>std::set\<close> of pairs of a time and an owning pointer is a list in the
  order of the set; the timers are objects reached through their addresses. Clock readings are
  arguments, callbacks are numbers that a function argument of the handler interprets, and the
  last value given to \<open>timerfd_settime\<close> is part of the state.
\<close>

section \<open>Timers\<close>

record Timer =
  tm_cb :: nat
  tm_endTime :: Timestamp
  tm_interval :: double
  tm_repeat :: bool

definition Timer_new :: "nat \<Rightarrow> Timestamp \<Rightarrow> double \<Rightarrow> Timer" where
  "Timer_new cb endTime interval =
     \<lparr>tm_cb = cb, tm_endTime = endTime, tm_interval = interval, tm_repeat = double_positive interval\<rparr>"

definition Timer_restart :: "Timestamp \<Rightarrow> Timer \<Rightarrow> Timer result" where
  "Timer_restart now t =
     (if tm_repeat t then bind_result (Timestamp_plus now (tm_interval t)) (\<lambda>time. Inr (t\<lparr>tm_endTime := time\<rparr>))
      else Inr t)"

section \<open>Ordered sets\<close>

text \<open>\<open>std::set\<close> with the comparison \<open>lt\<close>: insertion reports whether the element is new.\<close>

fun set_insert :: "('e \<Rightarrow> 'e \<Rightarrow> bool) \<Rightarrow> 'e \<Rightarrow> 'e list \<Rightarrow> 'e list \<times> bool" where
  "set_insert lt e [] = ([e], True)"
| "set_insert lt e (x # xs) =
     (if lt e x then (e # x # xs, True)
      else if lt x e then (let (ys, new) = set_insert lt e xs in (x # ys, new))
      else (x # xs, False))"

locale std_set =
  fixes lt :: "'e \<Rightarrow> 'e \<Rightarrow> bool"
  assumes lt_irrefl: "\<not> lt x x"
    and lt_trans: "lt x y \<Longrightarrow> lt y z \<Longrightarrow> lt x z"
    and lt_cotrans: "lt x z \<Longrightarrow> lt x y \<or> lt y z"
begin

lemma set_insert_set:
  "snd (set_insert lt e xs) \<Longrightarrow> set (fst (set_insert lt e xs)) = insert e (set xs)"
  by (induction xs) (auto simp: case_prod_unfold Let_def)

lemma set_insert_old: "\<not> snd (set_insert lt e xs) \<Longrightarrow> fst (set_insert lt e xs) = xs"
  by (induction xs) (auto simp: case_prod_unfold Let_def)

lemma set_insert_sorted: "sorted_wrt lt xs \<Longrightarrow> sorted_wrt lt (fst (set_insert lt e xs))"
proof (induction xs)
  case Nil
  then show ?case by simp
next
  case (Cons x xs)
  show ?case
  proof (cases "lt e x")
    case True
    then show ?thesis using Cons.prems lt_trans by auto
  next
    case False
    show ?thesis
    proof (cases "lt x e \<and> snd (set_insert lt e xs)")
      case True
      then show ?thesis
        using False Cons set_insert_set [of e xs] by (auto simp: case_prod_unfold Let_def)
    next
      case old: False
      then show ?thesis
        using False Cons set_insert_old [of e xs] by (auto simp: case_prod_unfold Let_def)
    qed
  qed
qed

text \<open>In a sorted list the element is refused exactly when an equivalent one is present.\<close>

lemma set_insert_new:
  "sorted_wrt lt xs \<Longrightarrow>
   snd (set_insert lt e xs) \<longleftrightarrow> (\<forall>x \<in> set xs. lt e x \<or> lt x e)"
proof (induction xs)
  case Nil
  then show ?case by simp
next
  case (Cons x xs)
  then show ?case using lt_trans lt_irrefl by (auto simp: case_prod_unfold Let_def)
qed

lemma sorted_distinct: "sorted_wrt lt xs \<Longrightarrow> distinct xs"
  by (induction xs) (auto simp: lt_irrefl)

lemma sorted_two:
  assumes "sorted_wrt lt xs" and "set xs = {a} \<union> {b}" and "lt a b"
  shows "xs = [a, b]"
proof -
  have ab: "a \<noteq> b" "\<not> lt b a" using assms(3) lt_irrefl lt_trans by blast+
  have "length xs = card (set xs)" using sorted_distinct [OF assms(1)] by (simp add: distinct_card)
  then have "length xs = 2" using ab by (simp add: assms(2))
  then obtain x y where "xs = [x, y]" by (auto simp: numeral_2_eq_2 length_Suc_conv)
  then show ?thesis using assms ab by (auto simp: doubleton_eq_iff)
qed

lemma set_insert_hd:
  assumes "sorted_wrt lt xs" "xs \<noteq> []" "lt e (hd xs)"
  shows "fst (set_insert lt e xs) = e # xs"
  using assms by (cases xs) auto

end

section \<open>The timer queue\<close>

type_synonym TimerEntry = "Timestamp \<times> nat"

text \<open>\<open>operator<\<close> of \<open>std::pair\<close> on a time and a pointer.\<close>

definition entry_less :: "TimerEntry \<Rightarrow> TimerEntry \<Rightarrow> bool" where
  "entry_less a b \<longleftrightarrow> fst a < fst b \<or> (\<not> fst b < fst a \<and> snd a < snd b)"

interpretation timers: std_set entry_less
  by unfold_locales (auto simp: entry_less_def less_Timestamp_iff)

record TimerQueue =
  tq_thread :: nat
  tq_timers :: "TimerEntry list"
  tq_objs :: "nat \<rightharpoonup> Timer"
  tq_timerfd :: "(int \<times> int) option"   \<comment> \<open>seconds and nanoseconds of the last \<open>timerfd_settime\<close>\<close>

definition TimerQueue_insert :: "nat \<Rightarrow> TimerQueue \<Rightarrow> (bool \<times> TimerQueue) result" where
  "TimerQueue_insert pTimer q =
     bind_result (deref (tq_objs q) pTimer) (\<lambda>t.
     (let expiration = tm_endTime t;
          first = (tq_timers q = [] \<or> expiration < fst (hd (tq_timers q)));
          (timers, new) = set_insert entry_less (expiration, pTimer) (tq_timers q)
      in bind_result (assert_that new) (\<lambda>_.
         Inr (first, q\<lparr>tq_timers := timers\<rparr>))))"

definition TimerQueue_resetTimerfd :: "Timestamp \<Rightarrow> Timestamp \<Rightarrow> TimerQueue \<Rightarrow> TimerQueue result" where
  "TimerQueue_resetTimerfd expiration now q =
     (let microSecs = Timestamp_toMicroSec expiration - Timestamp_toMicroSec now in
      bind_result (assert_that (microSecs > 0)) (\<lambda>_.
      Inr (q\<lparr>tq_timerfd := Some (microSecs sdiv microSecsPerSecond,
                (microSecs smod microSecsPerSecond) * 1000)\<rparr>)))"

definition TimerQueue_addTimerInLoopThread ::
  "nat \<Rightarrow> Timestamp \<Rightarrow> nat \<Rightarrow> TimerQueue \<Rightarrow> TimerQueue result" where
  "TimerQueue_addTimerInLoopThread me now pTimer q =
     bind_result (in_loop_thread me (tq_thread q)) (\<lambda>_.
     bind_result (TimerQueue_insert pTimer q) (\<lambda>(first, q).
     if first then
       bind_result (deref (tq_objs q) pTimer) (\<lambda>t. TimerQueue_resetTimerfd (tm_endTime t) now q)
     else Inr q))"

text \<open>
  \<open>addTimer\<close> allocates the timer at the address \<open>pTimer\<close>. In another thread than the loop's the rest
  is a functor for the loop: its address is returned.
\<close>

definition TimerQueue_addTimer ::
  "nat \<Rightarrow> Timestamp \<Rightarrow> nat \<Rightarrow> nat \<Rightarrow> Timestamp \<Rightarrow> double \<Rightarrow> TimerQueue
    \<Rightarrow> (TimerQueue \<times> nat option) result" where
  "TimerQueue_addTimer me now pTimer cb endTime interval q =
     (let q = q\<lparr>tq_objs := (tq_objs q)(pTimer \<mapsto> Timer_new cb endTime interval)\<rparr> in
      if me = tq_thread q then
        bind_result (TimerQueue_addTimerInLoopThread me now pTimer q) (\<lambda>q. Inr (q, None))
      else Inr (q, Some pTimer))"

fun get_expired :: "Timestamp \<Rightarrow> TimerEntry list \<Rightarrow> TimerEntry list \<times> TimerEntry list" where
  "get_expired now [] = ([], [])"
| "get_expired now (e # es) =
     (if fst e \<le> now then (let (expiration, timers) = get_expired now es in (e # expiration, timers))
      else ([], e # es))"

definition TimerQueue_getExpiration :: "Timestamp \<Rightarrow> TimerQueue \<Rightarrow> TimerEntry list \<times> TimerQueue" where
  "TimerQueue_getExpiration now q =
     (let (expiration, timers) = get_expired now (tq_timers q) in
      (expiration, q\<lparr>tq_timers := timers\<rparr>))"

text \<open>The callbacks act on the program's state together with the queue.\<close>

fun run_expired ::
  "(nat \<Rightarrow> 'w \<times> TimerQueue \<Rightarrow> ('w \<times> TimerQueue) result) \<Rightarrow> TimerEntry list
    \<Rightarrow> 'w \<times> TimerQueue \<Rightarrow> ('w \<times> TimerQueue) result" where
  "run_expired run [] s = Inr s"
| "run_expired run (e # es) s =
     bind_result (deref (tq_objs (snd s)) (snd e)) (\<lambda>t.
     bind_result (run (tm_cb t) s) (\<lambda>s. run_expired run es s))"

fun restart_expired :: "Timestamp \<Rightarrow> TimerEntry list \<Rightarrow> TimerQueue \<Rightarrow> TimerQueue result" where
  "restart_expired now [] q = Inr q"
| "restart_expired now (e # es) q =
     bind_result (deref (tq_objs q) (snd e)) (\<lambda>t.
     if tm_repeat t then
       bind_result (Timer_restart now t) (\<lambda>t.
       bind_result (TimerQueue_insert (snd e) (q\<lparr>tq_objs := (tq_objs q)(snd e \<mapsto> t)\<rparr>))
         (\<lambda>(first, q). restart_expired now es q))
     else restart_expired now es q)"

text \<open>Leaving \<open>reset\<close> destroys the timers that its vector still owns.\<close>

definition delete_expired :: "TimerEntry list \<Rightarrow> TimerQueue \<Rightarrow> TimerQueue" where
  "delete_expired es q =
     q\<lparr>tq_objs := (\<lambda>p. case tq_objs q p of
          None \<Rightarrow> None
        | Some t \<Rightarrow> if p \<in> snd ` set es \<and> \<not> tm_repeat t then None else Some t)\<rparr>"

definition TimerQueue_reset ::
  "TimerEntry list \<Rightarrow> Timestamp \<Rightarrow> Timestamp \<Rightarrow> TimerQueue \<Rightarrow> TimerQueue result" where
  "TimerQueue_reset expired now clock q =
     bind_result (restart_expired now expired q) (\<lambda>q.
     bind_result
       (case tq_timers q of
          [] \<Rightarrow> Inr q
        | e # es \<Rightarrow>
            bind_result (deref (tq_objs q) (snd e)) (\<lambda>t.
            TimerQueue_resetTimerfd (tm_endTime t) clock q))
       (\<lambda>q. Inr (delete_expired expired q)))"

text \<open>\<open>now\<close> is the clock at the start of the handler, \<open>clock\<close> the one read by \<open>resetTimerfd\<close>.\<close>

definition TimerQueue_timerHandler ::
  "nat \<Rightarrow> Timestamp \<Rightarrow> Timestamp \<Rightarrow> (nat \<Rightarrow> 'w \<times> TimerQueue \<Rightarrow> ('w \<times> TimerQueue) result)
    \<Rightarrow> 'w \<times> TimerQueue \<Rightarrow> ('w \<times> TimerQueue) result" where
  "TimerQueue_timerHandler me now clock run s =
     bind_result (in_loop_thread me (tq_thread (snd s))) (\<lambda>_.
     (let (expiration, q) = TimerQueue_getExpiration now (snd s) in
      bind_result (run_expired run expiration (fst s, q)) (\<lambda>(w, q).
      bind_result (TimerQueue_reset expiration now clock q) (\<lambda>q. Inr (w, q)))))"

section \<open>Invariant\<close>

definition tq_inv :: "TimerQueue \<Rightarrow> bool" where
  "tq_inv q \<longleftrightarrow>
     sorted_wrt entry_less (tq_timers q) \<and> distinct (map snd (tq_timers q))
     \<and> (\<forall>e \<in> set (tq_timers q). \<exists>t. tq_objs q (snd e) = Some t \<and> tm_endTime t = fst e)"

lemma tq_inv_obj: "tq_inv q \<Longrightarrow> e \<in> set (tq_timers q) \<Longrightarrow>
    \<exists>t. tq_objs q (snd e) = Some t \<and> tm_endTime t = fst e"
  by (simp add: tq_inv_def)

lemma entry_less_ptr: "snd a \<noteq> snd b \<Longrightarrow> entry_less a b \<or> entry_less b a"
  by (auto simp: entry_less_def less_Timestamp_iff)

text \<open>Inserting a timer that is not in the set.\<close>

lemma insert_fresh:
  assumes inv: "tq_inv q" and t: "tq_objs q p = Some t" and new: "p \<notin> snd ` set (tq_timers q)"
  shows "\<exists>q'. TimerQueue_insert p q =
      Inr (tq_timers q = [] \<or> tm_endTime t < fst (hd (tq_timers q)), q')
    \<and> tq_inv q' \<and> set (tq_timers q') = insert (tm_endTime t, p) (set (tq_timers q))
    \<and> tq_objs q' = tq_objs q \<and> tq_thread q' = tq_thread q \<and> tq_timerfd q' = tq_timerfd q"
proof -
  let ?e = "(tm_endTime t, p)"
  let ?r = "set_insert entry_less ?e (tq_timers q)"
  have s: "sorted_wrt entry_less (tq_timers q)" using inv by (simp add: tq_inv_def)
  have "\<forall>x \<in> set (tq_timers q). entry_less ?e x \<or> entry_less x ?e"
  proof
    fix x assume "x \<in> set (tq_timers q)"
    then have "snd ?e \<noteq> snd x" using new by auto
    then show "entry_less ?e x \<or> entry_less x ?e" by (rule entry_less_ptr)
  qed
  then have ok: "snd ?r" using timers.set_insert_new [OF s] by simp
  note set = timers.set_insert_set [OF ok]
  have "distinct (map snd (fst ?r))"
  proof -
    have "distinct (fst ?r)"
      using timers.set_insert_sorted [OF s] by (rule timers.sorted_distinct)
    moreover have "inj_on snd (set (fst ?r))"
      using inv new unfolding set by (auto simp: tq_inv_def distinct_map)
    ultimately show ?thesis by (simp add: distinct_map)
  qed
  then have "tq_inv (q\<lparr>tq_timers := fst ?r\<rparr>)"
    using inv t set timers.set_insert_sorted [OF s] by (auto simp: tq_inv_def)
  moreover have "TimerQueue_insert p q =
      Inr (tq_timers q = [] \<or> tm_endTime t < fst (hd (tq_timers q)), q\<lparr>tq_timers := fst ?r\<rparr>)"
    using t ok by (simp add: TimerQueue_insert_def case_prod_unfold Let_def)
  ultimately show ?thesis using set by (intro exI [of _ "q\<lparr>tq_timers := fst ?r\<rparr>"]) auto
qed

section \<open>Expiration\<close>

lemma get_expired_split:
  "get_expired now es = (takeWhile (\<lambda>e. fst e \<le> now) es, dropWhile (\<lambda>e. fst e \<le> now) es)"
  by (induction es) auto

lemma get_expired_sorted:
  assumes "sorted_wrt entry_less es"
  shows "get_expired now es = (filter (\<lambda>e. fst e \<le> now) es, filter (\<lambda>e. \<not> fst e \<le> now) es)"
  using assms
proof (induction es)
  case Nil
  then show ?case by simp
next
  case (Cons e es)
  show ?case
  proof (cases "fst e \<le> now")
    case True
    then show ?thesis using Cons by simp
  next
    case False
    then have "\<not> fst x \<le> now" if "x \<in> set es" for x
      using that Cons.prems by (auto simp: entry_less_def less_Timestamp_iff less_eq_Timestamp_iff)
    then show ?thesis using False by (simp add: filter_empty_conv filter_id_conv)
  qed
qed

lemma run_expired_pure:
  assumes "\<And>cb w q. run cb (w, q) = Inr (g cb w, q)"
    and "\<forall>e \<in> set es. tq_objs q (snd e) \<noteq> None"
  shows "run_expired run es (w, q) =
    Inr (fold (\<lambda>e. g (tm_cb (the (tq_objs q (snd e))))) es w, q)"
  using assms(2)
proof (induction es arbitrary: w)
  case Nil
  then show ?case by simp
next
  case (Cons e es)
  then obtain t where "tq_objs q (snd e) = Some t" by auto
  then show ?case using Cons assms(1) by simp
qed

section \<open>Restarting\<close>

text \<open>The entries that \<open>reset\<close> puts back: the repeating ones, due one interval after \<open>now\<close>.\<close>

definition restarted :: "Timestamp \<Rightarrow> TimerQueue \<Rightarrow> TimerEntry list \<Rightarrow> TimerEntry set" where
  "restarted now q es =
     {(time, p) | time t p. p \<in> snd ` set es \<and> tq_objs q p = Some t \<and> tm_repeat t
        \<and> Timestamp_plus now (tm_interval t) = Inr time}"

definition restart_objs :: "Timestamp \<Rightarrow> TimerQueue \<Rightarrow> TimerEntry list \<Rightarrow> nat \<rightharpoonup> Timer" where
  "restart_objs now q es p =
     (if p \<in> snd ` set es
      then map_option (\<lambda>t. case Timer_restart now t of Inr t' \<Rightarrow> t' | Inl _ \<Rightarrow> t) (tq_objs q p) else tq_objs q p)"

text \<open>The next time of each repeating timer among the entries is in range.\<close>

definition restart_fits :: "Timestamp \<Rightarrow> TimerQueue \<Rightarrow> TimerEntry list \<Rightarrow> bool" where
  "restart_fits now q es \<longleftrightarrow>
     (\<forall>p \<in> snd ` set es. \<forall>t. tq_objs q p = Some t \<and> tm_repeat t \<longrightarrow>
        (\<exists>time. Timestamp_plus now (tm_interval t) = Inr time))"

lemma restarted_cong:
  "(\<And>p. p \<in> snd ` set es \<Longrightarrow> tq_objs q p = tq_objs q' p) \<Longrightarrow> restarted now q es = restarted now q' es"
  unfolding restarted_def by (intro Collect_cong) metis

lemma restart_fits_cong:
  "(\<And>p. p \<in> snd ` set es \<Longrightarrow> tq_objs q p = tq_objs q' p) \<Longrightarrow> restart_fits now q es = restart_fits now q' es"
  by (simp add: restart_fits_def)

lemma Timer_restart_once [simp]: "\<not> tm_repeat t \<Longrightarrow> Timer_restart now t = Inr t"
  by (simp add: Timer_restart_def)

lemma Timer_restart_repeat:
  "tm_repeat t \<Longrightarrow> Timestamp_plus now (tm_interval t) = Inr time \<Longrightarrow>
     Timer_restart now t = Inr (t\<lparr>tm_endTime := time\<rparr>)"
  by (simp add: Timer_restart_def)

lemma restart_insert:
  assumes inv: "tq_inv q" and new: "p \<notin> snd ` set (tq_timers q)"
  shows "\<exists>first q'. TimerQueue_insert p (q\<lparr>tq_objs := (tq_objs q)(p \<mapsto> t)\<rparr>)
      = Inr (first, q') \<and> tq_inv q'
    \<and> set (tq_timers q') = insert (tm_endTime t, p) (set (tq_timers q))
    \<and> tq_objs q' = (tq_objs q)(p \<mapsto> t)
    \<and> tq_thread q' = tq_thread q \<and> tq_timerfd q' = tq_timerfd q"
proof -
  let ?q = "q\<lparr>tq_objs := (tq_objs q)(p \<mapsto> t)\<rparr>"
  have "tq_inv ?q" using inv new by (fastforce simp: tq_inv_def)
  then show ?thesis using insert_fresh [of ?q p t] new by auto
qed

lemma restart_expired_ok:
  "tq_inv q \<Longrightarrow> distinct (map snd es) \<Longrightarrow> snd ` set es \<inter> snd ` set (tq_timers q) = {} \<Longrightarrow>
   \<forall>e \<in> set es. tq_objs q (snd e) \<noteq> None \<Longrightarrow> restart_fits now q es \<Longrightarrow>
   \<exists>q'. restart_expired now es q = Inr q' \<and> tq_inv q'
     \<and> set (tq_timers q') = set (tq_timers q) \<union> restarted now q es
     \<and> tq_objs q' = restart_objs now q es
     \<and> tq_thread q' = tq_thread q \<and> tq_timerfd q' = tq_timerfd q"
proof (induction es arbitrary: q)
  case Nil
  then show ?case by (auto simp: restarted_def restart_objs_def fun_eq_iff)
next
  case (Cons e es)
  let ?p = "snd e"
  obtain t where t: "tq_objs q ?p = Some t" using Cons.prems(4) by auto
  show ?case
  proof (cases "tm_repeat t")
    case False
    then obtain q' where q': "restart_expired now es q = Inr q'" "tq_inv q'"
        "set (tq_timers q') = set (tq_timers q) \<union> restarted now q es"
        "tq_objs q' = restart_objs now q es" "tq_thread q' = tq_thread q" "tq_timerfd q' = tq_timerfd q"
      using Cons.IH [of q] Cons.prems by (auto simp: restart_fits_def)
    have "restarted now q (e # es) = restarted now q es" using t False by (auto simp: restarted_def)
    moreover have "restart_objs now q (e # es) = restart_objs now q es"
      using t False by (auto simp: restart_objs_def fun_eq_iff)
    ultimately show ?thesis using q' t False by auto
  next
    case True
    obtain time where time: "Timestamp_plus now (tm_interval t) = Inr time"
      using Cons.prems(5) t True by (auto simp: restart_fits_def)
    let ?t = "t\<lparr>tm_endTime := time\<rparr>"
    have re: "Timer_restart now t = Inr ?t" using Timer_restart_repeat [OF True time] .
    have "?p \<notin> snd ` set (tq_timers q)" using Cons.prems(3) by auto
    then obtain first q1 where q1:
        "TimerQueue_insert ?p (q\<lparr>tq_objs := (tq_objs q)(?p \<mapsto> ?t)\<rparr>) = Inr (first, q1)"
        "tq_inv q1" "set (tq_timers q1) = insert (time, ?p) (set (tq_timers q))"
        "tq_objs q1 = (tq_objs q)(?p \<mapsto> ?t)"
        "tq_thread q1 = tq_thread q" "tq_timerfd q1 = tq_timerfd q"
      using restart_insert [OF Cons.prems(1), of ?p ?t] by auto
    have np: "?p \<notin> snd ` set es" using Cons.prems(2) by auto
    have pre: "distinct (map snd es)" "snd ` set es \<inter> snd ` set (tq_timers q1) = {}"
      using Cons.prems(2,3) np by (simp_all add: q1(3))
    have objs: "\<forall>e \<in> set es. tq_objs q1 (snd e) \<noteq> None" using Cons.prems(4) by (simp add: q1(4))
    have same: "tq_objs q1 p = tq_objs q p" if "p \<in> snd ` set es" for p
    proof -
      have "p \<noteq> ?p" using np that by metis
      then show ?thesis by (simp add: q1(4))
    qed
    have "restart_fits now q es" using Cons.prems(5) by (auto simp: restart_fits_def)
    then have fits: "restart_fits now q1 es" using restart_fits_cong [of es q1 q now] same by blast
    obtain q' where q': "restart_expired now es q1 = Inr q'" "tq_inv q'"
        "set (tq_timers q') = set (tq_timers q1) \<union> restarted now q1 es"
        "tq_objs q' = restart_objs now q1 es" "tq_thread q' = tq_thread q1" "tq_timerfd q' = tq_timerfd q1"
      using Cons.IH [OF q1(2) pre objs fits] by blast
    have "restarted now q1 es = restarted now q es" using same by (rule restarted_cong)
    moreover have "restarted now q (e # es) = insert (time, ?p) (restarted now q es)"
      using t True time by (auto simp: restarted_def)
    moreover have "restart_objs now q1 es = restart_objs now q (e # es)"
      using np t q1(4) re by (auto simp: restart_objs_def fun_eq_iff)
    ultimately show ?thesis using q1 q' t True re by auto
  qed
qed

section \<open>The handler\<close>

lemma split_due:
  assumes inv: "tq_inv q" and due_def: "due = filter (\<lambda>e. fst e \<le> now) (tq_timers q)"
    and q1_def: "q1 = q\<lparr>tq_timers := filter (\<lambda>e. \<not> fst e \<le> now) (tq_timers q)\<rparr>"
  shows "TimerQueue_getExpiration now q = (due, q1)" and "tq_inv q1" and "distinct (map snd due)"
    and "snd ` set due \<inter> snd ` set (tq_timers q1) = {}" and "\<forall>e \<in> set due. tq_objs q (snd e) \<noteq> None"
proof -
  have s: "sorted_wrt entry_less (tq_timers q)" and d: "distinct (map snd (tq_timers q))"
    using inv by (simp_all add: tq_inv_def)
  show "TimerQueue_getExpiration now q = (due, q1)"
    using get_expired_sorted [OF s] by (simp add: TimerQueue_getExpiration_def due_def q1_def)
  show "tq_inv q1"
    using inv d by (simp add: tq_inv_def q1_def sorted_wrt_filter distinct_map_filter)
  show "distinct (map snd due)" using d by (simp add: due_def distinct_map_filter)
  show "snd ` set due \<inter> snd ` set (tq_timers q1) = {}"
    using d by (auto simp: due_def q1_def distinct_map inj_on_def)
  show "\<forall>e \<in> set due. tq_objs q (snd e) \<noteq> None"
    using inv by (auto simp: due_def tq_inv_def)
qed

lemma delete_expired_inv:
  assumes "tq_inv q" and "\<And>e t. e \<in> set (tq_timers q) \<Longrightarrow> snd e \<in> snd ` set es \<Longrightarrow>
      tq_objs q (snd e) = Some t \<Longrightarrow> tm_repeat t"
  shows "tq_inv (delete_expired es q)"
proof -
  have "\<exists>t. tq_objs (delete_expired es q) (snd e) = Some t \<and> tm_endTime t = fst e"
    if e: "e \<in> set (tq_timers q)" for e
  proof -
    obtain t where "tq_objs q (snd e) = Some t" "tm_endTime t = fst e" using tq_inv_obj [OF assms(1) e] by blast
    then show ?thesis using assms(2) [OF e] by (auto simp: delete_expired_def)
  qed
  then show ?thesis using assms(1) by (simp add: tq_inv_def delete_expired_def)
qed

text \<open>The value given to \<open>timerfd_settime\<close> for an expiration, at a clock reading before it.\<close>

definition armed_for :: "Timestamp \<Rightarrow> Timestamp \<Rightarrow> int \<times> int" where
  "armed_for expiration clock =
     (let us = Timestamp_toMicroSec expiration - Timestamp_toMicroSec clock
      in (us div 1000000, us mod 1000000 * 1000))"

lemma resetTimerfd_exact:
  "TimerQueue_resetTimerfd expiration clock q =
     (if clock < expiration then Inr (q\<lparr>tq_timerfd := Some (armed_for expiration clock)\<rparr>)
      else Inl AssertFail)"
  by (auto simp: TimerQueue_resetTimerfd_def armed_for_def less_Timestamp_iff microSecsPerSecond_def
      sdiv_nonneg smod_nonneg Let_def assert_that_def)

lemma reset_ok:
  assumes inv: "tq_inv q" and dist: "distinct (map snd es)"
    and disj: "snd ` set es \<inter> snd ` set (tq_timers q) = {}"
    and objs: "\<forall>e \<in> set es. tq_objs q (snd e) \<noteq> None" and fits: "restart_fits now q es"
  shows "\<exists>q'. tq_inv q' \<and> set (tq_timers q') = set (tq_timers q) \<union> restarted now q es
    \<and> tq_timerfd q' = tq_timerfd q \<and> tq_thread q' = tq_thread q
    \<and> TimerQueue_reset es now clock q =
      (case tq_timers q' of
         [] \<Rightarrow> Inr q'
       | e # _ \<Rightarrow> if clock < fst e then Inr (q'\<lparr>tq_timerfd := Some (armed_for (fst e) clock)\<rparr>)
                 else Inl AssertFail)"
proof -
  obtain r where r: "restart_expired now es q = Inr r" "tq_inv r"
      "set (tq_timers r) = set (tq_timers q) \<union> restarted now q es"
      "tq_objs r = restart_objs now q es" "tq_thread r = tq_thread q" "tq_timerfd r = tq_timerfd q"
    using restart_expired_ok [OF inv dist disj objs fits] by blast
  have "tm_repeat t" if e: "e \<in> set (tq_timers r)" "snd e \<in> snd ` set es" "tq_objs r (snd e) = Some t" for e t
  proof -
    have "e \<in> restarted now q es" using e(1,2) r(3) disj by auto
    then show ?thesis using e(2,3) r(4) by (auto simp: restarted_def restart_objs_def Timer_restart_repeat)
  qed
  then have "tq_inv (delete_expired es r)" using delete_expired_inv [OF r(2)] by blast
  moreover have "TimerQueue_reset es now clock q =
      (case tq_timers r of
         [] \<Rightarrow> Inr (delete_expired es r)
       | e # _ \<Rightarrow> if clock < fst e
           then Inr ((delete_expired es r)\<lparr>tq_timerfd := Some (armed_for (fst e) clock)\<rparr>)
           else Inl AssertFail)"
  proof (cases "tq_timers r")
    case Nil
    then show ?thesis using r(1) by (simp add: TimerQueue_reset_def)
  next
    case (Cons e rest)
    then obtain t where "tq_objs r (snd e) = Some t" "tm_endTime t = fst e"
      using tq_inv_obj [OF r(2), of e] by auto
    then show ?thesis
      using Cons r(1) by (simp add: TimerQueue_reset_def resetTimerfd_exact delete_expired_def)
  qed
  ultimately show ?thesis
    using r(3,5,6) by (intro exI [of _ "delete_expired es r"]) (simp add: delete_expired_def)
qed

section \<open>Properties\<close>

text \<open>
  C28. The timer handler, with callbacks that leave the queue alone and repeating timers whose next times
  fit 64 bits: the callbacks of exactly the timers that are due run, once each and in the order of
  their times; afterwards the queue holds the timers that were not due and the repeating ones one
  interval after \<open>now\<close>, in order; and the descriptor is armed for the earliest of them if that one still
  lies in the future, and if it does not, the assertion of \<open>resetTimerfd\<close> fails and ends the program.
\<close>

theorem timerHandler_exact:
  assumes "tq_inv q" and "\<And>cb w q. run cb (w, q) = Inr (g cb w, q)"
    and "restart_fits now q (filter (\<lambda>e. fst e \<le> now) (tq_timers q))"
  shows "\<exists>q'. tq_inv q'
    \<and> set (tq_timers q') = {e \<in> set (tq_timers q). \<not> fst e \<le> now}
        \<union> restarted now q (filter (\<lambda>e. fst e \<le> now) (tq_timers q))
    \<and> (let w' = fold (\<lambda>e. g (tm_cb (the (tq_objs q (snd e)))))
            (filter (\<lambda>e. fst e \<le> now) (tq_timers q)) w in
       TimerQueue_timerHandler (tq_thread q) now clock run (w, q) =
        (case tq_timers q' of
           [] \<Rightarrow> Inr (w', q')
         | e # _ \<Rightarrow> if clock < fst e then Inr (w', q'\<lparr>tq_timerfd := Some (armed_for (fst e) clock)\<rparr>)
                   else Inl AssertFail))"
proof -
  let ?due = "filter (\<lambda>e. fst e \<le> now) (tq_timers q)"
  let ?q1 = "q\<lparr>tq_timers := filter (\<lambda>e. \<not> fst e \<le> now) (tq_timers q)\<rparr>"
  note sd = split_due [OF assms(1) refl refl, of now]
  have objs: "\<forall>e \<in> set ?due. tq_objs ?q1 (snd e) \<noteq> None" using sd(5) by simp
  have fits: "restart_fits now ?q1 ?due" using assms(3) by (simp add: restart_fits_def)
  obtain q' where q': "tq_inv q'" "set (tq_timers q') = set (tq_timers ?q1) \<union> restarted now ?q1 ?due"
      "TimerQueue_reset ?due now clock ?q1 =
        (case tq_timers q' of
           [] \<Rightarrow> Inr q'
         | e # _ \<Rightarrow> if clock < fst e then Inr (q'\<lparr>tq_timerfd := Some (armed_for (fst e) clock)\<rparr>)
                   else Inl AssertFail)"
    using reset_ok [OF sd(2,3,4) objs fits] by blast
  have "restarted now ?q1 ?due = restarted now q ?due" by (simp add: restarted_def)
  moreover have "run_expired run ?due (w, ?q1) =
      Inr (fold (\<lambda>e. g (tm_cb (the (tq_objs q (snd e))))) ?due w, ?q1)"
    using run_expired_pure [OF assms(2) objs] by simp
  ultimately show ?thesis
    using q' sd(1)
    by (intro exI [of _ q'])
      (auto simp: TimerQueue_timerHandler_def Let_def split: list.splits)
qed

text \<open>A timer that is due every second and one that is due later.\<close>

definition two_timers :: TimerQueue where
  "two_timers = \<lparr>tq_thread = 0, tq_timers = [(Timestamp 1000000, 5), (Timestamp 9000000, 6)],
     tq_objs = [5 \<mapsto> Timer_new 42 (Timestamp 1000000) (double_of_int 1),
                6 \<mapsto> Timer_new 43 (Timestamp 9000000) (double_of_int 0)], tq_timerfd = None\<rparr>"

lemma two_timers_facts:
  "tq_inv two_timers" "tq_thread two_timers = 0"
  "filter (\<lambda>e. fst e \<le> Timestamp 2000000) (tq_timers two_timers) = [(Timestamp 1000000, 5)]"
  "{e \<in> set (tq_timers two_timers). \<not> fst e \<le> Timestamp 2000000} = {(Timestamp 9000000, 6)}"
  "fold (\<lambda>e w. w @ [tm_cb (the (tq_objs two_timers (snd e)))]) [(Timestamp 1000000, 5)] [] = [42]"
  by (auto simp: tq_inv_def two_timers_def Timer_new_def entry_less_def less_Timestamp_iff
      less_eq_Timestamp_iff Timestamp_toMicroSec_def sdiv_nonneg)

lemma two_timers_restart:
  "restart_fits (Timestamp 2000000) two_timers [(Timestamp 1000000, 5)]"
  "restarted (Timestamp 2000000) two_timers [(Timestamp 1000000, 5)] = {(Timestamp 1002000000, 5)}"
proof -
  have "Timestamp_plus (Timestamp 2000000) (double_of_int 1) = Inr (Timestamp 1002000000)"
    using plus_whole_seconds [of 1 "Timestamp 2000000"] by (simp add: fits_int64_def)
  then show "restart_fits (Timestamp 2000000) two_timers [(Timestamp 1000000, 5)]"
    "restarted (Timestamp 2000000) two_timers [(Timestamp 1000000, 5)] = {(Timestamp 1002000000, 5)}"
    by (auto simp: restart_fits_def restarted_def two_timers_def Timer_new_def double_positive_def
        double_of_int_def)
qed

theorem timerHandler_exact_witness:
  "\<exists>q'. TimerQueue_timerHandler 0 (Timestamp 2000000) (Timestamp 2500000)
      (\<lambda>cb (w, q). Inr (w @ [cb], q)) ([], two_timers) = Inr ([42], q')
    \<and> tq_timers q' = [(Timestamp 9000000, 6), (Timestamp 1002000000, 5)]
    \<and> tq_timerfd q' = Some (0, 6500000)"
proof -
  note f = two_timers_facts and r = two_timers_restart
  obtain q' where q': "tq_inv q'"
      "set (tq_timers q') = {(Timestamp 9000000, 6)} \<union> {(Timestamp 1002000000, 5)}" and run:
      "TimerQueue_timerHandler 0 (Timestamp 2000000) (Timestamp 2500000)
        (\<lambda>cb (w, q). Inr (w @ [cb], q)) ([], two_timers) =
       (case tq_timers q' of
           [] \<Rightarrow> Inr ([42], q')
         | e # _ \<Rightarrow> if Timestamp 2500000 < fst e
             then Inr ([42], q'\<lparr>tq_timerfd := Some (armed_for (fst e) (Timestamp 2500000))\<rparr>)
             else Inl AssertFail)"
    using timerHandler_exact [OF f(1), of "\<lambda>cb (w, q). Inr (w @ [cb], q)" "\<lambda>cb w. w @ [cb]"
        "Timestamp 2000000" "[]" "Timestamp 2500000", unfolded Let_def f r]
      r(1) unfolding case_prod_conv by blast
  have s: "sorted_wrt entry_less (tq_timers q')" using q'(1) by (simp add: tq_inv_def)
  have "tq_timers q' = [(Timestamp 9000000, 6), (Timestamp 1002000000, 5)]"
    by (rule timers.sorted_two [OF s])
      (use q'(2) in \<open>simp_all add: entry_less_def less_Timestamp_iff Timestamp_toMicroSec_def sdiv_nonneg\<close>)
  moreover have "Timestamp 2500000 < Timestamp 9000000"
      "armed_for (Timestamp 9000000) (Timestamp 2500000) = (0, 6500000)"
    by (simp_all add: less_Timestamp_iff armed_for_def Timestamp_toMicroSec_def sdiv_nonneg)
  ultimately show ?thesis using run by auto
qed

definition one_shot :: TimerQueue where
  "one_shot = \<lparr>tq_thread = 0, tq_timers = [(Timestamp 1000000, 5)],
     tq_objs = [5 \<mapsto> Timer_new 42 (Timestamp 1000000) (double_of_int 0)], tq_timerfd = None\<rparr>"

text \<open>
  \<open>addTimer\<close> in the loop's thread puts the timer into the queue in order. When it is the earliest,
  the descriptor is armed for it if its time lies in the future, and the assertion fails if not.
\<close>

theorem addTimer_exact:
  assumes "tq_inv q" and "tq_objs q p = None"
  shows "\<exists>q'. tq_inv q' \<and> set (tq_timers q') = insert (endTime, p) (set (tq_timers q))
    \<and> tq_objs q' = (tq_objs q)(p \<mapsto> Timer_new cb endTime interval) \<and> tq_timerfd q' = tq_timerfd q
    \<and> TimerQueue_addTimer (tq_thread q) clock p cb endTime interval q =
      (if tq_timers q = [] \<or> endTime < fst (hd (tq_timers q)) then
         if clock < endTime then Inr (q'\<lparr>tq_timerfd := Some (armed_for endTime clock)\<rparr>, None)
         else Inl AssertFail
       else Inr (q', None))"
proof -
  let ?q = "q\<lparr>tq_objs := (tq_objs q)(p \<mapsto> Timer_new cb endTime interval)\<rparr>"
  have new: "p \<notin> snd ` set (tq_timers q)" using assms by (fastforce simp: tq_inv_def)
  then have "tq_inv ?q" using assms(1) by (fastforce simp: tq_inv_def)
  then obtain q' where q': "TimerQueue_insert p ?q =
        Inr (tq_timers q = [] \<or> endTime < fst (hd (tq_timers q)), q')" "tq_inv q'"
      "set (tq_timers q') = insert (endTime, p) (set (tq_timers q))" "tq_objs q' = tq_objs ?q"
      "tq_thread q' = tq_thread q" "tq_timerfd q' = tq_timerfd q"
    using insert_fresh [of ?q p "Timer_new cb endTime interval"] new by (auto simp: Timer_new_def)
  then show ?thesis
    by (intro exI [of _ q'])
      (auto simp: TimerQueue_addTimer_def TimerQueue_addTimerInLoopThread_def resetTimerfd_exact
        Timer_new_def Let_def)
qed

theorem addTimer_exact_witness:
  "\<exists>q'. TimerQueue_addTimer 0 (Timestamp 700000) 6 43 (Timestamp 900000) (double_of_int 0) one_shot
      = Inr (q', None) \<and> tq_timerfd q' = Some (0, 200000)"
proof -
  have inv: "tq_inv one_shot" "tq_objs one_shot 6 = None"
    by (simp_all add: tq_inv_def one_shot_def Timer_new_def)
  have "armed_for (Timestamp 900000) (Timestamp 700000) = (0, 200000)"
    by (simp add: armed_for_def Timestamp_toMicroSec_def sdiv_nonneg)
  then show ?thesis
    using addTimer_exact [OF inv, of "Timestamp 900000" 43 "double_of_int 0" "Timestamp 700000"]
    by (auto simp: one_shot_def less_Timestamp_iff Timestamp_toMicroSec_def sdiv_nonneg)
qed

text \<open>
  The seconds and nanoseconds given to \<open>timerfd_settime\<close> are in the range the call demands, not
  both zero, and add up to exactly the distance from the clock reading to the expiration.
\<close>

theorem resetTimerfd_value:
  assumes "clock < expiration"
  shows "\<exists>sec nsec. TimerQueue_resetTimerfd expiration clock q = Inr (q\<lparr>tq_timerfd := Some (sec, nsec)\<rparr>)
    \<and> 0 \<le> sec \<and> 0 \<le> nsec \<and> nsec < 1000000000 \<and> (sec, nsec) \<noteq> (0, 0)
    \<and> sec * 1000000 * 1000 + nsec
      = (Timestamp_toMicroSec expiration - Timestamp_toMicroSec clock) * 1000"
proof -
  let ?us = "Timestamp_toMicroSec expiration - Timestamp_toMicroSec clock"
  have us: "0 < ?us" using assms by (simp add: less_Timestamp_iff)
  define sec where "sec = ?us div 1000000"
  define m where "m = ?us mod 1000000"
  have dm: "sec * 1000000 + m = ?us" by (simp add: sec_def m_def)
  have "TimerQueue_resetTimerfd expiration clock q = Inr (q\<lparr>tq_timerfd := Some (sec, m * 1000)\<rparr>)"
    using assms by (simp add: resetTimerfd_exact armed_for_def Let_def sec_def m_def)
  moreover have "0 \<le> sec" using us by (simp add: sec_def pos_imp_zdiv_nonneg_iff)
  moreover have "0 \<le> m" "m < 1000000" by (simp_all add: m_def)
  moreover have "(sec, m * 1000) \<noteq> (0, 0)" using us dm by auto
  moreover have "sec * 1000000 * 1000 + m * 1000 = ?us * 1000" by (simp add: dm [symmetric] algebra_simps)
  ultimately show ?thesis by (intro exI [of _ sec] exI [of _ "m * 1000"]) simp
qed

theorem resetTimerfd_value_witness:
  "\<exists>sec nsec. TimerQueue_resetTimerfd (Timestamp 3000000000) (Timestamp 500000000) one_shot
      = Inr (one_shot\<lparr>tq_timerfd := Some (sec, nsec)\<rparr>) \<and> sec * 1000000000 + nsec = 2500000000"
proof -
  have us: "Timestamp_toMicroSec (Timestamp 3000000000) = 3000000"
      "Timestamp_toMicroSec (Timestamp 500000000) = 500000"
    by (simp_all add: Timestamp_toMicroSec_def sdiv_nonneg)
  then have "Timestamp 500000000 < Timestamp 3000000000" by (simp add: less_Timestamp_iff)
  from resetTimerfd_value [OF this, of one_shot] obtain sec nsec where
      "TimerQueue_resetTimerfd (Timestamp 3000000000) (Timestamp 500000000) one_shot
        = Inr (one_shot\<lparr>tq_timerfd := Some (sec, nsec)\<rparr>)"
      "sec * 1000000 * 1000 + nsec = (3000000 - 500000) * 1000"
    unfolding us by blast
  then show ?thesis by (intro exI [of _ sec] exI [of _ nsec]) simp
qed

end
