(* ===== verification/EventLoop.thy ===== *)
theory EventLoop
  imports TimerQueue
begin

text \<open>
  \<^verbatim>\<open>include/network/EventLoop.hpp\<close> and \<^verbatim>\<open>src/EventLoop.cpp\<close>. A loop belongs to the thread that created
  it; the identity of the calling thread is the argument \<open>me\<close>. The eventfd used for waking is its
  kernel counter. Functors are values of a type parameter; a function argument runs them on the
  client's state together with the loop. The answers of \<open>poll\<close> are given one per iteration. The
  second part is the protocol between the loop and other threads, one step per access to
  shared state.
\<close>

section \<open>Data\<close>

record 'f EventLoop =
  el_this :: nat
  el_threadId :: nat
  el_looping :: bool
  el_quit :: bool
  el_processingFunctors :: bool
  el_pollReturnTime :: Timestamp
  el_poller :: Poller
  el_activeChannels :: "nat list"
  el_wakenfd :: nat   \<comment> \<open>counter of the eventfd\<close>
  el_unprocessedFunctors :: "'f list"

text \<open>
  The constructor registers the channels of the timer queue and of the eventfd, at the addresses
  \<open>timerCh\<close> and \<open>wakenCh\<close> in the store \<open>objs\<close>.
\<close>

definition EventLoop_new ::
  "nat \<Rightarrow> nat \<Rightarrow> (nat \<rightharpoonup> Channel) \<Rightarrow> nat \<Rightarrow> nat \<Rightarrow> 'f EventLoop result" where
  "EventLoop_new this thread objs timerCh wakenCh =
     bind_result (channel_change Channel_enableReading thread timerCh (Poller_new thread objs)) (\<lambda>p.
     bind_result (channel_change Channel_enableReading thread wakenCh p) (\<lambda>p.
     Inr \<lparr>el_this = this, el_threadId = thread, el_looping = False, el_quit = False,
          el_processingFunctors = False, el_pollReturnTime = Timestamp 0, el_poller = p,
          el_activeChannels = [], el_wakenfd = 0, el_unprocessedFunctors = []\<rparr>))"

definition EventLoop_delete :: "'f EventLoop \<Rightarrow> unit result" where
  "EventLoop_delete l = assert_that (\<not> el_looping l)"

section \<open>Operations\<close>

definition EventLoop_isInLoopThread :: "nat \<Rightarrow> 'f EventLoop \<Rightarrow> bool" where
  "EventLoop_isInLoopThread me l \<longleftrightarrow> el_threadId l = me"

definition EventLoop_assertInLoopThread :: "nat \<Rightarrow> 'f EventLoop \<Rightarrow> unit result" where
  "EventLoop_assertInLoopThread me l =
     (if \<not> EventLoop_isInLoopThread me l then Inl Abort else Inr ())"

text \<open>A write to the eventfd adds 1 unless the counter is at its maximum, a read resets it.\<close>

definition EventLoop_waken :: "'f EventLoop \<Rightarrow> 'f EventLoop" where
  "EventLoop_waken l =
     (if el_wakenfd l < 2 ^ 64 - 2 then l\<lparr>el_wakenfd := el_wakenfd l + 1\<rparr> else l)"

definition EventLoop_readFd :: "'f EventLoop \<Rightarrow> 'f EventLoop" where
  "EventLoop_readFd l = l\<lparr>el_wakenfd := 0\<rparr>"

definition EventLoop_quit :: "nat \<Rightarrow> 'f EventLoop \<Rightarrow> 'f EventLoop" where
  "EventLoop_quit me l =
     (let l = l\<lparr>el_quit := True\<rparr> in
      if \<not> EventLoop_isInLoopThread me l then EventLoop_waken l else l)"

definition EventLoop_updateChannel :: "nat \<Rightarrow> nat \<Rightarrow> 'f EventLoop \<Rightarrow> 'f EventLoop result" where
  "EventLoop_updateChannel me channel l =
     bind_result (deref (po_objs (el_poller l)) channel) (\<lambda>c.
     bind_result (assert_that (ch_loop c = el_this l)) (\<lambda>_.
     bind_result (EventLoop_assertInLoopThread me l) (\<lambda>_.
     bind_result (Poller_updateChannel me channel (el_poller l)) (\<lambda>p.
     Inr (l\<lparr>el_poller := p\<rparr>)))))"

definition EventLoop_removeChannel :: "nat \<Rightarrow> nat \<Rightarrow> 'f EventLoop \<Rightarrow> 'f EventLoop result" where
  "EventLoop_removeChannel me channel l =
     bind_result (deref (po_objs (el_poller l)) channel) (\<lambda>c.
     bind_result (assert_that (ch_loop c = el_this l)) (\<lambda>_.
     bind_result (EventLoop_assertInLoopThread me l) (\<lambda>_.
     bind_result (Poller_removeChannel me channel (el_poller l)) (\<lambda>p.
     Inr (l\<lparr>el_poller := p\<rparr>)))))"

text \<open>\<open>Channel::enableReading\<close> and its siblings: change the mask \<open>f\<close>, then \<open>update()\<close>.\<close>

definition Channel_change :: "(Channel \<Rightarrow> Channel) \<Rightarrow> nat \<Rightarrow> nat \<Rightarrow> 'f EventLoop \<Rightarrow> 'f EventLoop result" where
  "Channel_change f me channel l =
     bind_result (deref (po_objs (el_poller l)) channel) (\<lambda>c.
     EventLoop_updateChannel me channel
       (l\<lparr>el_poller := (el_poller l)
            \<lparr>po_objs := (po_objs (el_poller l))(channel \<mapsto> f c)\<rparr>\<rparr>))"

definition EventLoop_push :: "'f \<Rightarrow> 'f EventLoop \<Rightarrow> 'f EventLoop" where
  "EventLoop_push f l = l\<lparr>el_unprocessedFunctors := el_unprocessedFunctors l @ [f]\<rparr>"

definition EventLoop_addToLoopThread :: "nat \<Rightarrow> 'f \<Rightarrow> 'f EventLoop \<Rightarrow> 'f EventLoop" where
  "EventLoop_addToLoopThread me f l =
     (let l = EventLoop_push f l in
      if \<not> EventLoop_isInLoopThread me l \<or> el_processingFunctors l then EventLoop_waken l else l)"

definition EventLoop_runInLoopThread ::
  "('f \<Rightarrow> 'w \<times> 'f EventLoop \<Rightarrow> ('w \<times> 'f EventLoop) result) \<Rightarrow> nat \<Rightarrow> 'f
    \<Rightarrow> 'w \<times> 'f EventLoop \<Rightarrow> ('w \<times> 'f EventLoop) result" where
  "EventLoop_runInLoopThread run me f s =
     (if EventLoop_isInLoopThread me (snd s) then run f s
      else Inr (fst s, EventLoop_addToLoopThread me f (snd s)))"

fun run_functors ::
  "('f \<Rightarrow> 'w \<times> 'f EventLoop \<Rightarrow> ('w \<times> 'f EventLoop) result) \<Rightarrow> 'f list
    \<Rightarrow> 'w \<times> 'f EventLoop \<Rightarrow> ('w \<times> 'f EventLoop) result" where
  "run_functors run [] s = Inr s"
| "run_functors run (f # fs) s = bind_result (run f s) (run_functors run fs)"

definition EventLoop_takeFunctors :: "'f EventLoop \<Rightarrow> 'f list \<times> 'f EventLoop" where
  "EventLoop_takeFunctors l = (el_unprocessedFunctors l, l\<lparr>el_unprocessedFunctors := []\<rparr>)"

definition EventLoop_processFunctors ::
  "('f \<Rightarrow> 'w \<times> 'f EventLoop \<Rightarrow> ('w \<times> 'f EventLoop) result)
    \<Rightarrow> 'w \<times> 'f EventLoop \<Rightarrow> ('w \<times> 'f EventLoop) result" where
  "EventLoop_processFunctors run s =
     (let (functors, l) = EventLoop_takeFunctors ((snd s)\<lparr>el_processingFunctors := True\<rparr>) in
      bind_result (run_functors run functors (fst s, l)) (\<lambda>(w, l).
      Inr (w, l\<lparr>el_processingFunctors := False\<rparr>)))"

text \<open>
  One iteration of \<open>loop\<close>; \<open>handle ch t\<close> is \<open>handleEvent\<close> of the channel at \<open>ch\<close>. The loop runs over
  the answers of the kernel and ends with \<open>None\<close> when they are used up before \<open>_quit\<close> is set.
\<close>

fun handle_active ::
  "(nat \<Rightarrow> Timestamp \<Rightarrow> 's \<Rightarrow> 's result) \<Rightarrow> Timestamp \<Rightarrow> nat list \<Rightarrow> 's \<Rightarrow> 's result" where
  "handle_active handle t [] s = Inr s"
| "handle_active handle t (ch # chs) s = bind_result (handle ch t s) (handle_active handle t chs)"

definition loop_iteration ::
  "(nat \<Rightarrow> Timestamp \<Rightarrow> 'w \<times> 'f EventLoop \<Rightarrow> ('w \<times> 'f EventLoop) result)
    \<Rightarrow> ('f \<Rightarrow> 'w \<times> 'f EventLoop \<Rightarrow> ('w \<times> 'f EventLoop) result)
    \<Rightarrow> (int \<times> 16 word list) option \<times> Timestamp
    \<Rightarrow> 'w \<times> 'f EventLoop \<Rightarrow> ('w \<times> 'f EventLoop) result" where
  "loop_iteration handle run input s =
     bind_result (Poller_poll (fst input) (snd input) (el_poller (snd s)) []) (\<lambda>(t, p, active).
     bind_result
       (handle_active handle t active
          (fst s, (snd s)\<lparr>el_poller := p, el_activeChannels := active, el_pollReturnTime := t\<rparr>))
       (EventLoop_processFunctors run))"

fun loop_while ::
  "(nat \<Rightarrow> Timestamp \<Rightarrow> 'w \<times> 'f EventLoop \<Rightarrow> ('w \<times> 'f EventLoop) result)
    \<Rightarrow> ('f \<Rightarrow> 'w \<times> 'f EventLoop \<Rightarrow> ('w \<times> 'f EventLoop) result)
    \<Rightarrow> ((int \<times> 16 word list) option \<times> Timestamp) list
    \<Rightarrow> 'w \<times> 'f EventLoop \<Rightarrow> ('w \<times> 'f EventLoop) result option" where
  "loop_while handle run inputs s =
     (if el_quit (snd s) then Some (Inr s)
      else case inputs of
        [] \<Rightarrow> None
      | input # rest \<Rightarrow>
          (case loop_iteration handle run input s of
             Inl e \<Rightarrow> Some (Inl e)
           | Inr s' \<Rightarrow> loop_while handle run rest s'))"

declare loop_while.simps [simp del]

definition EventLoop_loop ::
  "(nat \<Rightarrow> Timestamp \<Rightarrow> 'w \<times> 'f EventLoop \<Rightarrow> ('w \<times> 'f EventLoop) result)
    \<Rightarrow> ('f \<Rightarrow> 'w \<times> 'f EventLoop \<Rightarrow> ('w \<times> 'f EventLoop) result) \<Rightarrow> nat
    \<Rightarrow> ((int \<times> 16 word list) option \<times> Timestamp) list
    \<Rightarrow> 'w \<times> 'f EventLoop \<Rightarrow> ('w \<times> 'f EventLoop) result option" where
  "EventLoop_loop handle run me inputs s =
     (case bind_result (assert_that (\<not> el_looping (snd s)))
             (\<lambda>_. EventLoop_assertInLoopThread me (snd s)) of
        Inl e \<Rightarrow> Some (Inl e)
      | Inr _ \<Rightarrow>
          map_option (map_sum id (\<lambda>(w, l). (w, l\<lparr>el_looping := False\<rparr>)))
            (loop_while handle run inputs
               (fst s, (snd s)\<lparr>el_looping := True, el_quit := False\<rparr>)))"

text \<open>Timers: \<open>runAt\<close>, \<open>runAfter\<close>, \<open>runEvery\<close>; \<open>now\<close> is the clock reading, \<open>p\<close> the new timer's address.\<close>

definition EventLoop_runAt ::
  "nat \<Rightarrow> Timestamp \<Rightarrow> nat \<Rightarrow> Timestamp \<Rightarrow> nat \<Rightarrow> TimerQueue \<Rightarrow> (TimerQueue \<times> nat option) result" where
  "EventLoop_runAt me now p time cb q = TimerQueue_addTimer me now p cb time (double_of_int 0) q"

definition EventLoop_runAfter ::
  "nat \<Rightarrow> Timestamp \<Rightarrow> Timestamp \<Rightarrow> nat \<Rightarrow> double \<Rightarrow> nat \<Rightarrow> TimerQueue
    \<Rightarrow> (TimerQueue \<times> nat option) result" where
  "EventLoop_runAfter me now clock p delay cb q =
     bind_result (Timestamp_plus now delay) (\<lambda>time. EventLoop_runAt me clock p time cb q)"

definition EventLoop_runEvery ::
  "nat \<Rightarrow> Timestamp \<Rightarrow> Timestamp \<Rightarrow> nat \<Rightarrow> double \<Rightarrow> nat \<Rightarrow> TimerQueue
    \<Rightarrow> (TimerQueue \<times> nat option) result" where
  "EventLoop_runEvery me now clock p interval cb q =
     bind_result (Timestamp_plus now interval) (\<lambda>time. TimerQueue_addTimer me clock p cb time interval q)"

section \<open>Channels of a loop\<close>

definition loop_ok :: "nat \<Rightarrow> 'f EventLoop \<Rightarrow> bool" where
  "loop_ok t l \<longleftrightarrow> el_threadId l = t \<and> poller_inv (el_poller l) \<and> po_thread (el_poller l) = t"

definition loop_registered :: "'f EventLoop \<Rightarrow> nat \<Rightarrow> bool" where
  "loop_registered l ch \<longleftrightarrow> registered (el_poller l) ch
     \<and> (case po_objs (el_poller l) ch of None \<Rightarrow> False | Some c \<Rightarrow> ch_loop c = el_this l)"

definition loop_channel :: "'f EventLoop \<Rightarrow> nat \<Rightarrow> Channel option" where
  "loop_channel l ch = po_objs (el_poller l) ch"

text \<open>Through the owning loop a channel operation is the poller's operation.\<close>

lemma Channel_change_poller:
  assumes "el_threadId l = t" "loop_registered l ch" "events_only f"
  shows "Channel_change f t ch l =
    bind_result (channel_change f t ch (el_poller l)) (\<lambda>p. Inr (l\<lparr>el_poller := p\<rparr>))"
proof -
  obtain c where c: "po_objs (el_poller l) ch = Some c" "ch_loop c = el_this l"
    using assms(2) by (auto simp: loop_registered_def split: option.splits)
  then show ?thesis
    using assms(1) events_onlyD [OF assms(3), of c]
    by (simp add: Channel_change_def channel_change_def EventLoop_updateChannel_def
        EventLoop_assertInLoopThread_def EventLoop_isInLoopThread_def)
qed

lemma removeChannel_poller:
  assumes "el_threadId l = t" "loop_registered l ch"
  shows "EventLoop_removeChannel t ch l =
    bind_result (Poller_removeChannel t ch (el_poller l)) (\<lambda>p. Inr (l\<lparr>el_poller := p\<rparr>))"
  using assms by (auto simp: loop_registered_def EventLoop_removeChannel_def
      EventLoop_assertInLoopThread_def EventLoop_isInLoopThread_def split: option.splits)

lemma loop_change_ok:
  assumes ok: "loop_ok t l" and reg: "loop_registered l ch" and f: "events_only f"
  shows "\<exists>l'. Channel_change f t ch l = Inr l' \<and> loop_ok t l'
    \<and> (\<forall>c. loop_channel l ch = Some c \<longrightarrow> loop_channel l' ch = Some (f c))
    \<and> (\<forall>ch'. ch' \<noteq> ch \<longrightarrow> loop_channel l' ch' = loop_channel l ch')
    \<and> (\<forall>ch'. loop_registered l' ch' = loop_registered l ch')
    \<and> (\<exists>p. l' = l\<lparr>el_poller := p\<rparr>)"
proof -
  obtain c where c: "po_objs (el_poller l) ch = Some c"
    using reg by (auto simp: loop_registered_def split: option.splits)
  obtain p where p: "channel_change f t ch (el_poller l) = Inr p" "poller_inv p" "po_thread p = t"
      "po_objs p ch = Some (f c)" "\<And>ch'. ch' \<noteq> ch \<Longrightarrow> po_objs p ch' = po_objs (el_poller l) ch'"
      "\<And>ch'. registered p ch' = registered (el_poller l) ch'"
    using poller.change_ok [of "el_poller l" t ch f] ok reg f c
    by (auto simp: loop_ok_def loop_registered_def)
  have "loop_registered (l\<lparr>el_poller := p\<rparr>) ch' = loop_registered l ch'" for ch'
    using p(4-6) c events_onlyD [OF f, of c]
    by (cases "ch' = ch") (simp_all add: loop_registered_def cong: option.case_cong)
  then show ?thesis
    using p ok reg f c Channel_change_poller [of l t ch f]
    by (intro exI [of _ "l\<lparr>el_poller := p\<rparr>"]) (auto simp: loop_ok_def loop_channel_def)
qed

interpretation loop: channel_registry "loop_ok t" loop_registered loop_channel
  "\<lambda>f ch. Channel_change f t ch" "\<lambda>ch. EventLoop_removeChannel t ch" for t
proof unfold_locales
  fix l :: "'a EventLoop" and ch
  assume "loop_registered l ch"
  then show "\<exists>c. loop_channel l ch = Some c"
    by (auto simp: loop_registered_def loop_channel_def split: option.splits)
next
  fix l :: "'a EventLoop" and ch f
  assume "loop_ok t l" "loop_registered l ch" "events_only f"
  then show "\<exists>l'. Channel_change f t ch l = Inr l' \<and> loop_ok t l'
      \<and> (\<forall>c. loop_channel l ch = Some c \<longrightarrow> loop_channel l' ch = Some (f c))
      \<and> (\<forall>ch'. ch' \<noteq> ch \<longrightarrow> loop_channel l' ch' = loop_channel l ch')
      \<and> (\<forall>ch'. loop_registered l' ch' = loop_registered l ch')"
    using loop_change_ok by blast
next
  fix l :: "'a EventLoop" and ch c
  assume a: "loop_ok t l" "loop_registered l ch" "loop_channel l ch = Some c" "ch_events c = 0"
  then obtain p where "Poller_removeChannel t ch (el_poller l) = Inr p" "poller_inv p" "po_thread p = t"
      "\<not> registered p ch"
    using poller.remove_ok [of "el_poller l" t ch c]
    by (auto simp: loop_ok_def loop_registered_def loop_channel_def)
  then show "\<exists>l'. EventLoop_removeChannel t ch l = Inr l' \<and> loop_ok t l' \<and> \<not> loop_registered l' ch"
    using removeChannel_poller [of l t ch] a(1,2)
    by (auto simp: loop_ok_def loop_registered_def)
qed

text \<open>
  The same operations with their effect on the objects and on the map from descriptors to channels,
  for clients that keep several channels in one loop.
\<close>

lemma loop_change_frame:
  assumes ok: "loop_ok t l" and reg: "loop_registered l ch" and c: "loop_channel l ch = Some c"
    and f: "events_only f"
  shows "\<exists>p. Channel_change f t ch l = Inr (l\<lparr>el_poller := p\<rparr>) \<and> loop_ok t (l\<lparr>el_poller := p\<rparr>)
    \<and> po_channels p = po_channels (el_poller l) \<and> po_objs p = (po_objs (el_poller l))(ch \<mapsto> f c)
    \<and> length (po_fds p) = length (po_fds (el_poller l))"
proof -
  have th: "poller_inv (el_poller l)" "po_thread (el_poller l) = t" "el_threadId l = t"
    using ok by (simp_all add: loop_ok_def)
  have r: "registered (el_poller l) ch" using reg by (simp add: loop_registered_def)
  obtain i c' where sl: "slot (el_poller l) i ch c'" using registered_slot [OF th(1) r] .
  then have "c' = c" using c by (simp add: slot_def loop_channel_def)
  obtain p where p: "channel_change f t ch (el_poller l) = Inr p" "poller_inv p" "po_thread p = t"
    using channel_change_ok [OF th(1) r f] th(2) by auto
  then have "po_channels p = po_channels (el_poller l) \<and> po_objs p = (po_objs (el_poller l))(ch \<mapsto> f c)
      \<and> length (po_fds p) = length (po_fds (el_poller l))"
    using channel_change_registered [OF th(1) sl f] th(2) \<open>c' = c\<close> by auto
  then show ?thesis using p th Channel_change_poller [OF th(3) reg f] by (auto simp: loop_ok_def)
qed

lemma loop_new_frame:
  assumes ok: "loop_ok t l" and c: "loop_channel l ch = Some c" "ch_index c < 0" "0 \<le> ch_fd c"
      "ch_loop c = el_this l"
    and free: "po_channels (el_poller l) (ch_fd c) = None"
    and room: "length (po_fds (el_poller l)) + 1 < 2 ^ 31"
    and f: "events_only f" and busy: "ch_events (f c) \<noteq> 0"
  shows "\<exists>p i. Channel_change f t ch l = Inr (l\<lparr>el_poller := p\<rparr>) \<and> loop_ok t (l\<lparr>el_poller := p\<rparr>)
    \<and> po_channels p = (po_channels (el_poller l))(ch_fd c \<mapsto> ch)
    \<and> po_objs p = (po_objs (el_poller l))(ch \<mapsto> Channel_set_index (f c) i)"
proof -
  have th: "poller_inv (el_poller l)" "po_thread (el_poller l) = t" "el_threadId l = t"
    using ok by (simp_all add: loop_ok_def)
  have obj: "po_objs (el_poller l) ch = Some c" using c(1) by (simp add: loop_channel_def)
  obtain p where p: "channel_change f t ch (el_poller l) = Inr p" "poller_inv p" "po_thread p = t"
      "po_channels p = (po_channels (el_poller l))(ch_fd c \<mapsto> ch)"
      "\<And>ch'. ch' \<noteq> ch \<Longrightarrow> po_objs p ch' = po_objs (el_poller l) ch'"
    using channel_change_new [OF th(1) obj c(2,3) free room f busy] th(2) by auto
  have "\<exists>i. po_objs p ch = Some (Channel_set_index (f c) i)"
    using p(1) obj c(2) free th(2) events_onlyD [OF f, of c]
    by (auto simp: channel_change_def Poller_updateChannel_def Poller_addNew_def Let_def)
  then obtain i where "po_objs p = (po_objs (el_poller l))(ch \<mapsto> Channel_set_index (f c) i)"
    using p(5) by (auto simp: fun_eq_iff)
  moreover have "Channel_change f t ch l = Inr (l\<lparr>el_poller := p\<rparr>)"
    using p(1) obj c(4) th(3) events_onlyD [OF f, of c]
    by (simp add: Channel_change_def channel_change_def EventLoop_updateChannel_def
        EventLoop_assertInLoopThread_def EventLoop_isInLoopThread_def)
  ultimately show ?thesis using p th by (auto simp: loop_ok_def)
qed

lemma loop_remove_frame:
  assumes ok: "loop_ok t l" and reg: "loop_registered l ch" and c: "loop_channel l ch = Some c"
    and idle: "ch_events c = 0"
  shows "\<exists>p. EventLoop_removeChannel t ch l = Inr (l\<lparr>el_poller := p\<rparr>) \<and> loop_ok t (l\<lparr>el_poller := p\<rparr>)
    \<and> po_channels p = (po_channels (el_poller l))(ch_fd c := None)
    \<and> (\<forall>ch'. same_object (po_objs (el_poller l) ch') (po_objs p ch'))"
proof -
  have th: "poller_inv (el_poller l)" "po_thread (el_poller l) = t" "el_threadId l = t"
    using ok by (simp_all add: loop_ok_def)
  have r: "registered (el_poller l) ch" "po_objs (el_poller l) ch = Some c"
    using reg c by (simp_all add: loop_registered_def loop_channel_def)
  obtain p where "Poller_removeChannel t ch (el_poller l) = Inr p" "poller_inv p" "po_thread p = t"
      "po_channels p = (po_channels (el_poller l))(ch_fd c := None)"
      "\<forall>ch'. same_object (po_objs (el_poller l) ch') (po_objs p ch')"
    using removeChannel_frame [OF th(1) r idle] th(2) by auto
  then show ?thesis using removeChannel_poller [OF th(3) reg] th by (auto simp: loop_ok_def)
qed

section \<open>Functors\<close>

lemma waken_simps [simp]:
  "el_unprocessedFunctors (EventLoop_waken l) = el_unprocessedFunctors l"
  "el_processingFunctors (EventLoop_waken l) = el_processingFunctors l"
  "el_threadId (EventLoop_waken l) = el_threadId l" "el_quit (EventLoop_waken l) = el_quit l"
  "0 < el_wakenfd (EventLoop_waken l)"
  by (auto simp: EventLoop_waken_def)

lemma push_simps [simp]:
  "el_unprocessedFunctors (EventLoop_push f l) = el_unprocessedFunctors l @ [f]"
  "el_processingFunctors (EventLoop_push f l) = el_processingFunctors l"
  "el_threadId (EventLoop_push f l) = el_threadId l" "el_wakenfd (EventLoop_push f l) = el_wakenfd l"
  by (simp_all add: EventLoop_push_def)

lemma addToLoopThread_simps [simp]:
  "el_unprocessedFunctors (EventLoop_addToLoopThread me f l) = el_unprocessedFunctors l @ [f]"
  "el_processingFunctors (EventLoop_addToLoopThread me f l) = el_processingFunctors l"
  "el_threadId (EventLoop_addToLoopThread me f l) = el_threadId l"
  "el_processingFunctors l \<Longrightarrow> 0 < el_wakenfd (EventLoop_addToLoopThread me f l)"
  by (simp_all add: EventLoop_addToLoopThread_def EventLoop_isInLoopThread_def Let_def)

text \<open>In the loop's thread nothing is woken outside \<open>processFunctors\<close>, and inside it the loop is.\<close>

lemma addToLoopThread_own:
  "EventLoop_addToLoopThread (el_threadId l) f l =
     (if el_processingFunctors l then EventLoop_waken (EventLoop_push f l) else EventLoop_push f l)"
  by (simp add: EventLoop_addToLoopThread_def EventLoop_isInLoopThread_def Let_def)

lemma add_functors:
  "el_processingFunctors l \<Longrightarrow>
   (let l' = fold (EventLoop_addToLoopThread me) fs l in
    el_unprocessedFunctors l' = el_unprocessedFunctors l @ fs \<and> el_processingFunctors l'
    \<and> (fs \<noteq> [] \<or> 0 < el_wakenfd l \<longrightarrow> 0 < el_wakenfd l') \<and> el_threadId l' = el_threadId l)"
proof (induction fs arbitrary: l)
  case Nil
  then show ?case by simp
next
  case (Cons f fs)
  show ?case using Cons.IH [of "EventLoop_addToLoopThread me f l"] Cons.prems by (simp add: Let_def)
qed

lemma run_functors_adding:
  assumes run: "\<And>f w l. run f (w, l) = Inr (g f w, fold (EventLoop_addToLoopThread me) (adds f) l)"
  shows "el_processingFunctors l \<Longrightarrow>
    \<exists>l'. run_functors run fs (w, l) = Inr (fold g fs w, l')
      \<and> el_unprocessedFunctors l' = el_unprocessedFunctors l @ concat (map adds fs)
      \<and> (concat (map adds fs) \<noteq> [] \<or> 0 < el_wakenfd l \<longrightarrow> 0 < el_wakenfd l')
      \<and> el_processingFunctors l'"
proof (induction fs arbitrary: w l)
  case Nil
  then show ?case by simp
next
  case (Cons f fs)
  let ?l1 = "fold (EventLoop_addToLoopThread me) (adds f) l"
  note a = add_functors [OF Cons.prems, of me "adds f", unfolded Let_def]
  have pr: "el_processingFunctors ?l1" using a by simp
  obtain l' where l': "run_functors run fs (g f w, ?l1) = Inr (fold g fs (g f w), l')"
      "el_unprocessedFunctors l' = el_unprocessedFunctors ?l1 @ concat (map adds fs)"
      "concat (map adds fs) \<noteq> [] \<or> 0 < el_wakenfd ?l1 \<longrightarrow> 0 < el_wakenfd l'" "el_processingFunctors l'"
    using Cons.IH [OF pr, of "g f w"] by (elim exE conjE) (rule that)
  have "run_functors run (f # fs) (w, l) = Inr (fold g (f # fs) w, l')" using l'(1) by (simp add: run)
  moreover have "el_unprocessedFunctors l' = el_unprocessedFunctors l @ concat (map adds (f # fs))"
    using l'(2) a by simp
  moreover have "concat (map adds (f # fs)) \<noteq> [] \<or> 0 < el_wakenfd l \<longrightarrow> 0 < el_wakenfd l'"
    using l'(3) a by (cases "adds f = []") simp_all
  ultimately show ?case using l'(4) by (intro exI [of _ l'] conjI)
qed

section \<open>The protocol between the loop and other threads\<close>

text \<open>
  The loop's thread is in \<open>poll\<close>, in the event handlers, before the swap of \<open>processFunctors\<close>, between
  two functors (\<open>Running fs\<close>: \<open>fs\<close> are still to run), or in \<open>addToLoopThread\<close> called by a functor,
  between \<open>push_back\<close> and \<open>waken\<close> (\<open>Waking\<close>). \<open>sy_pending\<close> counts the other threads that have pushed
  and not yet woken. \<open>sy_added\<close> and \<open>sy_done\<close> record the functors added and run.
\<close>

datatype 'f loop_pc = Polling | Handling | Swapping | Running "'f list" | Waking "'f list"

record 'f loop_system =
  sy_loop :: "'f EventLoop"
  sy_pc :: "'f loop_pc"
  sy_pending :: nat
  sy_added :: "'f list"
  sy_done :: "'f list"

inductive loop_step :: "'f loop_system \<Rightarrow> 'f loop_system \<Rightarrow> bool" where
  other_push: "loop_step s (s\<lparr>sy_loop := EventLoop_push f (sy_loop s),
      sy_pending := sy_pending s + 1, sy_added := sy_added s @ [f]\<rparr>)"
| other_wake: "0 < sy_pending s \<Longrightarrow> loop_step s (s\<lparr>sy_loop := EventLoop_waken (sy_loop s),
      sy_pending := sy_pending s - 1\<rparr>)"
| poll_returns: "sy_pc s = Polling \<Longrightarrow> loop_step s (s\<lparr>sy_pc := Handling\<rparr>)"
| handler_reads: "sy_pc s = Handling \<Longrightarrow> loop_step s (s\<lparr>sy_loop := EventLoop_readFd (sy_loop s)\<rparr>)"
| handler_adds: "sy_pc s = Handling \<Longrightarrow>
    loop_step s (s\<lparr>sy_loop := EventLoop_addToLoopThread (el_threadId (sy_loop s)) f (sy_loop s),
      sy_added := sy_added s @ [f]\<rparr>)"
| start_functors: "sy_pc s = Handling \<Longrightarrow>
    loop_step s (s\<lparr>sy_loop := (sy_loop s)\<lparr>el_processingFunctors := True\<rparr>, sy_pc := Swapping\<rparr>)"
| swap_functors: "sy_pc s = Swapping \<Longrightarrow> EventLoop_takeFunctors (sy_loop s) = (fs, l) \<Longrightarrow>
    loop_step s (s\<lparr>sy_loop := l, sy_pc := Running fs\<rparr>)"
| run_functor: "sy_pc s = Running (f # fs) \<Longrightarrow>
    loop_step s (s\<lparr>sy_pc := Running fs, sy_done := sy_done s @ [f]\<rparr>)"
| functor_pushes: "sy_pc s = Running fs \<Longrightarrow>
    loop_step s (s\<lparr>sy_loop := EventLoop_push f (sy_loop s), sy_pc := Waking fs,
      sy_added := sy_added s @ [f]\<rparr>)"
| functor_wakes: "sy_pc s = Waking fs \<Longrightarrow>
    loop_step s (s\<lparr>sy_loop := EventLoop_waken (sy_loop s), sy_pc := Running fs\<rparr>)"
| end_functors: "sy_pc s = Running [] \<Longrightarrow>
    loop_step s (s\<lparr>sy_loop := (sy_loop s)\<lparr>el_processingFunctors := False\<rparr>, sy_pc := Polling\<rparr>)"

inductive_cases loop_stepE: "loop_step s t"

definition loop_start :: "'f loop_system \<Rightarrow> bool" where
  "loop_start s \<longleftrightarrow> sy_pc s = Polling \<and> sy_pending s = 0 \<and> sy_added s = [] \<and> sy_done s = []
     \<and> el_unprocessedFunctors (sy_loop s) = [] \<and> \<not> el_processingFunctors (sy_loop s)"

fun pc_rest :: "'f loop_pc \<Rightarrow> 'f list" where
  "pc_rest (Running fs) = fs"
| "pc_rest (Waking fs) = fs"
| "pc_rest _ = []"

fun pc_processing :: "'f loop_pc \<Rightarrow> bool" where
  "pc_processing Polling = False"
| "pc_processing Handling = False"
| "pc_processing _ = True"

text \<open>The positions from which the loop reaches \<open>poll\<close> without looking at the queue again.\<close>

fun pc_past_swap :: "'f loop_pc \<Rightarrow> bool" where
  "pc_past_swap Polling = True"
| "pc_past_swap (Running fs) = True"
| "pc_past_swap _ = False"

definition loop_inv :: "'f loop_system \<Rightarrow> bool" where
  "loop_inv s \<longleftrightarrow>
     el_processingFunctors (sy_loop s) = pc_processing (sy_pc s)
     \<and> sy_added s = sy_done s @ pc_rest (sy_pc s) @ el_unprocessedFunctors (sy_loop s)
     \<and> (pc_past_swap (sy_pc s) \<and> el_unprocessedFunctors (sy_loop s) \<noteq> []
         \<longrightarrow> 0 < el_wakenfd (sy_loop s) \<or> 0 < sy_pending s)"

lemma loop_inv_start: "loop_start s \<Longrightarrow> loop_inv s"
  by (simp add: loop_start_def loop_inv_def)

lemma loop_inv_step: "loop_inv s \<Longrightarrow> loop_step s t \<Longrightarrow> loop_inv t"
  by (erule loop_stepE)
    (auto simp: loop_inv_def EventLoop_readFd_def EventLoop_takeFunctors_def addToLoopThread_own)

interpretation functors: step_invariant loop_start loop_step loop_inv
  by unfold_locales (fact loop_inv_start, fact loop_inv_step)

section \<open>Properties\<close>

text \<open>
  C26. No functor is lost, run twice or run out of order, and no wake-up is lost: in every reachable
  state of the loop and any number of other threads the added functors are those already run, those
  taken and still to run, and those in the queue, in this order; and whenever the loop is in \<open>poll\<close>
  with a functor in the queue, the eventfd is readable or a thread is about to write to it.
\<close>

theorem no_lost_wakeup:
  assumes "reachable loop_start loop_step s"
  shows "sy_added s = sy_done s @ pc_rest (sy_pc s) @ el_unprocessedFunctors (sy_loop s)
    \<and> (sy_pc s = Polling \<and> el_unprocessedFunctors (sy_loop s) \<noteq> []
        \<longrightarrow> 0 < el_wakenfd (sy_loop s) \<or> 0 < sy_pending s)"
  using functors.reachable_inv [OF assms] by (auto simp: loop_inv_def)

text \<open>
  C27. \<open>processFunctors\<close> runs the queued functors once each in order. Functors they add, from the
  loop's own thread, are not run in this round but are exactly the new queue, and the eventfd is
  then readable, so that the next \<open>poll\<close> returns at once.
\<close>

theorem processFunctors_exact:
  assumes "\<And>f w l. run f (w, l) = Inr (g f w, fold (EventLoop_addToLoopThread me) (adds f) l)"
  shows "\<exists>l'. EventLoop_processFunctors run (w, l) = Inr (fold g (el_unprocessedFunctors l) w, l')
    \<and> el_unprocessedFunctors l' = concat (map adds (el_unprocessedFunctors l))
    \<and> (el_unprocessedFunctors l' \<noteq> [] \<longrightarrow> 0 < el_wakenfd l') \<and> \<not> el_processingFunctors l'"
proof -
  let ?l = "l\<lparr>el_processingFunctors := True, el_unprocessedFunctors := []\<rparr>"
  obtain l' where "run_functors run (el_unprocessedFunctors l) (w, ?l) =
        Inr (fold g (el_unprocessedFunctors l) w, l')"
      "el_unprocessedFunctors l' = concat (map adds (el_unprocessedFunctors l))"
      "concat (map adds (el_unprocessedFunctors l)) \<noteq> [] \<longrightarrow> 0 < el_wakenfd l'"
    using run_functors_adding [where run = run and g = g and me = me and adds = adds and l = ?l
        and fs = "el_unprocessedFunctors l" and w = w, OF assms]
    by auto
  then show ?thesis
    by (intro exI [of _ "l'\<lparr>el_processingFunctors := False\<rparr>"])
      (simp add: EventLoop_processFunctors_def EventLoop_takeFunctors_def)
qed

section \<open>Examples\<close>

definition idle_loop :: "nat EventLoop" where
  "idle_loop = \<lparr>el_this = 0, el_threadId = 0, el_looping = False, el_quit = False,
     el_processingFunctors = False, el_pollReturnTime = Timestamp 0,
     el_poller = Poller_new 0 Map.empty, el_activeChannels = [], el_wakenfd = 0,
     el_unprocessedFunctors = []\<rparr>"

theorem no_lost_wakeup_witness:
  "\<exists>s. reachable loop_start loop_step (s :: nat loop_system)
    \<and> sy_pc s = Polling \<and> el_unprocessedFunctors (sy_loop s) = [7]
    \<and> (0 < el_wakenfd (sy_loop s) \<or> 0 < sy_pending s)"
proof -
  let ?s0 = "\<lparr>sy_loop = idle_loop, sy_pc = Polling, sy_pending = 0, sy_added = [], sy_done = []\<rparr>"
  let ?s1 = "?s0\<lparr>sy_loop := EventLoop_push 7 (sy_loop ?s0),
      sy_pending := sy_pending ?s0 + 1, sy_added := sy_added ?s0 @ [7]\<rparr>"
  have "loop_start ?s0" by (simp add: loop_start_def idle_loop_def)
  then have "reachable loop_start loop_step ?s0" by (rule reachable_start)
  then have r: "reachable loop_start loop_step ?s1" by (rule reachable_step) (rule other_push)
  have "el_unprocessedFunctors (sy_loop ?s1) = [7]" by (simp add: idle_loop_def)
  then show ?thesis using no_lost_wakeup [OF r] r by (intro exI [of _ ?s1]) simp
qed

theorem processFunctors_exact_witness:
  "\<exists>l'. EventLoop_processFunctors
      (\<lambda>f (w, l). Inr (w @ [f], fold (EventLoop_addToLoopThread 0) (if f = 1 then [9] else []) l))
      ([], idle_loop\<lparr>el_unprocessedFunctors := [1, 2]\<rparr>) = Inr ([1, 2], l')
    \<and> el_unprocessedFunctors l' = [9] \<and> 0 < el_wakenfd l'"
  using processFunctors_exact
    [of "\<lambda>f (w, l). Inr (w @ [f], fold (EventLoop_addToLoopThread 0) (if f = 1 then [9] else []) l)"
        "\<lambda>f w. w @ [f]" 0 "\<lambda>f. if f = 1 then [9] else []" "[]"
        "idle_loop\<lparr>el_unprocessedFunctors := [1, 2]\<rparr>"]
  by auto

end
