(* ===== verification/TcpConnection.thy ===== *)
theory TcpConnection
  imports EventLoop HyBuffer HttpContext
begin

text \<open>
  \<^verbatim>\<open>include/network/TcpConnection.hpp\<close> and \<^verbatim>\<open>src/TcpConnection.cpp\<close>. The state of an operation is the
  connection with the buffers of its callers, and the loop that owns its channel. The answers of
  \<open>read\<close> and \<open>write\<close> are arguments (\<open>None\<close> for \<open>-1\<close>); the socket records the bytes the kernel has
  accepted and whether the writing side has been shut down. Callbacks are functions on the state.
  The context, a \<open>std::any\<close>, holds at most a \<open>HttpContext\<close>.
\<close>

section \<open>Data\<close>

datatype State = CONNECTING | CONNECTED | DISCONNECTED | DISCONNECTING

record Connection_Socket =
  sk_fd :: int
  sk_sent :: string
  sk_shutdownWrite :: bool

record TcpConnection =
  cn_name :: string
  cn_state :: State
  cn_socket :: Connection_Socket
  cn_channel :: nat
  cn_inputBuffer :: HyBuffer
  cn_outputBuffer :: HyBuffer
  cn_context :: "HttpContext option"

text \<open>The functors a connection gives to its loop; a buffer is captured by its address.\<close>

datatype conn_task = SendTask string | SendBufferTask nat | ShutdownTask

record conn_env =
  en_conn :: TcpConnection
  en_buffers :: "nat \<rightharpoonup> HyBuffer"

type_synonym 'f conn_state = "conn_env \<times> 'f EventLoop"

abbreviation the_conn :: "'f conn_state \<Rightarrow> TcpConnection" where
  "the_conn s \<equiv> en_conn (fst s)"

abbreviation the_loop :: "'f conn_state \<Rightarrow> 'f EventLoop" where
  "the_loop s \<equiv> snd s"

definition upd_conn :: "(TcpConnection \<Rightarrow> TcpConnection) \<Rightarrow> 'f conn_state \<Rightarrow> 'f conn_state" where
  "upd_conn f s = ((fst s)\<lparr>en_conn := f (en_conn (fst s))\<rparr>, snd s)"

definition conn_isWriting :: "'f conn_state \<Rightarrow> bool result" where
  "conn_isWriting s =
     bind_result (deref (po_objs (el_poller (the_loop s))) (cn_channel (the_conn s))) (\<lambda>ch.
     Inr (Channel_isWriting ch))"

definition conn_change :: "(Channel \<Rightarrow> Channel) \<Rightarrow> nat \<Rightarrow> 'f conn_state \<Rightarrow> 'f conn_state result" where
  "conn_change f me s =
     bind_result (Channel_change f me (cn_channel (the_conn s)) (the_loop s)) (\<lambda>l. Inr (fst s, l))"

definition TcpConnection_new :: "string \<Rightarrow> int \<Rightarrow> nat \<Rightarrow> TcpConnection" where
  "TcpConnection_new connName fd channel =
     \<lparr>cn_name = connName, cn_state = CONNECTING,
      cn_socket = \<lparr>sk_fd = fd, sk_sent = '''', sk_shutdownWrite = False\<rparr>, cn_channel = channel,
      cn_inputBuffer = HyBuffer_new, cn_outputBuffer = HyBuffer_new, cn_context = None\<rparr>"

definition TcpConnection_connected :: "TcpConnection \<Rightarrow> bool" where
  "TcpConnection_connected c \<longleftrightarrow> cn_state c = CONNECTED"

definition TcpConnection_setContext :: "HttpContext \<Rightarrow> TcpConnection \<Rightarrow> TcpConnection" where
  "TcpConnection_setContext context c = c\<lparr>cn_context := Some context\<rparr>"

definition TcpConnection_setState :: "State \<Rightarrow> TcpConnection \<Rightarrow> TcpConnection" where
  "TcpConnection_setState s c = c\<lparr>cn_state := s\<rparr>"

section \<open>Sending\<close>

definition kernel_accepts :: "string \<Rightarrow> TcpConnection \<Rightarrow> TcpConnection" where
  "kernel_accepts d c = c\<lparr>cn_socket := (cn_socket c)\<lparr>sk_sent := sk_sent (cn_socket c) @ d\<rparr>\<rparr>"

definition TcpConnection_sendInLoopThread ::
  "nat \<Rightarrow> nat option \<Rightarrow> string \<Rightarrow> 'f conn_state \<Rightarrow> 'f conn_state result" where
  "TcpConnection_sendInLoopThread me answer data s =
     bind_result (EventLoop_assertInLoopThread me (the_loop s)) (\<lambda>_.
     bind_result (conn_isWriting s) (\<lambda>writing.
     (let len = length data;
          direct = (\<not> writing \<and> HyBuffer_readableBytes (cn_outputBuffer (the_conn s)) = 0);
          n = (if direct then case answer of Some n \<Rightarrow> n | None \<Rightarrow> 0 else 0);
          left = (if direct then case answer of Some n \<Rightarrow> size_sub len n | None \<Rightarrow> len else len);
          s = (if direct then upd_conn (kernel_accepts (take n data)) s else s)
      in if n < len then
           bind_result (range_string data n (n + left)) (\<lambda>rest.
           bind_result (HyBuffer_append (cn_outputBuffer (the_conn s)) rest) (\<lambda>out.
           (let s = upd_conn (\<lambda>c. c\<lparr>cn_outputBuffer := out\<rparr>) s in
            if \<not> writing then conn_change Channel_enableWriting me s else Inr s)))
         else Inr s)))"

definition TcpConnection_shutdownInLoopThread :: "nat \<Rightarrow> 'f conn_state \<Rightarrow> 'f conn_state result" where
  "TcpConnection_shutdownInLoopThread me s =
     bind_result (EventLoop_assertInLoopThread me (the_loop s)) (\<lambda>_.
     bind_result (conn_isWriting s) (\<lambda>writing.
     if \<not> writing then
       Inr (upd_conn (\<lambda>c. c\<lparr>cn_socket := (cn_socket c)\<lparr>sk_shutdownWrite := True\<rparr>\<rparr>) s)
     else Inr s))"

text \<open>The body of \<open>send(HyBuffer* )\<close> up to \<open>clearAll\<close>, for the buffer at an address.\<close>

definition send_payload ::
  "nat \<Rightarrow> nat option \<Rightarrow> nat \<Rightarrow> 'f conn_state \<Rightarrow> 'f conn_state result" where
  "send_payload me answer addr s =
     bind_result (deref (en_buffers (fst s)) addr) (\<lambda>b.
     bind_result (range_string (buffer b) (HyBuffer_payload b)
         (size_add (HyBuffer_payload b) (HyBuffer_readableBytes b))) (\<lambda>data.
     TcpConnection_sendInLoopThread me answer data s))"

definition run_conn_task :: "nat \<Rightarrow> nat option \<Rightarrow> conn_task \<Rightarrow> conn_task conn_state \<Rightarrow> conn_task conn_state result" where
  "run_conn_task me answer task s =
     (case task of
        SendTask msg \<Rightarrow> TcpConnection_sendInLoopThread me answer msg s
      | SendBufferTask addr \<Rightarrow> send_payload me answer addr s
      | ShutdownTask \<Rightarrow> TcpConnection_shutdownInLoopThread me s)"

definition TcpConnection_send ::
  "nat \<Rightarrow> nat option \<Rightarrow> string \<Rightarrow> conn_task conn_state \<Rightarrow> conn_task conn_state result" where
  "TcpConnection_send me answer msg s =
     (if cn_state (the_conn s) = CONNECTED then
        if EventLoop_isInLoopThread me (the_loop s)
        then TcpConnection_sendInLoopThread me answer msg s
        else EventLoop_runInLoopThread (run_conn_task me answer) me (SendTask msg) s
      else Inr s)"

definition TcpConnection_sendBuffer ::
  "nat \<Rightarrow> nat option \<Rightarrow> nat \<Rightarrow> conn_task conn_state \<Rightarrow> conn_task conn_state result" where
  "TcpConnection_sendBuffer me answer addr s =
     (if cn_state (the_conn s) = CONNECTED then
        if EventLoop_isInLoopThread me (the_loop s)
        then
          bind_result (send_payload me answer addr s) (\<lambda>s.
          bind_result (deref (en_buffers (fst s)) addr) (\<lambda>b.
          Inr ((fst s)\<lparr>en_buffers := (en_buffers (fst s))(addr \<mapsto> HyBuffer_clearAll b)\<rparr>, snd s)))
        else EventLoop_runInLoopThread (run_conn_task me answer) me (SendBufferTask addr) s
      else Inr s)"

definition TcpConnection_shutdown :: "nat \<Rightarrow> conn_task conn_state \<Rightarrow> conn_task conn_state result" where
  "TcpConnection_shutdown me s =
     (if cn_state (the_conn s) = CONNECTED then
        EventLoop_runInLoopThread (run_conn_task me None) me ShutdownTask
          (upd_conn (TcpConnection_setState DISCONNECTING) s)
      else Inr s)"

section \<open>Event handlers\<close>

definition TcpConnection_establishConnection ::
  "nat \<Rightarrow> ('f conn_state \<Rightarrow> 'f conn_state result) \<Rightarrow> 'f conn_state \<Rightarrow> 'f conn_state result" where
  "TcpConnection_establishConnection me connCallback s =
     bind_result (EventLoop_assertInLoopThread me (the_loop s)) (\<lambda>_.
     bind_result (assert_that (cn_state (the_conn s) = CONNECTING)) (\<lambda>_.
     bind_result (conn_change Channel_enableReading me
         (upd_conn (TcpConnection_setState CONNECTED) s)) (\<lambda>s.
     connCallback s)))"

definition TcpConnection_destroyConnection ::
  "nat \<Rightarrow> ('f conn_state \<Rightarrow> 'f conn_state result) \<Rightarrow> 'f conn_state \<Rightarrow> 'f conn_state result" where
  "TcpConnection_destroyConnection me connCallback s =
     bind_result (EventLoop_assertInLoopThread me (the_loop s)) (\<lambda>_.
     bind_result (assert_that (cn_state (the_conn s) = CONNECTED
         \<or> cn_state (the_conn s) = DISCONNECTING)) (\<lambda>_.
     bind_result (conn_change Channel_disableAll me
         (upd_conn (TcpConnection_setState DISCONNECTED) s)) (\<lambda>s.
     bind_result (connCallback s) (\<lambda>s.
     bind_result (EventLoop_removeChannel me (cn_channel (the_conn s)) (the_loop s)) (\<lambda>l.
     Inr (fst s, l))))))"

definition TcpConnection_closeHandler ::
  "nat \<Rightarrow> ('f conn_state \<Rightarrow> 'f conn_state result) option \<Rightarrow> 'f conn_state \<Rightarrow> 'f conn_state result" where
  "TcpConnection_closeHandler me closeCallback s =
     bind_result (EventLoop_assertInLoopThread me (the_loop s)) (\<lambda>_.
     bind_result (assert_that (cn_state (the_conn s) = CONNECTED
         \<or> cn_state (the_conn s) = DISCONNECTING)) (\<lambda>_.
     bind_result (conn_change Channel_disableAll me s) (\<lambda>s.
     case closeCallback of None \<Rightarrow> Inl AssertFail | Some cb \<Rightarrow> cb s)))"

definition TcpConnection_errorHandler :: "'f conn_state \<Rightarrow> 'f conn_state result" where
  "TcpConnection_errorHandler s = Inr s"

text \<open>The result of \<open>readFd\<close> is stored in a \<open>size_t\<close>: \<open>-1\<close> becomes the largest one.\<close>

definition TcpConnection_connectionHandler ::
  "nat \<Rightarrow> string option \<Rightarrow> Timestamp \<Rightarrow> (Timestamp \<Rightarrow> 'f conn_state \<Rightarrow> 'f conn_state result) option
    \<Rightarrow> ('f conn_state \<Rightarrow> 'f conn_state result) option \<Rightarrow> 'f conn_state \<Rightarrow> 'f conn_state result" where
  "TcpConnection_connectionHandler me answer receiveTime msgCallback closeCallback s =
     bind_result (HyBuffer_readFd (cn_inputBuffer (the_conn s)) answer) (\<lambda>(r, b).
     (let s = upd_conn (\<lambda>c. c\<lparr>cn_inputBuffer := b\<rparr>) s; n = to_size r in
      if n > 0 then
        (case msgCallback of Some cb \<Rightarrow> cb receiveTime s | None \<Rightarrow> Inr s)
      else if n = 0 then TcpConnection_closeHandler me closeCallback s
      else TcpConnection_errorHandler s))"

definition TcpConnection_writeHandler :: "nat \<Rightarrow> nat option \<Rightarrow> 'f conn_state \<Rightarrow> 'f conn_state result" where
  "TcpConnection_writeHandler me answer s =
     bind_result (EventLoop_assertInLoopThread me (the_loop s)) (\<lambda>_.
     bind_result (conn_isWriting s) (\<lambda>writing.
     if writing then
       (let out = cn_outputBuffer (the_conn s) in
        bind_result (range_string (buffer out) (HyBuffer_payload out)
            (size_add (HyBuffer_payload out) (HyBuffer_readableBytes out))) (\<lambda>payload.
        case answer of
          None \<Rightarrow> Inr s
        | Some n \<Rightarrow>
            if n > 0 then
              (let out = HyBuffer_clear out n;
                   s = upd_conn (\<lambda>c. (kernel_accepts (take n payload) c)\<lparr>cn_outputBuffer := out\<rparr>) s
               in if HyBuffer_readableBytes out = 0 then
                    bind_result (conn_change Channel_disableWriting me s) (\<lambda>s.
                    if cn_state (the_conn s) = DISCONNECTING
                    then TcpConnection_shutdownInLoopThread me s else Inr s)
                  else Inr s)
            else Inr s))
     else Inr s))"

section \<open>Invariant\<close>

definition out_bytes :: "'f conn_state \<Rightarrow> string" where
  "out_bytes s = contents (cn_outputBuffer (the_conn s))"

definition sent :: "'f conn_state \<Rightarrow> string" where
  "sent s = sk_sent (cn_socket (the_conn s))"

definition fin_sent :: "'f conn_state \<Rightarrow> bool" where
  "fin_sent s = sk_shutdownWrite (cn_socket (the_conn s))"

definition writing :: "'f conn_state \<Rightarrow> bool" where
  "writing s = (case loop_channel (the_loop s) (cn_channel (the_conn s)) of
     None \<Rightarrow> False | Some ch \<Rightarrow> Channel_isWriting ch)"

definition conn_ok :: "nat \<Rightarrow> 'f conn_state \<Rightarrow> bool" where
  "conn_ok t s \<longleftrightarrow> loop_ok t (the_loop s) \<and> loop_registered (the_loop s) (cn_channel (the_conn s))
     \<and> buf_wf (cn_outputBuffer (the_conn s))"

text \<open>
  Write events are asked for exactly while bytes are waiting, and after the FIN nothing is waiting
  and nothing more is accepted.
\<close>

definition conn_inv :: "nat \<Rightarrow> 'f conn_state \<Rightarrow> bool" where
  "conn_inv t s \<longleftrightarrow> conn_ok t s \<and> (writing s \<longleftrightarrow> out_bytes s \<noteq> [])
     \<and> (fin_sent s \<longrightarrow> out_bytes s = [] \<and> cn_state (the_conn s) \<noteq> CONNECTED)"

text \<open>Everything of the connection that sending does not touch.\<close>

definition same_peer :: "'f conn_state \<Rightarrow> 'f conn_state \<Rightarrow> bool" where
  "same_peer s s' \<longleftrightarrow> cn_state (the_conn s') = cn_state (the_conn s)
     \<and> cn_inputBuffer (the_conn s') = cn_inputBuffer (the_conn s)
     \<and> cn_context (the_conn s') = cn_context (the_conn s)
     \<and> cn_channel (the_conn s') = cn_channel (the_conn s)
     \<and> en_buffers (fst s') = en_buffers (fst s)
     \<and> el_threadId (the_loop s') = el_threadId (the_loop s)"

named_theorems conn_simps \<open>unfolding of the views of a connection\<close>

lemmas conn_views [conn_simps] = out_bytes_def sent_def fin_sent_def upd_conn_def kernel_accepts_def

lemma same_peer_refl [simp]: "same_peer s s"
  by (simp add: same_peer_def)

lemma conn_ok_isWriting: "conn_ok t s \<Longrightarrow> conn_isWriting s = Inr (writing s)"
  by (auto simp: conn_ok_def conn_isWriting_def writing_def loop_channel_def loop_registered_def
      split: option.splits)

lemma conn_ok_thread: "conn_ok t s \<Longrightarrow> EventLoop_assertInLoopThread t (the_loop s) = Inr ()"
  by (simp add: conn_ok_def loop_ok_def EventLoop_assertInLoopThread_def EventLoop_isInLoopThread_def)

lemma conn_ok_inLoop: "conn_ok t s \<Longrightarrow> EventLoop_isInLoopThread t (the_loop s)"
  by (simp add: conn_ok_def loop_ok_def EventLoop_isInLoopThread_def)

lemma conn_ok_readable: "conn_ok t s \<Longrightarrow>
    HyBuffer_readableBytes (cn_outputBuffer (the_conn s)) = length (out_bytes s)"
  by (simp add: conn_ok_def out_bytes_def readableBytes_wf length_contents)

lemma conn_change_ok:
  assumes "conn_ok t s" and "events_only f"
  shows "\<exists>l'. conn_change f t s = Inr (fst s, l') \<and> conn_ok t (fst s, l')
    \<and> el_threadId l' = el_threadId (the_loop s)
    \<and> loop_channel l' (cn_channel (the_conn s)) =
        map_option f (loop_channel (the_loop s) (cn_channel (the_conn s)))"
proof -
  let ?ch = "cn_channel (the_conn s)"
  have reg: "loop_ok t (the_loop s)" "loop_registered (the_loop s) ?ch"
    using assms(1) by (simp_all add: conn_ok_def)
  obtain c where c: "loop_channel (the_loop s) ?ch = Some c" using loop.reg_obj [OF reg(2)] by blast
  obtain l' where "Channel_change f t ?ch (the_loop s) = Inr l'" "loop_ok t l'"
      "loop_channel l' ?ch = Some (f c)" "loop_registered l' ?ch"
    using loop_change_ok [OF reg assms(2)] c reg(2) by auto
  then show ?thesis
    using assms(1) c by (auto simp: conn_change_def conn_ok_def loop_ok_def)
qed

lemma conn_change_writing:
  assumes "conn_ok t s"
  shows "\<exists>s'. conn_change Channel_enableWriting t s = Inr s' \<and> conn_ok t s' \<and> writing s'
      \<and> fst s' = fst s \<and> el_threadId (the_loop s') = el_threadId (the_loop s)"
    and "\<exists>s'. conn_change Channel_disableWriting t s = Inr s' \<and> conn_ok t s' \<and> \<not> writing s'
      \<and> fst s' = fst s \<and> el_threadId (the_loop s') = el_threadId (the_loop s)"
    and "\<exists>s'. conn_change Channel_disableAll t s = Inr s' \<and> conn_ok t s' \<and> \<not> writing s'
      \<and> fst s' = fst s \<and> el_threadId (the_loop s') = el_threadId (the_loop s)"
proof -
  obtain c where "loop_channel (the_loop s) (cn_channel (the_conn s)) = Some c"
    using assms loop.reg_obj by (auto simp: conn_ok_def)
  then show "\<exists>s'. conn_change Channel_enableWriting t s = Inr s' \<and> conn_ok t s' \<and> writing s'
      \<and> fst s' = fst s \<and> el_threadId (the_loop s') = el_threadId (the_loop s)"
    and "\<exists>s'. conn_change Channel_disableWriting t s = Inr s' \<and> conn_ok t s' \<and> \<not> writing s'
      \<and> fst s' = fst s \<and> el_threadId (the_loop s') = el_threadId (the_loop s)"
    and "\<exists>s'. conn_change Channel_disableAll t s = Inr s' \<and> conn_ok t s' \<and> \<not> writing s'
      \<and> fst s' = fst s \<and> el_threadId (the_loop s') = el_threadId (the_loop s)"
    using conn_change_ok [OF assms events_only_ops(2)] conn_change_ok [OF assms events_only_ops(3)]
      conn_change_ok [OF assms events_only_ops(4)]
    by (auto simp: writing_def)
qed

lemma writing_upd: "cn_channel (f (the_conn s)) = cn_channel (the_conn s) \<Longrightarrow> writing (upd_conn f s) = writing s"
  by (simp add: writing_def upd_conn_def)

section \<open>Sending\<close>

definition answer_ok :: "nat option \<Rightarrow> nat \<Rightarrow> bool" where
  "answer_ok answer len \<longleftrightarrow> (case answer of None \<Rightarrow> True | Some n \<Rightarrow> n \<le> len)"

text \<open>The output buffer can take \<open>n\<close> more bytes; an empty one always can.\<close>

definition send_fits :: "'f conn_state \<Rightarrow> nat \<Rightarrow> bool" where
  "send_fits s n \<longleftrightarrow>
     (out_bytes s \<noteq> [] \<longrightarrow> append_fits (cn_outputBuffer (the_conn s)) n)
     \<and> length (buffer (cn_outputBuffer (the_conn s))) + n < 2 ^ 63"

lemma send_queued:
  assumes inv: "conn_inv t s" and w: "writing s" and fits: "send_fits s (length data)"
  shows "\<exists>s'. TcpConnection_sendInLoopThread t answer data s = Inr s' \<and> conn_inv t s'
    \<and> sent s' = sent s \<and> out_bytes s' = out_bytes s @ data \<and> fin_sent s' = fin_sent s \<and> same_peer s s'"
proof (cases "data = []")
  case True
  then show ?thesis
    using inv w conn_ok_isWriting [of t s] conn_ok_thread [of t s]
    by (auto simp: conn_inv_def TcpConnection_sendInLoopThread_def)
next
  case False
  have ok: "conn_ok t s" using inv by (simp add: conn_inv_def)
  obtain out where out: "HyBuffer_append (cn_outputBuffer (the_conn s)) data = Inr out" "buf_wf out"
      "contents out = out_bytes s @ data"
    using hybuf.app_accepts [of "cn_outputBuffer (the_conn s)" data] ok fits inv w
    by (auto simp: conn_inv_def conn_ok_def send_fits_def buf_accepts_def out_bytes_def)
  let ?s' = "upd_conn (\<lambda>c. c\<lparr>cn_outputBuffer := out\<rparr>) s"
  have "TcpConnection_sendInLoopThread t answer data s = Inr ?s'"
    using w False out(1) conn_ok_isWriting [OF ok] conn_ok_thread [OF ok]
    by (simp add: TcpConnection_sendInLoopThread_def range_string_def Prelude.slice_def)
  moreover have "conn_ok t ?s'" using ok out(2) by (simp add: conn_ok_def upd_conn_def)
  moreover have "writing ?s'" using w by (simp add: writing_upd)
  ultimately show ?thesis
    using inv out(3) False w by (auto simp: conn_inv_def same_peer_def conn_simps)
qed

lemma send_direct:
  assumes inv: "conn_inv t s" and w: "\<not> writing s" and fits: "send_fits s (length data)"
    and ans: "answer_ok answer (length data)" and st: "\<not> fin_sent s"
  defines "n \<equiv> (case answer of None \<Rightarrow> 0 | Some n \<Rightarrow> n)"
  shows "\<exists>s'. TcpConnection_sendInLoopThread t answer data s = Inr s' \<and> conn_inv t s'
    \<and> sent s' = sent s @ take n data \<and> out_bytes s' = drop n data \<and> \<not> fin_sent s' \<and> same_peer s s'"
proof -
  have ok: "conn_ok t s" and emp: "out_bytes s = []" using inv w by (simp_all add: conn_inv_def)
  let ?s1 = "upd_conn (kernel_accepts (take n data)) s"
  have ok1: "conn_ok t ?s1" using ok by (simp add: conn_ok_def conn_simps)
  have nle: "n \<le> length data" using ans by (auto simp: n_def answer_ok_def split: option.splits)
  have len: "length data < 2 ^ 63" using fits by (simp add: send_fits_def)
  have left: "(case answer of Some n \<Rightarrow> size_sub (length data) n | None \<Rightarrow> length data) = length data - n"
    using nle len by (auto simp: n_def cpp_simps split: option.splits)
  have run: "TcpConnection_sendInLoopThread t answer data s =
      (if n < length data then
         bind_result (HyBuffer_append (cn_outputBuffer (the_conn ?s1)) (drop n data)) (\<lambda>out.
         conn_change Channel_enableWriting t (upd_conn (\<lambda>c. c\<lparr>cn_outputBuffer := out\<rparr>) ?s1))
       else Inr ?s1)"
    using w emp conn_ok_isWriting [OF ok] conn_ok_thread [OF ok] conn_ok_readable [OF ok] nle left
    by (simp add: TcpConnection_sendInLoopThread_def range_string_def Prelude.slice_def n_def [symmetric]
        Let_def cong: if_cong)
  show ?thesis
  proof (cases "n < length data")
    case False
    moreover have "writing ?s1 = writing s" by (simp add: writing_upd kernel_accepts_def)
    ultimately show ?thesis
      using run nle ok1 w emp st
      by (auto simp: conn_inv_def same_peer_def conn_simps)
  next
    case True
    let ?out = "cn_outputBuffer (the_conn s)"
    have rw: "readerIndex ?out = writerIndex ?out" "buf_wf ?out"
      using emp ok length_contents [of ?out] by (auto simp: conn_ok_def out_bytes_def buf_wf_def)
    then have acc: "buf_accepts ?out (length (drop n data))"
      using fits append_fits_empty [OF rw(1)] by (auto simp: buf_accepts_def send_fits_def)
    obtain out where out: "HyBuffer_append ?out (drop n data) = Inr out" "buf_wf out"
        "contents out = drop n data"
      using hybuf.app_accepts [OF rw(2) acc] emp by (auto simp: out_bytes_def)
    let ?s2 = "upd_conn (\<lambda>c. c\<lparr>cn_outputBuffer := out\<rparr>) ?s1"
    have "conn_ok t ?s2" using ok out(2) by (simp add: conn_ok_def conn_simps)
    then obtain s' where s': "conn_change Channel_enableWriting t ?s2 = Inr s'" "conn_ok t s'" "writing s'"
        "fst s' = fst ?s2" "el_threadId (the_loop s') = el_threadId (the_loop ?s2)"
      using conn_change_writing(1) by blast
    have "TcpConnection_sendInLoopThread t answer data s = Inr s'"
      using run True out(1) s'(1) by (simp add: conn_simps)
    then show ?thesis
      using s'(2-5) out(3) True st by (auto simp: conn_inv_def same_peer_def conn_simps)
  qed
qed

text \<open>
  One lemma for both: whatever part of the data the kernel takes, the bytes handed to it followed by
  the bytes that wait are extended by exactly the data.
\<close>

lemma send_ok:
  assumes inv: "conn_inv t s" and fits: "send_fits s (length data)"
    and ans: "answer_ok answer (length data)" and st: "cn_state (the_conn s) = CONNECTED"
  shows "\<exists>s'. TcpConnection_sendInLoopThread t answer data s = Inr s' \<and> conn_inv t s'
    \<and> sent s' @ out_bytes s' = sent s @ out_bytes s @ data \<and> (\<exists>x. sent s' = sent s @ x)
    \<and> fin_sent s' = fin_sent s \<and> same_peer s s'"
proof (cases "writing s")
  case True
  then show ?thesis using send_queued [OF inv True fits, of answer] by auto
next
  case False
  moreover have "\<not> fin_sent s" "out_bytes s = []" using inv st False by (auto simp: conn_inv_def)
  ultimately show ?thesis using send_direct [OF inv False fits ans] by auto
qed

lemma send_in_loop:
  assumes "conn_inv t s" and "cn_state (the_conn s) = CONNECTED"
  shows "TcpConnection_send t answer data s = TcpConnection_sendInLoopThread t answer data s"
  using assms conn_ok_inLoop [of t s] by (simp add: TcpConnection_send_def conn_inv_def)

section \<open>Writing what waits\<close>

lemma payload_range:
  assumes wf: "buf_wf b"
  shows "range_string (buffer b) (HyBuffer_payload b)
      (size_add (HyBuffer_payload b) (HyBuffer_readableBytes b)) = Inr (contents b)"
proof -
  have "size_add (readerIndex b) (HyBuffer_readableBytes b) = writerIndex b"
    using wf readableBytes_wf [OF wf] by (simp add: cpp_simps buf_wf_def)
  then show ?thesis
    using wf by (simp add: HyBuffer_payload_def contents_def range_string_def buf_wf_def)
qed

lemma writeHandler_payload:
  assumes "conn_ok t s"
  shows "range_string (buffer (cn_outputBuffer (the_conn s))) (HyBuffer_payload (cn_outputBuffer (the_conn s)))
      (size_add (HyBuffer_payload (cn_outputBuffer (the_conn s)))
         (HyBuffer_readableBytes (cn_outputBuffer (the_conn s)))) = Inr (out_bytes s)"
  using assms payload_range by (simp add: conn_ok_def out_bytes_def)

lemma shutdown_when_idle:
  assumes "conn_ok t s" "\<not> writing s"
  shows "TcpConnection_shutdownInLoopThread t s =
    Inr (upd_conn (\<lambda>c. c\<lparr>cn_socket := (cn_socket c)\<lparr>sk_shutdownWrite := True\<rparr>\<rparr>) s)"
  using assms conn_ok_thread [OF assms(1)] conn_ok_isWriting [OF assms(1)]
  by (simp add: TcpConnection_shutdownInLoopThread_def)

lemma writeHandler_some:
  assumes inv: "conn_inv t s" and w: "out_bytes s \<noteq> []" and n: "0 < n" "n \<le> length (out_bytes s)"
  shows "\<exists>s'. TcpConnection_writeHandler t (Some n) s = Inr s' \<and> conn_inv t s'
    \<and> sent s' = sent s @ take n (out_bytes s) \<and> out_bytes s' = drop n (out_bytes s) \<and> same_peer s s'
    \<and> fin_sent s' = (n = length (out_bytes s) \<and> cn_state (the_conn s) = DISCONNECTING)"
proof -
  have ok: "conn_ok t s" and wr: "writing s" and fin: "\<not> fin_sent s"
    using inv w by (auto simp: conn_inv_def)
  let ?out = "HyBuffer_clear (cn_outputBuffer (the_conn s)) n"
  let ?s1 = "upd_conn (\<lambda>c. (kernel_accepts (take n (out_bytes s)) c)\<lparr>cn_outputBuffer := ?out\<rparr>) s"
  have c: "buf_wf ?out" "contents ?out = drop n (out_bytes s)"
    using hybuf.wf_clear hybuf.bytes_clear ok n by (auto simp: conn_ok_def out_bytes_def)
  have ok1: "conn_ok t ?s1" using ok c(1) by (simp add: conn_ok_def conn_simps)
  have wr1: "writing ?s1" using wr by (simp add: writing_upd kernel_accepts_def)
  have rd: "HyBuffer_readableBytes ?out = length (out_bytes s) - n"
    using readableBytes_wf [OF c(1)] length_contents [OF c(1)] c(2) by simp
  have run: "TcpConnection_writeHandler t (Some n) s =
      (if n = length (out_bytes s) then
         bind_result (conn_change Channel_disableWriting t ?s1) (\<lambda>s.
         if cn_state (the_conn s) = DISCONNECTING then TcpConnection_shutdownInLoopThread t s else Inr s)
       else Inr ?s1)"
    using wr n rd conn_ok_thread [OF ok] conn_ok_isWriting [OF ok] writeHandler_payload [OF ok]
    by (simp add: TcpConnection_writeHandler_def Let_def)
  show ?thesis
  proof (cases "n = length (out_bytes s)")
    case False
    then show ?thesis
      using run ok1 wr1 c(2) n fin by (auto simp: conn_inv_def same_peer_def conn_simps)
  next
    case True
    obtain s2 where s2: "conn_change Channel_disableWriting t ?s1 = Inr s2" "conn_ok t s2" "\<not> writing s2"
        "fst s2 = fst ?s1" "el_threadId (the_loop s2) = el_threadId (the_loop ?s1)"
      using conn_change_writing(2) [OF ok1] by blast
    let ?s3 = "upd_conn (\<lambda>c. c\<lparr>cn_socket := (cn_socket c)\<lparr>sk_shutdownWrite := True\<rparr>\<rparr>) s2"
    have "conn_ok t ?s3" "\<not> writing ?s3"
      using s2(2,3) by (simp_all add: conn_ok_def writing_def upd_conn_def)
    then show ?thesis
      using run True s2 shutdown_when_idle [OF s2(2,3)] c(2) fin
      by (cases "cn_state (the_conn s) = DISCONNECTING")
        (auto simp: conn_inv_def same_peer_def conn_simps)
  qed
qed

lemma writeHandler_none:
  assumes inv: "conn_inv t s" and "answer = None \<or> answer = Some 0 \<or> out_bytes s = []"
  shows "TcpConnection_writeHandler t answer s = Inr s"
proof -
  have ok: "conn_ok t s" "writing s \<longleftrightarrow> out_bytes s \<noteq> []" using inv by (simp_all add: conn_inv_def)
  then show ?thesis
    using assms(2) conn_ok_thread [OF ok(1)] conn_ok_isWriting [OF ok(1)] writeHandler_payload [OF ok(1)]
    by (auto simp: TcpConnection_writeHandler_def Let_def)
qed

lemma shutdown_ok:
  assumes inv: "conn_inv t s" and st: "cn_state (the_conn s) = CONNECTED"
  shows "\<exists>s'. TcpConnection_shutdown t s = Inr s' \<and> conn_inv t s' \<and> sent s' = sent s
    \<and> out_bytes s' = out_bytes s \<and> cn_state (the_conn s') = DISCONNECTING
    \<and> fin_sent s' = (out_bytes s = [])
    \<and> cn_inputBuffer (the_conn s') = cn_inputBuffer (the_conn s)
    \<and> cn_context (the_conn s') = cn_context (the_conn s) \<and> en_buffers (fst s') = en_buffers (fst s)"
proof -
  let ?s1 = "upd_conn (TcpConnection_setState DISCONNECTING) s"
  have ok: "conn_ok t ?s1" and wr: "writing ?s1 = writing s"
    using inv by (simp_all add: conn_inv_def conn_ok_def TcpConnection_setState_def upd_conn_def writing_def)
  have run: "TcpConnection_shutdown t s = TcpConnection_shutdownInLoopThread t ?s1"
    using st conn_ok_inLoop [OF ok]
    by (simp add: TcpConnection_shutdown_def EventLoop_runInLoopThread_def run_conn_task_def)
  have nofin: "\<not> fin_sent s" using inv st by (auto simp: conn_inv_def)
  show ?thesis
  proof (cases "writing s")
    case True
    then have "TcpConnection_shutdown t s = Inr ?s1"
      using run wr conn_ok_thread [OF ok] conn_ok_isWriting [OF ok]
      by (simp add: TcpConnection_shutdownInLoopThread_def)
    then show ?thesis
      using True ok wr inv nofin by (auto simp: conn_inv_def conn_simps TcpConnection_setState_def)
  next
    case False
    let ?s2 = "upd_conn (\<lambda>c. c\<lparr>cn_socket := (cn_socket c)\<lparr>sk_shutdownWrite := True\<rparr>\<rparr>) ?s1"
    have "TcpConnection_shutdown t s = Inr ?s2" using run wr False shutdown_when_idle [OF ok] by simp
    moreover have "conn_ok t ?s2" "\<not> writing ?s2"
      using ok wr False by (simp_all add: conn_ok_def writing_def upd_conn_def)
    ultimately show ?thesis
      using False inv by (auto simp: conn_inv_def conn_simps TcpConnection_setState_def)
  qed
qed

section \<open>The life of an established connection\<close>

text \<open>
  The events of an open connection in its loop's thread: bytes or a failure are read (what the message
  callback then sends are steps of their own), a message is sent, the socket is writable, the connection
  is shut down. \<open>cs_accepted\<close> records the bytes \<open>send\<close> took responsibility for. A \<open>send\<close> that writes
  past the end of the output buffer ends the run, and so does the event that closes the connection.
\<close>

record conn_run =
  cs_state :: "conn_task conn_state"
  cs_accepted :: string

inductive conn_step :: "nat \<Rightarrow> conn_run \<Rightarrow> conn_run \<Rightarrow> bool" for t where
  step_read: "answer \<noteq> Some [] \<Longrightarrow>
    TcpConnection_connectionHandler t answer now (Some (\<lambda>_. Inr)) None (cs_state r) = Inr s' \<Longrightarrow>
    conn_step t r (r\<lparr>cs_state := s'\<rparr>)"
| step_send: "answer_ok answer (length data) \<Longrightarrow>
    length (buffer (cn_outputBuffer (the_conn (cs_state r)))) + length data < 2 ^ 63 \<Longrightarrow>
    TcpConnection_send t answer data (cs_state r) = Inr s' \<Longrightarrow>
    conn_step t r \<lparr>cs_state = s', cs_accepted = cs_accepted r @
      (if cn_state (the_conn (cs_state r)) = CONNECTED then data else [])\<rparr>"
| step_write: "answer_ok answer (length (out_bytes (cs_state r))) \<Longrightarrow>
    TcpConnection_writeHandler t answer (cs_state r) = Inr s' \<Longrightarrow>
    conn_step t r (r\<lparr>cs_state := s'\<rparr>)"
| step_shutdown: "TcpConnection_shutdown t (cs_state r) = Inr s' \<Longrightarrow>
    conn_step t r (r\<lparr>cs_state := s'\<rparr>)"

inductive_cases conn_stepE: "conn_step t r r'"

definition conn_start :: "nat \<Rightarrow> conn_run \<Rightarrow> bool" where
  "conn_start t r \<longleftrightarrow> conn_inv t (cs_state r) \<and> sent (cs_state r) = [] \<and> out_bytes (cs_state r) = []
     \<and> cs_accepted r = []"

definition conn_run_inv :: "nat \<Rightarrow> conn_run \<Rightarrow> bool" where
  "conn_run_inv t r \<longleftrightarrow> conn_inv t (cs_state r)
     \<and> sent (cs_state r) @ out_bytes (cs_state r) = cs_accepted r"

lemma kernel_accepts_nothing: "upd_conn (kernel_accepts []) s = s"
proof -
  have "kernel_accepts [] c = c" for c
    by (cases c, cases "cn_socket c") (simp add: kernel_accepts_def)
  then show ?thesis by (simp add: upd_conn_def)
qed

lemma send_nothing:
  assumes "conn_inv t s"
  shows "TcpConnection_sendInLoopThread t answer [] s = Inr s"
proof -
  have ok: "conn_ok t s" using assms by (simp add: conn_inv_def)
  show ?thesis
    using conn_ok_isWriting [OF ok] conn_ok_thread [OF ok]
    by (simp add: TcpConnection_sendInLoopThread_def kernel_accepts_nothing Let_def)
qed

lemma send_overrun:
  assumes inv: "conn_inv t s" and st: "cn_state (the_conn s) = CONNECTED" and d: "data \<noteq> []"
    and len: "length (buffer (cn_outputBuffer (the_conn s))) + length data < 2 ^ 63"
    and no: "\<not> (out_bytes s = [] \<or> append_fits (cn_outputBuffer (the_conn s)) (length data))"
  shows "TcpConnection_send t answer data s = Inl OutOfBounds"
proof -
  have ok: "conn_ok t s" "writing s" using inv no by (auto simp: conn_inv_def)
  then have "HyBuffer_append (cn_outputBuffer (the_conn s)) data = Inl OutOfBounds"
    using append_outcome [of "cn_outputBuffer (the_conn s)" data] len no by (simp add: conn_ok_def)
  then have "TcpConnection_sendInLoopThread t answer data s = Inl OutOfBounds"
    using d ok(2) conn_ok_isWriting [OF ok(1)] conn_ok_thread [OF ok(1)]
    by (simp add: TcpConnection_sendInLoopThread_def range_string_def Prelude.slice_def)
  then show ?thesis using send_in_loop [OF inv st] by simp
qed

text \<open>A \<open>send\<close> that returns has stayed in the output buffer.\<close>

lemma send_returned:
  assumes "conn_inv t s" and "cn_state (the_conn s) = CONNECTED"
    and "length (buffer (cn_outputBuffer (the_conn s))) + length data < 2 ^ 63"
    and "TcpConnection_send t answer data s = Inr s'" and "data \<noteq> []"
  shows "send_fits s (length data)"
  using send_overrun [OF assms(1,2,5,3)] assms(3,4) by (fastforce simp: send_fits_def)

lemma conn_run_send:
  assumes inv: "conn_run_inv t r" and ans: "answer_ok answer (length data)"
    and len: "length (buffer (cn_outputBuffer (the_conn (cs_state r)))) + length data < 2 ^ 63"
    and run: "TcpConnection_send t answer data (cs_state r) = Inr s'"
  shows "conn_run_inv t \<lparr>cs_state = s', cs_accepted = cs_accepted r @
      (if cn_state (the_conn (cs_state r)) = CONNECTED then data else [])\<rparr>"
proof (cases "cn_state (the_conn (cs_state r)) = CONNECTED")
  case True
  have i: "conn_inv t (cs_state r)" using inv by (simp add: conn_run_inv_def)
  show ?thesis
  proof (cases "data = []")
    case empty: True
    then show ?thesis using send_nothing [OF i] send_in_loop [OF i True] run inv by (simp add: conn_run_inv_def)
  next
    case False
    have fits: "send_fits (cs_state r) (length data)" using send_returned [OF i True len run False] .
    show ?thesis
      using send_ok [OF i fits ans True] send_in_loop [OF i True] run inv True
      by (auto simp: conn_run_inv_def)
  qed
next
  case False
  then show ?thesis using run inv by (simp add: TcpConnection_send_def conn_run_inv_def)
qed

lemma conn_run_read:
  assumes inv: "conn_run_inv t r"
    and run: "TcpConnection_connectionHandler t answer now (Some (\<lambda>_. Inr)) None (cs_state r) = Inr s'"
  shows "conn_run_inv t (r\<lparr>cs_state := s'\<rparr>)"
proof -
  obtain b where s': "s' = upd_conn (\<lambda>c. c\<lparr>cn_inputBuffer := b\<rparr>) (cs_state r)"
    using run by (auto simp: TcpConnection_connectionHandler_def TcpConnection_closeHandler_def
        TcpConnection_errorHandler_def bind_result_eq_Inr Let_def split: if_splits)
  have "writing s' = writing (cs_state r)" unfolding s' by (simp add: writing_upd)
  then show ?thesis
    using inv unfolding s' by (simp add: conn_run_inv_def conn_inv_def conn_ok_def conn_simps)
qed

lemma conn_run_write:
  assumes inv: "conn_run_inv t r" and ans: "answer_ok answer (length (out_bytes (cs_state r)))"
    and run: "TcpConnection_writeHandler t answer (cs_state r) = Inr s'"
  shows "conn_run_inv t (r\<lparr>cs_state := s'\<rparr>)"
proof -
  have i: "conn_inv t (cs_state r)" using inv by (simp add: conn_run_inv_def)
  show ?thesis
  proof (cases "answer = None \<or> answer = Some 0 \<or> out_bytes (cs_state r) = []")
    case True
    then show ?thesis using writeHandler_none [OF i] run inv by (simp add: conn_run_inv_def)
  next
    case False
    then obtain n where n: "answer = Some n" "0 < n" "n \<le> length (out_bytes (cs_state r))"
      using ans by (cases answer) (auto simp: answer_ok_def)
    then show ?thesis
      using writeHandler_some [OF i _ n(2,3)] False run inv by (auto simp: conn_run_inv_def)
  qed
qed

lemma conn_run_shutdown:
  assumes inv: "conn_run_inv t r" and run: "TcpConnection_shutdown t (cs_state r) = Inr s'"
  shows "conn_run_inv t (r\<lparr>cs_state := s'\<rparr>)"
proof (cases "cn_state (the_conn (cs_state r)) = CONNECTED")
  case True
  have i: "conn_inv t (cs_state r)" using inv by (simp add: conn_run_inv_def)
  then show ?thesis using shutdown_ok [OF i True] run inv by (auto simp: conn_run_inv_def)
next
  case False
  then show ?thesis using run inv by (simp add: TcpConnection_shutdown_def conn_run_inv_def)
qed

lemma conn_run_step: "conn_run_inv t r \<Longrightarrow> conn_step t r r' \<Longrightarrow> conn_run_inv t r'"
  by (elim conn_stepE; hypsubst)
    (rule conn_run_read conn_run_send [simplified] conn_run_write conn_run_shutdown; assumption)+

lemma conn_run_start: "conn_start t r \<Longrightarrow> conn_run_inv t r"
  by (simp add: conn_start_def conn_run_inv_def)

interpretation conn: step_invariant "conn_start t" "conn_step t" "conn_run_inv t" for t
  by unfold_locales (fact conn_run_start, fact conn_run_step)

section \<open>Establishing and destroying\<close>

lemma establish_ok:
  assumes l: "loop_ok t l" and ch: "loop_channel l ch = Some c" "ch_index c < 0" "0 \<le> ch_fd c"
      "ch_loop c = el_this l" "\<not> Channel_isWriting c"
    and free: "po_channels (el_poller l) (ch_fd c) = None"
    and room: "length (po_fds (el_poller l)) + 1 < 2 ^ 31"
    and env: "en_conn e = TcpConnection_new name fd ch"
  shows "\<exists>s. TcpConnection_establishConnection t Inr (e, l) = Inr s \<and> conn_inv t s
    \<and> fst s = e\<lparr>en_conn := (en_conn e)\<lparr>cn_state := CONNECTED\<rparr>\<rparr> \<and> sent s = [] \<and> out_bytes s = []"
proof -
  have c: "po_objs (el_poller l) ch = Some c" using ch(1) by (simp add: loop_channel_def)
  have th: "el_threadId l = t" "po_thread (el_poller l) = t" "poller_inv (el_poller l)"
    using l by (simp_all add: loop_ok_def)
  have "0 \<noteq> ch_events (Channel_enableReading c) AND READEVENT"
    by (simp add: Channel_enableReading_def bit.conj_disj_distrib2 READEVENT_def poll_defs)
  then have busy: "ch_events (Channel_enableReading c) \<noteq> 0" by auto
  obtain p where p: "channel_change Channel_enableReading t ch (el_poller l) = Inr p" "poller_inv p"
      "po_thread p = t" "registered p ch" "po_channels p = (po_channels (el_poller l))(ch_fd c \<mapsto> ch)"
    using channel_change_new [OF th(3) c ch(2,3) free room events_only_ops(1) busy] th(2) by auto
  have obj: "\<exists>i. po_objs p ch = Some (Channel_set_index (Channel_enableReading c) i)"
    using p(1) c ch(2) free th(2)
    by (auto simp: channel_change_def Poller_updateChannel_def Poller_addNew_def
        Channel_enableReading_def Let_def)
  let ?e = "e\<lparr>en_conn := (en_conn e)\<lparr>cn_state := CONNECTED\<rparr>\<rparr>" and ?l = "l\<lparr>el_poller := p\<rparr>"
  have "Channel_change Channel_enableReading t ch l = Inr ?l"
    using p(1) c ch(4) th(1)
    by (simp add: Channel_change_def channel_change_def EventLoop_updateChannel_def
        EventLoop_assertInLoopThread_def EventLoop_isInLoopThread_def Channel_enableReading_def)
  then have run: "TcpConnection_establishConnection t Inr (e, l) = Inr (?e, ?l)"
    using env th(1) by (simp add: TcpConnection_establishConnection_def conn_change_def upd_conn_def
        TcpConnection_setState_def TcpConnection_new_def EventLoop_assertInLoopThread_def
        EventLoop_isInLoopThread_def)
  have wr: "\<not> writing (?e, ?l)"
    using obj env ch(5) isWriting_enableReading [of c]
    by (auto simp: writing_def loop_channel_def TcpConnection_new_def Channel_set_index_def
        Channel_isWriting_def)
  have "loop_registered ?l ch"
    using p(4) obj ch(4) by (auto simp: loop_registered_def Channel_set_index_def Channel_enableReading_def)
  then have "conn_ok t (?e, ?l)"
    using p env th by (simp add: conn_ok_def loop_ok_def TcpConnection_new_def)
  then show ?thesis
    using run wr env by (auto simp: conn_inv_def conn_simps TcpConnection_new_def)
qed

lemma destroy_ok:
  assumes ok: "conn_ok t s"
    and st: "cn_state (the_conn s) = CONNECTED \<or> cn_state (the_conn s) = DISCONNECTING"
  shows "\<exists>s'. TcpConnection_destroyConnection t Inr s = Inr s'
    \<and> cn_state (the_conn s') = DISCONNECTED \<and> loop_ok t (the_loop s')
    \<and> \<not> loop_registered (the_loop s') (cn_channel (the_conn s'))"
proof -
  let ?ch = "cn_channel (the_conn s)"
  let ?e = "(fst s)\<lparr>en_conn := (the_conn s)\<lparr>cn_state := DISCONNECTED\<rparr>\<rparr>"
  have reg: "loop_ok t (the_loop s)" "loop_registered (the_loop s) ?ch"
    using ok by (simp_all add: conn_ok_def)
  obtain l1 l2 where "Channel_change Channel_disableAll t ?ch (the_loop s) = Inr l1"
      "EventLoop_removeChannel t ?ch l1 = Inr l2" "loop_ok t l2" "\<not> loop_registered l2 ?ch"
    using loop.disable_then_remove [OF reg] by blast
  then have "TcpConnection_destroyConnection t Inr s = Inr (?e, l2)"
    using st conn_ok_thread [OF ok]
    by (auto simp: TcpConnection_destroyConnection_def conn_change_def upd_conn_def TcpConnection_setState_def)
  then show ?thesis using \<open>loop_ok t l2\<close> \<open>\<not> loop_registered l2 ?ch\<close> by auto
qed

section \<open>Properties\<close>

text \<open>
  Destroying an established connection, with a connection callback that leaves it alone, fails no
  assertion of the poller, takes its channel out of the loop and leaves the loop in order.
\<close>

theorem destroyConnection_unregisters:
  assumes "conn_ok t s"
    and "cn_state (the_conn s) = CONNECTED \<or> cn_state (the_conn s) = DISCONNECTING"
  shows "\<exists>s'. TcpConnection_destroyConnection t Inr s = Inr s'
    \<and> cn_state (the_conn s') = DISCONNECTED \<and> loop_ok t (the_loop s')
    \<and> \<not> loop_registered (the_loop s') (cn_channel (the_conn s'))"
  using assms by (rule destroy_ok)

text \<open>
  C25. While a connection is open, over any sequence of read events, sends, writable events and shutdowns
  in its loop's thread that return, with any legal answers of the kernel, no byte is lost, repeated or
  reordered: the bytes the kernel has accepted followed by those that wait in the output buffer are
  exactly the bytes passed to \<open>send\<close> while connected. Write events are asked for exactly while bytes
  wait, and the FIN is sent only when all of them have gone out. Closing the connection, after which
  bytes may wait without write events, and sends from other threads, which the program does not have
  since its loop is the only one, are not among the steps.
\<close>

theorem bytes_in_order:
  assumes "reachable (conn_start t) (conn_step t) r"
  shows "sent (cs_state r) @ out_bytes (cs_state r) = cs_accepted r
    \<and> (writing (cs_state r) \<longleftrightarrow> out_bytes (cs_state r) \<noteq> [])
    \<and> (fin_sent (cs_state r) \<longrightarrow> sent (cs_state r) = cs_accepted r
        \<and> cn_state (the_conn (cs_state r)) \<noteq> CONNECTED)"
  using conn.reachable_inv [OF assms] by (auto simp: conn_run_inv_def conn_inv_def)

text \<open>
  \<open>send\<close> in the loop's thread of a connected connection, for every legal answer of the kernel:
  it succeeds when nothing waits or the waiting bytes leave room for the message, and keeps the
  order of the bytes; when bytes wait and \<open>append_fits\<close> does not hold, the message is copied past the
  end of the output buffer.
\<close>

theorem send_exact:
  assumes "conn_inv t s" and "cn_state (the_conn s) = CONNECTED"
    and "answer_ok answer (length data)" and "data \<noteq> []"
    and "length (buffer (cn_outputBuffer (the_conn s))) + length data < 2 ^ 63"
  shows "if out_bytes s = [] \<or> append_fits (cn_outputBuffer (the_conn s)) (length data)
    then \<exists>s'. TcpConnection_send t answer data s = Inr s' \<and> conn_inv t s'
      \<and> sent s' @ out_bytes s' = sent s @ out_bytes s @ data \<and> same_peer s s'
    else TcpConnection_send t answer data s = Inl OutOfBounds"
proof (cases "out_bytes s = [] \<or> append_fits (cn_outputBuffer (the_conn s)) (length data)")
  case True
  then have "send_fits s (length data)" using assms(5) by (auto simp: send_fits_def)
  then show ?thesis using True send_ok [OF assms(1) _ assms(3,2)] send_in_loop [OF assms(1,2)] by auto
next
  case False
  then show ?thesis using send_overrun [OF assms(1,2,4,5)] by auto
qed

text \<open>
  When the socket accepts \<open>n > 0\<close> bytes, \<open>writeHandler\<close> moves exactly these from the front of the
  output buffer to the wire, and when none is left it stops asking for write events and, if the
  connection is being shut down, sends the FIN.
\<close>

theorem writeHandler_drains:
  assumes "conn_inv t s" and "0 < n" and "n \<le> length (out_bytes s)"
  shows "\<exists>s'. TcpConnection_writeHandler t (Some n) s = Inr s' \<and> conn_inv t s'
    \<and> sent s' = sent s @ take n (out_bytes s) \<and> out_bytes s' = drop n (out_bytes s)
    \<and> (writing s' \<longleftrightarrow> n < length (out_bytes s))
    \<and> (fin_sent s' \<longleftrightarrow> n = length (out_bytes s) \<and> cn_state (the_conn s) = DISCONNECTING)"
proof -
  have "out_bytes s \<noteq> []" using assms(2,3) by auto
  then show ?thesis using writeHandler_some [OF assms(1) _ assms(2,3)] by (auto simp: conn_inv_def)
qed

section \<open>Examples\<close>

definition demo_loop :: "conn_task EventLoop" where
  "demo_loop = \<lparr>el_this = 0, el_threadId = 0, el_looping = False, el_quit = False,
     el_processingFunctors = False, el_pollReturnTime = Timestamp 0,
     el_poller = Poller_new 0 [1 \<mapsto> Channel_new 0 5 False], el_activeChannels = [], el_wakenfd = 0,
     el_unprocessedFunctors = []\<rparr>"

definition demo_env :: conn_env where
  "demo_env = \<lparr>en_conn = TcpConnection_new ''c'' 5 1, en_buffers = Map.empty\<rparr>"

lemma demo_established:
  "\<exists>s. TcpConnection_establishConnection 0 Inr (demo_env, demo_loop) = Inr s \<and> conn_inv 0 s
    \<and> fst s = demo_env\<lparr>en_conn := (en_conn demo_env)\<lparr>cn_state := CONNECTED\<rparr>\<rparr>
    \<and> sent s = [] \<and> out_bytes s = []"
proof (rule establish_ok)
  show "loop_ok 0 demo_loop"
    using poller_inv_new by (auto simp: loop_ok_def demo_loop_def) (simp add: Poller_new_def)
  show "loop_channel demo_loop 1 = Some (Channel_new 0 5 False)"
    by (simp add: loop_channel_def demo_loop_def Poller_new_def)
qed (simp_all add: Channel_new_def Channel_isWriting_def demo_loop_def demo_env_def Poller_new_def)

lemma demo_fits: "fst s = demo_env\<lparr>en_conn := (en_conn demo_env)\<lparr>cn_state := CONNECTED\<rparr>\<rparr> \<Longrightarrow>
    cn_state (the_conn s) = CONNECTED \<and> cn_outputBuffer (the_conn s) = HyBuffer_new"
  by (simp add: demo_env_def TcpConnection_new_def)

theorem bytes_in_order_witness:
  "\<exists>s s'. TcpConnection_establishConnection 0 Inr (demo_env, demo_loop) = Inr s
    \<and> TcpConnection_send 0 (Some 2) ''hello'' s = Inr s' \<and> sent s' @ out_bytes s' = ''hello''"
proof -
  obtain s where s: "TcpConnection_establishConnection 0 Inr (demo_env, demo_loop) = Inr s" "conn_inv 0 s"
      "fst s = demo_env\<lparr>en_conn := (en_conn demo_env)\<lparr>cn_state := CONNECTED\<rparr>\<rparr>" "sent s = []" "out_bytes s = []"
    using demo_established by blast
  have st: "cn_state (the_conn s) = CONNECTED" and new: "cn_outputBuffer (the_conn s) = HyBuffer_new"
    using demo_fits [OF s(3)] by simp_all
  have fits: "send_fits s (length ''hello'')"
    using s(5) new by (simp add: send_fits_def HyBuffer_new_def PREPENDABLEBYTES_def INITIALSIZE_def)
  have ans: "answer_ok (Some 2) (length ''hello'')" by (simp add: answer_ok_def)
  obtain s' where s': "TcpConnection_send 0 (Some 2) ''hello'' s = Inr s'"
    using send_ok [OF s(2) fits ans st] send_in_loop [OF s(2) st] by auto
  let ?r = "\<lparr>cs_state = s, cs_accepted = []\<rparr>"
  have "reachable (conn_start 0) (conn_step 0) ?r"
    using s by (intro reachable_start) (simp add: conn_start_def)
  moreover have "conn_step 0 ?r \<lparr>cs_state = s', cs_accepted = cs_accepted ?r @
      (if cn_state (the_conn (cs_state ?r)) = CONNECTED then ''hello'' else [])\<rparr>"
    using ans fits s' by (intro step_send) (simp_all add: send_fits_def)
  ultimately have "reachable (conn_start 0) (conn_step 0) \<lparr>cs_state = s', cs_accepted = cs_accepted ?r @
      (if cn_state (the_conn (cs_state ?r)) = CONNECTED then ''hello'' else [])\<rparr>"
    by (rule reachable_step)
  from bytes_in_order [OF this] have "sent s' @ out_bytes s' = ''hello''" using st by simp
  then show ?thesis using s(1) s' by blast
qed

theorem send_exact_witness:
  "\<exists>s s'. TcpConnection_establishConnection 0 Inr (demo_env, demo_loop) = Inr s
    \<and> TcpConnection_send 0 None ''hi'' s = Inr s' \<and> sent s' @ out_bytes s' = ''hi''"
proof -
  obtain s where s: "TcpConnection_establishConnection 0 Inr (demo_env, demo_loop) = Inr s" "conn_inv 0 s"
      "fst s = demo_env\<lparr>en_conn := (en_conn demo_env)\<lparr>cn_state := CONNECTED\<rparr>\<rparr>" "sent s = []" "out_bytes s = []"
    using demo_established by blast
  have "length (buffer (cn_outputBuffer (the_conn s))) + length ''hi'' < 2 ^ 63"
    using demo_fits [OF s(3)] by (simp add: HyBuffer_new_def PREPENDABLEBYTES_def INITIALSIZE_def)
  then have "\<exists>s'. TcpConnection_send 0 None ''hi'' s = Inr s' \<and> sent s' @ out_bytes s' = ''hi''"
    using send_exact [OF s(2), of None "''hi''"] demo_fits [OF s(3)] s(4,5) by (auto simp: answer_ok_def)
  then show ?thesis using s(1) by blast
qed

theorem writeHandler_drains_witness:
  "\<exists>s s' s''. TcpConnection_establishConnection 0 Inr (demo_env, demo_loop) = Inr s
    \<and> TcpConnection_send 0 (Some 2) ''hello'' s = Inr s'
    \<and> TcpConnection_writeHandler 0 (Some 3) s' = Inr s'' \<and> sent s'' = ''hello'' \<and> \<not> writing s''"
proof -
  obtain s where s: "TcpConnection_establishConnection 0 Inr (demo_env, demo_loop) = Inr s" "conn_inv 0 s"
      "fst s = demo_env\<lparr>en_conn := (en_conn demo_env)\<lparr>cn_state := CONNECTED\<rparr>\<rparr>" "sent s = []" "out_bytes s = []"
    using demo_established by blast
  have w: "\<not> writing s" "\<not> fin_sent s" using s(2,5) demo_fits [OF s(3)] by (auto simp: conn_inv_def)
  have fits: "send_fits s (length ''hello'')"
    using s(5) demo_fits [OF s(3)]
    by (simp add: send_fits_def HyBuffer_new_def PREPENDABLEBYTES_def INITIALSIZE_def)
  obtain s' where s': "TcpConnection_sendInLoopThread 0 (Some 2) ''hello'' s = Inr s'" "conn_inv 0 s'"
      "sent s' = ''he''" "out_bytes s' = ''llo''"
    using send_direct [OF s(2) w(1) fits _ w(2), of "Some 2"] s(4) by (auto simp: answer_ok_def)
  then have "TcpConnection_send 0 (Some 2) ''hello'' s = Inr s'"
    using send_in_loop [OF s(2)] demo_fits [OF s(3)] by simp
  moreover obtain s'' where "TcpConnection_writeHandler 0 (Some 3) s' = Inr s''" "sent s'' = ''hello''"
      "\<not> writing s''"
    using writeHandler_drains [OF s'(2), of 3] s'(3,4) by auto
  ultimately show ?thesis using s(1) by blast
qed

theorem destroyConnection_unregisters_witness:
  "\<exists>s s'. TcpConnection_establishConnection 0 Inr (demo_env, demo_loop) = Inr s
    \<and> TcpConnection_destroyConnection 0 Inr s = Inr s' \<and> cn_state (the_conn s') = DISCONNECTED"
proof -
  obtain s where s: "TcpConnection_establishConnection 0 Inr (demo_env, demo_loop) = Inr s" "conn_inv 0 s"
      "fst s = demo_env\<lparr>en_conn := (en_conn demo_env)\<lparr>cn_state := CONNECTED\<rparr>\<rparr>"
    using demo_established by blast
  have "conn_ok 0 s" using s(2) by (simp add: conn_inv_def)
  then show ?thesis
    using destroyConnection_unregisters [of 0 s] demo_fits [OF s(3)] s(1) by blast
qed

end
