(* ===== verification/HttpServer.thy ===== *)
theory HttpServer
  imports TcpConnection HttpResponse HttpParserProps
begin

text \<open>
  \<^verbatim>\<open>include/network/http/HttpServer.hpp\<close> and \<^verbatim>\<open>src/HttpServer.cpp\<close>: the callbacks that turn the bytes
  of a connection into requests and the answers of the application into bytes. The application's
  callback is an argument. The local buffer of \<open>processRequest\<close> lives at an address that is free
  during the call. A call of \<open>parseRequest\<close> that does not return makes \<open>onMessage\<close> not return.
\<close>

section \<open>Operations\<close>

definition HttpServer_onConnection :: "'f conn_state \<Rightarrow> 'f conn_state result" where
  "HttpServer_onConnection s =
     (if TcpConnection_connected (the_conn s)
      then Inr (upd_conn (TcpConnection_setContext HttpContext_new) s) else Inr s)"

definition closes_connection :: "HttpRequest \<Rightarrow> bool" where
  "closes_connection request \<longleftrightarrow>
     (let connection = HttpRequest_getHeader request ''Connection'' in
      connection = ''closed''
      \<or> (req_version request = HTTP10 \<and> connection \<noteq> ''keep-alive''))"

definition HttpServer_processRequest ::
  "(HttpRequest \<Rightarrow> HttpResponse \<Rightarrow> HttpResponse) \<Rightarrow> nat \<Rightarrow> nat option \<Rightarrow> nat
    \<Rightarrow> HttpRequest \<Rightarrow> conn_task conn_state \<Rightarrow> conn_task conn_state result" where
  "HttpServer_processRequest httpCallback me answer addr request s =
     (let response = httpCallback request (HttpResponse_new (closes_connection request)) in
      bind_result (HttpResponse_appendToBuffer response HyBuffer_new) (\<lambda>buf.
      bind_result (TcpConnection_sendBuffer me answer addr
          ((fst s)\<lparr>en_buffers := (en_buffers (fst s))(addr \<mapsto> buf)\<rparr>, snd s)) (\<lambda>s.
      bind_result
        (if HttpResponse_nonPersistent response then TcpConnection_shutdown me s else Inr s) (\<lambda>s.
      Inr ((fst s)\<lparr>en_buffers := (en_buffers (fst s))(addr := None)\<rparr>, snd s)))))"

definition bad_request :: string where
  "bad_request = ''HTTP/1.1 400 Bad Request'' @ CRLF @ CRLF"

text \<open>\<open>a1\<close> and \<open>a2\<close> are the kernel's answers to the two possible writes.\<close>

definition HttpServer_onMessage ::
  "(HttpRequest \<Rightarrow> HttpResponse \<Rightarrow> HttpResponse) \<Rightarrow> nat \<Rightarrow> nat option \<Rightarrow> nat option \<Rightarrow> nat
    \<Rightarrow> Timestamp \<Rightarrow> conn_task conn_state \<Rightarrow> conn_task conn_state result option" where
  "HttpServer_onMessage httpCallback me a1 a2 addr receiveTime s =
     (case cn_context (the_conn s) of
        None \<Rightarrow> Some (Inl OutOfBounds)
      | Some context \<Rightarrow>
          (case HttpContext_parseRequest context (cn_inputBuffer (the_conn s)) receiveTime of
             None \<Rightarrow> None
           | Some (Inl e) \<Rightarrow> Some (Inl e)
           | Some (Inr (ok, context, b)) \<Rightarrow>
               Some
                 (bind_result
                    (let s = upd_conn (\<lambda>c. c\<lparr>cn_context := Some context, cn_inputBuffer := b\<rparr>) s in
                     if \<not> ok then
                       bind_result (TcpConnection_send me a1 bad_request s) (TcpConnection_shutdown me)
                     else Inr s) (\<lambda>s.
                  if HttpContext_allOk context then
                    bind_result
                      (HttpServer_processRequest httpCallback me a2 addr (ctx_request context) s) (\<lambda>s.
                    Inr (upd_conn (TcpConnection_setContext (HttpContext_reset context)) s))
                  else Inr s))))"

section \<open>Processing a request\<close>

text \<open>
  The response can be serialised into the local buffer without leaving it.
\<close>

definition response_text :: "HttpResponse \<Rightarrow> string" where
  "response_text r = response_head r @ resp_body r"

definition response_fits :: "HttpResponse \<Rightarrow> bool" where
  "response_fits r \<longleftrightarrow> length (response_head r) \<le> 1024 \<and> length (resp_body r) < 10 ^ 13
     \<and> (length (response_head r) + length (resp_body r) \<le> 1024 \<or> 1024 < length (resp_body r))"

lemma with_buffers [simp]:
  "conn_inv t (e\<lparr>en_buffers := m\<rparr>, l) = conn_inv t (e, l)"
  "sent (e\<lparr>en_buffers := m\<rparr>, l) = sent (e, l)" "out_bytes (e\<lparr>en_buffers := m\<rparr>, l) = out_bytes (e, l)"
  "send_fits (e\<lparr>en_buffers := m\<rparr>, l) n = send_fits (e, l) n"
  by (simp_all add: conn_inv_def conn_ok_def writing_def out_bytes_def fin_sent_def sent_def send_fits_def)

lemma sendBuffer_ok:
  assumes inv: "conn_inv t s" and st: "cn_state (the_conn s) = CONNECTED"
    and b: "en_buffers (fst s) addr = Some b" "buf_wf b"
    and fits: "send_fits s (length (contents b))" and ans: "answer_ok answer (length (contents b))"
  shows "\<exists>s'. TcpConnection_sendBuffer t answer addr s = Inr s' \<and> conn_inv t s'
    \<and> sent s' @ out_bytes s' = sent s @ out_bytes s @ contents b
    \<and> cn_state (the_conn s') = CONNECTED \<and> cn_inputBuffer (the_conn s') = cn_inputBuffer (the_conn s)
    \<and> cn_context (the_conn s') = cn_context (the_conn s)
    \<and> en_buffers (fst s') = (en_buffers (fst s))(addr \<mapsto> HyBuffer_clearAll b)"
proof -
  obtain s1 where s1: "TcpConnection_sendInLoopThread t answer (contents b) s = Inr s1" "conn_inv t s1"
      "sent s1 @ out_bytes s1 = sent s @ out_bytes s @ contents b" "same_peer s s1"
    using send_ok [OF inv fits ans st] by blast
  have "EventLoop_isInLoopThread t (the_loop s)" using inv conn_ok_inLoop [of t s] by (simp add: conn_inv_def)
  then have "TcpConnection_sendBuffer t answer addr s =
      Inr ((fst s1)\<lparr>en_buffers := (en_buffers (fst s1))(addr \<mapsto> HyBuffer_clearAll b)\<rparr>, snd s1)"
    using st b s1 payload_range [OF b(2)]
    by (simp add: TcpConnection_sendBuffer_def send_payload_def same_peer_def)
  then show ?thesis using s1 st by (simp add: same_peer_def)
qed

lemma processRequest_ok:
  assumes inv: "conn_inv t s" and st: "cn_state (the_conn s) = CONNECTED"
    and r: "r = httpCallback request (HttpResponse_new (closes_connection request))"
    and fits: "response_fits r" "send_fits s (length (response_text r))"
    and ans: "answer_ok answer (length (response_text r))"
    and addr: "en_buffers (fst s) addr = None"
  shows "\<exists>s'. HttpServer_processRequest httpCallback t answer addr request s = Inr s' \<and> conn_inv t s'
    \<and> sent s' @ out_bytes s' = sent s @ out_bytes s @ response_text r
    \<and> cn_state (the_conn s') = (if HttpResponse_nonPersistent r then DISCONNECTING else CONNECTED)
    \<and> cn_inputBuffer (the_conn s') = cn_inputBuffer (the_conn s)
    \<and> en_buffers (fst s') = en_buffers (fst s)"
proof -
  obtain b where b: "HttpResponse_appendToBuffer r HyBuffer_new = Inr b" "buf_wf b"
      "contents b = response_text r"
    using appendToBuffer_outcome [of r] fits(1) by (auto simp: response_fits_def response_text_def)
  let ?s0 = "((fst s)\<lparr>en_buffers := (en_buffers (fst s))(addr \<mapsto> b)\<rparr>, snd s)"
  obtain s1 where s1: "TcpConnection_sendBuffer t answer addr ?s0 = Inr s1" "conn_inv t s1"
      "sent s1 @ out_bytes s1 = sent s @ out_bytes s @ response_text r"
      "cn_state (the_conn s1) = CONNECTED" "cn_inputBuffer (the_conn s1) = cn_inputBuffer (the_conn s)"
      "en_buffers (fst s1) = (en_buffers (fst s))(addr \<mapsto> HyBuffer_clearAll b)"
    using sendBuffer_ok [of t ?s0 addr b answer] inv st b fits(2) ans by auto
  have restored: "(en_buffers (fst s))(addr := None) = en_buffers (fst s)" using addr by auto
  show ?thesis
  proof (cases "HttpResponse_nonPersistent r")
    case False
    then show ?thesis
      using r b(1) s1 restored by (simp add: HttpServer_processRequest_def)
  next
    case True
    obtain s2 where s2: "TcpConnection_shutdown t s1 = Inr s2" "conn_inv t s2" "sent s2 = sent s1"
        "out_bytes s2 = out_bytes s1" "cn_state (the_conn s2) = DISCONNECTING"
        "cn_inputBuffer (the_conn s2) = cn_inputBuffer (the_conn s1)" "en_buffers (fst s2) = en_buffers (fst s1)"
      using shutdown_ok [OF s1(2,4)] by blast
    then show ?thesis
      using True r b(1) s1 restored by (simp add: HttpServer_processRequest_def)
  qed
qed

lemma reset_parsed:
  "HttpContext_reset \<lparr>ctx_state = ALLOK, ctx_request = parsed t m path q v hs\<rparr> = HttpContext_new"
  by (simp add: HttpContext_reset_def HttpContext_new_def HttpRequest_new_def HttpRequest_swap_def
      Timestamp_swap_def parsed_def)

lemma conn_inv_upd_parse:
  "conn_inv t (upd_conn (\<lambda>c. c\<lparr>cn_context := x, cn_inputBuffer := b\<rparr>) s) = conn_inv t s"
  "sent (upd_conn (\<lambda>c. c\<lparr>cn_context := x, cn_inputBuffer := b\<rparr>) s) = sent s"
  "out_bytes (upd_conn (\<lambda>c. c\<lparr>cn_context := x, cn_inputBuffer := b\<rparr>) s) = out_bytes s"
  "send_fits (upd_conn (\<lambda>c. c\<lparr>cn_context := x, cn_inputBuffer := b\<rparr>) s) n = send_fits s n"
  "conn_inv t (upd_conn (TcpConnection_setContext y) s) = conn_inv t s"
  "sent (upd_conn (TcpConnection_setContext y) s) = sent s"
  "out_bytes (upd_conn (TcpConnection_setContext y) s) = out_bytes s"
  by (simp_all add: conn_inv_def conn_ok_def writing_def conn_simps send_fits_def
      TcpConnection_setContext_def)

lemma onMessage_get:
  assumes "conn_inv t s" and "cn_state (the_conn s) = CONNECTED"
    and "cn_context (the_conn s) = Some HttpContext_new" and "buf_wf (cn_inputBuffer (the_conn s))"
    and "target_ok path q" and "v \<noteq> UNKNOWN" and "list_all header_ok hs"
    and "contents (cn_inputBuffer (the_conn s)) = request_line GET path q v @ CRLF @ headers_text hs @ rest"
    and "request = parsed tm GET path q v hs"
    and "r = httpCallback request (HttpResponse_new (closes_connection request))"
    and "response_fits r" and "send_fits s (length (response_text r))"
    and "answer_ok a2 (length (response_text r))" and "en_buffers (fst s) addr = None"
  shows "\<exists>s'. HttpServer_onMessage httpCallback t a1 a2 addr tm s = Some (Inr s') \<and> conn_inv t s'
    \<and> sent s' @ out_bytes s' = sent s @ out_bytes s @ response_text r
    \<and> cn_context (the_conn s') = Some HttpContext_new
    \<and> contents (cn_inputBuffer (the_conn s')) = rest
    \<and> cn_state (the_conn s') = (if HttpResponse_nonPersistent r then DISCONNECTING else CONNECTED)"
proof -
  let ?c = "\<lparr>ctx_state = ALLOK, ctx_request = request\<rparr>"
  obtain b' where b': "HttpContext_parseRequest HttpContext_new (cn_inputBuffer (the_conn s)) tm =
      Some (Inr (True, ?c, b'))" "contents b' = rest"
    using get_parsed [OF assms(4-8), of tm] assms(9) by blast
  let ?s1 = "upd_conn (\<lambda>c. c\<lparr>cn_context := Some ?c, cn_inputBuffer := b'\<rparr>) s"
  have s1: "conn_inv t ?s1" "send_fits ?s1 (length (response_text r))"
    using assms(1,12) by (simp_all add: conn_inv_upd_parse)
  have c1: "cn_state (the_conn ?s1) = CONNECTED" "en_buffers (fst ?s1) addr = None"
    using assms(2,14) by (simp_all add: upd_conn_def)
  obtain s2 where s2: "HttpServer_processRequest httpCallback t a2 addr request ?s1 = Inr s2" "conn_inv t s2"
      "sent s2 @ out_bytes s2 = sent s @ out_bytes s @ response_text r"
      "cn_state (the_conn s2) = (if HttpResponse_nonPersistent r then DISCONNECTING else CONNECTED)"
      "cn_inputBuffer (the_conn s2) = b'"
    using processRequest_ok [where httpCallback = httpCallback and request = request, OF s1(1) c1(1) assms(10,11) s1(2) assms(13) c1(2)]
    by (auto simp: conn_inv_upd_parse) (simp add: upd_conn_def)
  have "HttpServer_onMessage httpCallback t a1 a2 addr tm s =
      Some (Inr (upd_conn (TcpConnection_setContext HttpContext_new) s2))"
    using assms(3) b'(1) s2(1) reset_parsed assms(9)
    by (simp add: HttpServer_onMessage_def HttpContext_allOk_def)
  then show ?thesis
    using s2 b'(2)
    by (auto simp: conn_inv_upd_parse) (auto simp: upd_conn_def TcpConnection_setContext_def)
qed

section \<open>Properties\<close>

definition demo_app :: "HttpRequest \<Rightarrow> HttpResponse \<Rightarrow> HttpResponse" where
  "demo_app request r = HttpResponse_setBody (HttpResponse_setStatusCode r OK200) (req_path request)"

lemma demo_response:
  "r = demo_app request (HttpResponse_new close) \<Longrightarrow> length (req_path request) \<le> 8 \<Longrightarrow>
   response_fits r \<and> length (response_text r) < 200 \<and> resp_body r = req_path request"
proof -
  assume r: "r = demo_app request (HttpResponse_new close)" and len: "length (req_path request) \<le> 8"
  have "length (dec_digits 200) \<le> 3" using length_dec_digits_le [of 200 3] by simp
  moreover have "length (dec_digits (length (req_path request))) \<le> 1"
    using len length_dec_digits_le [of "length (req_path request)" 1] by simp
  ultimately show ?thesis
    using r len by (auto simp: demo_app_def response_fits_def response_text_def response_head_def
        HttpResponse_new_def HttpResponse_setBody_def HttpResponse_setStatusCode_def fmt_d_def CRLF_def)
qed

text \<open>
  C19. A request the parser refuses is answered with exactly the 400 message, and the connection begins
  to close; the context keeps whatever the parser left in it.
\<close>

theorem refused_request_answered:
  assumes "conn_inv t s" and "cn_state (the_conn s) = CONNECTED"
    and "cn_context (the_conn s) = Some c"
    and "HttpContext_parseRequest c (cn_inputBuffer (the_conn s)) tm = Some (Inr (False, c', b'))"
    and "ctx_state c' \<noteq> ALLOK"
    and "send_fits s (length bad_request)" and "answer_ok a1 (length bad_request)"
  shows "\<exists>s'. HttpServer_onMessage httpCallback t a1 a2 addr tm s = Some (Inr s') \<and> conn_inv t s'
    \<and> sent s' @ out_bytes s' = sent s @ out_bytes s @ bad_request
    \<and> cn_state (the_conn s') = DISCONNECTING \<and> cn_context (the_conn s') = Some c'"
proof -
  let ?s1 = "upd_conn (\<lambda>c. c\<lparr>cn_context := Some c', cn_inputBuffer := b'\<rparr>) s"
  have s1: "conn_inv t ?s1" "send_fits ?s1 (length bad_request)"
    using assms(1,6) by (simp_all add: conn_inv_upd_parse)
  have c1: "cn_state (the_conn ?s1) = CONNECTED" "cn_context (the_conn ?s1) = Some c'"
    using assms(2) by (simp_all add: upd_conn_def)
  obtain s2 where s2: "TcpConnection_send t a1 bad_request ?s1 = Inr s2" "conn_inv t s2"
      "sent s2 @ out_bytes s2 = sent s @ out_bytes s @ bad_request" "same_peer ?s1 s2"
    using send_ok [OF s1 assms(7) c1(1)] send_in_loop [OF s1(1) c1(1)]
    by (auto simp: conn_inv_upd_parse)
  then have c2: "cn_state (the_conn s2) = CONNECTED" "cn_context (the_conn s2) = Some c'"
    using c1 by (simp_all add: same_peer_def)
  obtain s3 where "TcpConnection_shutdown t s2 = Inr s3" "conn_inv t s3" "sent s3 = sent s2"
      "out_bytes s3 = out_bytes s2" "cn_state (the_conn s3) = DISCONNECTING"
      "cn_context (the_conn s3) = cn_context (the_conn s2)"
    using shutdown_ok [OF s2(2) c2(1)] by blast
  then show ?thesis
    using assms(3,4,5) s2 c2 by (simp add: HttpServer_onMessage_def HttpContext_allOk_def)
qed

theorem refused_request_answered_witness:
  "\<exists>s s'. cn_inputBuffer (the_conn s) \<noteq> HyBuffer_new
    \<and> HttpServer_onMessage demo_app 0 (Some 4) None 3 (Timestamp 9) s = Some (Inr s')
    \<and> sent s' @ out_bytes s' = bad_request \<and> cn_state (the_conn s') = DISCONNECTING"
proof -
  let ?m = "''PUT'' @ CRLF"
  obtain b where b: "buf_wf b" "contents b = ?m" using buffer_holding [of ?m] by (auto simp: CRLF_def)
  obtain s0 :: "conn_task conn_state" where s0: "conn_inv 0 s0" "sent s0 = []" "out_bytes s0 = []"
      "fst s0 = demo_env\<lparr>en_conn := (en_conn demo_env)\<lparr>cn_state := CONNECTED\<rparr>\<rparr>"
    using demo_established by blast
  let ?s = "upd_conn (\<lambda>c. c\<lparr>cn_context := Some HttpContext_new, cn_inputBuffer := b\<rparr>) s0"
  have i: "conn_inv 0 ?s" "sent ?s @ out_bytes ?s = []" using s0 by (simp_all add: conn_inv_upd_parse)
  have s: "cn_state (the_conn ?s) = CONNECTED" "cn_context (the_conn ?s) = Some HttpContext_new"
      "cn_inputBuffer (the_conn ?s) = b" "cn_outputBuffer (the_conn ?s) = HyBuffer_new"
    using s0(4) by (simp_all add: upd_conn_def demo_env_def TcpConnection_new_def)
  have new: "ctx_state HttpContext_new = EXPECTREQUESTLINE" "body_not_get HttpContext_new"
    by (simp_all add: HttpContext_new_def body_not_get_def)
  have "line_parse HttpContext_new ''PUT'' = Inr (False, HttpContext_new)"
    by (simp add: line_parse_def HttpContext_parseRequestLine_def cpp_find_find_char find_char_def
        Prelude.slice_def)
  then have "spec_parse (Timestamp 9) HttpContext_new (contents b) = Inr (False, HttpContext_new, contents b)"
    using spec_parse_first_line [of HttpContext_new "''PUT''" "Timestamp 9" "[]"] new(1) b(2) by simp
  then obtain b' where p: "HttpContext_parseRequest HttpContext_new (cn_inputBuffer (the_conn ?s)) (Timestamp 9)
      = Some (Inr (False, HttpContext_new, b'))"
    using parseRequest_refines [OF b(1) _ new(2), of "Timestamp 9"] new(1) s(3) by auto
  have "out_bytes ?s = []" using i(2) by simp
  then have f: "send_fits ?s (length bad_request)"
    using s(4) by (simp add: send_fits_def bad_request_def CRLF_def HyBuffer_new_def
        PREPENDABLEBYTES_def INITIALSIZE_def)
  have a: "answer_ok (Some 4) (length bad_request)" by (simp add: answer_ok_def bad_request_def)
  have "b \<noteq> HyBuffer_new" using b(2) by auto
  moreover obtain s' where "HttpServer_onMessage demo_app 0 (Some 4) None 3 (Timestamp 9) ?s = Some (Inr s')"
      "sent s' @ out_bytes s' = bad_request" "cn_state (the_conn s') = DISCONNECTING"
    using refused_request_answered [OF i(1) s(1,2) p _ f a, where httpCallback = demo_app and addr = 3
        and ?a2.0 = None] new(1) i(2)
    by auto
  ultimately show ?thesis using s(3) by (intro exI [of _ ?s] exI [of _ s'] conjI) simp_all
qed

end
