(* ===== verification/Sio.thy ===== *)
theory Sio
  imports Format "HOL-Library.Signed_Division"
begin

text \<open>
  \<^verbatim>\<open>include/io/sio.hpp\<close> and \<^verbatim>\<open>src/sio.cpp\<close>: output that is safe in signal handlers. Character arrays
  are lists, an access outside the array is an error; an array that the source does not initialise
  is an argument. The kernel's answers to \<open>write\<close> are arguments, the text on the standard output is
  the state.
\<close>

section \<open>Character arrays\<close>

abbreviation NUL :: char where
  "NUL \<equiv> CHR 0x00"

text \<open>The text an array holds as a C string.\<close>

definition c_string :: "string \<Rightarrow> string" where
  "c_string s = takeWhile (\<lambda>c. c \<noteq> NUL) s"

section \<open>Operations\<close>

function strlen_from :: "string \<Rightarrow> nat \<Rightarrow> nat result" where
  "strlen_from s p =
     bind_result (load s p) (\<lambda>c. if c \<noteq> NUL then strlen_from s (Suc p) else Inr p)"
  by auto
termination
  by (relation "measure (\<lambda>(s, p). length s - p)") (auto simp: load_def split: if_splits)

declare strlen_from.simps [simp del]

definition sio_strlen :: "string \<Rightarrow> nat result" where
  "sio_strlen s = strlen_from s 0"

text \<open>The loop of \<open>_reverse\<close>; the indices are of type \<open>int\<close>.\<close>

function reverse_loop :: "string \<Rightarrow> int \<Rightarrow> int \<Rightarrow> string result" where
  "reverse_loop s i j =
     (if i < j then
        bind_result (load s (nat i)) (\<lambda>c.
        bind_result (load s (nat j)) (\<lambda>d.
        bind_result (store s (nat i) d) (\<lambda>s.
        bind_result (store s (nat j) c) (\<lambda>s. reverse_loop s (i + 1) (j - 1)))))
      else Inr s)"
  by auto
termination
  by (relation "measure (\<lambda>(s, i, j). nat (j - i))") auto

declare reverse_loop.simps [simp del]

definition sio_reverse :: "string \<Rightarrow> string result" where
  "sio_reverse s =
     bind_result (sio_strlen s) (\<lambda>n. reverse_loop s 0 (to_int32 (int (size_sub n 1))))"

definition ltoa_char :: "int \<Rightarrow> char" where
  "ltoa_char c = (if c < 10 then char_of (nat (c + 48)) else char_of (nat (c - 10 + 97)))"

text \<open>The \<open>do\<close> loop of \<open>_ltoa\<close>: it ends because the array does.\<close>

function ltoa_digits :: "int \<Rightarrow> int \<Rightarrow> nat \<Rightarrow> string \<Rightarrow> (nat \<times> string) result" where
  "ltoa_digits b v i s =
     (if b = 0 then Inl Arithmetic
      else bind_result (store s i (ltoa_char (v smod b))) (\<lambda>s.
        if v sdiv b > 0 then ltoa_digits b (v sdiv b) (Suc i) s else Inr (Suc i, s)))"
  by auto
termination
  by (relation "measure (\<lambda>(b, v, i, s). length s - i)") (auto simp: store_def split: if_splits)

declare ltoa_digits.simps [simp del]

definition sio_ltoa :: "int \<Rightarrow> string \<Rightarrow> int \<Rightarrow> string result" where
  "sio_ltoa v s b =
     (let sign = (v < 0) in
      if sign \<and> v = - (2 ^ 63) then Inl Arithmetic
      else
        bind_result (ltoa_digits b (if sign then - v else v) 0 s) (\<lambda>(i, s).
        bind_result (if sign then store s i (CHR ''-'') else Inr s) (\<lambda>s.
        bind_result (store s (if sign then Suc i else i) NUL) (\<lambda>s.
        sio_reverse s))))"

text \<open>A write of \<open>n\<close> bytes with the answer \<open>a\<close> puts the first \<open>a\<close> of them on the output.\<close>

definition sio_prints :: "int \<Rightarrow> string \<Rightarrow> string \<Rightarrow> (int \<times> string) result" where
  "sio_prints answer s out =
     bind_result (sio_strlen s) (\<lambda>n. Inr (answer, out @ take (nat answer) (take n s)))"

definition sio_printl :: "string \<Rightarrow> int \<Rightarrow> int \<Rightarrow> string \<Rightarrow> (int \<times> string) result" where
  "sio_printl array answer v out =
     bind_result (sio_ltoa v array 10) (\<lambda>s. sio_prints answer s out)"

definition sio_error :: "int \<Rightarrow> string \<Rightarrow> string \<Rightarrow> string result" where
  "sio_error answer s out = bind_result (sio_prints answer s out) (\<lambda>(n, out). Inr out)"

definition sio_Prints :: "int \<Rightarrow> int \<Rightarrow> string \<Rightarrow> string \<Rightarrow> (int \<times> string) result" where
  "sio_Prints answer answer2 s out =
     bind_result (sio_prints answer s out) (\<lambda>(n, out).
     if n < 0 then
       bind_result (sio_error answer2 (''Prints error'' @ [NUL]) out) (\<lambda>out. Inr (n, out))
     else Inr (n, out))"

text \<open>\<open>Prints\<close> of a \<open>std::string\<close>: \<open>c_str()\<close> ends with a null character.\<close>

definition sio_Prints_string :: "int \<Rightarrow> int \<Rightarrow> string \<Rightarrow> string \<Rightarrow> (int \<times> string) result" where
  "sio_Prints_string answer answer2 msg out = sio_Prints answer answer2 (msg @ [NUL]) out"

definition sio_Printl :: "string \<Rightarrow> int \<Rightarrow> int \<Rightarrow> int \<Rightarrow> string \<Rightarrow> (int \<times> string) result" where
  "sio_Printl array answer answer2 v out =
     bind_result (sio_printl array answer v out) (\<lambda>(n, out).
     if n < 0 then
       bind_result (sio_error answer2 (''Printl error'' @ [NUL]) out) (\<lambda>out. Inr (n, out))
     else Inr (n, out))"

section \<open>Strings in arrays\<close>

lemma strlen_from_exact:
  "NUL \<notin> set xs \<Longrightarrow> strlen_from (ps @ xs @ NUL # qs) (length ps) = Inr (length ps + length xs)"
proof (induction xs arbitrary: ps)
  case Nil
  then show ?case by (subst strlen_from.simps) (simp add: load_def)
next
  case (Cons x xs)
  from Cons.IH [of "ps @ [x]"] Cons.prems show ?case
    by (subst strlen_from.simps) (auto simp: load_def nth_append)
qed

lemma sio_strlen_exact: "NUL \<notin> set xs \<Longrightarrow> sio_strlen (xs @ NUL # qs) = Inr (length xs)"
  using strlen_from_exact [of xs "[]" qs] by (simp add: sio_strlen_def)

lemma reverse_loop_exact:
  "reverse_loop (ps @ ms @ qs) (int (length ps)) (int (length ps + length ms) - 1)
     = Inr (ps @ rev ms @ qs)"
proof (induction "length ms" arbitrary: ps ms qs rule: less_induct)
  case less
  show ?case
  proof (cases "length ms < 2")
    case True
    then have "rev ms = ms" by (cases ms) auto
    with True show ?thesis by (subst reverse_loop.simps) simp
  next
    case False
    then obtain a ms' where a: "ms = a # ms'" by (cases ms) auto
    with False obtain m b where b: "ms' = m @ [b]" by (cases ms' rule: rev_cases) auto
    from less [of m "ps @ [b]" "[a] @ qs"] a b
    have IH: "reverse_loop (ps @ b # m @ a # qs) (int (length ps) + 1) (int (length ps + length ms) - 1 - 1)
        = Inr (ps @ rev ms @ qs)" by (simp add: algebra_simps)
    have j: "nat (int (length ps + length ms) - 1) = Suc (length ps + length m)"
      using a b by simp
    show ?thesis
      using IH j a b
      by (subst reverse_loop.simps)
        (simp add: load_def store_def nth_append list_update_append)
  qed
qed

lemma sio_reverse_exact:
  assumes "NUL \<notin> set xs" "length xs < 2 ^ 31"
  shows "sio_reverse (xs @ NUL # qs) = Inr (rev xs @ NUL # qs)"
proof -
  have "to_int32 (int (size_sub (length xs) 1)) = int (length xs) - 1"
  proof (cases "xs = []")
    case True
    then show ?thesis by (simp add: to_int32_def size_sub_def)
  next
    case False
    then have "size_sub (length xs) 1 = length xs - 1" "1 \<le> length xs"
      using assms by (auto simp: size_sub_small Suc_le_eq)
    with assms show ?thesis by (simp add: to_int32_small of_nat_diff)
  qed
  with assms reverse_loop_exact [of "[]" xs "NUL # qs"] show ?thesis
    by (simp add: sio_reverse_def sio_strlen_exact)
qed

section \<open>Decimal conversion\<close>

lemma ltoa_char_digit: "n < 10 \<Longrightarrow> ltoa_char (int n) = digit n"
  by (simp add: ltoa_char_def digit_def nat_add_distrib add.commute)

lemma smod_sdiv_10: "int n smod 10 = int (n mod 10)" "int n sdiv 10 = int (n div 10)"
  by (cases n; simp add: signed_divide_int_def signed_modulo_int_def zmod_int zdiv_int)+

lemma ltoa_digits_exact:
  "length ps + length (dec_digits n) \<le> length ps + length xs \<Longrightarrow>
   ltoa_digits 10 (int n) (length ps) (ps @ xs)
     = Inr (length ps + length (dec_digits n),
            ps @ rev (dec_digits n) @ drop (length (dec_digits n)) xs)"
proof (induction n arbitrary: ps xs rule: dec_digits.induct)
  case (1 n)
  have dec: "dec_digits n = (if n < 10 then [digit n] else dec_digits (n div 10) @ [digit (n mod 10)])"
    by (subst dec_digits.simps) simp
  with 1(2) obtain x xs' where x: "xs = x # xs'" by (cases xs) (auto split: if_splits)
  have st: "store (ps @ xs) (length ps) c = Inr (ps @ c # xs')" for c
    by (simp add: store_def x list_update_append)
  show ?case
  proof (cases "n < 10")
    case True
    then show ?thesis
      using st x by (subst ltoa_digits.simps) (simp add: smod_sdiv_10 dec ltoa_char_digit)
  next
    case False
    with 1(1) [of "ps @ [digit (n mod 10)]" xs'] 1(2) x dec
    have "ltoa_digits 10 (int (n div 10)) (Suc (length ps)) (ps @ digit (n mod 10) # xs')
        = Inr (length ps + length (dec_digits n),
               ps @ rev (dec_digits n) @ drop (length (dec_digits n)) xs)" by simp
    moreover have "int n sdiv 10 > 0" using False by (simp add: smod_sdiv_10)
    ultimately show ?thesis
      by (subst ltoa_digits.simps) (simp add: smod_sdiv_10 st ltoa_char_digit)
  qed
qed

lemma NUL_not_dec_digits: "NUL \<notin> set (dec_digits n)"
  using dec_digits_digits [of NUL n] by (auto simp: is_digit_def)

lemma NUL_not_fmt_d: "NUL \<notin> set (fmt_d v)"
  using NUL_not_dec_digits by (simp add: fmt_d_def)

lemma length_fmt_d: "\<bar>v\<bar> < 10 ^ 19 \<Longrightarrow> length (fmt_d v) \<le> 20"
  using length_dec_digits_le [of "nat \<bar>v\<bar>" 19] by (auto simp: fmt_d_def nat_less_iff)

text \<open>The conversion needs room for the text and the null character.\<close>

lemma sio_ltoa_exact:
  assumes "- (2 ^ 63) < v" "length (fmt_d v) < length s" "length (fmt_d v) < 2 ^ 31"
  obtains qs where "sio_ltoa v s 10 = Inr (fmt_d v @ NUL # qs)"
proof -
  let ?ds = "dec_digits (nat \<bar>v\<bar>)" and ?sg = "if v < 0 then ''-'' else ''''"
  have fmt: "fmt_d v = ?sg @ ?ds" by (simp add: fmt_d_def)
  define xs where "xs = rev (fmt_d v)"
  define qs where "qs = drop (Suc (length (fmt_d v))) s"
  have dig: "ltoa_digits 10 (if v < 0 then - v else v) 0 s
      = Inr (length ?ds, rev ?ds @ drop (length ?ds) s)"
    using ltoa_digits_exact [of "[]" "nat \<bar>v\<bar>" s] assms(2) fmt by (simp split: if_splits)
  obtain y rest where y: "drop (length ?ds) s = y # rest"
    using assms(2) fmt by (cases "drop (length ?ds) s") (auto split: if_splits)
  have "bind_result (if v < 0 then store (rev ?ds @ drop (length ?ds) s) (length ?ds) (CHR ''-'')
             else Inr (rev ?ds @ drop (length ?ds) s))
           (\<lambda>s. store s (if v < 0 then Suc (length ?ds) else length ?ds) NUL)
        = Inr (xs @ NUL # qs)"
  proof (cases "v < 0")
    case True
    have "length rest = length s - Suc (length ?ds)" using arg_cong [OF y, of length] by simp
    with True assms(2) fmt obtain z rest' where z: "rest = z # rest'" by (cases rest) auto
    have "qs = rest'"
      using arg_cong [OF y, of "drop 2"] z True fmt by (simp add: qs_def numeral_2_eq_2)
    then show ?thesis
      using True fmt y z by (simp add: xs_def store_def list_update_append nth_append)
  next
    case False
    have "qs = rest" using arg_cong [OF y, of "drop 1"] False fmt by (simp add: qs_def)
    then show ?thesis using False fmt y by (simp add: xs_def store_def list_update_append)
  qed
  moreover have "sio_reverse (xs @ NUL # qs) = Inr (fmt_d v @ NUL # qs)"
    using sio_reverse_exact [of xs qs] NUL_not_fmt_d [of v] assms(3) by (simp add: xs_def)
  ultimately have "sio_ltoa v s 10 = Inr (fmt_d v @ NUL # qs)"
    using assms(1) dig
    by (simp add: sio_ltoa_def Let_def bind_result_assoc [symmetric] del: if_split cong: if_cong)
  then show thesis by (rule that)
qed

lemma sio_prints_exact:
  "NUL \<notin> set xs \<Longrightarrow> sio_prints answer (xs @ NUL # qs) out = Inr (answer, out @ take (nat answer) xs)"
  by (simp add: sio_prints_def sio_strlen_exact min_def)

text \<open>
  C39. \<open>Printl\<close> writes the decimal text of its argument, for every \<open>long\<close> except the smallest one,
  from an array of 128 characters with any contents: with a complete write the text is on the
  output and its length is the result. The smallest \<open>long\<close> is a signed overflow in \<open>_ltoa\<close>.
\<close>

theorem Printl_decimal:
  assumes "- (2 ^ 63) \<le> v" "v < 2 ^ 63" "length array = 128"
  shows "sio_Printl array (int (length (fmt_d v))) answer2 v out
    = (if v = - (2 ^ 63) then Inl Arithmetic
       else Inr (int (length (fmt_d v)), out @ fmt_d v))"
proof (cases "v = - (2 ^ 63)")
  case True
  then show ?thesis by (simp add: sio_Printl_def sio_printl_def sio_ltoa_def)
next
  case False
  with assms have "length (fmt_d v) \<le> 20" by (intro length_fmt_d) simp
  with False assms obtain qs where "sio_ltoa v array 10 = Inr (fmt_d v @ NUL # qs)"
    using sio_ltoa_exact [of v array] by auto
  then show ?thesis using False
    by (simp add: sio_Printl_def sio_printl_def sio_prints_exact NUL_not_fmt_d)
qed

theorem Printl_decimal_witness:
  "sio_Printl (replicate 128 (CHR ''x'')) 4 0 (- 120) ''n = '' = Inr (4, ''n = -120'')"
proof -
  have "fmt_d (- 120) = ''-120''" by code_simp
  then show ?thesis
    using Printl_decimal [of "- 120" "replicate 128 (CHR ''x'')" 0 "''n = ''"] by simp
qed

text \<open>
  \<open>Prints\<close> of a \<open>std::string\<close> writes the part of it before its first null character, as far as
  the kernel takes it; when the write fails nothing of it is on the output and the text
  \<open>Prints error\<close> is written instead.
\<close>

theorem Prints_exact:
  "sio_Prints_string answer answer2 msg out =
     (if answer < 0 then Inr (answer, out @ take (nat answer2) ''Prints error'')
      else Inr (answer, out @ take (nat answer) (c_string msg)))"
proof -
  obtain qs where msg: "msg @ [NUL] = c_string msg @ NUL # qs"
  proof (cases "dropWhile (\<lambda>c. c \<noteq> NUL) msg")
    case Nil
    then have "c_string msg = msg" by (metis append_Nil2 c_string_def takeWhile_dropWhile_id)
    then show ?thesis using that [of "[]"] by simp
  next
    case (Cons x xs)
    then have "x = NUL" using hd_dropWhile [of "\<lambda>c. c \<noteq> NUL" msg] by simp
    with Cons have "msg = c_string msg @ NUL # xs" by (metis c_string_def takeWhile_dropWhile_id)
    then show ?thesis using that [of "xs @ [NUL]"] by (metis append.assoc append_Cons)
  qed
  have "NUL \<notin> set (c_string msg)" by (auto simp: c_string_def dest: set_takeWhileD)
  then show ?thesis
    using sio_prints_exact [of "''Prints error''" answer2 "[]"]
    by (simp add: sio_Prints_string_def sio_Prints_def sio_error_def msg sio_prints_exact)
qed

end
