(* ===== verification/RobustIO.thy ===== *)
theory RobustIO
  imports Sio
begin

text \<open>
  \<^verbatim>\<open>include/io/robustio.hpp\<close> and \<^verbatim>\<open>src/robustio.cpp\<close>: reading and writing all bytes of a request in
  spite of short counts and interrupted system calls. A descriptor is the list of the kernel's
  answers to the coming calls of \<open>read\<close>, with the end of file behind them; data longer than a call
  asks for stays for the next call. \<open>errno\<close> is whether the last error was \<open>EINTR\<close>. The caller's
  memory is a list, a copy outside of it is an error.
\<close>

section \<open>System calls\<close>

datatype read_answer = Data string | Intr | Fail   \<comment> \<open>no data is the end of file\<close>

record descriptor =
  de_answers :: "read_answer list"
  de_intr :: bool

definition sys_read :: "nat \<Rightarrow> descriptor \<Rightarrow> int \<times> string \<times> descriptor" where
  "sys_read n fd =
     (case de_answers fd of
        [] \<Rightarrow> (0, [], fd)
      | Data d # rest \<Rightarrow>
          (int (length (take n d)), take n d,
           fd\<lparr>de_answers := (if length d \<le> n then rest else Data (drop n d) # rest)\<rparr>)
      | Intr # rest \<Rightarrow> (- 1, [], fd\<lparr>de_answers := rest, de_intr := True\<rparr>)
      | Fail # rest \<Rightarrow> (- 1, [], fd\<lparr>de_answers := rest, de_intr := False\<rparr>))"

definition copy_to :: "string \<Rightarrow> nat \<Rightarrow> string \<Rightarrow> string result" where
  "copy_to u i d =
     (if i + length d \<le> length u then Inr (take i u @ d @ drop (i + length d) u)
      else Inl OutOfBounds)"

section \<open>Buffered descriptors\<close>

definition RIO_BUFSIZE :: nat where
  "RIO_BUFSIZE = 8192"

record Riob =
  rb_fd :: descriptor
  rb_cnt :: int
  rb_bufptr :: nat
  rb_buf :: string

text \<open>The array \<open>_buf\<close> is not initialised: its contents are an argument.\<close>

definition Riob_new :: "string \<Rightarrow> descriptor \<Rightarrow> Riob" where
  "Riob_new array fd = \<lparr>rb_fd = fd, rb_cnt = 0, rb_bufptr = 0, rb_buf = array\<rparr>"

text \<open>The loop that refills the buffer: \<open>Some rc\<close> when \<open>_read\<close> returns from inside it.\<close>

function riob_refill :: "Riob \<Rightarrow> int option \<times> Riob" where
  "riob_refill r =
     (if rb_cnt r \<le> 0 then
        (case sys_read RIO_BUFSIZE (rb_fd r) of
           (n, d, fd) \<Rightarrow>
             let r = r\<lparr>rb_cnt := n, rb_buf := d @ drop (length d) (rb_buf r), rb_fd := fd\<rparr> in
             if n < 0 then if \<not> de_intr fd then (Some (- 1), r) else riob_refill r
             else if n = 0 then (Some 0, r)
             else riob_refill (r\<lparr>rb_bufptr := 0\<rparr>))
      else (None, r))"
  by auto
termination
  by (relation "measure (\<lambda>r. if rb_cnt r \<le> 0 then Suc (length (de_answers (rb_fd r))) else 0)")
    (auto simp: sys_read_def split: list.splits read_answer.splits if_splits)

declare riob_refill.simps [simp del]

text \<open>\<open>Riob::_read\<close>: the result, the bytes given to \<open>memcpy\<close> and the descriptor.\<close>

definition Riob_read :: "nat \<Rightarrow> Riob \<Rightarrow> (int \<times> string \<times> Riob) result" where
  "Riob_read n r =
     (case riob_refill r of
        (Some rc, r) \<Rightarrow> Inr (rc, [], r)
      | (None, r) \<Rightarrow>
          (let cnt = (if to_size (rb_cnt r) < n then rb_cnt r else to_int32 (int n)) in
           bind_result (range_string (rb_buf r) (rb_bufptr r) (rb_bufptr r + to_size cnt)) (\<lambda>d.
           Inr (cnt, d,
                r\<lparr>rb_bufptr := nat (int (rb_bufptr r) + cnt), rb_cnt := rb_cnt r - cnt\<rparr>))))"

section \<open>Reading n bytes\<close>

text \<open>
  \<open>readn\<close> and \<open>readnb\<close> have the same loop, on \<open>read\<close> and on \<open>_read\<close>. Its state: the memory, the
  position \<open>bufp\<close>, \<open>nleft\<close>, how the loop was left, and the descriptor.
\<close>

datatype loop_exit = Going | Break | Return int

type_synonym 's read_state = "string \<times> nat \<times> nat \<times> loop_exit \<times> 's"

definition read_going :: "'s read_state \<Rightarrow> bool" where
  "read_going = (\<lambda>(u, bufp, nleft, exit, s). exit = Going \<and> nleft > 0)"

definition read_body ::
  "(nat \<Rightarrow> 's \<Rightarrow> (int \<times> string \<times> 's) result) \<Rightarrow> ('s \<Rightarrow> bool) \<Rightarrow> 's read_state
    \<Rightarrow> 's read_state result option" where
  "read_body rd intr = (\<lambda>(u, bufp, nleft, exit, s).
     Some
       (bind_result (rd nleft s) (\<lambda>(nread, d, s).
        bind_result (copy_to u bufp d) (\<lambda>u.
        if nread < 0 then
          if intr s then Inr (u, bufp, nleft, Going, s)
          else Inr (u, bufp, nleft, Return (- 1), s)
        else if nread = 0 then Inr (u, bufp, nleft, Break, s)
        else Inr (u, nat (int bufp + nread), size_sub nleft (to_size nread), Going, s)))))"

definition read_result :: "nat \<Rightarrow> 's read_state \<Rightarrow> int \<times> string \<times> 's" where
  "read_result n = (\<lambda>(u, bufp, nleft, exit, s).
     (case exit of Return rc \<Rightarrow> rc | _ \<Rightarrow> int (size_sub n nleft), u, s))"

definition read_loop ::
  "(nat \<Rightarrow> 's \<Rightarrow> (int \<times> string \<times> 's) result) \<Rightarrow> ('s \<Rightarrow> bool) \<Rightarrow> string \<Rightarrow> nat \<Rightarrow> 's
    \<Rightarrow> (int \<times> string \<times> 's) result option" where
  "read_loop rd intr u n s =
     map_option (map_sum id (read_result n))
       (cpp_while read_going (read_body rd intr) (u, 0, n, Going, s))"

definition Rio_readn ::
  "string \<Rightarrow> nat \<Rightarrow> descriptor \<Rightarrow> (int \<times> string \<times> descriptor) result option" where
  "Rio_readn usrbuf n fd = read_loop (\<lambda>k fd. Inr (sys_read k fd)) de_intr usrbuf n fd"

definition Riob_readnb :: "string \<Rightarrow> nat \<Rightarrow> Riob \<Rightarrow> (int \<times> string \<times> Riob) result option" where
  "Riob_readnb usrbuf n r = read_loop Riob_read (\<lambda>r. de_intr (rb_fd r)) usrbuf n r"

section \<open>Reading a line\<close>

function readline_loop ::
  "nat \<Rightarrow> nat \<Rightarrow> string \<Rightarrow> nat \<Rightarrow> Riob \<Rightarrow> (int \<times> string \<times> Riob) result" where
  "readline_loop maxlen n u bufp r =
     (let finish = (\<lambda>u bufp r. bind_result (store u bufp NUL) (\<lambda>u. Inr (int n, u, r))) in
      if n < maxlen then
        bind_result (Riob_read 1 r) (\<lambda>(rc, d, r).
        if rc = 1 then
          bind_result (load d 0) (\<lambda>c.
          bind_result (store u bufp c) (\<lambda>u.
          if c = CHR 0x0A then finish u (Suc bufp) r
          else if n \<ge> 2 ^ 31 - 1 then Inl Arithmetic
          else readline_loop maxlen (Suc n) u (Suc bufp) r))
        else if rc = 0 then if n = 1 then Inr (0, u, r) else finish u bufp r
        else Inr (- 1, u, r))
      else finish u bufp r)"
  by auto
termination
  by (relation "measure (\<lambda>(maxlen, n, u, bufp, r). maxlen - n)") auto

declare readline_loop.simps [simp del]

definition Riob_readlineb :: "string \<Rightarrow> nat \<Rightarrow> Riob \<Rightarrow> (int \<times> string \<times> Riob) result" where
  "Riob_readlineb usrbuf maxlen r = readline_loop maxlen 1 usrbuf 0 r"

section \<open>Writing n bytes\<close>

text \<open>
  The kernel's answers to \<open>write\<close>: how many bytes it takes at most, or an error. When the answers are
  used up it takes everything. The state is the number \<open>nleft\<close>, the position, \<open>errno\<close> and the bytes
  written.
\<close>

datatype write_answer = Takes nat | WIntr | WFail

fun writen_loop ::
  "write_answer list \<Rightarrow> bool \<Rightarrow> string \<Rightarrow> nat \<Rightarrow> nat \<Rightarrow> nat \<Rightarrow> string \<Rightarrow> int \<times> string" where
  "writen_loop answers intr u n nleft bufp out =
     (if nleft > 0 then
        (case answers of
           [] \<Rightarrow> (int n, out @ take nleft (drop bufp u))
         | Takes k # rest \<Rightarrow>
             (let nwritten = min k nleft in
              if nwritten = 0 then
                if intr then writen_loop rest intr u n nleft bufp out else (- 1, out)
              else writen_loop rest intr u n (nleft - nwritten) (bufp + nwritten)
                     (out @ take nwritten (drop bufp u)))
         | WIntr # rest \<Rightarrow> writen_loop rest True u n nleft bufp out
         | WFail # rest \<Rightarrow> (- 1, out))
      else (int n, out))"

declare writen_loop.simps [simp del]

definition Rio_writen :: "write_answer list \<Rightarrow> bool \<Rightarrow> string \<Rightarrow> nat \<Rightarrow> int \<times> string" where
  "Rio_writen answers intr usrbuf n = writen_loop answers intr usrbuf n n 0 []"

section \<open>Sources of bytes\<close>

text \<open>
  The contract of a descriptor that \<open>readn\<close> relies on. \<open>stream\<close> is the data up to the next end of
  file or failure, \<open>fails\<close> tells which of them it is, \<open>rank\<close> bounds the interrupted calls.
\<close>

locale byte_source =
  fixes rd :: "nat \<Rightarrow> 's \<Rightarrow> (int \<times> string \<times> 's) result"
    and intr :: "'s \<Rightarrow> bool"
    and ok :: "'s \<Rightarrow> bool"
    and stream :: "'s \<Rightarrow> string"
    and fails :: "'s \<Rightarrow> bool"
    and rank :: "'s \<Rightarrow> nat"
  assumes rd_cases: "ok s \<Longrightarrow> 0 < n \<Longrightarrow>
    (\<exists>d s'. rd n s = Inr (int (length d), d, s') \<and> d \<noteq> [] \<and> length d \<le> n
        \<and> stream s = d @ stream s' \<and> fails s' = fails s \<and> rank s' \<le> rank s \<and> ok s')
    \<or> (\<exists>s'. rd n s = Inr (0, [], s') \<and> stream s = [] \<and> \<not> fails s \<and> ok s')
    \<or> (\<exists>s'. rd n s = Inr (- 1, [], s') \<and> intr s' \<and> stream s' = stream s \<and> fails s' = fails s
        \<and> rank s' < rank s \<and> ok s')
    \<or> (\<exists>s'. rd n s = Inr (- 1, [], s') \<and> \<not> intr s' \<and> stream s = [] \<and> fails s \<and> ok s')"
begin

lemma copy_to_exact:
  "length ps + length d \<le> length ps + length qs \<Longrightarrow>
   copy_to (ps @ qs) (length ps) d = Inr (ps @ d @ drop (length d) qs)"
  by (simp add: copy_to_def)

lemma body_cases:
  assumes "ok s" "0 < nleft" "nleft \<le> length qs" "nleft < 2 ^ 63"
  obtains
    (data) d s' where "read_body rd intr (ps @ qs, length ps, nleft, Going, s)
        = Some (Inr ((ps @ d) @ drop (length d) qs, length (ps @ d), nleft - length d, Going, s'))"
      "d \<noteq> []" "length d \<le> nleft" "stream s = d @ stream s'" "fails s' = fails s"
      "rank s' \<le> rank s" "ok s'"
  | (eof) s' where "read_body rd intr (ps @ qs, length ps, nleft, Going, s)
        = Some (Inr (ps @ qs, length ps, nleft, Break, s'))" "stream s = []" "\<not> fails s" "ok s'"
  | (interrupted) s' where "read_body rd intr (ps @ qs, length ps, nleft, Going, s)
        = Some (Inr (ps @ qs, length ps, nleft, Going, s'))" "stream s' = stream s"
      "fails s' = fails s" "rank s' < rank s" "ok s'"
  | (failed) s' where "read_body rd intr (ps @ qs, length ps, nleft, Going, s)
        = Some (Inr (ps @ qs, length ps, nleft, Return (- 1), s'))" "stream s = []" "fails s" "ok s'"
  using rd_cases [OF assms(1,2)]
proof (elim disjE exE conjE)
  fix d s'
  assume rd: "rd nleft s = Inr (int (length d), d, s')" and d: "d \<noteq> []" "length d \<le> nleft"
    and rest: "stream s = d @ stream s'" "fails s' = fails s" "rank s' \<le> rank s" "ok s'"
  have "copy_to (ps @ qs) (length ps) d = Inr (ps @ d @ drop (length d) qs)"
    using copy_to_exact [of ps d qs] assms d by simp
  moreover have "size_sub nleft (to_size (int (length d))) = nleft - length d"
    using d assms by (simp add: to_size_nonneg size_sub_small)
  ultimately have "read_body rd intr (ps @ qs, length ps, nleft, Going, s)
        = Some (Inr ((ps @ d) @ drop (length d) qs, length (ps @ d), nleft - length d, Going, s'))"
    using rd d by (simp add: read_body_def nat_add_distrib)
  then show thesis using data d rest by blast
qed (use eof interrupted failed copy_to_exact [of ps "[]" qs] in \<open>auto simp: read_body_def\<close>)

text \<open>The loop delivers the next \<open>n\<close> bytes, or all there are when the stream ends before.\<close>

lemma while_exact:
  assumes "ok s" "nleft \<le> length qs" "nleft < 2 ^ 63"
  shows "\<exists>nleft' exit s' bufp.
    cpp_while read_going (read_body rd intr) (ps @ qs, length ps, nleft, Going, s)
      = Some (Inr (ps @ take nleft (stream s) @ drop (min nleft (length (stream s))) qs, bufp,
                   nleft', exit, s'))
    \<and> nleft' = nleft - length (stream s) \<and> ok s'
    \<and> exit = (if nleft \<le> length (stream s) then Going else if fails s then Return (- 1) else Break)
    \<and> (nleft \<le> length (stream s) \<longrightarrow> stream s' = drop nleft (stream s) \<and> fails s' = fails s)"
  using assms
proof (induction "nleft + rank s" arbitrary: ps qs nleft s rule: less_induct)
  case less
  show ?case
  proof (cases "nleft = 0")
    case True
    then show ?thesis using less.prems by (simp add: cpp_while_done read_going_def)
  next
    case False
    then have going: "read_going (ps @ qs, length ps, nleft, Going, s)" by (simp add: read_going_def)
    note step = cpp_while_step [of read_going _ "read_body rd intr", OF going]
    from False have "0 < nleft" by simp
    from less.prems(1) this less.prems(2,3) show ?thesis
    proof (cases rule: body_cases [where ps = ps])
      case (data d s')
      have "0 < length d" using data by simp
      then have "nleft - length d + rank s' < nleft + rank s" using data False by linarith
      moreover have "nleft - length d \<le> length (drop (length d) qs)" "nleft - length d < 2 ^ 63"
        using less.prems by auto
      ultimately show ?thesis
        using less.hyps [of "nleft - length d" s' "drop (length d) qs" "ps @ d"] data
        by (simp add: step [OF data(1)] less_diff_conv add.commute min_def)
          (auto simp: algebra_simps)
    next
      case (eof s')
      have "\<not> read_going (ps @ qs, length ps, nleft, Break, s')" by (simp add: read_going_def)
      then show ?thesis using eof False by (simp add: step [OF eof(1)] cpp_while_done)
    next
      case (interrupted s')
      then show ?thesis using less.hyps [of nleft s' qs ps] less.prems
        by (simp add: step [OF interrupted(1)] del: if_split cong: if_cong)
    next
      case (failed s')
      have "\<not> read_going (ps @ qs, length ps, nleft, Return (- 1), s')" by (simp add: read_going_def)
      then show ?thesis using failed False by (simp add: step [OF failed(1)] cpp_while_done)
    qed
  qed
qed

lemma read_loop_exact:
  assumes "ok s" "n \<le> length u" "n < 2 ^ 63"
  shows "\<exists>s'. read_loop rd intr u n s
      = Some (Inr (if n \<le> length (stream s) then int n
                   else if fails s then - 1 else int (length (stream s)),
                   take n (stream s) @ drop (min n (length (stream s))) u, s'))
    \<and> ok s' \<and> (n \<le> length (stream s) \<longrightarrow> stream s' = drop n (stream s) \<and> fails s' = fails s)"
proof -
  obtain nleft exit s' bufp where
    w: "cpp_while read_going (read_body rd intr) (u, 0, n, Going, s)
      = Some (Inr (take n (stream s) @ drop (min n (length (stream s))) u, bufp, nleft, exit, s'))"
    and r: "nleft = n - length (stream s)" "ok s'"
      "exit = (if n \<le> length (stream s) then Going else if fails s then Return (- 1) else Break)"
      "n \<le> length (stream s) \<longrightarrow> stream s' = drop n (stream s) \<and> fails s' = fails s"
    using while_exact [OF assms, of "[]"] by auto
  have "size_sub n nleft = min n (length (stream s))" "size_sub n 0 = n"
    using r(1) assms(3) by (simp_all add: size_sub_small min_def)
  with w r show ?thesis by (simp add: read_loop_def read_result_def)
qed

end

section \<open>Descriptors and buffered descriptors as sources\<close>

fun data_of :: "read_answer list \<Rightarrow> string" where
  "data_of [] = []"
| "data_of (Data d # rest) = (if d = [] then [] else d @ data_of rest)"
| "data_of (Intr # rest) = data_of rest"
| "data_of (Fail # rest) = []"

fun failing :: "read_answer list \<Rightarrow> bool" where
  "failing [] = False"
| "failing (Data d # rest) = (d \<noteq> [] \<and> failing rest)"
| "failing (Intr # rest) = failing rest"
| "failing (Fail # rest) = True"

definition riob_ok :: "Riob \<Rightarrow> bool" where
  "riob_ok r \<longleftrightarrow> length (rb_buf r) = RIO_BUFSIZE
     \<and> (rb_cnt r > 0 \<longrightarrow> int (rb_bufptr r) + rb_cnt r \<le> int RIO_BUFSIZE)"

definition riob_bytes :: "Riob \<Rightarrow> string" where
  "riob_bytes r = slice (rb_buf r) (rb_bufptr r) (rb_bufptr r + nat (rb_cnt r))"

lemma sys_read_cases:
  assumes "0 < n"
  shows "(\<exists>d fd'. sys_read n fd = (int (length d), d, fd') \<and> d \<noteq> [] \<and> length d \<le> n
      \<and> data_of (de_answers fd) = d @ data_of (de_answers fd')
      \<and> failing (de_answers fd') = failing (de_answers fd)
      \<and> length (de_answers fd') \<le> length (de_answers fd))
    \<or> (\<exists>fd'. sys_read n fd = (0, [], fd') \<and> data_of (de_answers fd) = []
      \<and> \<not> failing (de_answers fd))
    \<or> (\<exists>fd'. sys_read n fd = (- 1, [], fd') \<and> de_intr fd'
      \<and> data_of (de_answers fd') = data_of (de_answers fd)
      \<and> failing (de_answers fd') = failing (de_answers fd)
      \<and> length (de_answers fd') < length (de_answers fd))
    \<or> (\<exists>fd'. sys_read n fd = (- 1, [], fd') \<and> \<not> de_intr fd' \<and> data_of (de_answers fd) = []
      \<and> failing (de_answers fd))"
proof (cases "de_answers fd")
  case (Cons a rest)
  show ?thesis
  proof (cases a)
    case (Data d)
    show ?thesis
    proof (cases "d = []")
      case False
      have "take n d \<noteq> []" using assms False by simp
      moreover have "d = take n d @ (if length d \<le> n then [] else drop n d)" by simp
      ultimately show ?thesis
        using Cons Data False by (intro disjI1) (auto simp: sys_read_def)
    qed (use Cons Data in \<open>simp add: sys_read_def\<close>)
  qed (use Cons in \<open>auto simp: sys_read_def\<close>)
qed (simp add: sys_read_def)

interpretation descr: byte_source "\<lambda>k fd. Inr (sys_read k fd)" de_intr "\<lambda>fd. True"
    "\<lambda>fd. data_of (de_answers fd)" "\<lambda>fd. failing (de_answers fd)" "\<lambda>fd. length (de_answers fd)"
proof
  fix n :: nat and fd :: descriptor
  assume "0 < n"
  from sys_read_cases [OF this, of fd]
  show "(\<exists>d fd'. (Inr (sys_read n fd) :: (int \<times> string \<times> descriptor) result)
          = Inr (int (length d), d, fd') \<and> d \<noteq> [] \<and> length d \<le> n
        \<and> data_of (de_answers fd) = d @ data_of (de_answers fd')
        \<and> failing (de_answers fd') = failing (de_answers fd)
        \<and> length (de_answers fd') \<le> length (de_answers fd) \<and> True)
    \<or> (\<exists>fd'. (Inr (sys_read n fd) :: (int \<times> string \<times> descriptor) result) = Inr (0, [], fd')
        \<and> data_of (de_answers fd) = [] \<and> \<not> failing (de_answers fd) \<and> True)
    \<or> (\<exists>fd'. (Inr (sys_read n fd) :: (int \<times> string \<times> descriptor) result) = Inr (- 1, [], fd')
        \<and> de_intr fd' \<and> data_of (de_answers fd') = data_of (de_answers fd)
        \<and> failing (de_answers fd') = failing (de_answers fd)
        \<and> length (de_answers fd') < length (de_answers fd) \<and> True)
    \<or> (\<exists>fd'. (Inr (sys_read n fd) :: (int \<times> string \<times> descriptor) result) = Inr (- 1, [], fd')
        \<and> \<not> de_intr fd' \<and> data_of (de_answers fd) = [] \<and> failing (de_answers fd) \<and> True)"
    by simp
qed

text \<open>The refill loop ends with unread bytes in the buffer, or returns what a plain read returned.\<close>

lemma refill_cases:
  assumes "riob_ok r"
  shows "(\<exists>r'. riob_refill r = (None, r') \<and> riob_ok r' \<and> rb_cnt r' > 0
      \<and> riob_bytes r @ data_of (de_answers (rb_fd r))
          = riob_bytes r' @ data_of (de_answers (rb_fd r'))
      \<and> failing (de_answers (rb_fd r')) = failing (de_answers (rb_fd r)))
    \<or> (\<exists>r'. riob_refill r = (Some 0, r') \<and> riob_ok r' \<and> riob_bytes r = []
      \<and> data_of (de_answers (rb_fd r)) = [] \<and> \<not> failing (de_answers (rb_fd r)))
    \<or> (\<exists>r'. riob_refill r = (Some (- 1), r') \<and> riob_ok r' \<and> riob_bytes r = []
      \<and> \<not> de_intr (rb_fd r')
      \<and> data_of (de_answers (rb_fd r)) = [] \<and> failing (de_answers (rb_fd r)))"
  using assms
proof (induction "length (de_answers (rb_fd r))" arbitrary: r rule: less_induct)
  case less
  show ?case
  proof (cases "rb_cnt r \<le> 0")
    case False
    then show ?thesis using less.prems by (subst riob_refill.simps) simp
  next
    case True
    then have nil: "riob_bytes r = []" by (simp add: riob_bytes_def)
    have size: "0 < RIO_BUFSIZE" by (simp add: RIO_BUFSIZE_def)
    note eq = riob_refill.simps [of r]
    show ?thesis
      using sys_read_cases [OF size, of "rb_fd r"]
    proof (elim disjE exE conjE)
      fix d fd'
      assume rd: "sys_read RIO_BUFSIZE (rb_fd r) = (int (length d), d, fd')"
        and d: "d \<noteq> []" "length d \<le> RIO_BUFSIZE"
          "data_of (de_answers (rb_fd r)) = d @ data_of (de_answers fd')"
          "failing (de_answers fd') = failing (de_answers (rb_fd r))"
      let ?r = "r\<lparr>rb_cnt := int (length d), rb_buf := d @ drop (length d) (rb_buf r), rb_fd := fd',
          rb_bufptr := 0\<rparr>"
      have "riob_refill r = riob_refill ?r" using True rd d by (subst eq) simp
      also have "\<dots> = (None, ?r)" using d by (subst riob_refill.simps) simp
      finally show ?thesis using d nil less.prems
        by (intro disjI1 exI [of _ ?r]) (simp add: riob_ok_def riob_bytes_def Prelude.slice_def)
    next
      fix fd'
      assume rd: "sys_read RIO_BUFSIZE (rb_fd r) = (- 1, [], fd')" "de_intr fd'"
        and rest: "data_of (de_answers fd') = data_of (de_answers (rb_fd r))"
          "failing (de_answers fd') = failing (de_answers (rb_fd r))"
          "length (de_answers fd') < length (de_answers (rb_fd r))"
      let ?r = "r\<lparr>rb_cnt := - 1, rb_fd := fd'\<rparr>"
      have "riob_refill r = riob_refill ?r" using True rd by (subst eq) simp
      moreover have "riob_ok ?r" "riob_bytes ?r = []"
        using less.prems by (simp_all add: riob_ok_def riob_bytes_def)
      ultimately show ?thesis using less.hyps [of ?r] rest nil by simp
    qed (use True nil less.prems in
        \<open>auto simp: eq riob_ok_def intro: exI [where P = "\<lambda>r'. (_, _) = (_, r') \<and> _ r'"]\<close>)
  qed
qed

lemma Riob_read_cases:
  assumes "riob_ok r" "0 < n"
  shows "(\<exists>d r'. Riob_read n r = Inr (int (length d), d, r') \<and> d \<noteq> [] \<and> length d \<le> n
      \<and> riob_bytes r @ data_of (de_answers (rb_fd r))
          = d @ riob_bytes r' @ data_of (de_answers (rb_fd r'))
      \<and> failing (de_answers (rb_fd r')) = failing (de_answers (rb_fd r)) \<and> riob_ok r')
    \<or> (\<exists>r'. Riob_read n r = Inr (0, [], r') \<and> riob_bytes r = []
      \<and> data_of (de_answers (rb_fd r)) = [] \<and> \<not> failing (de_answers (rb_fd r)) \<and> riob_ok r')
    \<or> (\<exists>r'. Riob_read n r = Inr (- 1, [], r') \<and> riob_bytes r = [] \<and> \<not> de_intr (rb_fd r')
      \<and> data_of (de_answers (rb_fd r)) = [] \<and> failing (de_answers (rb_fd r)) \<and> riob_ok r')"
  using refill_cases [OF assms(1)]
proof (elim disjE exE conjE)
  fix r'
  assume ref: "riob_refill r = (None, r')" and ok: "riob_ok r'" and pos: "rb_cnt r' > 0"
    and rest: "riob_bytes r @ data_of (de_answers (rb_fd r))
        = riob_bytes r' @ data_of (de_answers (rb_fd r'))"
      "failing (de_answers (rb_fd r')) = failing (de_answers (rb_fd r))"
  define k where "k = min n (nat (rb_cnt r'))"
  have bnd: "rb_bufptr r' + nat (rb_cnt r') \<le> 8192" "length (rb_buf r') = 8192"
    using ok pos by (auto simp: riob_ok_def RIO_BUFSIZE_def)
  have cnt: "(if to_size (rb_cnt r') < n then rb_cnt r' else to_int32 (int n)) = int k"
    using pos bnd by (auto simp: k_def to_size_nonneg to_int32_small min_def)
  let ?d = "slice (rb_buf r') (rb_bufptr r') (rb_bufptr r' + k)"
  let ?r = "r'\<lparr>rb_bufptr := rb_bufptr r' + k, rb_cnt := rb_cnt r' - int k\<rparr>"
  have k: "0 < k" "k \<le> n" "int k \<le> rb_cnt r'" "rb_bufptr r' + k \<le> 8192"
    using pos assms(2) bnd by (auto simp: k_def)
  have len: "length ?d = k" using k bnd by simp
  have "Riob_read n r = Inr (int k, ?d, ?r)"
    using k bnd unfolding Riob_read_def ref prod.case option.case Let_def cnt
    by (simp add: to_size_nonneg range_string_ok nat_add_distrib)
  moreover have "riob_bytes r' = ?d @ riob_bytes ?r"
    using k slice_append [of "rb_bufptr r'" "rb_bufptr r' + k" "rb_bufptr r' + nat (rb_cnt r')" "rb_buf r'"]
    by (simp add: riob_bytes_def nat_diff_distrib)
  moreover have "riob_ok ?r" using ok k by (auto simp: riob_ok_def)
  moreover have "?d \<noteq> []" using len k by (metis length_0_conv less_numeral_extra(3))
  ultimately show ?thesis using rest k len by (intro disjI1 exI [of _ ?d] exI [of _ ?r]) simp
qed (auto simp: Riob_read_def)

definition riob_stream :: "Riob \<Rightarrow> string" where
  "riob_stream r = riob_bytes r @ data_of (de_answers (rb_fd r))"

definition riob_fails :: "Riob \<Rightarrow> bool" where
  "riob_fails r = failing (de_answers (rb_fd r))"

interpretation riob: byte_source Riob_read "\<lambda>r. de_intr (rb_fd r)" riob_ok riob_stream riob_fails
    "\<lambda>r. 0"
proof
  fix r :: Riob and n :: nat
  assume "riob_ok r" "0 < n"
  from Riob_read_cases [OF this]
  show "(\<exists>d r'. Riob_read n r = Inr (int (length d), d, r') \<and> d \<noteq> [] \<and> length d \<le> n
        \<and> riob_stream r = d @ riob_stream r' \<and> riob_fails r' = riob_fails r
        \<and> (0 :: nat) \<le> 0 \<and> riob_ok r')
    \<or> (\<exists>r'. Riob_read n r = Inr (0, [], r') \<and> riob_stream r = [] \<and> \<not> riob_fails r \<and> riob_ok r')
    \<or> (\<exists>r'. Riob_read n r = Inr (- 1, [], r') \<and> de_intr (rb_fd r') \<and> riob_stream r' = riob_stream r
        \<and> riob_fails r' = riob_fails r \<and> (0 :: nat) < 0 \<and> riob_ok r')
    \<or> (\<exists>r'. Riob_read n r = Inr (- 1, [], r') \<and> \<not> de_intr (rb_fd r') \<and> riob_stream r = []
        \<and> riob_fails r \<and> riob_ok r')"
    unfolding riob_stream_def riob_fails_def by (elim disjE) (simp, blast+)
qed

section \<open>Lines\<close>

definition line_of :: "string \<Rightarrow> string" where
  "line_of s = takeWhile (\<lambda>c. c \<noteq> CHR 0x0A) s @ (if CHR 0x0A \<in> set s then [CHR 0x0A] else [])"

lemma line_of_Nil [simp]: "line_of [] = []"
  by (simp add: line_of_def)

lemma line_of_Cons: "line_of (c # s) = (if c = CHR 0x0A then [c] else c # line_of s)"
  by (auto simp: line_of_def)

text \<open>What \<open>readlineb\<close> returns, for the part \<open>l\<close> of the line that it stored.\<close>

definition line_result :: "nat \<Rightarrow> string \<Rightarrow> bool \<Rightarrow> int" where
  "line_result maxlen l fails =
     (if CHR 0x0A \<in> set l then int (length l)
      else if Suc (length l) = maxlen then int maxlen
      else if fails then - 1
      else if l = [] then 0 else int (length l) + 1)"

definition line_stored :: "nat \<Rightarrow> string \<Rightarrow> bool \<Rightarrow> bool" where
  "line_stored maxlen l fails \<longleftrightarrow>
     CHR 0x0A \<in> set l \<or> Suc (length l) = maxlen \<or> (l \<noteq> [] \<and> \<not> fails)"

lemma store_exact: "store (ps @ q # qs) (length ps) c = Inr (ps @ c # qs)"
  by (simp add: store_def list_update_append)

lemma readline_loop_exact:
  assumes "riob_ok r" "CHR 0x0A \<notin> set ps" "length ps < maxlen" "maxlen \<le> length ps + length qs"
    "maxlen < 2 ^ 31" "l = take (maxlen - Suc (length ps)) (line_of (riob_stream r))"
  shows "\<exists>r'. readline_loop maxlen (Suc (length ps)) (ps @ qs) (length ps) r
      = Inr (line_result maxlen (ps @ l) (riob_fails r),
             ps @ l @ (if line_stored maxlen (ps @ l) (riob_fails r)
                       then NUL # drop (Suc (length l)) qs else drop (length l) qs), r')
    \<and> riob_ok r'
    \<and> (CHR 0x0A \<in> set (ps @ l) \<or> Suc (length (ps @ l)) = maxlen \<longrightarrow>
         riob_stream r' = drop (length l) (riob_stream r) \<and> riob_fails r' = riob_fails r)"
  using assms
proof (induction "maxlen - length ps" arbitrary: ps qs l r rule: less_induct)
  case less
  obtain q qs' where q: "qs = q # qs'" using less.prems by (cases qs) auto
  note eq = readline_loop.simps [of maxlen "Suc (length ps)" "ps @ qs" "length ps" r]
  show ?case
  proof (cases "Suc (length ps) = maxlen")
    case True
    then show ?thesis using less.prems q store_exact [of ps q qs' NUL]
      by (subst eq) (simp add: line_result_def line_stored_def)
  next
    case False
    then have lt: "Suc (length ps) < maxlen" using less.prems by simp
    have one: "0 < (1::nat)" by simp
    show ?thesis
      using riob.rd_cases [OF less.prems(1) one]
    proof (elim disjE exE conjE)
      fix d r'
      assume rd: "Riob_read 1 r = Inr (int (length d), d, r')" and d: "d \<noteq> []" "length d \<le> 1"
        and st: "riob_stream r = d @ riob_stream r'" and f: "riob_fails r' = riob_fails r"
        and ok: "riob_ok r'"
      from d obtain c where c: "d = [c]" by (cases d) auto
      show ?thesis
      proof (cases "c = CHR 0x0A")
        case True
        have "l = [CHR 0x0A]" using less.prems(6) lt st c True by (simp add: line_of_Cons)
        moreover obtain q2 qs2 where "qs' = q2 # qs2" using lt less.prems q by (cases qs') auto
        moreover have "store (ps @ CHR 0x0A # q2 # qs2) (Suc (length ps)) NUL
            = Inr (ps @ CHR 0x0A # NUL # qs2)"
          using store_exact [of "ps @ [CHR 0x0A]" q2 qs2 NUL] by simp
        ultimately show ?thesis using lt q rd c True st f ok store_exact [of ps q qs']
          by (subst eq) (simp add: load_def line_result_def line_stored_def)
      next
        case False
        define l' where "l' = take (maxlen - Suc (length (ps @ [c]))) (line_of (riob_stream r'))"
        have l: "l = c # l'"
          using less.prems(6) lt st c False
          by (simp add: line_of_Cons l'_def Suc_diff_Suc [symmetric] del: Suc_diff_Suc)
        have step: "readline_loop maxlen (Suc (length ps)) (ps @ qs) (length ps) r
            = readline_loop maxlen (Suc (length (ps @ [c]))) ((ps @ [c]) @ qs') (length (ps @ [c])) r'"
          using lt q rd c False store_exact [of ps q qs' c] less.prems(5)
          by (subst eq) (simp add: load_def)
        have "maxlen - length (ps @ [c]) < maxlen - length ps" "CHR 0x0A \<notin> set (ps @ [c])"
            "length (ps @ [c]) < maxlen" "maxlen \<le> length (ps @ [c]) + length qs'"
          using less.prems(2,4) lt False q by auto
        note IH = less.hyps [OF this(1) ok this(2-4) less.prems(5) l'_def]
        show ?thesis unfolding step using IH l st c q f by (simp del: if_split cong: if_cong)
      qed
    qed (use less.prems lt q eq in \<open>auto simp: line_result_def line_stored_def store_exact\<close>)
  qed
qed

section \<open>Properties\<close>

text \<open>
  C36. \<open>readn\<close> and \<open>readnb\<close> always return and never write outside memory that has room for \<open>n\<close> bytes.
  Both deliver the next \<open>n\<close> bytes of their stream in spite of short counts and interrupted calls;
  when the stream ends before, they deliver all of it and return its length, or \<open>-1\<close> when it ends
  with a failure. The buffered stream starts with the bytes left in the internal buffer.
\<close>

theorem readn_readnb_exact:
  assumes "n \<le> length u" "n < 2 ^ 63" "riob_ok r"
  shows "\<exists>fd' r'.
    Rio_readn u n fd
      = Some (Inr (if n \<le> length (data_of (de_answers fd)) then int n
                   else if failing (de_answers fd) then - 1
                   else int (length (data_of (de_answers fd))),
                   take n (data_of (de_answers fd))
                     @ drop (min n (length (data_of (de_answers fd)))) u, fd'))
    \<and> (n \<le> length (data_of (de_answers fd)) \<longrightarrow>
         data_of (de_answers fd') = drop n (data_of (de_answers fd)))
    \<and> Riob_readnb u n r
      = Some (Inr (if n \<le> length (riob_stream r) then int n
                   else if riob_fails r then - 1 else int (length (riob_stream r)),
                   take n (riob_stream r) @ drop (min n (length (riob_stream r))) u, r'))
    \<and> riob_ok r' \<and> (n \<le> length (riob_stream r) \<longrightarrow> riob_stream r' = drop n (riob_stream r))"
proof -
  obtain fd' where fd: "Rio_readn u n fd
      = Some (Inr (if n \<le> length (data_of (de_answers fd)) then int n
                   else if failing (de_answers fd) then - 1
                   else int (length (data_of (de_answers fd))),
                   take n (data_of (de_answers fd))
                     @ drop (min n (length (data_of (de_answers fd)))) u, fd'))"
    "n \<le> length (data_of (de_answers fd)) \<longrightarrow>
       data_of (de_answers fd') = drop n (data_of (de_answers fd))"
    using descr.read_loop_exact [OF TrueI assms(1,2), of fd] unfolding Rio_readn_def by blast
  obtain r' where "Riob_readnb u n r
      = Some (Inr (if n \<le> length (riob_stream r) then int n
                   else if riob_fails r then - 1 else int (length (riob_stream r)),
                   take n (riob_stream r) @ drop (min n (length (riob_stream r))) u, r'))"
    "riob_ok r'" "n \<le> length (riob_stream r) \<longrightarrow> riob_stream r' = drop n (riob_stream r)"
    using riob.read_loop_exact [OF assms(3,1,2)] unfolding Riob_readnb_def by blast
  with fd show ?thesis by blast
qed

lemma riob_ok_new: "length array = RIO_BUFSIZE \<Longrightarrow> riob_ok (Riob_new array fd)"
  by (simp add: riob_ok_def Riob_new_def)

lemma riob_stream_new:
  "riob_stream (Riob_new array fd) = data_of (de_answers fd)"
  "riob_fails (Riob_new array fd) = failing (de_answers fd)"
  by (simp_all add: riob_stream_def riob_bytes_def riob_fails_def Riob_new_def)

definition demo_fd :: descriptor where
  "demo_fd = \<lparr>de_answers = [Intr, Data ''ab'', Intr, Data [CHR ''c'', CHR 0x0A, CHR ''d'']],
     de_intr = False\<rparr>"

lemma demo_stream: "data_of (de_answers demo_fd) = [CHR ''a'', CHR ''b'', CHR ''c'', CHR 0x0A, CHR ''d'']"
    "\<not> failing (de_answers demo_fd)"
  by (simp_all add: demo_fd_def)

theorem readn_readnb_exact_witness:
  "\<exists>fd' r'. Rio_readn ''xxxx'' 3 demo_fd = Some (Inr (3, ''abcx'', fd'))
     \<and> data_of (de_answers fd') = [CHR 0x0A, CHR ''d'']
     \<and> Riob_readnb ''xxxx'' 3 (Riob_new (replicate RIO_BUFSIZE NUL) demo_fd)
         = Some (Inr (3, ''abcx'', r')) \<and> riob_stream r' = [CHR 0x0A, CHR ''d'']"
proof -
  have "riob_ok (Riob_new (replicate RIO_BUFSIZE NUL) demo_fd)" by (rule riob_ok_new) simp
  from readn_readnb_exact [OF _ _ this, of 3 "''xxxx''" demo_fd] show ?thesis
    by (simp add: riob_stream_new demo_stream) blast
qed

text \<open>
  C37. \<open>readlineb\<close> with room for \<open>maxlen\<close> bytes stores the next line of the stream, cut to \<open>maxlen - 1\<close>
  bytes, with a null character behind it, and leaves the rest of the stream. It returns the length
  of the line when the line ends with a newline that was stored; a line that is cut or ends with
  the end of file is reported with one more than its length. With no data it returns 0, on a
  failure \<open>-1\<close>.
\<close>

theorem readlineb_exact:
  assumes "riob_ok r" "0 < maxlen" "maxlen \<le> length u" "maxlen < 2 ^ 31"
    and "l = take (maxlen - 1) (line_of (riob_stream r))"
  shows "\<exists>r'. Riob_readlineb u maxlen r
      = Inr (line_result maxlen l (riob_fails r),
             l @ (if line_stored maxlen l (riob_fails r)
                  then NUL # drop (Suc (length l)) u else drop (length l) u), r')
    \<and> riob_ok r'
    \<and> (CHR 0x0A \<in> set l \<or> Suc (length l) = maxlen \<longrightarrow>
         riob_stream r' = drop (length l) (riob_stream r) \<and> riob_fails r' = riob_fails r)"
  using readline_loop_exact [of r "[]" maxlen u l] assms
  by (simp add: Riob_readlineb_def del: if_split cong: if_cong)

theorem readlineb_exact_witness:
  "\<exists>r'. Riob_readlineb ''xxxxxxx'' 7 (Riob_new (replicate RIO_BUFSIZE NUL) demo_fd)
      = Inr (4, [CHR ''a'', CHR ''b'', CHR ''c'', CHR 0x0A, NUL, CHR ''x'', CHR ''x''], r')
    \<and> riob_stream r' = ''d''"
proof -
  have "riob_ok (Riob_new (replicate RIO_BUFSIZE NUL) demo_fd)" by (rule riob_ok_new) simp
  from readlineb_exact [OF this, of 7 "''xxxxxxx''"] show ?thesis
    by (simp add: riob_stream_new demo_stream line_of_Cons line_result_def line_stored_def) blast
qed

lemma writen_loop_exact:
  assumes "bufp + nleft = n" "n \<le> length u" "out = take bufp u" "writen_loop answers intr u n nleft bufp out = (rc, out')"
  shows "(rc = int n \<and> out' = take n u) \<or> (rc = - 1 \<and> (\<exists>k < n. out' = take k u)
      \<and> (WFail \<in> set answers \<or> Takes 0 \<in> set answers))"
  using assms
proof (induction answers intr u n nleft bufp out rule: writen_loop.induct)
  case (1 answers intr u n nleft bufp out)
  have app: "take bufp u @ take k (drop bufp u) = take (bufp + k) u" for k by (simp add: take_add)
  show ?case
  proof (cases "nleft > 0")
    case False
    with "1.prems" show ?thesis by (simp add: writen_loop.simps)
  next
    case True
    show ?thesis
    proof (cases answers)
      case Nil
      with True "1.prems" show ?thesis by (auto simp: writen_loop.simps [of "[]"] app)
    next
      case (Cons a rest)
      have lt: "bufp < n" using True "1.prems"(1) by simp
      show ?thesis
      proof (cases a)
        case (Takes k)
        show ?thesis
        proof (cases "min k nleft = 0")
          case zero: True
          then have "k = 0" using True by (simp add: min_def split: if_splits)
          with "1.IH"(1) [OF True Cons Takes refl zero] "1.prems" True Cons Takes lt show ?thesis
            by (cases intr) (auto simp: writen_loop.simps [of "Takes _ # _"])
        next
          case False
          with "1.IH"(2) [OF True Cons Takes refl False] "1.prems" True Cons Takes show ?thesis
            by (auto simp: writen_loop.simps [of "Takes _ # _"] app Let_def)
        qed
      next
        case WIntr
        with "1.IH"(3) [OF True Cons WIntr] "1.prems" True Cons show ?thesis
          by (auto simp: writen_loop.simps [of "WIntr # _"])
      next
        case WFail
        with "1.prems" True Cons lt show ?thesis by (auto simp: writen_loop.simps [of "WFail # _"])
      qed
    qed
  qed
qed

text \<open>
  C38. \<open>writen\<close> writes all \<open>n\<close> bytes in order and returns \<open>n\<close>, unless a call of \<open>write\<close> fails or takes
  nothing; then it returns \<open>-1\<close> after a proper prefix of them.
\<close>

theorem writen_exact:
  assumes "n \<le> length u"
  shows "Rio_writen answers intr u n = (int n, take n u)
    \<or> (WFail \<in> set answers \<or> Takes 0 \<in> set answers)
      \<and> (\<exists>k < n. Rio_writen answers intr u n = (- 1, take k u))"
  using assms writen_loop_exact [of 0 n n u "[]" answers intr]
  by (cases "Rio_writen answers intr u n") (auto simp: Rio_writen_def)

theorem writen_exact_witness:
  "Rio_writen [Takes 2, WIntr, Takes 1] False ''abcde'' 4 = (4, ''abcd'')
   \<and> (\<exists>k < 4. Rio_writen [Takes 2, WFail] False ''abcde'' 4 = (- 1, take k ''abcde''))"
proof -
  have "Rio_writen [Takes 2, WFail] False ''abcde'' 4 \<noteq> (4, ''abcd'')"
    by (simp add: Rio_writen_def writen_loop.simps)
  then show ?thesis
    using writen_exact [of 4 "''abcde''" "[Takes 2, WIntr, Takes 1]" False]
      writen_exact [of 4 "''abcde''" "[Takes 2, WFail]" False] by simp
qed

end
