(* ===== verification/SharedBuf.thy ===== *)
theory SharedBuf
  imports Prelude
begin

text \<open>
  \<^verbatim>\<open>include/sem/sem.hpp\<close>, \<^verbatim>\<open>src/sem.cpp\<close>, \<^verbatim>\<open>include/sem/sharedBuf.hpp\<close> and \<^verbatim>\<open>src/sharedBuf.cpp\<close>: a bounded
  buffer shared by any number of threads, from two counting semaphores built on a mutex and a
  condition variable. The operations are cut where the mutexes are released; a step relation
  interleaves the pieces of all threads. A thread that waits on a condition variable sleeps
  until \<open>notify_one\<close> or a spurious wakeup lets it test the count again.
\<close>

section \<open>Operations\<close>

record Sem =
  sem_count :: int

definition Sem_new :: "int \<Rightarrow> Sem" where
  "Sem_new count = \<lparr>sem_count = count\<rparr>"

text \<open>The body of \<open>wait\<close> under its mutex: \<open>None\<close> when the thread has to sleep.\<close>

definition Sem_wait :: "Sem \<Rightarrow> Sem option" where
  "Sem_wait s = (if sem_count s = 0 then None else Some (s\<lparr>sem_count := sem_count s - 1\<rparr>))"

definition Sem_post :: "Sem \<Rightarrow> Sem" where
  "Sem_post s = s\<lparr>sem_count := sem_count s + 1\<rparr>"

record SharedBuf =
  sb_buf :: "int list"
  sb_capacity :: int
  sb_slots :: Sem
  sb_items :: Sem

definition SharedBuf_new :: "int \<Rightarrow> SharedBuf" where
  "SharedBuf_new n =
     \<lparr>sb_buf = [], sb_capacity = n, sb_slots = Sem_new n, sb_items = Sem_new 0\<rparr>"

text \<open>The critical sections of \<open>insert\<close> and \<open>remove\<close>; \<open>front()\<close> of an empty deque is undefined.\<close>

definition SharedBuf_push :: "int \<Rightarrow> SharedBuf \<Rightarrow> SharedBuf" where
  "SharedBuf_push item b = b\<lparr>sb_buf := sb_buf b @ [item]\<rparr>"

definition SharedBuf_pop :: "SharedBuf \<Rightarrow> (int \<times> SharedBuf) result" where
  "SharedBuf_pop b =
     (case sb_buf b of
        [] \<Rightarrow> Inl OutOfBounds
      | item # rest \<Rightarrow> Inr (item, b\<lparr>sb_buf := rest\<rparr>))"

section \<open>Threads\<close>

text \<open>Where a thread is in \<open>insert\<close> or \<open>remove\<close>.\<close>

datatype sb_pc =
    Outside
  | SlotsWait int | SlotsSleep int | Push int | ItemsPost
  | ItemsWait | ItemsSleep | Pop | SlotsPost int

record sb_system =
  sy_buf :: SharedBuf
  sy_pc :: "nat \<Rightarrow> sb_pc"
  sy_pushed :: "int list"   \<comment> \<open>everything inserted so far\<close>
  sy_popped :: "int list"   \<comment> \<open>everything removed so far\<close>
  sy_fault :: bool          \<comment> \<open>\<open>front()\<close> was called on an empty deque\<close>

fun asleep_slots :: "sb_pc \<Rightarrow> bool" where
  "asleep_slots (SlotsSleep x) = True"
| "asleep_slots pc = False"

fun wake :: "sb_pc \<Rightarrow> sb_pc" where
  "wake (SlotsSleep x) = SlotsWait x"
| "wake ItemsSleep = ItemsWait"
| "wake pc = pc"

definition goto :: "nat \<Rightarrow> sb_pc \<Rightarrow> sb_system \<Rightarrow> sb_system" where
  "goto t pc s = s\<lparr>sy_pc := (sy_pc s)(t := pc)\<rparr>"

text \<open>\<open>notify_one\<close> wakes one sleeping thread, if there is one.\<close>

inductive notified :: "(sb_pc \<Rightarrow> bool) \<Rightarrow> sb_system \<Rightarrow> sb_system \<Rightarrow> bool" for asleep where
  nobody: "(\<And>u. \<not> asleep (sy_pc s u)) \<Longrightarrow> notified asleep s s"
| one: "asleep (sy_pc s u) \<Longrightarrow> notified asleep s (goto u (wake (sy_pc s u)) s)"

inductive sb_step :: "sb_system \<Rightarrow> sb_system \<Rightarrow> bool" where
  call_insert: "sy_pc s t = Outside \<Longrightarrow> sb_step s (goto t (SlotsWait item) s)"
| slots_wait: "sy_pc s t = SlotsWait item \<Longrightarrow> Sem_wait (sb_slots (sy_buf s)) = Some slots \<Longrightarrow>
    sb_step s (goto t (Push item) (s\<lparr>sy_buf := (sy_buf s)\<lparr>sb_slots := slots\<rparr>\<rparr>))"
| slots_sleep: "sy_pc s t = SlotsWait item \<Longrightarrow> Sem_wait (sb_slots (sy_buf s)) = None \<Longrightarrow>
    sb_step s (goto t (SlotsSleep item) s)"
| push: "sy_pc s t = Push item \<Longrightarrow>
    sb_step s (goto t ItemsPost
      (s\<lparr>sy_buf := SharedBuf_push item (sy_buf s), sy_pushed := sy_pushed s @ [item]\<rparr>))"
| items_post: "sy_pc s t = ItemsPost \<Longrightarrow>
    notified (\<lambda>pc. pc = ItemsSleep) (goto t Outside
      (s\<lparr>sy_buf := (sy_buf s)\<lparr>sb_items := Sem_post (sb_items (sy_buf s))\<rparr>\<rparr>)) s' \<Longrightarrow>
    sb_step s s'"
| call_remove: "sy_pc s t = Outside \<Longrightarrow> sb_step s (goto t ItemsWait s)"
| items_wait: "sy_pc s t = ItemsWait \<Longrightarrow> Sem_wait (sb_items (sy_buf s)) = Some items \<Longrightarrow>
    sb_step s (goto t Pop (s\<lparr>sy_buf := (sy_buf s)\<lparr>sb_items := items\<rparr>\<rparr>))"
| items_sleep: "sy_pc s t = ItemsWait \<Longrightarrow> Sem_wait (sb_items (sy_buf s)) = None \<Longrightarrow>
    sb_step s (goto t ItemsSleep s)"
| pop: "sy_pc s t = Pop \<Longrightarrow> SharedBuf_pop (sy_buf s) = Inr (item, b) \<Longrightarrow>
    sb_step s (goto t (SlotsPost item) (s\<lparr>sy_buf := b, sy_popped := sy_popped s @ [item]\<rparr>))"
| pop_fault: "sy_pc s t = Pop \<Longrightarrow> SharedBuf_pop (sy_buf s) = Inl e \<Longrightarrow>
    sb_step s (s\<lparr>sy_fault := True\<rparr>)"
| slots_post: "sy_pc s t = SlotsPost item \<Longrightarrow>
    notified asleep_slots (goto t Outside
      (s\<lparr>sy_buf := (sy_buf s)\<lparr>sb_slots := Sem_post (sb_slots (sy_buf s))\<rparr>\<rparr>)) s' \<Longrightarrow>
    sb_step s s'"
| spurious: "wake (sy_pc s t) \<noteq> sy_pc s t \<Longrightarrow> sb_step s (goto t (wake (sy_pc s t)) s)"

inductive_cases notifiedE: "notified asleep s s'"
inductive_cases sb_stepE: "sb_step s s'"

definition sb_start :: "sb_system \<Rightarrow> bool" where
  "sb_start s \<longleftrightarrow> (\<exists>n \<ge> 0. sy_buf s = SharedBuf_new n) \<and> (\<forall>t. sy_pc s t = Outside)
     \<and> sy_pushed s = [] \<and> sy_popped s = [] \<and> \<not> sy_fault s"

section \<open>Invariant\<close>

definition num :: "(sb_pc \<Rightarrow> bool) \<Rightarrow> (nat \<Rightarrow> sb_pc) \<Rightarrow> int" where
  "num P f = int (card {t. P (f t)})"

definition few :: "(nat \<Rightarrow> sb_pc) \<Rightarrow> bool" where
  "few f \<longleftrightarrow> finite {t. f t \<noteq> Outside}"

lemma few_update [simp]: "few f \<Longrightarrow> few (f(t := pc))"
proof -
  assume "few f"
  moreover have "{u. (f(t := pc)) u \<noteq> Outside} \<subseteq> insert t {u. f u \<noteq> Outside}" by auto
  ultimately show ?thesis unfolding few_def by (meson finite.insertI finite_subset)
qed

lemma finite_pc: "few f \<Longrightarrow> \<not> P Outside \<Longrightarrow> finite {t. P (f t)}"
  unfolding few_def by (erule rev_finite_subset) auto

lemma num_update:
  assumes "few f" "\<not> P Outside"
  shows "num P (f(t := pc)) = num P f - (if P (f t) then 1 else 0) + (if P pc then 1 else 0)"
proof -
  define A where "A = {u. P (f u)} - {t}"
  have A: "finite A" "t \<notin> A" using finite_pc [of f P, OF assms] by (auto simp: A_def)
  have "{u. P ((f(t := pc)) u)} = (if P pc then insert t A else A)" by (auto simp: A_def)
  moreover have "{u. P (f u)} = (if P (f t) then insert t A else A)" by (auto simp: A_def)
  ultimately show ?thesis unfolding num_def using A by simp
qed

lemma num_zero: "few f \<Longrightarrow> \<not> P Outside \<Longrightarrow> num P f = 0 \<longleftrightarrow> (\<forall>t. \<not> P (f t))"
  using finite_pc [of f P] by (simp add: num_def)

lemma num_nonneg [simp]: "0 \<le> num P f"
  by (simp add: num_def)

lemma num_pos: "few f \<Longrightarrow> \<not> P Outside \<Longrightarrow> P (f t) \<Longrightarrow> 0 < num P f"
  using num_zero [of f P] num_nonneg [of P f] by (metis order_le_less)

fun in_slots_wait :: "sb_pc \<Rightarrow> bool" where
  "in_slots_wait (SlotsWait x) = True"
| "in_slots_wait pc = False"

fun in_push :: "sb_pc \<Rightarrow> bool" where
  "in_push (Push x) = True"
| "in_push pc = False"

fun in_slots_post :: "sb_pc \<Rightarrow> bool" where
  "in_slots_post (SlotsPost x) = True"
| "in_slots_post pc = False"

text \<open>
  Every slot of the capacity is free, promised to a producer, filled or about to be given back;
  every item is counted, about to be counted or promised to a consumer. A thread sleeps only
  while as many threads are about to test the count as there are units to take.
\<close>

definition sb_inv :: "sb_system \<Rightarrow> bool" where
  "sb_inv s \<longleftrightarrow> few (sy_pc s)
     \<and> sem_count (sb_slots (sy_buf s)) + num in_push (sy_pc s) + int (length (sb_buf (sy_buf s)))
         + num in_slots_post (sy_pc s) = sb_capacity (sy_buf s)
     \<and> int (length (sb_buf (sy_buf s))) = sem_count (sb_items (sy_buf s))
         + num (\<lambda>pc. pc = ItemsPost) (sy_pc s) + num (\<lambda>pc. pc = Pop) (sy_pc s)
     \<and> 0 \<le> sem_count (sb_slots (sy_buf s)) \<and> 0 \<le> sem_count (sb_items (sy_buf s))
     \<and> sy_pushed s = sy_popped s @ sb_buf (sy_buf s) \<and> \<not> sy_fault s
     \<and> (num asleep_slots (sy_pc s) > 0 \<longrightarrow>
          sem_count (sb_slots (sy_buf s)) \<le> num in_slots_wait (sy_pc s))
     \<and> (num (\<lambda>pc. pc = ItemsSleep) (sy_pc s) > 0 \<longrightarrow>
          sem_count (sb_items (sy_buf s)) \<le> num (\<lambda>pc. pc = ItemsWait) (sy_pc s))"

lemmas sb_unfold = sb_inv_def goto_def Sem_wait_def Sem_post_def SharedBuf_push_def SharedBuf_pop_def

lemma sb_inv_start: "sb_start s \<Longrightarrow> sb_inv s"
proof -
  assume start: "sb_start s"
  then have out: "sy_pc s = (\<lambda>t. Outside)" by (auto simp: sb_start_def)
  have "num P (\<lambda>t. Outside) = 0" if "\<not> P Outside" for P using that by (simp add: num_def)
  then show ?thesis using start
    by (auto simp: sb_inv_def sb_start_def out few_def SharedBuf_new_def Sem_new_def)
qed

lemma sleeping_pcs: "asleep_slots pc \<Longrightarrow> \<exists>x. pc = SlotsSleep x"
  by (cases pc) auto

lemma notified_slots:
  assumes "notified asleep_slots s s'" "few (sy_pc s)"
    and "num asleep_slots (sy_pc s) > 0 \<longrightarrow> c \<le> num in_slots_wait (sy_pc s) + 1"
  shows "few (sy_pc s')" "sy_buf s' = sy_buf s" "sy_pushed s' = sy_pushed s"
    "sy_popped s' = sy_popped s" "sy_fault s' = sy_fault s"
    "num in_push (sy_pc s') = num in_push (sy_pc s)"
    "num in_slots_post (sy_pc s') = num in_slots_post (sy_pc s)"
    "num (\<lambda>pc. pc = ItemsPost) (sy_pc s') = num (\<lambda>pc. pc = ItemsPost) (sy_pc s)"
    "num (\<lambda>pc. pc = Pop) (sy_pc s') = num (\<lambda>pc. pc = Pop) (sy_pc s)"
    "num (\<lambda>pc. pc = ItemsSleep) (sy_pc s') = num (\<lambda>pc. pc = ItemsSleep) (sy_pc s)"
    "num (\<lambda>pc. pc = ItemsWait) (sy_pc s') = num (\<lambda>pc. pc = ItemsWait) (sy_pc s)"
    "num asleep_slots (sy_pc s') > 0 \<longrightarrow> c \<le> num in_slots_wait (sy_pc s')"
  using assms num_zero [of "sy_pc s" asleep_slots]
  by (auto elim!: notifiedE simp: goto_def num_update dest!: sleeping_pcs)

lemma notified_items:
  assumes "notified (\<lambda>pc. pc = ItemsSleep) s s'" "few (sy_pc s)"
    and "num (\<lambda>pc. pc = ItemsSleep) (sy_pc s) > 0 \<longrightarrow> c \<le> num (\<lambda>pc. pc = ItemsWait) (sy_pc s) + 1"
  shows "few (sy_pc s')" "sy_buf s' = sy_buf s" "sy_pushed s' = sy_pushed s"
    "sy_popped s' = sy_popped s" "sy_fault s' = sy_fault s"
    "num in_push (sy_pc s') = num in_push (sy_pc s)"
    "num in_slots_post (sy_pc s') = num in_slots_post (sy_pc s)"
    "num (\<lambda>pc. pc = ItemsPost) (sy_pc s') = num (\<lambda>pc. pc = ItemsPost) (sy_pc s)"
    "num (\<lambda>pc. pc = Pop) (sy_pc s') = num (\<lambda>pc. pc = Pop) (sy_pc s)"
    "num asleep_slots (sy_pc s') = num asleep_slots (sy_pc s)"
    "num in_slots_wait (sy_pc s') = num in_slots_wait (sy_pc s)"
    "num (\<lambda>pc. pc = ItemsSleep) (sy_pc s') > 0 \<longrightarrow> c \<le> num (\<lambda>pc. pc = ItemsWait) (sy_pc s')"
  using assms num_zero [of "sy_pc s" "\<lambda>pc. pc = ItemsSleep"]
  by (auto elim!: notifiedE simp: goto_def num_update)

lemma sb_inv_post_slots:
  assumes "sb_inv s" "sy_pc s t = SlotsPost item"
    "notified asleep_slots (goto t Outside
      (s\<lparr>sy_buf := (sy_buf s)\<lparr>sb_slots := Sem_post (sb_slots (sy_buf s))\<rparr>\<rparr>)) s'"
  shows "sb_inv s'"
proof -
  let ?m = "goto t Outside (s\<lparr>sy_buf := (sy_buf s)\<lparr>sb_slots := Sem_post (sb_slots (sy_buf s))\<rparr>\<rparr>)"
  have few: "few (sy_pc s)" using assms(1) by (simp add: sb_inv_def)
  note upd = num_update [OF few]
  have m: "few (sy_pc ?m)" "num asleep_slots (sy_pc ?m) > 0 \<longrightarrow>
      sem_count (sb_slots (sy_buf s)) + 1 \<le> num in_slots_wait (sy_pc ?m) + 1"
    using assms(1,2) few by (auto simp: sb_unfold upd)
  show ?thesis
    using assms(1,2) notified_slots [OF assms(3) m] few by (simp add: sb_unfold upd)
qed

lemma sb_inv_post_items:
  assumes "sb_inv s" "sy_pc s t = ItemsPost"
    "notified (\<lambda>pc. pc = ItemsSleep) (goto t Outside
      (s\<lparr>sy_buf := (sy_buf s)\<lparr>sb_items := Sem_post (sb_items (sy_buf s))\<rparr>\<rparr>)) s'"
  shows "sb_inv s'"
proof -
  let ?m = "goto t Outside (s\<lparr>sy_buf := (sy_buf s)\<lparr>sb_items := Sem_post (sb_items (sy_buf s))\<rparr>\<rparr>)"
  have few: "few (sy_pc s)" using assms(1) by (simp add: sb_inv_def)
  note upd = num_update [OF few]
  have m: "few (sy_pc ?m)" "num (\<lambda>pc. pc = ItemsSleep) (sy_pc ?m) > 0 \<longrightarrow>
      sem_count (sb_items (sy_buf s)) + 1 \<le> num (\<lambda>pc. pc = ItemsWait) (sy_pc ?m) + 1"
    using assms(1,2) few by (auto simp: sb_unfold upd)
  show ?thesis
    using assms(1,2) notified_items [OF assms(3) m] few by (simp add: sb_unfold upd)
qed

text \<open>The steps that move one thread.\<close>

lemma sb_inv_pop:
  assumes "sb_inv s" "sy_pc s t = Pop"
  obtains item rest where "SharedBuf_pop (sy_buf s) = Inr (item, (sy_buf s)\<lparr>sb_buf := rest\<rparr>)"
    "sb_buf (sy_buf s) = item # rest"
proof -
  have "0 < num (\<lambda>pc. pc = Pop) (sy_pc s)"
    using assms num_pos [of "sy_pc s" "\<lambda>pc. pc = Pop" t] by (simp add: sb_inv_def)
  then have "0 < length (sb_buf (sy_buf s))"
    using assms(1) num_nonneg [of "\<lambda>pc. pc = ItemsPost" "sy_pc s"] unfolding sb_inv_def by linarith
  then show thesis using that by (cases "sb_buf (sy_buf s)") (auto simp: SharedBuf_pop_def)
qed

lemma wake_cases: "wake pc \<noteq> pc \<Longrightarrow> (\<exists>x. pc = SlotsSleep x) \<or> pc = ItemsSleep"
  by (cases pc) auto

lemma sb_inv_step:
  assumes inv: "sb_inv s" and step: "sb_step s s'"
  shows "sb_inv s'"
proof -
  have few: "few (sy_pc s)" using inv by (simp add: sb_inv_def)
  note upd = num_update [OF few]
  note pos = num_nonneg [of in_slots_wait "sy_pc s"] num_nonneg [of "\<lambda>pc. pc = ItemsWait" "sy_pc s"]
  from step show ?thesis
  proof (cases rule: sb_step.cases)
    case (items_post t)
    then show ?thesis using inv by (rule_tac sb_inv_post_items)
  next
    case (slots_post t item)
    then show ?thesis using inv by (rule_tac sb_inv_post_slots)
  next
    case (pop t item b)
    with inv obtain rest where "b = (sy_buf s)\<lparr>sb_buf := rest\<rparr>" "sb_buf (sy_buf s) = item # rest"
      by (elim sb_inv_pop [of s t]) auto
    with pop inv few show ?thesis by (simp add: sb_unfold upd)
  next
    case (pop_fault t e)
    with inv show ?thesis by (elim sb_inv_pop [of s t]) auto
  next
    case (spurious t)
    from wake_cases [OF this(2)] show ?thesis
    proof (elim disjE exE)
      fix x
      assume "sy_pc s t = SlotsSleep x"
      with spurious(1) inv few num_pos [OF few, of asleep_slots t] show ?thesis
        by (simp add: sb_unfold upd)
    next
      assume "sy_pc s t = ItemsSleep"
      with spurious(1) inv few num_pos [OF few, of "\<lambda>pc. pc = ItemsSleep" t] show ?thesis
        by (simp add: sb_unfold upd)
    qed
  next
    case (slots_wait t item slots)
    then show ?thesis using inv few pos unfolding sb_unfold
      by (clarsimp simp: upd split: if_split_asm)
  next
    case (items_wait t items)
    then show ?thesis using inv few pos unfolding sb_unfold
      by (clarsimp simp: upd split: if_split_asm)
  next
    case (slots_sleep t item)
    then show ?thesis using inv few num_pos [OF few, of in_slots_wait t] unfolding sb_unfold
      by (clarsimp simp: upd split: if_split_asm)
  next
    case (items_sleep t)
    then show ?thesis using inv few num_pos [OF few, of "\<lambda>pc. pc = ItemsWait" t] unfolding sb_unfold
      by (clarsimp simp: upd split: if_split_asm)
  next
    case (push t item)
    with inv few pos show ?thesis by (simp add: sb_unfold upd)
  qed (use inv few pos in \<open>clarsimp simp: sb_unfold upd\<close>)+
qed

interpretation shared: step_invariant sb_start sb_step sb_inv
  using sb_inv_start sb_inv_step by unfold_locales

section \<open>Properties\<close>

text \<open>
  C29. Whatever the interleaving of any number of producers and consumers, the buffer never holds more
  than its capacity, \<open>front()\<close> is never called on an empty deque, items come out exactly once and
  in the order they went in, and a thread sleeps on a semaphore with a positive count only while
  another thread is about to take it.
\<close>

theorem shared_buffer_safe:
  assumes "reachable sb_start sb_step s"
  shows "int (length (sb_buf (sy_buf s))) \<le> sb_capacity (sy_buf s) \<and> \<not> sy_fault s
    \<and> (\<forall>t. sy_pc s t = Pop \<longrightarrow> sb_buf (sy_buf s) \<noteq> [])
    \<and> sy_pushed s = sy_popped s @ sb_buf (sy_buf s)
    \<and> (\<forall>t x. sy_pc s t = SlotsSleep x \<and> sem_count (sb_slots (sy_buf s)) > 0 \<longrightarrow>
         (\<exists>u y. sy_pc s u = SlotsWait y))
    \<and> (\<forall>t. sy_pc s t = ItemsSleep \<and> sem_count (sb_items (sy_buf s)) > 0 \<longrightarrow>
         (\<exists>u. sy_pc s u = ItemsWait))"
proof (intro conjI allI impI; (elim conjE)?)
  have inv: "sb_inv s" using assms by (rule shared.reachable_inv)
  then have few: "few (sy_pc s)" by (simp add: sb_inv_def)
  show "int (length (sb_buf (sy_buf s))) \<le> sb_capacity (sy_buf s)"
    using inv num_nonneg [of in_push "sy_pc s"] num_nonneg [of in_slots_post "sy_pc s"]
    unfolding sb_inv_def by linarith
  show "\<not> sy_fault s" "sy_pushed s = sy_popped s @ sb_buf (sy_buf s)"
    using inv by (simp_all add: sb_inv_def)
  show "sb_buf (sy_buf s) \<noteq> []" if "sy_pc s t = Pop" for t
    using sb_inv_pop [OF inv that] by (metis list.distinct(1))
  show "\<exists>u y. sy_pc s u = SlotsWait y"
    if "sy_pc s t = SlotsSleep x" "sem_count (sb_slots (sy_buf s)) > 0" for t x
  proof (rule ccontr)
    assume "\<nexists>u y. sy_pc s u = SlotsWait y"
    then have "\<not> in_slots_wait (sy_pc s u)" for u by (cases "sy_pc s u") auto
    then have "num in_slots_wait (sy_pc s) = 0" using few by (simp add: num_zero)
    then show False using inv that num_pos [OF few, of asleep_slots t] by (simp add: sb_inv_def)
  qed
  show "\<exists>u. sy_pc s u = ItemsWait"
    if "sy_pc s t = ItemsSleep" "sem_count (sb_items (sy_buf s)) > 0" for t
  proof (rule ccontr)
    assume "\<nexists>u. sy_pc s u = ItemsWait"
    then have "num (\<lambda>pc. pc = ItemsWait) (sy_pc s) = 0" using few by (simp add: num_zero)
    then show False using inv that num_pos [OF few, of "\<lambda>pc. pc = ItemsSleep" t]
      by (simp add: sb_inv_def)
  qed
qed

text \<open>
  C30. Producers and consumers cannot block each other: when every thread is outside or asleep, the
  sleeping producers face a full buffer and the sleeping consumers an empty one; so with a positive
  capacity not both kinds are asleep.
\<close>

theorem shared_buffer_no_deadlock:
  assumes "reachable sb_start sb_step s"
    and "\<And>t. sy_pc s t = Outside \<or> asleep_slots (sy_pc s t) \<or> sy_pc s t = ItemsSleep"
  shows "(\<forall>t. asleep_slots (sy_pc s t) \<longrightarrow>
        int (length (sb_buf (sy_buf s))) = sb_capacity (sy_buf s))
    \<and> (\<forall>t. sy_pc s t = ItemsSleep \<longrightarrow> sb_buf (sy_buf s) = [])
    \<and> (sb_capacity (sy_buf s) > 0 \<longrightarrow>
        (\<forall>t. sy_pc s t \<noteq> ItemsSleep) \<or> (\<forall>t. \<not> asleep_slots (sy_pc s t)))"
proof -
  have inv: "sb_inv s" using assms(1) by (rule shared.reachable_inv)
  then have few: "few (sy_pc s)" by (simp add: sb_inv_def)
  have zero: "num P (sy_pc s) = 0"
    if "\<not> P Outside" "\<not> P ItemsSleep" "\<And>x. \<not> P (SlotsSleep x)" for P
  proof -
    have "\<not> P (sy_pc s t)" for t using assms(2) [of t] sleeping_pcs [of "sy_pc s t"] that by auto
    then show ?thesis using few that(1) by (simp add: num_zero)
  qed
  have full: "int (length (sb_buf (sy_buf s))) = sb_capacity (sy_buf s)"
    if "asleep_slots (sy_pc s t)" for t
    using inv that num_pos [OF few, of asleep_slots t] by (simp add: sb_inv_def zero)
  have empty: "sb_buf (sy_buf s) = []" if "sy_pc s t = ItemsSleep" for t
  proof -
    have "int (length (sb_buf (sy_buf s))) \<le> 0"
      using inv that num_pos [OF few, of "\<lambda>pc. pc = ItemsSleep" t] by (simp add: sb_inv_def zero)
    then show ?thesis by simp
  qed
  from full empty show ?thesis by fastforce
qed

text \<open>One producer puts 7 into a buffer of one slot and sleeps in its second call.\<close>

definition sb_demo :: "nat \<Rightarrow> sb_system" where
  "sb_demo k =
     \<lparr>sy_buf = \<lparr>sb_buf = (if k < 3 then [] else [7]), sb_capacity = 1,
        sb_slots = \<lparr>sem_count = (if k < 2 then 1 else 0)\<rparr>,
        sb_items = \<lparr>sem_count = (if k < 4 then 0 else 1)\<rparr>\<rparr>,
      sy_pc = (\<lambda>t. Outside)(0 := [Outside, SlotsWait 7, Push 7, ItemsPost, Outside, SlotsWait 8, SlotsSleep 8] ! k),
      sy_pushed = (if k < 3 then [] else [7]), sy_popped = [], sy_fault = False\<rparr>"

lemma sb_demo_reachable: "reachable sb_start sb_step (sb_demo 6)"
proof -
  have r0: "reachable sb_start sb_step (sb_demo 0)"
    by (rule reachable_start)
      (auto simp: sb_start_def sb_demo_def SharedBuf_new_def Sem_new_def intro: exI [of _ 1])
  have "sb_step (sb_demo 0) (sb_demo 1)"
    using call_insert [of "sb_demo 0" 0 7] by (simp add: sb_demo_def goto_def)
  note r1 = reachable_step [OF r0 this]
  have "sb_step (sb_demo 1) (sb_demo 2)"
    using slots_wait [of "sb_demo 1" 0 7] by (simp add: sb_demo_def goto_def Sem_wait_def)
  note r2 = reachable_step [OF r1 this]
  have "sb_step (sb_demo 2) (sb_demo 3)"
    using push [of "sb_demo 2" 0 7] by (simp add: sb_demo_def goto_def SharedBuf_push_def)
  note r3 = reachable_step [OF r2 this]
  have "sb_step (sb_demo 3) (sb_demo 4)"
    by (rule items_post [of _ 0], simp add: sb_demo_def)
      (use nobody [of "\<lambda>pc. pc = ItemsSleep" "sb_demo 4"] in \<open>simp add: sb_demo_def goto_def Sem_post_def\<close>)
  note r4 = reachable_step [OF r3 this]
  have "sb_step (sb_demo 4) (sb_demo 5)"
    using call_insert [of "sb_demo 4" 0 8] by (simp add: sb_demo_def goto_def)
  note r5 = reachable_step [OF r4 this]
  have "sb_step (sb_demo 5) (sb_demo 6)"
    using slots_sleep [of "sb_demo 5" 0 8] by (simp add: sb_demo_def goto_def Sem_wait_def)
  then show ?thesis by (rule reachable_step [OF r5])
qed

theorem shared_buffer_safe_witness:
  "sb_buf (sy_buf (sb_demo 6)) = [7] \<and> sy_pushed (sb_demo 6) = sy_popped (sb_demo 6) @ [7]"
  using shared_buffer_safe [OF sb_demo_reachable] by (simp add: sb_demo_def)

theorem shared_buffer_no_deadlock_witness:
  "asleep_slots (sy_pc (sb_demo 6) 0)
   \<and> int (length (sb_buf (sy_buf (sb_demo 6)))) = sb_capacity (sy_buf (sb_demo 6))"
  using shared_buffer_no_deadlock [OF sb_demo_reachable] by (auto simp: sb_demo_def)

end
