(* ===== verification/EventLoopThreadPool.thy ===== *)
theory EventLoopThreadPool
  imports EventLoop
begin

text \<open>
  \<^verbatim>\<open>src/EventLoopThread.cpp\<close>, \<^verbatim>\<open>src/EventLoopThreadPool.cpp\<close> and their headers: threads that run a loop each,
  and the pool that hands out their loops in turn. Starting a thread is a protocol between the
  starting and the new thread over a mutex and a condition variable; it is a step relation, one
  step per critical section, with the temporary \<open>EventLoopThread\<close> of \<open>EventLoopThreadPool::run\<close> and
  its destructor.
\<close>

section \<open>Handing out loops\<close>

record EventLoopThreadPool =
  pl_mainLoop :: nat
  pl_mainThread :: nat   \<comment> \<open>the thread of the main loop\<close>
  pl_numThreads :: nat
  pl_nextIndex :: nat
  pl_started :: bool
  pl_loops :: "nat list"

definition EventLoopThreadPool_new :: "nat \<Rightarrow> nat \<Rightarrow> nat \<Rightarrow> EventLoopThreadPool" where
  "EventLoopThreadPool_new loop thread numThreads =
     \<lparr>pl_mainLoop = loop, pl_mainThread = thread, pl_numThreads = numThreads, pl_nextIndex = 0,
      pl_started = False, pl_loops = []\<rparr>"

definition EventLoopThreadPool_nextLoop ::
  "nat \<Rightarrow> EventLoopThreadPool \<Rightarrow> (nat \<times> EventLoopThreadPool) result" where
  "EventLoopThreadPool_nextLoop me p =
     bind_result (in_loop_thread me (pl_mainThread p)) (\<lambda>_.
     if pl_loops p \<noteq> [] then
       if pl_nextIndex p < length (pl_loops p) then
         (let nextLoop = pl_loops p ! pl_nextIndex p;
              nextIndex = size_add (pl_nextIndex p) 1
          in Inr (nextLoop,
               p\<lparr>pl_nextIndex := (if nextIndex = length (pl_loops p) then 0 else nextIndex)\<rparr>))
       else Inl OutOfBounds
     else Inr (pl_mainLoop p, p))"

fun next_loops :: "nat \<Rightarrow> nat \<Rightarrow> EventLoopThreadPool \<Rightarrow> (nat list \<times> EventLoopThreadPool) result" where
  "next_loops 0 me p = Inr ([], p)"
| "next_loops (Suc k) me p =
     bind_result (EventLoopThreadPool_nextLoop me p) (\<lambda>(l, p).
     bind_result (next_loops k me p) (\<lambda>(ls, p). Inr (l # ls, p)))"

lemma nextLoop_exact:
  assumes "pl_loops p \<noteq> []" "pl_nextIndex p < length (pl_loops p)" "length (pl_loops p) < 2 ^ 64"
  shows "EventLoopThreadPool_nextLoop (pl_mainThread p) p
    = Inr (pl_loops p ! pl_nextIndex p,
           p\<lparr>pl_nextIndex := Suc (pl_nextIndex p) mod length (pl_loops p)\<rparr>)"
proof -
  have "size_add (pl_nextIndex p) 1 = Suc (pl_nextIndex p)" using assms by (simp add: size_add_small)
  then show ?thesis using assms
    by (simp add: EventLoopThreadPool_nextLoop_def in_loop_thread_def Let_def)
qed

text \<open>
  Any number of successive calls of \<open>nextLoop\<close> in the main thread fails no assertion, goes round the
  loops of the pool from the current index, each once per round and in order, and gives the main loop when
  the pool has no loops. Only the index changes, and it stays in range.
\<close>

theorem nextLoop_round_robin:
  assumes "length (pl_loops p) < 2 ^ 64" "pl_loops p \<noteq> [] \<Longrightarrow> pl_nextIndex p < length (pl_loops p)"
  shows "next_loops k (pl_mainThread p) p =
    (if pl_loops p = [] then Inr (replicate k (pl_mainLoop p), p)
     else Inr (map (\<lambda>i. pl_loops p ! ((pl_nextIndex p + i) mod length (pl_loops p))) [0..<k],
               p\<lparr>pl_nextIndex := (pl_nextIndex p + k) mod length (pl_loops p)\<rparr>))"
  using assms
proof (induction k arbitrary: p)
  case 0
  then show ?case by simp
next
  case (Suc k)
  show ?case
  proof (cases "pl_loops p = []")
    case True
    with Suc.IH [of p] Suc.prems show ?thesis
      by (simp add: EventLoopThreadPool_nextLoop_def in_loop_thread_def)
  next
    case False
    let ?n = "length (pl_loops p)"
    let ?p = "p\<lparr>pl_nextIndex := Suc (pl_nextIndex p) mod ?n\<rparr>"
    have "next_loops k (pl_mainThread p) ?p
        = Inr (map (\<lambda>i. pl_loops p ! ((Suc (pl_nextIndex p) mod ?n + i) mod ?n)) [0..<k],
               p\<lparr>pl_nextIndex := (Suc (pl_nextIndex p) mod ?n + k) mod ?n\<rparr>)"
      using Suc.IH [of ?p] Suc.prems False by simp
    moreover have "(Suc (pl_nextIndex p) mod ?n + i) mod ?n = (pl_nextIndex p + Suc i) mod ?n" for i
      by (metis add_Suc_shift mod_add_left_eq)
    moreover have "map f [0..<Suc k] = f 0 # map (\<lambda>i. f (Suc i)) [0..<k]" for f :: "nat \<Rightarrow> nat"
      by (simp add: upt_conv_Cons map_Suc_upt [symmetric] del: upt_Suc)
    ultimately show ?thesis using Suc.prems False by (simp add: nextLoop_exact del: upt_Suc)
  qed
qed

theorem nextLoop_round_robin_witness:
  "next_loops 5 1 \<lparr>pl_mainLoop = 10, pl_mainThread = 1, pl_numThreads = 3, pl_nextIndex = 1,
      pl_started = True, pl_loops = [20, 30, 40]\<rparr>
   = Inr ([30, 40, 20, 30, 40], \<lparr>pl_mainLoop = 10, pl_mainThread = 1, pl_numThreads = 3,
      pl_nextIndex = 0, pl_started = True, pl_loops = [20, 30, 40]\<rparr>)"
  using nextLoop_round_robin [of "\<lparr>pl_mainLoop = 10, pl_mainThread = 1, pl_numThreads = 3,
      pl_nextIndex = 1, pl_started = True, pl_loops = [20, 30, 40]\<rparr>" 5]
  by (simp add: upt_rec)

section \<open>Starting threads\<close>

text \<open>
  Where \<open>EventLoopThreadPool::run\<close> is: at the head of its loop, in \<open>start\<close> testing \<open>_loop\<close> under the
  mutex or asleep on the condition variable, in the destructor of the temporary, or at its end.
  The new thread creates its loop object, publishes and runs it, and destroys it at the end.
\<close>

datatype run_pc = AtHead | Testing | Sleeping | Joining nat | Finished

datatype thread_pc = NoThread | Creating | Looping nat | Ended

record EventLoopThread =
  et_loop :: "nat option"
  et_started :: bool
  et_thread :: thread_pc

definition EventLoopThread_new :: EventLoopThread where
  "EventLoopThread_new = \<lparr>et_loop = None, et_started = False, et_thread = NoThread\<rparr>"

record pool_system =
  ps_pool :: EventLoopThreadPool
  ps_pc :: run_pc
  ps_temp :: EventLoopThread
  ps_live :: "nat set"   \<comment> \<open>addresses of the \<open>EventLoop\<close> objects that exist\<close>

definition ELThread_start :: "EventLoopThread \<Rightarrow> EventLoopThread result" where
  "ELThread_start e =
     bind_result (assert_that (\<not> et_started e)) (\<lambda>_. Inr (e\<lparr>et_thread := Creating\<rparr>))"

definition ELThread_publish :: "nat \<Rightarrow> EventLoopThread \<Rightarrow> EventLoopThread" where
  "ELThread_publish a e = e\<lparr>et_loop := Some a, et_thread := Looping a\<rparr>"

text \<open>The destructor returns when there is no thread to join or the thread has ended.\<close>

definition ELThread_delete :: "EventLoopThread \<Rightarrow> bool" where
  "ELThread_delete e \<longleftrightarrow> (if et_thread e \<noteq> NoThread then et_thread e = Ended else True)"

definition Pool_enter :: "nat \<Rightarrow> EventLoopThreadPool \<Rightarrow> EventLoopThreadPool result" where
  "Pool_enter me p =
     bind_result (assert_that (\<not> pl_started p)) (\<lambda>_.
     bind_result (in_loop_thread me (pl_mainThread p)) (\<lambda>_. Inr (p\<lparr>pl_started := True\<rparr>)))"

inductive pool_step :: "pool_system \<Rightarrow> pool_system \<Rightarrow> bool" where
  new_thread: "ps_pc s = AtHead \<Longrightarrow> length (pl_loops (ps_pool s)) < pl_numThreads (ps_pool s) \<Longrightarrow>
    ELThread_start EventLoopThread_new = Inr e \<Longrightarrow> pool_step s (s\<lparr>ps_pc := Testing, ps_temp := e\<rparr>)"
| publish: "et_thread (ps_temp s) = Creating \<Longrightarrow> a \<notin> ps_live s \<Longrightarrow>
    pool_step s (s\<lparr>ps_temp := ELThread_publish a (ps_temp s), ps_live := insert a (ps_live s),
      ps_pc := (if ps_pc s = Sleeping then Testing else ps_pc s)\<rparr>)"
| loop_ends: "et_thread (ps_temp s) = Looping a \<Longrightarrow>
    pool_step s (s\<lparr>ps_temp := (ps_temp s)\<lparr>et_thread := Ended\<rparr>, ps_live := ps_live s - {a}\<rparr>)"
| test_null: "ps_pc s = Testing \<Longrightarrow> et_loop (ps_temp s) = None \<Longrightarrow>
    pool_step s (s\<lparr>ps_pc := Sleeping\<rparr>)"
| test_loop: "ps_pc s = Testing \<Longrightarrow> et_loop (ps_temp s) = Some a \<Longrightarrow>
    pool_step s (s\<lparr>ps_pc := Joining a\<rparr>)"
| woken: "ps_pc s = Sleeping \<Longrightarrow> pool_step s (s\<lparr>ps_pc := Testing\<rparr>)"
| join: "ps_pc s = Joining a \<Longrightarrow> ELThread_delete (ps_temp s) \<Longrightarrow>
    pool_step s (s\<lparr>ps_pc := AtHead,
      ps_pool := (ps_pool s)\<lparr>pl_loops := pl_loops (ps_pool s) @ [a]\<rparr>\<rparr>)"
| run_ends: "ps_pc s = AtHead \<Longrightarrow> \<not> length (pl_loops (ps_pool s)) < pl_numThreads (ps_pool s) \<Longrightarrow>
    pool_step s (s\<lparr>ps_pc := Finished\<rparr>)"

inductive_cases pool_stepE: "pool_step s s'"

definition pool_start :: "pool_system \<Rightarrow> bool" where
  "pool_start s \<longleftrightarrow> (\<exists>n loop thread. Pool_enter thread (EventLoopThreadPool_new loop thread n)
       = Inr (ps_pool s) \<and> ps_live s = {loop})
     \<and> ps_pc s = AtHead \<and> ps_temp s = EventLoopThread_new"

definition pool_inv :: "pool_system \<Rightarrow> bool" where
  "pool_inv s \<longleftrightarrow>
     ps_live s = insert (pl_mainLoop (ps_pool s))
         (case et_thread (ps_temp s) of Looping a \<Rightarrow> {a} | _ \<Rightarrow> {})
     \<and> (case et_thread (ps_temp s) of Looping a \<Rightarrow> a \<noteq> pl_mainLoop (ps_pool s) \<and> et_loop (ps_temp s) = Some a
        | Ended \<Rightarrow> et_loop (ps_temp s) \<noteq> None | _ \<Rightarrow> et_loop (ps_temp s) = None)
     \<and> et_loop (ps_temp s) \<noteq> Some (pl_mainLoop (ps_pool s))
     \<and> (case ps_pc s of
          AtHead \<Rightarrow> et_thread (ps_temp s) \<in> {NoThread, Ended}
        | Testing \<Rightarrow> et_thread (ps_temp s) \<noteq> NoThread
        | Sleeping \<Rightarrow> et_thread (ps_temp s) = Creating
        | Joining a \<Rightarrow> et_loop (ps_temp s) = Some a
        | Finished \<Rightarrow> et_thread (ps_temp s) \<in> {NoThread, Ended}
            \<and> length (pl_loops (ps_pool s)) = pl_numThreads (ps_pool s))
     \<and> length (pl_loops (ps_pool s)) \<le> pl_numThreads (ps_pool s)
     \<and> (ps_pc s \<in> {AtHead, Finished} \<or> length (pl_loops (ps_pool s)) < pl_numThreads (ps_pool s))
     \<and> pl_mainLoop (ps_pool s) \<notin> set (pl_loops (ps_pool s))"

lemmas pool_unfold = pool_inv_def ELThread_publish_def ELThread_start_def EventLoopThread_new_def

lemma pool_inv_step:
  assumes inv: "pool_inv s" and step: "pool_step s s'"
  shows "pool_inv s'"
  using step
proof (cases rule: pool_step.cases)
  case (publish a)
  then show ?thesis using inv
    by (cases "ps_pc s") (simp_all add: pool_unfold insert_commute, clarsimp)
next
  case (loop_ends a)
  have del: "{m, a} - {a} = {m}" if "a \<noteq> m" for m using that by auto
  from loop_ends show ?thesis using inv
    by (cases "ps_pc s") (simp_all add: pool_unfold del, (clarsimp simp: del)?)
next
  case (new_thread e)
  from new_thread(4) have "e = \<lparr>et_loop = None, et_started = False, et_thread = Creating\<rparr>"
    by (simp add: ELThread_start_def EventLoopThread_new_def)
  with new_thread(1-3) inv show ?thesis by (simp add: pool_inv_def split: thread_pc.splits)
next
  case (join a)
  then have "et_thread (ps_temp s) = Ended"
    using inv by (cases "et_thread (ps_temp s)") (auto simp: pool_inv_def ELThread_delete_def)
  then show ?thesis using inv join by (simp add: pool_unfold) blast
next
  case (test_null)
  then show ?thesis using inv by (simp add: pool_unfold split: thread_pc.splits)
next
  case (test_loop a)
  then show ?thesis using inv by (simp add: pool_unfold split: thread_pc.splits)
next
  case woken
  moreover from this inv have "et_thread (ps_temp s) = Creating" by (simp add: pool_inv_def)
  ultimately show ?thesis using inv by (simp add: pool_inv_def)
next
  case run_ends
  then show ?thesis using inv by (cases "et_thread (ps_temp s)") (simp_all add: pool_inv_def)
qed

lemma pool_inv_start: "pool_start s \<Longrightarrow> pool_inv s"
proof -
  assume start: "pool_start s"
  then obtain n loop thread where
    pool: "(EventLoopThreadPool_new loop thread n)\<lparr>pl_started := True\<rparr> = ps_pool s"
    and live: "ps_live s = {loop}"
    by (auto simp: pool_start_def Pool_enter_def EventLoopThreadPool_new_def)
  from start live show ?thesis
    by (simp add: pool_start_def pool_unfold EventLoopThreadPool_new_def pool [symmetric])
qed

interpretation pool: step_invariant pool_start pool_step pool_inv
  using pool_inv_start pool_inv_step by unfold_locales

text \<open>
  C40. In every interleaving of \<open>EventLoopThreadPool::run\<close> with the threads it starts, \<open>start\<close> sleeps only
  before the new thread has published its loop, so no wakeup is lost. But \<open>run\<close> waits in the
  destructor of the temporary until the loop has ended: while a new thread's loop runs, the pool is
  not past \<open>start\<close> and the join, and when \<open>run\<close> has finished, none of the loops it recorded
  exists any more.
\<close>

theorem pool_run_joins:
  assumes "reachable pool_start pool_step s"
  shows "(ps_pc s = Sleeping \<longrightarrow> et_loop (ps_temp s) = None)
    \<and> (\<forall>a. et_thread (ps_temp s) = Looping a \<longrightarrow> ps_pc s = Testing \<or> ps_pc s = Joining a)
    \<and> (ps_pc s = Finished \<longrightarrow> length (pl_loops (ps_pool s)) = pl_numThreads (ps_pool s)
        \<and> (\<forall>a \<in> set (pl_loops (ps_pool s)). a \<notin> ps_live s))"
proof -
  have "pool_inv s" using assms by (rule pool.reachable_inv)
  then show ?thesis
    by (cases "ps_pc s") (auto simp: pool_inv_def split: thread_pc.splits)
qed

text \<open>A pool with one thread whose loop is started and ends.\<close>

definition pool_demo :: "nat \<Rightarrow> pool_system" where
  "pool_demo k =
     \<lparr>ps_pool = \<lparr>pl_mainLoop = 10, pl_mainThread = 1, pl_numThreads = 1, pl_nextIndex = 0,
        pl_started = True, pl_loops = (if k < 5 then [] else [20])\<rparr>,
      ps_pc = [AtHead, Testing, Testing, Joining 20, Joining 20, AtHead, Finished] ! k,
      ps_temp = \<lparr>et_loop = (if k < 2 then None else Some 20), et_started = False,
        et_thread = [NoThread, Creating, Looping 20, Looping 20, Ended, Ended, Ended] ! k\<rparr>,
      ps_live = (if k = 2 \<or> k = 3 then {20, 10} else {10})\<rparr>"

lemma pool_demo_reachable: "reachable pool_start pool_step (pool_demo 6)"
proof -
  have "pool_start (pool_demo 0)"
    by (simp add: pool_start_def pool_demo_def Pool_enter_def EventLoopThreadPool_new_def
        EventLoopThread_new_def)
  then have r0: "reachable pool_start pool_step (pool_demo 0)" by (rule reachable_start)
  have "pool_step (pool_demo 0) (pool_demo 1)"
    using new_thread [of "pool_demo 0"] by (simp add: pool_demo_def pool_unfold)
  note r1 = reachable_step [OF r0 this]
  have "pool_step (pool_demo 1) (pool_demo 2)"
    using publish [of "pool_demo 1" 20] by (simp add: pool_demo_def pool_unfold)
  note r2 = reachable_step [OF r1 this]
  have "pool_step (pool_demo 2) (pool_demo 3)"
    using test_loop [of "pool_demo 2" 20] by (simp add: pool_demo_def)
  note r3 = reachable_step [OF r2 this]
  have "pool_step (pool_demo 3) (pool_demo 4)"
    using loop_ends [of "pool_demo 3" 20] by (simp add: pool_demo_def)
  note r4 = reachable_step [OF r3 this]
  have "pool_step (pool_demo 4) (pool_demo 5)"
    using join [of "pool_demo 4" 20] by (simp add: pool_demo_def ELThread_delete_def)
  note r5 = reachable_step [OF r4 this]
  have "pool_step (pool_demo 5) (pool_demo 6)"
    using run_ends [of "pool_demo 5"] by (simp add: pool_demo_def)
  then show ?thesis by (rule reachable_step [OF r5])
qed

theorem pool_run_joins_witness:
  "ps_pc (pool_demo 6) = Finished \<and> pl_loops (ps_pool (pool_demo 6)) = [20]
   \<and> 20 \<notin> ps_live (pool_demo 6)"
  using pool_run_joins [OF pool_demo_reachable] by (simp add: pool_demo_def)

end
