(* ===== verification/SocketDetail.thy ===== *)
theory SocketDetail
  imports Format "HOL-Library.Word"
begin

unbundle bit_operations_syntax

text \<open>
  \<^verbatim>\<open>src/socketDetail.cpp\<close>, \<^verbatim>\<open>src/Socket.cpp\<close>, \<^verbatim>\<open>src/InetAddr.cpp\<close> and their headers. The answers of the system
  calls are arguments; the state is the set of open descriptors, from which \<open>close\<close> removes one.
  The conversions between text and binary addresses of the C library are function arguments.
\<close>

section \<open>Wrappers\<close>

text \<open>The wrappers log an error and return it; \<open>Bind\<close>, \<open>Listen\<close> and \<open>nonblockingSocket\<close> abort.\<close>

definition sd_Socket :: "int \<Rightarrow> int set \<Rightarrow> int \<times> int set" where
  "sd_Socket answer fds = (if answer < 0 then (answer, fds) else (answer, insert answer fds))"

definition sd_Bind :: "int \<Rightarrow> int result" where
  "sd_Bind answer = (if answer < 0 then Inl Abort else Inr answer)"

definition sd_Listen :: "int \<Rightarrow> int result" where
  "sd_Listen answer = (if answer < 0 then Inl Abort else Inr answer)"

definition sd_nonblockingSocket :: "int \<Rightarrow> int set \<Rightarrow> (int \<times> int set) result" where
  "sd_nonblockingSocket answer fds =
     (let (sockfd, fds) = sd_Socket answer fds in
      if sockfd < 0 then Inl Abort else Inr (sockfd, fds))"

definition sd_Accept :: "int \<Rightarrow> int set \<Rightarrow> int \<times> int set" where
  "sd_Accept answer fds = (if answer < 0 then (answer, fds) else (answer, insert answer fds))"

text \<open>\<open>Close\<close> of \<^verbatim>\<open>src/unixUtility.cpp\<close>.\<close>

definition Close :: "int \<Rightarrow> int \<Rightarrow> int set \<Rightarrow> int \<times> int set" where
  "Close answer fd fds = (if answer < 0 then (answer, fds) else (answer, fds - {fd}))"

section \<open>Opening descriptors\<close>

text \<open>
  The answers for one entry of the list of addresses: of \<open>socket\<close>, of \<open>connect\<close> or \<open>bind\<close>, and of
  \<open>close\<close>. \<open>Inl\<close> is an early return, \<open>Inr None\<close> the end of the list.
\<close>

record addr_try =
  at_socket :: int
  at_use :: int
  at_close :: int

fun open_loop ::
  "(int \<Rightarrow> bool) \<Rightarrow> addr_try list \<Rightarrow> int set \<Rightarrow> (int + int option) \<times> int set" where
  "open_loop good [] fds = (Inr None, fds)"
| "open_loop good (p # ps) fds =
     (if at_socket p < 0 then open_loop good ps fds
      else
        (let fds = insert (at_socket p) fds in
         if good (at_use p) then (Inr (Some (at_socket p)), fds)
         else
           (let (ret, fds) = Close (at_close p) (at_socket p) fds in
            if ret < 0 then (Inl (- 1), fds) else open_loop good ps fds)))"

definition openClientFd :: "int \<Rightarrow> addr_try list \<Rightarrow> int set \<Rightarrow> int \<times> int set" where
  "openClientFd gai addrs fds =
     (if gai \<noteq> 0 then (- 2, fds)
      else
        (case open_loop (\<lambda>ret. ret \<noteq> - 1) addrs fds of
           (Inl ret, fds) \<Rightarrow> (ret, fds)
         | (Inr None, fds) \<Rightarrow> (- 1, fds)
         | (Inr (Some clientfd), fds) \<Rightarrow> (clientfd, fds)))"

definition openListenFd :: "int \<Rightarrow> addr_try list \<Rightarrow> int \<Rightarrow> int \<Rightarrow> int set \<Rightarrow> (int \<times> int set) result" where
  "openListenFd gai addrs listen_answer close_answer fds =
     (if gai \<noteq> 0 then Inr (- 2, fds)
      else
        (case open_loop (\<lambda>ret. ret = 0) addrs fds of
           (Inl ret, fds) \<Rightarrow> Inr (ret, fds)
         | (Inr None, fds) \<Rightarrow> Inr (- 1, fds)
         | (Inr (Some listenfd), fds) \<Rightarrow>
             bind_result (sd_Listen listen_answer) (\<lambda>ret.
             if ret < 0 then Inr (- 1, snd (Close close_answer listenfd fds))
             else Inr (listenfd, fds))))"

definition OpenClientFd :: "int \<Rightarrow> addr_try list \<Rightarrow> int set \<Rightarrow> int \<times> int set" where
  "OpenClientFd gai addrs fds = openClientFd gai addrs fds"

definition OpenListenFd :: "int \<Rightarrow> addr_try list \<Rightarrow> int \<Rightarrow> int \<Rightarrow> int set \<Rightarrow> (int \<times> int set) result" where
  "OpenListenFd gai addrs listen_answer close_answer fds =
     openListenFd gai addrs listen_answer close_answer fds"

section \<open>Sockets\<close>

record Socket =
  so_fd :: int

definition Socket_new :: "int \<Rightarrow> Socket" where
  "Socket_new sockfd = \<lparr>so_fd = sockfd\<rparr>"

definition Socket_delete :: "int \<Rightarrow> Socket \<Rightarrow> int set \<Rightarrow> int set" where
  "Socket_delete answer s fds = (if so_fd s \<ge> 0 then snd (Close answer (so_fd s) fds) else fds)"

text \<open>The move constructor returns the new object and the old one.\<close>

definition Socket_move :: "Socket \<Rightarrow> Socket \<times> Socket" where
  "Socket_move s = (\<lparr>so_fd = so_fd s\<rparr>, s\<lparr>so_fd := - 1\<rparr>)"

text \<open>Move assignment between two different objects.\<close>

definition Socket_assign :: "Socket \<Rightarrow> Socket \<Rightarrow> Socket \<times> Socket" where
  "Socket_assign s rhs = (s\<lparr>so_fd := so_fd rhs\<rparr>, rhs\<lparr>so_fd := - 1\<rparr>)"

definition Socket_listen :: "int \<Rightarrow> Socket \<Rightarrow> unit result" where
  "Socket_listen answer s = bind_result (sd_Listen answer) (\<lambda>_. Inr ())"

definition Socket_bindAddr :: "int \<Rightarrow> Socket \<Rightarrow> unit result" where
  "Socket_bindAddr answer s = bind_result (sd_Bind answer) (\<lambda>_. Inr ())"

section \<open>Addresses\<close>

text \<open>\<open>htons\<close> and \<open>ntohs\<close> of a little-endian machine swap the two bytes.\<close>

definition swap16 :: "16 word \<Rightarrow> 16 word" where
  "swap16 w = push_bit 8 w OR drop_bit 8 w"

record InetAddr =
  ia_family :: nat
  ia_port :: "16 word"     \<comment> \<open>in network order\<close>
  ia_addr :: "32 word"     \<comment> \<open>in network order\<close>

abbreviation AF_INET :: nat where "AF_INET \<equiv> 2"

definition InetAddr_any :: "16 word \<Rightarrow> InetAddr" where
  "InetAddr_any port = \<lparr>ia_family = AF_INET, ia_port = swap16 port, ia_addr = 0\<rparr>"

text \<open>A text that \<open>inet_pton\<close> refuses leaves the zero of \<open>memset\<close>.\<close>

definition InetAddr_new :: "(string \<Rightarrow> 32 word option) \<Rightarrow> string \<Rightarrow> 16 word \<Rightarrow> InetAddr" where
  "InetAddr_new pton ip port =
     \<lparr>ia_family = AF_INET, ia_port = swap16 port,
      ia_addr = (case pton ip of Some a \<Rightarrow> a | None \<Rightarrow> 0)\<rparr>"

definition InetAddr_toString :: "(32 word \<Rightarrow> string option) \<Rightarrow> InetAddr \<Rightarrow> string" where
  "InetAddr_toString ntop a =
     (let host = (case ntop (ia_addr a) of Some s \<Rightarrow> s | None \<Rightarrow> ''illegal'');
          port = swap16 (ia_port a)
      in host @ '':'' @ fmt_d (uint port))"

definition Socket_accept :: "int \<Rightarrow> InetAddr \<Rightarrow> InetAddr \<Rightarrow> int set \<Rightarrow> int \<times> InetAddr \<times> int set" where
  "Socket_accept answer peer returnAddr fds =
     (let (fd, fds) = sd_Accept answer fds in (fd, if fd \<ge> 0 then peer else returnAddr, fds))"

section \<open>Properties\<close>

lemma swap16_swap16 [simp]: "swap16 (swap16 w) = w"
  by (rule bit_word_eqI) (auto simp: swap16_def bit_simps)

text \<open>With fresh descriptors and successful calls of \<open>close\<close> the first usable entry is taken.\<close>

lemma open_loop_exact:
  assumes "list_all (\<lambda>p. at_socket p \<notin> fds \<and> at_close p \<ge> 0) addrs"
  shows "open_loop good addrs fds =
    (case List.find (\<lambda>p. at_socket p \<ge> 0 \<and> good (at_use p)) addrs of
       None \<Rightarrow> (Inr None, fds)
     | Some p \<Rightarrow> (Inr (Some (at_socket p)), insert (at_socket p) fds))"
  using assms
proof (induction addrs)
  case Nil
  then show ?case by simp
next
  case (Cons p ps)
  then have "insert (at_socket p) fds - {at_socket p} = fds" by auto
  with Cons show ?case by (auto simp: Close_def)
qed

text \<open>
  C23. \<open>openClientFd\<close> and \<open>openListenFd\<close> return the descriptor of the first address that gives a socket
  and can be connected or bound, and keep no other descriptor open; without such an address they
  return \<open>-1\<close> and leave the open descriptors as they were. When \<open>listen\<close> fails the process aborts
  inside the wrapper, before the branch that would close the descriptor.
\<close>

theorem open_descriptor_exact:
  assumes "list_all (\<lambda>p. at_socket p \<notin> fds \<and> at_close p \<ge> 0) addrs"
  shows "openClientFd 0 addrs fds =
      (case List.find (\<lambda>p. at_socket p \<ge> 0 \<and> at_use p \<noteq> - 1) addrs of
         None \<Rightarrow> (- 1, fds)
       | Some p \<Rightarrow> (at_socket p, insert (at_socket p) fds))
    \<and> openListenFd 0 addrs listen_answer close_answer fds =
      (case List.find (\<lambda>p. at_socket p \<ge> 0 \<and> at_use p = 0) addrs of
         None \<Rightarrow> Inr (- 1, fds)
       | Some p \<Rightarrow> if listen_answer < 0 then Inl Abort else Inr (at_socket p, insert (at_socket p) fds))"
  using open_loop_exact [OF assms, of "\<lambda>ret. ret \<noteq> - 1"] open_loop_exact [OF assms, of "\<lambda>ret. ret = 0"]
  by (auto simp: openClientFd_def openListenFd_def sd_Listen_def split: option.splits)

theorem open_descriptor_exact_witness:
  "openClientFd 0 [\<lparr>at_socket = - 1, at_use = 0, at_close = 0\<rparr>, \<lparr>at_socket = 5, at_use = - 1, at_close = 0\<rparr>,
      \<lparr>at_socket = 6, at_use = 0, at_close = 0\<rparr>] {3, 4} = (6, {3, 4, 6})"
  using open_descriptor_exact [of "{3, 4}" "[\<lparr>at_socket = - 1, at_use = 0, at_close = 0\<rparr>,
      \<lparr>at_socket = 5, at_use = - 1, at_close = 0\<rparr>, \<lparr>at_socket = 6, at_use = 0, at_close = 0\<rparr>]"]
  by (simp add: insert_commute)

text \<open>A moved socket is closed once; the descriptor that a move assignment overwrites stays open.\<close>

lemma Socket_move_closed_once:
  "so_fd s \<ge> 0 \<Longrightarrow> Socket_move s = (s1, s2) \<Longrightarrow>
   Socket_delete 0 s1 (Socket_delete 0 s2 fds) = fds - {so_fd s}"
  by (auto simp: Socket_move_def Socket_delete_def Close_def)

lemma Socket_assign_leaks:
  "so_fd s \<in> fds \<Longrightarrow> so_fd rhs \<noteq> so_fd s \<Longrightarrow> Socket_assign s rhs = (s1, s2) \<Longrightarrow>
   so_fd s \<in> Socket_delete 0 s1 (Socket_delete 0 s2 fds)"
  by (auto simp: Socket_assign_def Socket_delete_def Close_def)

text \<open>The text of an address built from text is that text and the port in decimal.\<close>

lemma toString_new:
  "pton ip = Some a \<Longrightarrow> ntop a = Some ip \<Longrightarrow>
   InetAddr_toString ntop (InetAddr_new pton ip port) = ip @ '':'' @ fmt_d (uint port)"
  by (simp add: InetAddr_toString_def InetAddr_new_def)

end
