(* ===== verification/TcpServer.thy ===== *)
theory TcpServer
  imports HttpServer EventLoopThreadPool SocketDetail
begin

text \<open>
  \<^verbatim>\<open>src/TcpServer.cpp\<close>, \<^verbatim>\<open>src/Acceptor.cpp\<close> and their headers: accepting connections and the life of a
  connection from its creation to its removal. The state is the server, the event loops and the
  connections, reached through their addresses; the functors the server gives to the loops are
  data. A step relation runs the server's steps on one loop, as the program does: \<open>TcpServer::run\<close>
  starts no threads, so \<open>nextLoop\<close> returns the main loop.
\<close>

section \<open>Data\<close>

datatype server_task = ListenTask | EstablishTask nat | RemoveTask nat | DestroyTask nat

record Acceptor =
  ac_loop :: nat
  ac_listening :: bool
  ac_listenSocket :: Socket
  ac_acceptorChannel :: nat
  ac_hasCallback :: bool

record TcpServer =
  ts_loop :: nat
  ts_serverName :: string
  ts_acceptor :: Acceptor
  ts_started :: bool
  ts_newConnId :: int
  ts_connections :: "string \<rightharpoonup> nat"
  ts_threadPool :: EventLoopThreadPool

record server_system =
  ss_server :: TcpServer
  ss_loops :: "nat \<Rightarrow> server_task EventLoop"
  ss_conns :: "nat \<rightharpoonup> nat \<times> TcpConnection"   \<comment> \<open>with the loop of the connection\<close>
  ss_fds :: "int set"                          \<comment> \<open>open descriptors\<close>
  ss_error :: "cpp_error option"

abbreviation main_loop :: "server_system \<Rightarrow> server_task EventLoop" where
  "main_loop s \<equiv> ss_loops s (ts_loop (ss_server s))"

definition set_loop :: "nat \<Rightarrow> server_task EventLoop \<Rightarrow> server_system \<Rightarrow> server_system" where
  "set_loop l x s = s\<lparr>ss_loops := (ss_loops s)(l := x)\<rparr>"

section \<open>Acceptor\<close>

text \<open>The constructor: the answers of \<open>socket\<close> and \<open>bind\<close> are arguments.\<close>

definition Acceptor_new :: "nat \<Rightarrow> int \<Rightarrow> int \<Rightarrow> nat \<Rightarrow> int set \<Rightarrow> (Acceptor \<times> int set) result" where
  "Acceptor_new loop socket_answer bind_answer channel fds =
     bind_result (sd_nonblockingSocket socket_answer fds) (\<lambda>(fd, fds).
     bind_result (Socket_bindAddr bind_answer (Socket_new fd)) (\<lambda>_.
     Inr (\<lparr>ac_loop = loop, ac_listening = False, ac_listenSocket = Socket_new fd,
           ac_acceptorChannel = channel, ac_hasCallback = False\<rparr>, fds)))"

definition Acceptor_listen :: "nat \<Rightarrow> int \<Rightarrow> server_system \<Rightarrow> server_system result" where
  "Acceptor_listen me listen_answer s =
     (let a = ts_acceptor (ss_server s); l = ss_loops s (ac_loop a) in
      bind_result (EventLoop_assertInLoopThread me l) (\<lambda>_.
      bind_result (Socket_listen listen_answer (ac_listenSocket a)) (\<lambda>_.
      bind_result (Channel_change Channel_enableReading me (ac_acceptorChannel a) l) (\<lambda>l.
      Inr (set_loop (ac_loop a) l
        (s\<lparr>ss_server := (ss_server s)\<lparr>ts_acceptor := a\<lparr>ac_listening := True\<rparr>\<rparr>\<rparr>))))))"

section \<open>Connections of the server\<close>

text \<open>An operation of the connection at \<open>a\<close>, on its object and its loop.\<close>

definition with_conn ::
  "nat \<Rightarrow> (server_task conn_state \<Rightarrow> server_task conn_state result) \<Rightarrow> server_system
    \<Rightarrow> server_system result" where
  "with_conn a f s =
     (case ss_conns s a of
        None \<Rightarrow> Inl OutOfBounds
      | Some (l, c) \<Rightarrow>
          bind_result (f (\<lparr>en_conn = c, en_buffers = Map.empty\<rparr>, ss_loops s l)) (\<lambda>(e, x).
          Inr (set_loop l x (s\<lparr>ss_conns := (ss_conns s)(a \<mapsto> (l, en_conn e))\<rparr>))))"

definition conn_name :: "string \<Rightarrow> int \<Rightarrow> string" where
  "conn_name serverName i = serverName @ snprintf 32 (''#'' @ fmt_d i)"

text \<open>
  \<open>newConnectionHandler\<close>: the new connection object gets the address \<open>a\<close>, its channel the address \<open>ch\<close>
  in the store of its loop; \<open>garbage\<close> is the uninitialised member of the channel.
\<close>

definition TcpServer_newConnectionHandler ::
  "nat \<Rightarrow> int \<Rightarrow> nat \<Rightarrow> nat \<Rightarrow> bool \<Rightarrow> server_system \<Rightarrow> server_system result" where
  "TcpServer_newConnectionHandler me fd a ch garbage s =
     bind_result (EventLoop_assertInLoopThread me (main_loop s)) (\<lambda>_.
     (let sv = ss_server s; connId = ts_newConnId sv; connName = conn_name (ts_serverName sv) connId in
      if connId = 2 ^ 31 - 1 then Inl Arithmetic
      else
        bind_result (EventLoopThreadPool_nextLoop me (ts_threadPool sv)) (\<lambda>(itsLoop, pool).
        (let l = ss_loops s itsLoop;
             l = l\<lparr>el_poller := (el_poller l)
                   \<lparr>po_objs := (po_objs (el_poller l))(ch \<mapsto> Channel_new itsLoop fd garbage)\<rparr>\<rparr>;
             l = EventLoop_addToLoopThread me (EstablishTask a) l
         in Inr (set_loop itsLoop l
              (s\<lparr>ss_server := sv\<lparr>ts_newConnId := connId + 1, ts_threadPool := pool,
                   ts_connections := (ts_connections sv)(connName \<mapsto> a)\<rparr>,
                 ss_conns := (ss_conns s)(a \<mapsto> (itsLoop, TcpConnection_new connName fd ch))\<rparr>))))))"

definition Acceptor_incomingHandler ::
  "nat \<Rightarrow> int \<Rightarrow> nat \<Rightarrow> nat \<Rightarrow> bool \<Rightarrow> server_system \<Rightarrow> server_system result" where
  "Acceptor_incomingHandler me accept_answer a ch garbage s =
     (let ac = ts_acceptor (ss_server s) in
      bind_result (EventLoop_assertInLoopThread me (ss_loops s (ac_loop ac))) (\<lambda>_.
      (let (connfd, fds) = sd_Accept accept_answer (ss_fds s); s = s\<lparr>ss_fds := fds\<rparr> in
       if connfd \<ge> 0 then
         if ac_hasCallback ac then TcpServer_newConnectionHandler me connfd a ch garbage s
         else Inr (s\<lparr>ss_fds := snd (Close 0 connfd fds)\<rparr>)
       else Inr s)))"

definition TcpServer_removeConnectionInLoopThread ::
  "nat \<Rightarrow> nat \<Rightarrow> server_system \<Rightarrow> server_system result" where
  "TcpServer_removeConnectionInLoopThread me a s =
     bind_result (EventLoop_assertInLoopThread me (main_loop s)) (\<lambda>_.
     (case ss_conns s a of
        None \<Rightarrow> Inl OutOfBounds
      | Some (l, c) \<Rightarrow>
          bind_result (assert_that (ts_connections (ss_server s) (cn_name c) \<noteq> None)) (\<lambda>_.
          Inr (set_loop l (EventLoop_addToLoopThread me (DestroyTask a) (ss_loops s l))
            (s\<lparr>ss_server := (ss_server s)\<lparr>ts_connections :=
                 (ts_connections (ss_server s))(cn_name c := None)\<rparr>\<rparr>)))))"

definition TcpServer_removeConnection :: "nat \<Rightarrow> nat \<Rightarrow> server_system \<Rightarrow> server_system result" where
  "TcpServer_removeConnection me a s =
     (if EventLoop_isInLoopThread me (main_loop s) then TcpServer_removeConnectionInLoopThread me a s
      else Inr (set_loop (ts_loop (ss_server s))
             (EventLoop_addToLoopThread me (RemoveTask a) (main_loop s)) s))"

definition TcpServer_new ::
  "nat \<Rightarrow> nat \<Rightarrow> string \<Rightarrow> nat \<Rightarrow> Acceptor \<Rightarrow> TcpServer" where
  "TcpServer_new loop thread serverName numThreads acceptor =
     \<lparr>ts_loop = loop, ts_serverName = serverName, ts_acceptor = acceptor\<lparr>ac_hasCallback := True\<rparr>,
      ts_started = False, ts_newConnId = 0, ts_connections = Map.empty,
      ts_threadPool = EventLoopThreadPool_new loop thread numThreads\<rparr>"

definition TcpServer_run :: "nat \<Rightarrow> int \<Rightarrow> server_system \<Rightarrow> server_system result" where
  "TcpServer_run me listen_answer s =
     (let s = s\<lparr>ss_server := (ss_server s)\<lparr>ts_started := True\<rparr>\<rparr> in
      if \<not> ac_listening (ts_acceptor (ss_server s)) then
        if EventLoop_isInLoopThread me (main_loop s) then Acceptor_listen me listen_answer s
        else Inr (set_loop (ts_loop (ss_server s))
               (EventLoop_addToLoopThread me ListenTask (main_loop s)) s)
      else Inr s)"

text \<open>
  The callbacks of a connection's channel. The close callback of a connection is \<open>removeConnection\<close>;
  calling it is the last thing that \<open>closeHandler\<close> does, and \<open>connectionHandler\<close> calls \<open>closeHandler\<close>
  when \<open>read\<close> gives 0 bytes. The answer of \<open>write\<close> depends on the number of bytes offered.
\<close>

definition server_closeHandler :: "nat \<Rightarrow> nat \<Rightarrow> server_system \<Rightarrow> server_system result" where
  "server_closeHandler me a s =
     bind_result (with_conn a (TcpConnection_closeHandler me (Some Inr)) s)
       (TcpServer_removeConnection me a)"

definition server_connectionHandler ::
  "(Timestamp \<Rightarrow> server_task conn_state \<Rightarrow> server_task conn_state result) \<Rightarrow> nat \<Rightarrow> string option \<Rightarrow> nat
    \<Rightarrow> Timestamp \<Rightarrow> server_system \<Rightarrow> server_system result" where
  "server_connectionHandler msgCallback me answer a receiveTime s =
     bind_result
       (with_conn a (TcpConnection_connectionHandler me answer receiveTime (Some msgCallback) (Some Inr)) s)
       (if answer = Some [] then TcpServer_removeConnection me a else Inr)"

definition server_writeHandler ::
  "nat \<Rightarrow> (nat \<Rightarrow> nat option) \<Rightarrow> nat \<Rightarrow> server_system \<Rightarrow> server_system result" where
  "server_writeHandler me answer a =
     with_conn a (\<lambda>s. TcpConnection_writeHandler me
       (answer (HyBuffer_readableBytes (cn_outputBuffer (the_conn s)))) s)"

definition server_errorHandler :: "nat \<Rightarrow> server_system \<Rightarrow> server_system result" where
  "server_errorHandler a = with_conn a TcpConnection_errorHandler"

text \<open>The channel of the connection at \<open>a\<close>, in the store of its loop.\<close>

definition conn_channel :: "nat \<Rightarrow> server_system \<Rightarrow> Channel" where
  "conn_channel a s =
     (case ss_conns s a of
        None \<Rightarrow> Channel_new 0 0 False
      | Some (l, c) \<Rightarrow>
          (case po_objs (el_poller (ss_loops s l)) (cn_channel c) of
             None \<Rightarrow> Channel_new 0 0 False | Some x \<Rightarrow> x))"

definition set_conn_channel :: "nat \<Rightarrow> (Channel \<Rightarrow> Channel) \<Rightarrow> server_system \<Rightarrow> server_system" where
  "set_conn_channel a f s =
     (case ss_conns s a of
        None \<Rightarrow> s
      | Some (l, c) \<Rightarrow>
          set_loop l ((ss_loops s l)\<lparr>el_poller := (el_poller (ss_loops s l))
            \<lparr>po_objs := (po_objs (el_poller (ss_loops s l)))(cn_channel c \<mapsto> f (conn_channel a s))\<rparr>\<rparr>) s)"

text \<open>An event on the connection at \<open>a\<close>: the poller stores what happened, and the channel dispatches it.\<close>

definition server_callbacks ::
  "(Timestamp \<Rightarrow> server_task conn_state \<Rightarrow> server_task conn_state result) \<Rightarrow> nat \<Rightarrow> string option
    \<Rightarrow> (nat \<Rightarrow> nat option) \<Rightarrow> nat \<Rightarrow> server_system callbacks" where
  "server_callbacks msgCallback me rd wr a =
     \<lparr>cb_read = Some (server_connectionHandler msgCallback me rd a),
      cb_write = Some (server_writeHandler me wr a),
      cb_error = Some (server_errorHandler a),
      cb_close = Some (server_closeHandler me a)\<rparr>"

definition server_event ::
  "(Timestamp \<Rightarrow> server_task conn_state \<Rightarrow> server_task conn_state result) \<Rightarrow> nat \<Rightarrow> string option
    \<Rightarrow> (nat \<Rightarrow> nat option) \<Rightarrow> mask \<Rightarrow> Timestamp \<Rightarrow> nat \<Rightarrow> server_system \<Rightarrow> server_system result" where
  "server_event msgCallback me rd wr revents now a s =
     Channel_handleEvent (conn_channel a) (set_conn_channel a) (server_callbacks msgCallback me rd wr a) now
       (set_conn_channel a (\<lambda>x. Channel_set_revents x revents) s)"

definition run_server_task :: "nat \<Rightarrow> int \<Rightarrow> server_task \<Rightarrow> server_system \<Rightarrow> server_system result" where
  "run_server_task me listen_answer task s =
     (case task of
        ListenTask \<Rightarrow> Acceptor_listen me listen_answer s
      | EstablishTask a \<Rightarrow> with_conn a (TcpConnection_establishConnection me HttpServer_onConnection) s
      | RemoveTask a \<Rightarrow> TcpServer_removeConnectionInLoopThread me a s
      | DestroyTask a \<Rightarrow> with_conn a (TcpConnection_destroyConnection me HttpServer_onConnection) s)"

text \<open>
  The last reference to a connection goes away: the destructor of its channel asserts that no event is
  being handled, and the one of its socket closes the descriptor.
\<close>

definition release_conn :: "nat \<Rightarrow> server_system \<Rightarrow> server_system result" where
  "release_conn a s =
     (case ss_conns s a of
        None \<Rightarrow> Inl OutOfBounds
      | Some (l, c) \<Rightarrow>
          bind_result (deref (po_objs (el_poller (ss_loops s l))) (cn_channel c)) (\<lambda>x.
          bind_result (Channel_delete x) (\<lambda>_.
          Inr (set_loop l
            ((ss_loops s l)\<lparr>el_poller := (el_poller (ss_loops s l))
               \<lparr>po_objs := (po_objs (el_poller (ss_loops s l)))(cn_channel c := None)\<rparr>\<rparr>)
            (s\<lparr>ss_conns := (ss_conns s)(a := None),
               ss_fds := Socket_delete 0 (Socket_new (sk_fd (cn_socket c))) (ss_fds s)\<rparr>)))))"

end
