(* ===== verification/ServerLife.thy ===== *)
theory ServerLife
  imports TcpServer
begin

text \<open>
  The life of the connections of a server whose connections all live in the main loop, as in the
  program: a step relation of accepted connections, queued functors, events and the end of the last
  reference to a connection, and an invariant of it. A connection lives as long as the map of the
  server or a queued functor refers to it, as \<^verbatim>\<open>std::shared_ptr\<close> makes it; the use of a
  released connection would be the error \<open>OutOfBounds\<close>.
\<close>

section \<open>One connection of several\<close>

text \<open>The loop changed at most in the event mask of the channel \<open>ch\<close>.\<close>

definition own_change :: "nat \<Rightarrow> 'f EventLoop \<Rightarrow> 'f EventLoop \<Rightarrow> bool" where
  "own_change ch l l' \<longleftrightarrow>
     (\<exists>p x e. l' = l\<lparr>el_poller := p\<rparr> \<and> po_channels p = po_channels (el_poller l)
        \<and> po_objs (el_poller l) ch = Some x
        \<and> po_objs p = (po_objs (el_poller l))(ch \<mapsto> x\<lparr>ch_events := e\<rparr>))"

lemma own_changeI:
  "po_objs (el_poller l) ch = Some x \<Longrightarrow> po_channels p = po_channels (el_poller l) \<Longrightarrow>
   po_objs p = (po_objs (el_poller l))(ch \<mapsto> x\<lparr>ch_events := e\<rparr>) \<Longrightarrow> own_change ch l (l\<lparr>el_poller := p\<rparr>)"
  unfolding own_change_def by blast

lemma own_change_refl: "loop_registered l ch \<Longrightarrow> own_change ch l l"
proof -
  assume "loop_registered l ch"
  then obtain x where "po_objs (el_poller l) ch = Some x"
    by (auto simp: loop_registered_def split: option.splits)
  then show ?thesis using own_changeI [of l ch x "el_poller l" "ch_events x"] by (simp add: fun_upd_idem)
qed

lemma own_change_trans: "own_change ch l l' \<Longrightarrow> own_change ch l' l'' \<Longrightarrow> own_change ch l l''"
  unfolding own_change_def by (elim exE conjE) (auto intro!: exI)

text \<open>The loop is in order and the connection's channel is in it.\<close>

definition linked :: "nat \<Rightarrow> 'f conn_state \<Rightarrow> bool" where
  "linked t s \<longleftrightarrow> loop_ok t (the_loop s) \<and> loop_registered (the_loop s) (cn_channel (the_conn s))"

lemma conn_ok_linked: "conn_ok t s \<Longrightarrow> linked t s"
  by (simp add: conn_ok_def linked_def)

lemma linked_writing: "linked t s \<Longrightarrow> conn_isWriting s = Inr (writing s)"
  by (auto simp: linked_def conn_isWriting_def writing_def loop_channel_def loop_registered_def
      split: option.splits)

lemma change_own:
  assumes "linked t s" and f: "events_only f" and run: "conn_change f t s = Inr s'"
  shows "own_change (cn_channel (the_conn s)) (the_loop s) (the_loop s') \<and> fst s' = fst s \<and> linked t s'"
proof -
  let ?ch = "cn_channel (the_conn s)"
  have reg: "loop_ok t (the_loop s)" "loop_registered (the_loop s) ?ch"
    using assms(1) by (simp_all add: linked_def)
  obtain x where x: "loop_channel (the_loop s) ?ch = Some x" using loop.reg_obj [OF reg(2)] by blast
  have "f x = x\<lparr>ch_events := ch_events (f x)\<rparr>" using f unfolding events_only_def by blast
  then obtain e where e: "f x = x\<lparr>ch_events := e\<rparr>" by blast
  obtain p where p: "Channel_change f t ?ch (the_loop s) = Inr ((the_loop s)\<lparr>el_poller := p\<rparr>)"
      "po_channels p = po_channels (el_poller (the_loop s))"
      "po_objs p = (po_objs (el_poller (the_loop s)))(?ch \<mapsto> x\<lparr>ch_events := e\<rparr>)"
      "loop_ok t ((the_loop s)\<lparr>el_poller := p\<rparr>)"
    using loop_change_frame [OF reg x f] e by auto
  have "loop_registered ((the_loop s)\<lparr>el_poller := p\<rparr>) ?ch"
    using reg(2) x p(2,3) by (auto simp: loop_registered_def registered_def loop_channel_def)
  then show ?thesis
    using run x p(4) own_changeI [OF _ p(2,3)] p(1)
    by (auto simp: conn_change_def loop_channel_def linked_def)
qed

text \<open>The input of an established connection between two messages.\<close>

definition input_ready :: "TcpConnection \<Rightarrow> bool" where
  "input_ready c \<longleftrightarrow> (\<exists>x. cn_context c = Some x \<and> parser_ready x (cn_inputBuffer c))"

text \<open>What the operations of an established connection keep, besides its invariant.\<close>

definition conn_kept :: "'f conn_state \<Rightarrow> 'f conn_state \<Rightarrow> bool" where
  "conn_kept s s' \<longleftrightarrow>
     own_change (cn_channel (the_conn s)) (the_loop s) (the_loop s')
     \<and> cn_name (the_conn s') = cn_name (the_conn s) \<and> cn_channel (the_conn s') = cn_channel (the_conn s)
     \<and> sk_fd (cn_socket (the_conn s')) = sk_fd (cn_socket (the_conn s))
     \<and> (input_ready (the_conn s) \<longrightarrow> input_ready (the_conn s'))
     \<and> en_buffers (fst s') = en_buffers (fst s)"

lemma conn_kept_refl: "linked t s \<Longrightarrow> conn_kept s s"
  by (simp add: conn_kept_def linked_def own_change_refl)

lemma conn_kept_trans: "conn_kept s s' \<Longrightarrow> conn_kept s' s'' \<Longrightarrow> conn_kept s s''"
  using own_change_trans [of "cn_channel (the_conn s)" "the_loop s" "the_loop s'" "the_loop s''"]
  by (auto simp: conn_kept_def)

text \<open>An operation that changes the connection by \<open>f\<close> and then, perhaps, the mask of its channel.\<close>

definition harmless :: "(TcpConnection \<Rightarrow> TcpConnection) \<Rightarrow> bool" where
  "harmless f \<longleftrightarrow> (\<forall>c. cn_name (f c) = cn_name c \<and> cn_channel (f c) = cn_channel c
     \<and> sk_fd (cn_socket (f c)) = sk_fd (cn_socket c) \<and> (input_ready c \<longrightarrow> input_ready (f c)))"

lemma conn_kept_upd: "linked t s \<Longrightarrow> harmless f \<Longrightarrow> conn_kept s (upd_conn f s) \<and> linked t (upd_conn f s)"
  by (simp add: conn_kept_def upd_conn_def linked_def own_change_refl harmless_def)

lemma conn_kept_change:
  "linked t s \<Longrightarrow> events_only f \<Longrightarrow> conn_change f t s = Inr s' \<Longrightarrow>
     conn_kept s s' \<and> cn_state (the_conn s') = cn_state (the_conn s) \<and> linked t s'"
  using change_own [of t s f s'] by (simp add: conn_kept_def)

lemma conn_inv_linked: "conn_inv t s \<Longrightarrow> linked t s"
  by (simp add: conn_inv_def conn_ok_linked)

lemma conn_inv_kept: "conn_inv t s \<Longrightarrow> conn_kept s s"
  by (rule conn_kept_refl) (rule conn_inv_linked)

section \<open>Operations of an established connection\<close>

lemma linked_thread: "linked t s \<Longrightarrow> EventLoop_assertInLoopThread t (the_loop s) = Inr ()"
  by (simp add: linked_def loop_ok_def EventLoop_assertInLoopThread_def EventLoop_isInLoopThread_def)

lemma harmless_send: "harmless (kernel_accepts d)" "harmless (\<lambda>c. c\<lparr>cn_outputBuffer := out\<rparr>)"
  by (simp_all add: harmless_def kernel_accepts_def input_ready_def)

lemma upd_conn_state: "cn_state (f (the_conn s)) = cn_state (the_conn s) \<Longrightarrow>
    cn_state (the_conn (upd_conn f s)) = cn_state (the_conn s)"
  by (simp add: upd_conn_def)

text \<open>The end of \<open>sendInLoopThread\<close>, from the state after the direct write.\<close>

lemma enqueue_kept:
  assumes ok: "linked t s"
    and run: "bind_result (range_string data n k) (\<lambda>rest.
       bind_result (HyBuffer_append (cn_outputBuffer (the_conn s)) rest) (\<lambda>out.
       (let s = upd_conn (\<lambda>c. c\<lparr>cn_outputBuffer := out\<rparr>) s in
        if \<not> w then conn_change Channel_enableWriting t s else Inr s))) = Inr s'"
  shows "conn_kept s s' \<and> cn_state (the_conn s') = cn_state (the_conn s)"
proof -
  obtain out where out: "(if \<not> w then conn_change Channel_enableWriting t (upd_conn (\<lambda>c. c\<lparr>cn_outputBuffer := out\<rparr>) s)
      else Inr (upd_conn (\<lambda>c. c\<lparr>cn_outputBuffer := out\<rparr>) s)) = Inr s'"
    using run by (auto simp: bind_result_eq_Inr Let_def)
  let ?s = "upd_conn (\<lambda>c. c\<lparr>cn_outputBuffer := out\<rparr>) s"
  have k: "conn_kept s ?s \<and> linked t ?s" using conn_kept_upd [OF ok harmless_send(2)] .
  have st: "cn_state (the_conn ?s) = cn_state (the_conn s)" by (simp add: upd_conn_def)
  show ?thesis
  proof (cases w)
    case True
    then show ?thesis using out k st by simp
  next
    case False
    then show ?thesis
      using out k st conn_kept_change [OF _ events_only_ops(2)] conn_kept_trans by fastforce
  qed
qed

lemma send_kept:
  assumes ok: "linked t s" and run: "TcpConnection_sendInLoopThread t answer data s = Inr s'"
  shows "conn_kept s s' \<and> cn_state (the_conn s') = cn_state (the_conn s)"
proof -
  let ?direct = "\<not> writing s \<and> HyBuffer_readableBytes (cn_outputBuffer (the_conn s)) = 0"
  define s1 where "s1 n = (if ?direct then upd_conn (kernel_accepts (take n data)) s else s)" for n
  have k1: "conn_kept s (s1 n) \<and> linked t (s1 n) \<and> cn_state (the_conn (s1 n)) = cn_state (the_conn s)" for n
    using ok conn_kept_refl [OF ok] conn_kept_upd [OF ok harmless_send(1)]
    by (simp add: s1_def upd_conn_state kernel_accepts_def)
  define n where "n = (if ?direct then case answer of Some n \<Rightarrow> n | None \<Rightarrow> 0 else 0)"
  define left where "left = (if ?direct then case answer of Some n \<Rightarrow> size_sub (length data) n
      | None \<Rightarrow> length data else length data)"
  define w where "w = writing s"
  have "(if n < length data then bind_result (range_string data n (n + left)) (\<lambda>rest.
       bind_result (HyBuffer_append (cn_outputBuffer (the_conn (s1 n))) rest) (\<lambda>out.
       (let s = upd_conn (\<lambda>c. c\<lparr>cn_outputBuffer := out\<rparr>) (s1 n) in
        if \<not> w then conn_change Channel_enableWriting t s else Inr s))) else Inr (s1 n)) = Inr s'"
    using run linked_thread [OF ok] linked_writing [OF ok]
    unfolding TcpConnection_sendInLoopThread_def n_def s1_def left_def w_def Let_def by simp
  then show ?thesis
    using k1 [of n] enqueue_kept [of t "s1 n" data n "n + left" w s'] conn_kept_trans [of s "s1 n" s']
    by (cases "n < length data") simp_all
qed


lemma shutdown_kept:
  assumes ok: "linked t s" and run: "TcpConnection_shutdownInLoopThread t s = Inr s'"
  shows "conn_kept s s' \<and> cn_state (the_conn s') = cn_state (the_conn s)"
proof -
  have "harmless (\<lambda>c. c\<lparr>cn_socket := (cn_socket c)\<lparr>sk_shutdownWrite := True\<rparr>\<rparr>)"
    by (simp add: harmless_def input_ready_def)
  then show ?thesis
    using run linked_thread [OF ok] linked_writing [OF ok] conn_kept_refl [OF ok] conn_kept_upd [OF ok]
    by (auto simp: TcpConnection_shutdownInLoopThread_def upd_conn_state split: if_splits)
qed

lemma writeHandler_kept:
  assumes inv: "conn_inv t s" and ans: "answer_ok answer (length (out_bytes s))"
  shows "\<exists>s'. TcpConnection_writeHandler t answer s = Inr s' \<and> conn_inv t s' \<and> conn_kept s s'
    \<and> cn_state (the_conn s') = cn_state (the_conn s)"
proof (cases "answer = None \<or> answer = Some 0 \<or> out_bytes s = []")
  case True
  then show ?thesis using writeHandler_none [OF inv True] inv conn_inv_kept [OF inv] by auto
next
  case False
  have ok: "conn_ok t s" "writing s" using inv False by (auto simp: conn_inv_def)
  obtain n where n: "answer = Some n" "0 < n" "n \<le> length (out_bytes s)"
    using ans False by (cases answer) (auto simp: answer_ok_def)
  then obtain s' where s': "TcpConnection_writeHandler t answer s = Inr s'" "conn_inv t s'"
    using writeHandler_some [OF inv _ n(2,3)] False by auto
  let ?f = "\<lambda>c. (kernel_accepts (take n (out_bytes s)) c)
    \<lparr>cn_outputBuffer := HyBuffer_clear (cn_outputBuffer (the_conn s)) n\<rparr>"
  let ?s1 = "upd_conn ?f s"
  have k: "conn_kept s ?s1 \<and> linked t ?s1" "cn_state (the_conn ?s1) = cn_state (the_conn s)"
    using conn_kept_upd [OF conn_ok_linked [OF ok(1)], of ?f]
    by (simp_all add: harmless_def kernel_accepts_def upd_conn_def input_ready_def)
  have "s' = ?s1 \<or> (\<exists>s2. conn_change Channel_disableWriting t ?s1 = Inr s2
      \<and> (s' = s2 \<or> TcpConnection_shutdownInLoopThread t s2 = Inr s'))"
    using s'(1) ok(2) n conn_ok_thread [OF ok(1)] conn_ok_isWriting [OF ok(1)] writeHandler_payload [OF ok(1)]
    by (auto simp: TcpConnection_writeHandler_def Let_def bind_result_eq_Inr split: if_splits)
  then have "conn_kept ?s1 s' \<and> cn_state (the_conn s') = cn_state (the_conn ?s1)"
  proof (elim disjE exE conjE)
    assume "s' = ?s1"
    then show ?thesis using k conn_kept_refl by blast
  next
    fix s2 assume s2: "conn_change Channel_disableWriting t ?s1 = Inr s2" "s' = s2"
    then show ?thesis using k conn_kept_change [OF _ events_only_ops(3)] by blast
  next
    fix s2 assume s2: "conn_change Channel_disableWriting t ?s1 = Inr s2"
      "TcpConnection_shutdownInLoopThread t s2 = Inr s'"
    then have "conn_kept ?s1 s2 \<and> cn_state (the_conn s2) = cn_state (the_conn ?s1) \<and> linked t s2"
      using k conn_kept_change [OF _ events_only_ops(3)] by blast
    then show ?thesis using shutdown_kept [OF _ s2(2)] conn_kept_trans [of ?s1 s2 s'] by simp
  qed
  then show ?thesis using s' k conn_kept_trans [of s ?s1 s'] by simp
qed


text \<open>In the loop's thread \<open>send\<close> and \<open>shutdown\<close> act at once.\<close>

definition conn_send :: "nat \<Rightarrow> nat option \<Rightarrow> string \<Rightarrow> 'f conn_state \<Rightarrow> 'f conn_state result" where
  "conn_send me answer data s =
     (if cn_state (the_conn s) = CONNECTED then TcpConnection_sendInLoopThread me answer data s
      else Inr s)"

definition conn_shutdown :: "nat \<Rightarrow> 'f conn_state \<Rightarrow> 'f conn_state result" where
  "conn_shutdown me s =
     (if cn_state (the_conn s) = CONNECTED
      then TcpConnection_shutdownInLoopThread me (upd_conn (TcpConnection_setState DISCONNECTING) s)
      else Inr s)"

text \<open>They are \<open>send\<close> and \<open>shutdown\<close> of the connection, for a caller in the loop's thread.\<close>

lemma conn_send_in_loop:
  "EventLoop_isInLoopThread me (the_loop s) \<Longrightarrow> TcpConnection_send me answer data s = conn_send me answer data s"
  by (simp add: TcpConnection_send_def conn_send_def)

lemma conn_shutdown_in_loop:
  "EventLoop_isInLoopThread me (the_loop s) \<Longrightarrow> TcpConnection_shutdown me s = conn_shutdown me s"
  by (simp add: TcpConnection_shutdown_def conn_shutdown_def EventLoop_runInLoopThread_def run_conn_task_def
      upd_conn_def)

definition data_fits :: "nat option \<Rightarrow> string \<Rightarrow> TcpConnection \<Rightarrow> bool" where
  "data_fits answer data c \<longleftrightarrow> answer_ok answer (length data)
     \<and> (contents (cn_outputBuffer c) \<noteq> [] \<longrightarrow> append_fits (cn_outputBuffer c) (length data))
     \<and> length (buffer (cn_outputBuffer c)) + length data < 2 ^ 63"

definition established :: "TcpConnection \<Rightarrow> bool" where
  "established c \<longleftrightarrow> cn_state c = CONNECTED \<or> cn_state c = DISCONNECTING"

lemma conn_send_kept:
  assumes inv: "conn_inv t s" and est: "established (the_conn s)"
    and fits: "send_fits s (length data)" "answer_ok answer (length data)"
  shows "\<exists>s'. conn_send t answer data s = Inr s' \<and> conn_inv t s' \<and> conn_kept s s'
    \<and> established (the_conn s')"
proof (cases "cn_state (the_conn s) = CONNECTED")
  case True
  have l: "linked t s" using inv by (rule conn_inv_linked)
  obtain s' where "TcpConnection_sendInLoopThread t answer data s = Inr s'" "conn_inv t s'"
    using send_ok [OF inv fits True] by blast
  then show ?thesis using send_kept [OF l] True est by (simp add: conn_send_def established_def)
next
  case False
  have "conn_kept s s" using inv by (rule conn_inv_kept)
  then show ?thesis using False inv est by (simp add: conn_send_def)
qed

lemma conn_shutdown_kept:
  assumes inv: "conn_inv t s" and est: "established (the_conn s)"
  shows "\<exists>s'. conn_shutdown t s = Inr s' \<and> conn_inv t s' \<and> conn_kept s s' \<and> established (the_conn s')"
proof (cases "cn_state (the_conn s) = CONNECTED")
  case True
  let ?s1 = "upd_conn (TcpConnection_setState DISCONNECTING) s"
  have ok: "conn_ok t s" and nofin: "\<not> fin_sent s" using inv True by (auto simp: conn_inv_def)
  have k: "conn_kept s ?s1 \<and> linked t ?s1"
    using conn_kept_upd [OF conn_ok_linked [OF ok]]
    by (simp add: harmless_def TcpConnection_setState_def input_ready_def)
  have i1: "conn_inv t ?s1"
    using inv nofin by (simp add: conn_inv_def conn_ok_def conn_simps writing_def TcpConnection_setState_def)
  obtain s' where s': "TcpConnection_shutdownInLoopThread t ?s1 = Inr s'"
    using linked_thread [of t ?s1] linked_writing [of t ?s1] k
    by (cases "writing ?s1") (simp_all add: TcpConnection_shutdownInLoopThread_def)
  then have "conn_kept ?s1 s' \<and> cn_state (the_conn s') = DISCONNECTING"
    using shutdown_kept [of t ?s1 s'] k by (simp add: upd_conn_def TcpConnection_setState_def)
  moreover have "conn_inv t s'"
    using s' i1 linked_thread [of t ?s1] linked_writing [of t ?s1] k
    by (auto simp: TcpConnection_shutdownInLoopThread_def conn_inv_def conn_ok_def conn_simps writing_def
        TcpConnection_setState_def split: if_splits)
  ultimately show ?thesis
    using True s' k conn_kept_trans [of s ?s1 s'] by (simp add: conn_shutdown_def established_def)
next
  case False
  have "conn_kept s s" using inv by (rule conn_inv_kept)
  then show ?thesis using False inv est by (simp add: conn_shutdown_def)
qed


lemma conn_inv_input:
  "conn_inv t s \<Longrightarrow> conn_inv t (upd_conn (\<lambda>c. c\<lparr>cn_inputBuffer := b\<rparr>) s)"
  "conn_inv t s \<Longrightarrow> conn_inv t (upd_conn (\<lambda>c. c\<lparr>cn_inputBuffer := b, cn_context := x\<rparr>) s)"
  by (simp_all add: conn_inv_def conn_ok_def conn_simps writing_def)

text \<open>\<open>connectionHandler\<close> when something was read, or the read failed: the message callback runs.\<close>

definition read_fits :: "string option \<Rightarrow> HyBuffer \<Rightarrow> bool" where
  "read_fits answer b \<longleftrightarrow>
     (case answer of None \<Rightarrow> True
      | Some d \<Rightarrow> readFd_fits b (length d) \<and> length (buffer b) + length d < 2 ^ 63
          \<and> (d = [] \<or> readerIndex b \<le> length (buffer b)))"

text \<open>Reading into the buffer that a completed body leaves puts it in order again.\<close>

lemma readFd_overrun:
  assumes over: "overrun b" and fits: "read_fits (Some d) b"
  shows "\<exists>b'. HyBuffer_readFd b (Some d) = Inr (int (length d), b') \<and> (if d = [] then b' = b else buf_wf b')"
proof -
  let ?w = "length (buffer b) - readerIndex b"
  have b: "readerIndex b = Suc (writerIndex b)" "writerIndex b \<le> length (buffer b)" "length (buffer b) < 2 ^ 63"
    using over by (simp_all add: overrun_def)
  have f: "readFd_fits b (length d)" "length (buffer b) + length d < 2 ^ 63" "d \<noteq> [] \<Longrightarrow> readerIndex b \<le> length (buffer b)"
    using fits by (auto simp: read_fits_def)
  have size: "size_add (writerIndex b) (length d) = writerIndex b + length d"
    using b f(2) by (intro size_add_small) simp
  show ?thesis
  proof (cases "d = []")
    case True
    then show ?thesis
      using size b(2) by (simp add: HyBuffer_readFd_def copy_to_def Let_def)
  next
    case False
    then have r: "readerIndex b \<le> length (buffer b)" using f(3) by simp
    then have wr: "HyBuffer_writableBytes b = ?w"
      using b by (simp add: HyBuffer_writableBytes_def cpp_simps)
    have room: "writerIndex b + length (take ?w d) \<le> length (buffer b)" using b(1) r by simp
    define m where "m = take (writerIndex b) (buffer b) @ take ?w d @ drop (writerIndex b + length (take ?w d)) (buffer b)"
    have m: "copy_to (buffer b) (writerIndex b) (take ?w d) = Inr m" "length m = length (buffer b)"
      using room by (simp_all add: copy_to_def m_def)
    show ?thesis
    proof (cases "length d \<le> ?w")
      case True
      then have "buf_wf (b\<lparr>buffer := m, writerIndex := writerIndex b + length d\<rparr>)"
        using b r m(2) False by (cases d) (auto simp: buf_wf_def)
      then show ?thesis using True m(1) wr size False by (simp add: HyBuffer_readFd_def Let_def)
    next
      case big: False
      define b2 where "b2 = b\<lparr>buffer := m, writerIndex := length m\<rparr>"
      have b2: "buf_wf b2" "length (buffer b2) = length (buffer b)" using b r m(2) by (simp_all add: b2_def buf_wf_def)
      have "append_fits (b\<lparr>writerIndex := length (buffer b)\<rparr>) (length d - ?w)" using f(1) big by (simp add: readFd_fits_def Let_def)
      then have "append_fits b2 (length (drop ?w d))"
        using append_fits_cong [of b2 "b\<lparr>writerIndex := length (buffer b)\<rparr>"] m(2) by (simp add: b2_def)
      moreover have "length (buffer b2) + length (drop ?w d) \<le> length (buffer b) + length d" using b2(2) by simp
      then have "length (buffer b2) + length (drop ?w d) < 2 ^ 63" using f(2) by (rule le_less_trans)
      ultimately obtain b' where "HyBuffer_append b2 (drop ?w d) = Inr b'" "buf_wf b'"
        using append_outcome [OF b2(1), of "drop ?w d"] by auto
      then show ?thesis using big m(1) wr False by (simp add: HyBuffer_readFd_def Let_def b2_def)
    qed
  qed
qed

lemma readFd_kept:
  assumes "buf_wf b \<or> overrun b" and "read_fits answer b"
  shows "\<exists>r b'. HyBuffer_readFd b answer = Inr (r, b') \<and> (b' = b \<or> buf_wf b') \<and> (to_size r = 0 \<longleftrightarrow> answer = Some [])"
proof (cases answer)
  case None
  then show ?thesis by (simp add: HyBuffer_readFd_def to_size_def)
next
  case (Some d)
  then have d: "to_size (int (length d)) = 0 \<longleftrightarrow> answer = Some []"
    using assms(2) by (auto simp: read_fits_def to_size_nonneg)
  show ?thesis
  proof (cases "buf_wf b")
    case True
    then show ?thesis
      using assms(2) Some d readFd_outcome_aux [of b d] by (auto simp: read_fits_def)
  next
    case False
    then have "overrun b" using assms(1) by simp
    from readFd_overrun [OF this] show ?thesis using assms(2) Some d by (metis (full_types))
  qed
qed

lemma input_ready_buffer: "input_ready c \<Longrightarrow> buf_wf (cn_inputBuffer c) \<or> overrun (cn_inputBuffer c)"
  by (auto simp: input_ready_def parser_ready_def)

text \<open>The state of a connection after \<open>readFd\<close>.\<close>

lemma read_kept:
  assumes inv: "conn_inv t s" and rdy: "input_ready (the_conn s)"
    and b: "HyBuffer_readFd (cn_inputBuffer (the_conn s)) answer = Inr (n, b)" "b = cn_inputBuffer (the_conn s) \<or> buf_wf b"
  defines "s1 \<equiv> upd_conn (\<lambda>c. c\<lparr>cn_inputBuffer := b\<rparr>) s"
  shows "conn_kept s s1" "conn_inv t s1" "input_ready (the_conn s1)"
proof -
  show "conn_inv t s1" unfolding s1_def by (rule conn_inv_input(1) [OF inv])
  have "conn_kept s s1 \<and> input_ready (the_conn s1)"
  proof (cases "buf_wf b")
    case True
    then have "harmless (\<lambda>c. c\<lparr>cn_inputBuffer := b\<rparr>)" by (auto simp: harmless_def input_ready_def parser_ready_def)
    then have k: "conn_kept s s1" unfolding s1_def using conn_kept_upd [OF conn_inv_linked [OF inv]] by blast
    moreover have "input_ready (the_conn s1)" using k rdy by (simp add: conn_kept_def)
    ultimately show ?thesis by simp
  next
    case False
    then have "s1 = s" using b(2) by (cases s, cases "fst s") (simp add: s1_def upd_conn_def)
    then show ?thesis using rdy conn_inv_kept [OF inv] by simp
  qed
  then show "conn_kept s s1" "input_ready (the_conn s1)" by simp_all
qed

text \<open>The parser of the connection \<open>c\<close> stops with the error \<open>e\<close> when \<open>answer\<close> has been read.\<close>

definition parser_fails :: "Timestamp \<Rightarrow> string option \<Rightarrow> TcpConnection \<Rightarrow> cpp_error \<Rightarrow> bool" where
  "parser_fails now answer c e \<longleftrightarrow>
     (\<exists>n b x. HyBuffer_readFd (cn_inputBuffer c) answer = Inr (n, b) \<and> cn_context c = Some x
        \<and> parser_ready x b \<and> HttpContext_parseRequest x b now = Some (Inl e))"

lemma parser_fails_error: "parser_fails now answer c e \<Longrightarrow> e \<in> parser_errors"
  by (auto simp: parser_fails_def dest: parse_error)

text \<open>
  A message callback that, when \<open>answer\<close> has been read on the connection \<open>c\<close>, stops with the error
  of its parser or does its work on the connection.
\<close>

definition message_ok ::
  "(Timestamp \<Rightarrow> 'f conn_state \<Rightarrow> 'f conn_state result) \<Rightarrow> nat \<Rightarrow> Timestamp \<Rightarrow> string option
    \<Rightarrow> TcpConnection \<Rightarrow> bool" where
  "message_ok msg t now answer c \<longleftrightarrow>
     (\<forall>n b s. HyBuffer_readFd (cn_inputBuffer c) answer = Inr (n, b)
        \<and> the_conn s = c\<lparr>cn_inputBuffer := b\<rparr> \<and> en_buffers (fst s) = Map.empty \<and> conn_inv t s
        \<and> input_ready (the_conn s)
        \<longrightarrow> (\<exists>e. msg now s = Inl e \<and> parser_fails now answer c e)
          \<or> (\<exists>s'. msg now s = Inr s' \<and> conn_inv t s' \<and> conn_kept s s' \<and> established (the_conn s')))"

lemma message_okD:
  assumes "message_ok msg t now answer c" "HyBuffer_readFd (cn_inputBuffer c) answer = Inr (n, b)"
    "the_conn s = c\<lparr>cn_inputBuffer := b\<rparr>" "en_buffers (fst s) = Map.empty" "conn_inv t s" "input_ready (the_conn s)"
  shows "(\<exists>e. msg now s = Inl e \<and> parser_fails now answer c e)
    \<or> (\<exists>s'. msg now s = Inr s' \<and> conn_inv t s' \<and> conn_kept s s' \<and> established (the_conn s'))"
  using assms unfolding message_ok_def by blast

lemma connectionHandler_kept:
  assumes inv: "conn_inv t s" and none: "en_buffers (fst s) = Map.empty" and rdy: "input_ready (the_conn s)"
    and rd: "read_fits answer (cn_inputBuffer (the_conn s))" "answer \<noteq> Some []"
    and msg: "message_ok msg t now answer (the_conn s)"
  shows "(\<exists>e. TcpConnection_connectionHandler t answer now (Some msg) cl s = Inl e
      \<and> parser_fails now answer (the_conn s) e)
    \<or> (\<exists>s'. TcpConnection_connectionHandler t answer now (Some msg) cl s = Inr s'
      \<and> conn_inv t s' \<and> conn_kept s s' \<and> established (the_conn s'))"
proof -
  obtain n b where b: "HyBuffer_readFd (cn_inputBuffer (the_conn s)) answer = Inr (n, b)"
      "b = cn_inputBuffer (the_conn s) \<or> buf_wf b" "to_size n \<noteq> 0"
    using readFd_kept [OF input_ready_buffer [OF rdy] rd(1)] rd(2) by blast
  let ?s1 = "upd_conn (\<lambda>c. c\<lparr>cn_inputBuffer := b\<rparr>) s"
  note k1 = read_kept [OF inv rdy b(1,2)]
  have "the_conn ?s1 = (the_conn s)\<lparr>cn_inputBuffer := b\<rparr>" "en_buffers (fst ?s1) = Map.empty"
    using none by (simp_all add: upd_conn_def)
  note out = message_okD [OF msg b(1) this k1(2,3)]
  have run: "TcpConnection_connectionHandler t answer now (Some msg) cl s = msg now ?s1"
    using b(1,3) by (simp add: TcpConnection_connectionHandler_def Let_def)
  show ?thesis using out conn_kept_trans [OF k1(1)] unfolding run by blast
qed

text \<open>\<open>closeHandler\<close> turns the channel off.\<close>

lemma closeHandler_kept:
  assumes ok: "conn_ok t s" and est: "established (the_conn s)"
  shows "\<exists>s' x. TcpConnection_closeHandler t (Some Inr) s = Inr s' \<and> conn_ok t s' \<and> fst s' = fst s
    \<and> own_change (cn_channel (the_conn s)) (the_loop s) (the_loop s')
    \<and> loop_channel (the_loop s') (cn_channel (the_conn s)) = Some x \<and> ch_events x = 0"
proof -
  obtain x where x: "loop_channel (the_loop s) (cn_channel (the_conn s)) = Some x"
    using ok loop.reg_obj by (auto simp: conn_ok_def)
  obtain l where l: "conn_change Channel_disableAll t s = Inr (fst s, l)" "conn_ok t (fst s, l)"
      "loop_channel l (cn_channel (the_conn s)) = Some (Channel_disableAll x)"
    using conn_change_ok [OF ok events_only_ops(4)] x by auto
  then show ?thesis
    using est conn_ok_thread [OF ok] change_own [OF conn_ok_linked [OF ok] events_only_ops(4) l(1)]
    by (auto simp: TcpConnection_closeHandler_def established_def Channel_disableAll_def EMPTYEVENT_def)
qed


section \<open>Invariant\<close>

abbreviation conn_at :: "'f EventLoop \<Rightarrow> TcpConnection \<Rightarrow> 'f conn_state" where
  "conn_at l c \<equiv> (\<lparr>en_conn = c, en_buffers = Map.empty\<rparr>, l)"

abbreviation conn_fd :: "TcpConnection \<Rightarrow> int" where
  "conn_fd c \<equiv> sk_fd (cn_socket c)"

abbreviation tasks :: "server_task EventLoop \<Rightarrow> server_task \<Rightarrow> nat" where
  "tasks l f \<equiv> count_list (el_unprocessedFunctors l) f"

text \<open>
  The phases of the connection \<open>c\<close> at the address \<open>a\<close>: accepted and waiting for its functor,
  established, closed and waiting for its functor, destroyed. \<open>busy\<close> is set while the channel of
  this connection handles an event.
\<close>

definition waiting :: "server_task EventLoop \<Rightarrow> (string \<rightharpoonup> nat) \<Rightarrow> nat \<Rightarrow> TcpConnection \<Rightarrow> Channel \<Rightarrow> bool" where
  "waiting l m a c x \<longleftrightarrow> TcpConnection_new (cn_name c) (conn_fd c) (cn_channel c) = c
     \<and> ch_index x < 0 \<and> ch_events x = 0 \<and> po_channels (el_poller l) (conn_fd c) = None
     \<and> tasks l (EstablishTask a) = 1 \<and> tasks l (DestroyTask a) = 0 \<and> m (cn_name c) = Some a"

definition opened :: "nat \<Rightarrow> server_task EventLoop \<Rightarrow> (string \<rightharpoonup> nat) \<Rightarrow> nat \<Rightarrow> TcpConnection \<Rightarrow> bool" where
  "opened t l m a c \<longleftrightarrow> established c \<and> input_ready c \<and> conn_inv t (conn_at l c)
     \<and> tasks l (EstablishTask a) = 0 \<and> tasks l (DestroyTask a) = 0 \<and> m (cn_name c) = Some a"

definition closing :: "nat \<Rightarrow> server_task EventLoop \<Rightarrow> (string \<rightharpoonup> nat) \<Rightarrow> nat \<Rightarrow> TcpConnection \<Rightarrow> Channel \<Rightarrow> bool" where
  "closing t l m a c x \<longleftrightarrow> established c \<and> conn_ok t (conn_at l c) \<and> ch_events x = 0
     \<and> tasks l (EstablishTask a) = 0 \<and> tasks l (DestroyTask a) = 1 \<and> m (cn_name c) = None"

definition destroyed :: "server_task EventLoop \<Rightarrow> (string \<rightharpoonup> nat) \<Rightarrow> nat \<Rightarrow> TcpConnection \<Rightarrow> bool" where
  "destroyed l m a c \<longleftrightarrow> cn_state c = DISCONNECTED \<and> po_channels (el_poller l) (conn_fd c) = None
     \<and> tasks l (EstablishTask a) = 0 \<and> tasks l (DestroyTask a) = 0 \<and> m (cn_name c) = None"

definition phase_ok ::
  "nat \<Rightarrow> bool \<Rightarrow> server_task EventLoop \<Rightarrow> (string \<rightharpoonup> nat) \<Rightarrow> nat \<Rightarrow> TcpConnection \<Rightarrow> Channel \<Rightarrow> bool" where
  "phase_ok t busy l m a c x \<longleftrightarrow> waiting l m a c x \<or> opened t l m a c
     \<or> closing t l m a c x \<and> (busy \<or> \<not> ch_handlingEvent x)
     \<or> destroyed l m a c \<and> (busy \<or> \<not> ch_handlingEvent x)"

definition conn_good ::
  "nat \<Rightarrow> bool \<Rightarrow> server_task EventLoop \<Rightarrow> (string \<rightharpoonup> nat) \<Rightarrow> nat \<Rightarrow> TcpConnection \<Rightarrow> bool" where
  "conn_good t busy l m a c \<longleftrightarrow> 0 \<le> conn_fd c
     \<and> (\<exists>x. po_objs (el_poller l) (cn_channel c) = Some x \<and> ch_fd x = conn_fd c
          \<and> ch_loop x = el_this l \<and> phase_ok t busy l m a c x)"

definition server_name_used :: "TcpServer \<Rightarrow> string \<Rightarrow> bool" where
  "server_name_used sv n \<longleftrightarrow> (\<exists>i. 0 \<le> i \<and> i < ts_newConnId sv \<and> n = conn_name (ts_serverName sv) i)"

definition server_fixed :: "nat \<Rightarrow> server_system \<Rightarrow> bool" where
  "server_fixed t s \<longleftrightarrow> ss_error s = None \<and> loop_ok t (main_loop s)
     \<and> el_this (main_loop s) = ts_loop (ss_server s)
     \<and> pl_loops (ts_threadPool (ss_server s)) = []
     \<and> pl_mainLoop (ts_threadPool (ss_server s)) = ts_loop (ss_server s)
     \<and> pl_mainThread (ts_threadPool (ss_server s)) = t
     \<and> ac_loop (ts_acceptor (ss_server s)) = ts_loop (ss_server s)
     \<and> ac_hasCallback (ts_acceptor (ss_server s)) \<and> 0 \<le> ts_newConnId (ss_server s)"

definition server_inv :: "nat \<Rightarrow> nat option \<Rightarrow> server_system \<Rightarrow> bool" where
  "server_inv t h s \<longleftrightarrow> server_fixed t s
     \<and> (\<forall>a l c. ss_conns s a = Some (l, c) \<longrightarrow> l = ts_loop (ss_server s) \<and> conn_fd c \<in> ss_fds s
          \<and> server_name_used (ss_server s) (cn_name c)
          \<and> conn_good t (h = Some a) (main_loop s) (ts_connections (ss_server s)) a c)
     \<and> (\<forall>a b l l' c d. ss_conns s a = Some (l, c) \<and> ss_conns s b = Some (l', d) \<and> a \<noteq> b \<longrightarrow>
          cn_name c \<noteq> cn_name d \<and> cn_channel c \<noteq> cn_channel d \<and> conn_fd c \<noteq> conn_fd d)
     \<and> (\<forall>n a. ts_connections (ss_server s) n = Some a \<longrightarrow> (\<exists>l c. ss_conns s a = Some (l, c) \<and> cn_name c = n))
     \<and> (\<forall>f \<in> set (el_unprocessedFunctors (main_loop s)).
          \<exists>a. ss_conns s a \<noteq> None \<and> (f = EstablishTask a \<or> f = DestroyTask a))
     \<and> (\<forall>fd ch. po_channels (el_poller (main_loop s)) fd = Some ch \<longrightarrow> fd \<in> ss_fds s)"

text \<open>
  Another connection does not notice a change of the loop that leaves its own channel (but for the
  position in the poller), its descriptor, its functors and its name alone.
\<close>

lemma conn_ok_frame:
  assumes "conn_ok t (conn_at l c)" "loop_ok t l'" "el_this l' = el_this l"
    and "same_object (po_objs (el_poller l) (cn_channel c)) (po_objs (el_poller l') (cn_channel c))"
    and "po_objs (el_poller l) (cn_channel c) = Some x"
    and "po_channels (el_poller l') (ch_fd x) = po_channels (el_poller l) (ch_fd x)"
  shows "conn_ok t (conn_at l' c) \<and> writing (conn_at l' c) = writing (conn_at l c)"
  using assms
  by (auto simp: conn_ok_def loop_registered_def registered_def same_object_def writing_def
      loop_channel_def Channel_isWriting_def)

lemma conn_good_frame:
  assumes good: "conn_good t busy l m a c" and l': "loop_ok t l'" "el_this l' = el_this l"
    and obj: "same_object (po_objs (el_poller l) (cn_channel c)) (po_objs (el_poller l') (cn_channel c))"
    and fd: "po_channels (el_poller l') (conn_fd c) = po_channels (el_poller l) (conn_fd c)"
    and ts: "tasks l' (EstablishTask a) = tasks l (EstablishTask a)"
      "tasks l' (DestroyTask a) = tasks l (DestroyTask a)"
    and m: "m' (cn_name c) = m (cn_name c)"
  shows "conn_good t busy l' m' a c"
proof -
  obtain x where x: "po_objs (el_poller l) (cn_channel c) = Some x" "ch_fd x = conn_fd c"
      "ch_loop x = el_this l" "phase_ok t busy l m a c x"
    using good by (auto simp: conn_good_def)
  obtain i where i: "po_objs (el_poller l') (cn_channel c) = Some (x\<lparr>ch_index := i\<rparr>)"
      "ch_index x < 0 \<longrightarrow> i = ch_index x"
    using obj x(1) by (auto simp: same_object_def)
  have fr: "conn_ok t (conn_at l c) \<Longrightarrow> conn_ok t (conn_at l' c) \<and> writing (conn_at l' c) = writing (conn_at l c)"
    using conn_ok_frame [OF _ l' obj x(1)] fd x(2) by simp
  have "waiting l m a c x \<Longrightarrow> waiting l' m' a c (x\<lparr>ch_index := i\<rparr>)"
    using i(2) fd ts m by (simp add: waiting_def)
  moreover have "opened t l m a c \<Longrightarrow> opened t l' m' a c"
    using fr ts m by (auto simp: opened_def conn_inv_def out_bytes_def fin_sent_def)
  moreover have "closing t l m a c x \<Longrightarrow> closing t l' m' a c (x\<lparr>ch_index := i\<rparr>)"
    using fr ts m by (auto simp: closing_def)
  moreover have "destroyed l m a c \<Longrightarrow> destroyed l' m' a c"
    using fd ts m by (simp add: destroyed_def)
  ultimately have "phase_ok t busy l' m' a c (x\<lparr>ch_index := i\<rparr>)"
    using x(4) by (auto simp: phase_ok_def)
  then show ?thesis using good i(1) x(2,3) l'(2) by (auto simp: conn_good_def)
qed


section \<open>A step of one connection\<close>

definition server_upd ::
  "server_task EventLoop \<Rightarrow> (string \<rightharpoonup> nat) \<Rightarrow> nat \<Rightarrow> TcpConnection \<Rightarrow> server_system \<Rightarrow> server_system" where
  "server_upd l' m' a c' s =
     set_loop (ts_loop (ss_server s)) l'
       (s\<lparr>ss_server := (ss_server s)\<lparr>ts_connections := m'\<rparr>,
          ss_conns := (ss_conns s)(a \<mapsto> (ts_loop (ss_server s), c'))\<rparr>)"

lemma server_upd_simps [simp]:
  "ss_loops (server_upd l' m' a c' s) = (ss_loops s)(ts_loop (ss_server s) := l')"
  "ss_server (server_upd l' m' a c' s) = (ss_server s)\<lparr>ts_connections := m'\<rparr>"
  "ss_conns (server_upd l' m' a c' s) = (ss_conns s)(a \<mapsto> (ts_loop (ss_server s), c'))"
  "ss_fds (server_upd l' m' a c' s) = ss_fds s" "ss_error (server_upd l' m' a c' s) = ss_error s"
  by (simp_all add: server_upd_def set_loop_def)

text \<open>What a step of the connection \<open>c\<close> at \<open>a\<close> may change of the loop.\<close>

definition foreign_same :: "nat \<Rightarrow> TcpConnection \<Rightarrow> server_task EventLoop \<Rightarrow> server_task EventLoop \<Rightarrow> bool" where
  "foreign_same a c l l' \<longleftrightarrow> el_this l' = el_this l \<and> el_quit l' = el_quit l
     \<and> (\<forall>k. k \<noteq> cn_channel c \<longrightarrow> same_object (po_objs (el_poller l) k) (po_objs (el_poller l') k))
     \<and> (\<forall>fd. fd \<noteq> conn_fd c \<longrightarrow> po_channels (el_poller l') fd = po_channels (el_poller l) fd)
     \<and> (\<forall>b. b \<noteq> a \<longrightarrow> tasks l' (EstablishTask b) = tasks l (EstablishTask b)
          \<and> tasks l' (DestroyTask b) = tasks l (DestroyTask b))
     \<and> set (el_unprocessedFunctors l') \<subseteq> set (el_unprocessedFunctors l) \<union> {EstablishTask a, DestroyTask a}"

lemma server_invD:
  assumes "server_inv t h s" and "ss_conns s a = Some (l, c)"
  shows "l = ts_loop (ss_server s)" "conn_fd c \<in> ss_fds s" "server_name_used (ss_server s) (cn_name c)"
    "conn_good t (h = Some a) (main_loop s) (ts_connections (ss_server s)) a c"
  using assms unfolding server_inv_def by blast+

lemma server_inv_distinct:
  assumes "server_inv t h s" "ss_conns s a = Some (l, c)" "ss_conns s b = Some (l', d)" "a \<noteq> b"
  shows "cn_name c \<noteq> cn_name d" "cn_channel c \<noteq> cn_channel d" "conn_fd c \<noteq> conn_fd d"
  using assms unfolding server_inv_def by blast+

lemma server_inv_map:
  assumes "server_inv t h s" "ts_connections (ss_server s) n = Some a"
  shows "\<exists>l c. ss_conns s a = Some (l, c) \<and> cn_name c = n"
  using assms unfolding server_inv_def by blast

lemma server_inv_queue:
  assumes "server_inv t h s" "f \<in> set (el_unprocessedFunctors (main_loop s))"
  shows "\<exists>a. ss_conns s a \<noteq> None \<and> (f = EstablishTask a \<or> f = DestroyTask a)"
  using assms unfolding server_inv_def by blast

lemma server_inv_fds:
  assumes "server_inv t h s" "po_channels (el_poller (main_loop s)) fd = Some ch"
  shows "fd \<in> ss_fds s"
  using assms unfolding server_inv_def by blast

lemma server_inv_fixed: "server_inv t h s \<Longrightarrow> server_fixed t s"
  by (simp add: server_inv_def)

lemma conn_good_other:
  assumes inv: "server_inv t h s" and at: "ss_conns s a = Some (l, c)"
    and l': "loop_ok t l'" "foreign_same a c (main_loop s) l'"
    and m': "m' = ts_connections (ss_server s) \<or> m' = (ts_connections (ss_server s))(cn_name c := None)"
    and h: "h = None \<or> h = Some a" "h' = None \<or> h' = Some a"
    and b: "b \<noteq> a" "ss_conns s b = Some (k, d)"
  shows "conn_good t (h' = Some b) l' m' b d"
proof -
  note ne = server_inv_distinct [OF inv at b(2)]
  have "conn_good t (h = Some b) (main_loop s) (ts_connections (ss_server s)) b d"
    using server_invD(4) [OF inv b(2)] .
  moreover have "(h = Some b) = False" "(h' = Some b) = False" using h b(1) by auto
  moreover have "m' (cn_name d) = ts_connections (ss_server s) (cn_name d)" using m' ne(1) b(1) by auto
  moreover have "cn_channel d \<noteq> cn_channel c" "conn_fd d \<noteq> conn_fd c" using ne b(1) by auto
  ultimately show ?thesis
    using conn_good_frame [of t False "main_loop s" "ts_connections (ss_server s)" b d l' m'] l' b(1)
    by (simp add: foreign_same_def)
qed

lemma server_inv_upd_queue:
  assumes inv: "server_inv t h s" and "foreign_same a c (main_loop s) l'"
  shows "\<forall>f \<in> set (el_unprocessedFunctors l').
    \<exists>b. ss_conns (server_upd l' m' a c' s) b \<noteq> None \<and> (f = EstablishTask b \<or> f = DestroyTask b)"
proof
  fix f assume "f \<in> set (el_unprocessedFunctors l')"
  then consider "f \<in> set (el_unprocessedFunctors (main_loop s))" | "f \<in> {EstablishTask a, DestroyTask a}"
    using assms(2) by (auto simp: foreign_same_def)
  then show "\<exists>b. ss_conns (server_upd l' m' a c' s) b \<noteq> None \<and> (f = EstablishTask b \<or> f = DestroyTask b)"
  proof cases
    case 1
    then obtain b where "ss_conns s b \<noteq> None" "f = EstablishTask b \<or> f = DestroyTask b"
      using server_inv_queue [OF inv] by blast
    then show ?thesis by (intro exI [of _ b]) auto
  qed auto
qed

text \<open>
  The invariant after a step of one connection that keeps its name, channel and descriptor: only this
  connection has to be looked at.
\<close>

lemma server_inv_upd:
  assumes inv: "server_inv t h s" and at: "ss_conns s a = Some (l, c)"
    and l': "loop_ok t l'" "foreign_same a c (main_loop s) l'"
    and ident: "cn_name c' = cn_name c" "cn_channel c' = cn_channel c" "conn_fd c' = conn_fd c"
    and m': "m' = ts_connections (ss_server s) \<or> m' = (ts_connections (ss_server s))(cn_name c := None)"
    and h: "h = None \<or> h = Some a" "h' = None \<or> h' = Some a"
    and good: "conn_good t (h' = Some a) l' m' a c'"
  shows "server_inv t h' (server_upd l' m' a c' s)"
  unfolding server_inv_def
proof (intro conjI allI impI)
  let ?s = "server_upd l' m' a c' s"
  show "server_fixed t ?s"
    using server_inv_fixed [OF inv] l' by (simp add: server_fixed_def foreign_same_def)
  fix b k d assume b: "ss_conns ?s b = Some (k, d)"
  show "k = ts_loop (ss_server ?s)" and "conn_fd d \<in> ss_fds ?s"
    and "server_name_used (ss_server ?s) (cn_name d)"
    and "conn_good t (h' = Some b) (main_loop ?s) (ts_connections (ss_server ?s)) b d"
    using b good conn_good_other [OF inv at l' m' h, of b k d] server_invD(1-3) [OF inv at]
      server_invD(1-3) [OF inv, of b k d] ident
    by (cases "b = a"; simp add: server_name_used_def)+
next
  fix b b' k k' d d'
  assume "ss_conns (server_upd l' m' a c' s) b = Some (k, d)
    \<and> ss_conns (server_upd l' m' a c' s) b' = Some (k', d') \<and> b \<noteq> b'"
  then obtain e e' j j' where e: "ss_conns s b = Some (j, e)" "ss_conns s b' = Some (j', e')" "b \<noteq> b'"
      "cn_name d = cn_name e \<and> cn_channel d = cn_channel e \<and> conn_fd d = conn_fd e"
      "cn_name d' = cn_name e' \<and> cn_channel d' = cn_channel e' \<and> conn_fd d' = conn_fd e'"
    using at ident by (auto split: if_splits)
  then show "cn_name d \<noteq> cn_name d'" "cn_channel d \<noteq> cn_channel d'" "conn_fd d \<noteq> conn_fd d'"
    using server_inv_distinct [OF inv e(1-3)] by simp_all
next
  fix n b assume "ts_connections (ss_server (server_upd l' m' a c' s)) n = Some b"
  then have "ts_connections (ss_server s) n = Some b" using m' by (auto split: if_splits)
  then show "\<exists>k d. ss_conns (server_upd l' m' a c' s) b = Some (k, d) \<and> cn_name d = n"
    using server_inv_map [OF inv] at ident by (cases "b = a") fastforce+
next
  show "\<forall>f \<in> set (el_unprocessedFunctors (main_loop (server_upd l' m' a c' s))).
      \<exists>b. ss_conns (server_upd l' m' a c' s) b \<noteq> None \<and> (f = EstablishTask b \<or> f = DestroyTask b)"
    using server_inv_upd_queue [OF inv l'(2)] by simp
next
  fix fd k assume "po_channels (el_poller (main_loop (server_upd l' m' a c' s))) fd = Some k"
  then show "fd \<in> ss_fds (server_upd l' m' a c' s)"
    using l'(2) server_inv_fds [OF inv, of fd k] server_invD(2) [OF inv at]
    by (cases "fd = conn_fd c") (simp_all add: foreign_same_def)
qed

text \<open>What such a step leaves alone.\<close>

definition step_of :: "nat \<Rightarrow> server_system \<Rightarrow> server_system \<Rightarrow> bool" where
  "step_of a s s' \<longleftrightarrow> (\<forall>b. b \<noteq> a \<longrightarrow> ss_conns s' b = ss_conns s b)
     \<and> (\<exists>l c c'. ss_conns s a = Some (l, c) \<and> ss_conns s' a = Some (l, c')
          \<and> cn_name c' = cn_name c \<and> cn_channel c' = cn_channel c \<and> conn_fd c' = conn_fd c
          \<and> (\<forall>n. n \<noteq> cn_name c \<longrightarrow> ts_connections (ss_server s') n = ts_connections (ss_server s) n)
          \<and> (\<forall>fd. fd \<noteq> conn_fd c \<longrightarrow>
               po_channels (el_poller (main_loop s')) fd = po_channels (el_poller (main_loop s)) fd))
     \<and> ss_server s' = (ss_server s)\<lparr>ts_connections := ts_connections (ss_server s')\<rparr>
     \<and> ss_fds s' = ss_fds s \<and> el_quit (main_loop s') = el_quit (main_loop s)"

lemma step_of_refl: "ss_conns s a = Some (l, c) \<Longrightarrow> step_of a s s"
  by (simp add: step_of_def)

lemma step_of_trans:
  assumes "step_of a s s1" "step_of a s1 s2"
  shows "step_of a s s2"
proof -
  have e: "ss_server s1 = (ss_server s)\<lparr>ts_connections := ts_connections (ss_server s1)\<rparr>"
      "ss_server s2 = (ss_server s1)\<lparr>ts_connections := ts_connections (ss_server s2)\<rparr>"
    using assms unfolding step_of_def by blast+
  have "ss_server s2 = (ss_server s)\<lparr>ts_connections := ts_connections (ss_server s2)\<rparr>"
    by (subst e(2), subst e(1)) simp
  then show ?thesis using assms by (auto simp: step_of_def)
qed

lemma step_of_upd:
  assumes "ss_conns s a = Some (ts_loop (ss_server s), c)" "foreign_same a c (main_loop s) l'"
    "cn_name c' = cn_name c" "cn_channel c' = cn_channel c" "conn_fd c' = conn_fd c"
    "m' = ts_connections (ss_server s) \<or> m' = (ts_connections (ss_server s))(cn_name c := None)"
  shows "step_of a s (server_upd l' m' a c' s)"
  using assms by (auto simp: step_of_def foreign_same_def)

section \<open>Handlers of an event\<close>

lemma poller_inv_objs:
  assumes inv: "poller_inv p"
    and objs: "\<And>ch c. po_objs p ch = Some c \<Longrightarrow> po_channels p (ch_fd c) = Some ch \<Longrightarrow>
      \<exists>c'. objs ch = Some c' \<and> ch_fd c' = ch_fd c \<and> ch_index c' = ch_index c \<and> ch_events c' = ch_events c"
  shows "poller_inv (p\<lparr>po_objs := objs\<rparr>)"
proof -
  have sl: "\<exists>c'. slot (p\<lparr>po_objs := objs\<rparr>) i ch c' \<and> ch_fd c' = ch_fd c" if "slot p i ch c" for i ch c
    using that objs [of ch c] by (auto simp: slot_def)
  have f: "po_fds (p\<lparr>po_objs := objs\<rparr>) = po_fds p" "po_channels (p\<lparr>po_objs := objs\<rparr>) = po_channels p"
    by simp_all
  show ?thesis using inv sl unfolding poller_inv_def f by metis
qed

lemma own_change_same: "own_change (cn_channel c) l l' \<Longrightarrow> foreign_same a c l l'"
  by (auto simp: own_change_def foreign_same_def)

lemma with_conn_upd:
  assumes "ss_conns s a = Some (ts_loop (ss_server s), c)" "f (conn_at (main_loop s) c) = Inr s'"
  shows "with_conn a f s = Inr (server_upd (the_loop s') (ts_connections (ss_server s)) a (the_conn s') s)"
  using assms by (auto simp: with_conn_def server_upd_def split: prod.splits)

text \<open>The connection at \<open>a\<close> is open, or closed, in the middle of its event, which began in \<open>s0\<close>.\<close>

definition is_open :: "nat \<Rightarrow> nat \<Rightarrow> server_system \<Rightarrow> server_system \<Rightarrow> bool" where
  "is_open t a s0 s \<longleftrightarrow> step_of a s0 s \<and> server_inv t (Some a) s
     \<and> (\<exists>c. ss_conns s a = Some (ts_loop (ss_server s), c)
          \<and> opened t (main_loop s) (ts_connections (ss_server s)) a c)"

definition is_closing :: "nat \<Rightarrow> nat \<Rightarrow> server_system \<Rightarrow> server_system \<Rightarrow> bool" where
  "is_closing t a s0 s \<longleftrightarrow> step_of a s0 s \<and> server_inv t (Some a) s
     \<and> (\<exists>c x. ss_conns s a = Some (ts_loop (ss_server s), c)
          \<and> po_objs (el_poller (main_loop s)) (cn_channel c) = Some x
          \<and> closing t (main_loop s) (ts_connections (ss_server s)) a c x)"

lemma own_change_obj:
  assumes "own_change ch l l'" "po_objs (el_poller l) ch = Some x"
  shows "\<exists>e. po_objs (el_poller l') ch = Some (x\<lparr>ch_events := e\<rparr>)" "el_this l' = el_this l"
    "el_unprocessedFunctors l' = el_unprocessedFunctors l" "po_channels (el_poller l') = po_channels (el_poller l)"
    "el_threadId l' = el_threadId l"
  using assms by (auto simp: own_change_def)

lemma open_kept:
  assumes op: "is_open t a s0 s" and at: "ss_conns s a = Some (l, c)"
    and run: "f (conn_at (main_loop s) c) = Inr s'" "conn_inv t s'" "conn_kept (conn_at (main_loop s) c) s'"
      "established (the_conn s')"
  shows "\<exists>s'. with_conn a f s = Inr s' \<and> is_open t a s0 s'"
proof -
  let ?m = "ts_connections (ss_server s)" and ?c = "the_conn s'"
  let ?s = "server_upd (the_loop s') ?m a ?c s"
  have inv: "server_inv t (Some a) s" and o: "opened t (main_loop s) ?m a c" and l: "l = ts_loop (ss_server s)"
    using op at by (auto simp: is_open_def)
  have good: "conn_good t True (main_loop s) ?m a c" using server_invD(4) [OF inv at] by simp
  then obtain x where x: "po_objs (el_poller (main_loop s)) (cn_channel c) = Some x" "ch_fd x = conn_fd c"
      "ch_loop x = el_this (main_loop s)" "0 \<le> conn_fd c"
    by (auto simp: conn_good_def)
  have k: "own_change (cn_channel c) (main_loop s) (the_loop s')" "cn_name ?c = cn_name c"
      "cn_channel ?c = cn_channel c" "conn_fd ?c = conn_fd c"
      "en_buffers (fst s') = Map.empty"
    using run(3) by (auto simp: conn_kept_def)
  note ch = own_change_obj [OF k(1) x(1)]
  have s': "s' = conn_at (the_loop s') ?c" using k(5) by (cases s', cases "fst s'") simp
  have "input_ready ?c" using run(3) o by (simp add: conn_kept_def opened_def)
  then have o': "opened t (the_loop s') ?m a ?c"
    using o run(2,4) ch(3) k(2) s' by (simp add: opened_def)
  then have "conn_good t True (the_loop s') ?m a ?c"
    using x k(3,4) ch(1,2) by (auto simp: conn_good_def phase_ok_def)
  moreover have "loop_ok t (the_loop s')" using run(2) by (simp add: conn_inv_def conn_ok_def)
  ultimately have "server_inv t (Some a) ?s"
    using server_inv_upd [OF inv at _ own_change_same [OF k(1)] k(2-4), of ?m "Some a"] by simp
  moreover have "with_conn a f s = Inr ?s"
    using with_conn_upd [of s a c f s'] run(1) at l by simp
  moreover have "step_of a s0 ?s"
    using op step_of_upd [of s a c "the_loop s'" ?c ?m] own_change_same [OF k(1)] k(2-4) at l step_of_trans
    by (auto simp: is_open_def)
  ultimately show ?thesis using o' by (auto simp: is_open_def)
qed


lemma is_open_conn:
  assumes "is_open t a s0 s"
  obtains c where "ss_conns s a = Some (ts_loop (ss_server s), c)" "conn_inv t (conn_at (main_loop s) c)"
    "established c" "input_ready c" "server_inv t (Some a) s"
proof -
  obtain c where c: "ss_conns s a = Some (ts_loop (ss_server s), c)" "server_inv t (Some a) s"
      "opened t (main_loop s) (ts_connections (ss_server s)) a c"
    using assms by (auto simp: is_open_def)
  then show thesis
    using that [of c] by (simp add: opened_def)
qed

lemma with_conn_same:
  "ss_conns s a = Some (l, c) \<Longrightarrow> f (conn_at (ss_loops s l) c) = Inr (conn_at (ss_loops s l) c) \<Longrightarrow>
     with_conn a f s = Inr s"
  by (simp add: with_conn_def set_loop_def fun_upd_idem)

lemma error_same: "ss_conns s a = Some (l, c) \<Longrightarrow> server_errorHandler a s = Inr s"
  by (simp add: server_errorHandler_def with_conn_same TcpConnection_errorHandler_def)

lemma open_write:
  assumes op: "is_open t a s0 s" and ans: "\<And>n. answer_ok (wr n) n"
  shows "\<exists>s'. server_writeHandler t wr a s = Inr s' \<and> is_open t a s0 s'"
proof -
  obtain c where c: "ss_conns s a = Some (ts_loop (ss_server s), c)"
      "conn_inv t (conn_at (main_loop s) c)" "established c"
    using is_open_conn [OF op] .
  let ?f = "\<lambda>s. TcpConnection_writeHandler t (wr (HyBuffer_readableBytes (cn_outputBuffer (the_conn s)))) s"
  have "conn_ok t (conn_at (main_loop s) c)" using c(2) by (simp add: conn_inv_def)
  from conn_ok_readable [OF this] obtain s' where "?f (conn_at (main_loop s) c) = Inr s'" "conn_inv t s'"
      "conn_kept (conn_at (main_loop s) c) s'" "established (the_conn s')"
    using writeHandler_kept [OF c(2), of "wr (length (out_bytes (conn_at (main_loop s) c)))"] ans c(3)
    by (auto simp: established_def)
  then show ?thesis using open_kept [OF op c(1), of ?f] by (simp add: server_writeHandler_def)
qed

lemma open_read:
  assumes op: "is_open t a s0 s" and c: "ss_conns s a = Some (l, c)"
    and fits: "read_fits rd (cn_inputBuffer c)" "rd \<noteq> Some []" and msg: "message_ok msg t now rd c"
  shows "(\<exists>e. server_connectionHandler msg t rd a now s = Inl e \<and> parser_fails now rd c e)
    \<or> (\<exists>s'. server_connectionHandler msg t rd a now s = Inr s' \<and> is_open t a s0 s')"
proof -
  have c': "conn_inv t (conn_at (main_loop s) c)" "established c" "input_ready c" "l = ts_loop (ss_server s)"
    using is_open_conn [OF op] c by auto
  let ?f = "TcpConnection_connectionHandler t rd now (Some msg) (Some Inr)"
  have run: "server_connectionHandler msg t rd a now s = with_conn a ?f s"
    using fits(2) by (cases "with_conn a ?f s") (auto simp: server_connectionHandler_def)
  consider e where "?f (conn_at (main_loop s) c) = Inl e" "parser_fails now rd c e"
    | s' where "?f (conn_at (main_loop s) c) = Inr s'" "conn_inv t s'"
      "conn_kept (conn_at (main_loop s) c) s'" "established (the_conn s')"
    using connectionHandler_kept [OF c'(1), of rd msg now "Some Inr"] c'(3) fits msg by auto
  then show ?thesis
  proof cases
    case (1 e)
    then have "with_conn a ?f s = Inl e" using c c'(4) by (simp add: with_conn_def)
    then show ?thesis using run 1(2) by simp
  next
    case (2 s')
    then show ?thesis using open_kept [OF op c, of ?f] run by auto
  qed
qed


lemma add_same [simp]:
  "el_poller (EventLoop_addToLoopThread me f l) = el_poller l"
  "el_this (EventLoop_addToLoopThread me f l) = el_this l"
  "el_quit (EventLoop_addToLoopThread me f l) = el_quit l"
  by (simp_all add: EventLoop_addToLoopThread_def EventLoop_push_def EventLoop_waken_def Let_def)

lemma loop_ok_add [simp]: "loop_ok t (EventLoop_addToLoopThread me f l) = loop_ok t l"
  by (simp add: loop_ok_def)

lemma conn_ok_add [simp]:
  "conn_ok t (e, EventLoop_addToLoopThread me f l) = conn_ok t (e, l)"
  by (simp add: conn_ok_def loop_registered_def cong: option.case_cong)

lemma removeConnection_run:
  assumes "ss_conns s a = Some (ts_loop (ss_server s), c)" "el_threadId (main_loop s) = t"
    "ts_connections (ss_server s) (cn_name c) = Some a"
  shows "TcpServer_removeConnection t a s =
    Inr (server_upd (EventLoop_addToLoopThread t (DestroyTask a) (main_loop s))
      ((ts_connections (ss_server s))(cn_name c := None)) a c s)"
  using assms by (simp add: TcpServer_removeConnection_def TcpServer_removeConnectionInLoopThread_def
      EventLoop_isInLoopThread_def EventLoop_assertInLoopThread_def server_upd_def fun_upd_idem)

lemma server_upd_twice:
  "server_upd l2 m2 a c2 (server_upd l1 m1 a c1 s) = server_upd l2 m2 a c2 s"
  by (simp add: server_upd_def set_loop_def)

text \<open>An operation that turns the channel off, followed by the close callback.\<close>

definition shut :: "nat \<Rightarrow> server_task conn_state \<Rightarrow> server_task conn_state \<Rightarrow> bool" where
  "shut t s s' \<longleftrightarrow> conn_ok t s' \<and> conn_kept s s' \<and> established (the_conn s')
     \<and> (\<exists>x. loop_channel (the_loop s') (cn_channel (the_conn s)) = Some x \<and> ch_events x = 0)"

lemma open_close:
  assumes op: "is_open t a s0 s" and at: "ss_conns s a = Some (l, c)"
    and run: "f (conn_at (main_loop s) c) = Inr s1" "shut t (conn_at (main_loop s) c) s1"
  shows "\<exists>s'. bind_result (with_conn a f s) (TcpServer_removeConnection t a) = Inr s' \<and> is_closing t a s0 s'"
proof -
  let ?m = "ts_connections (ss_server s)" and ?c = "the_conn s1" and ?l1 = "the_loop s1"
  let ?m' = "?m(cn_name c := None)" and ?l2 = "EventLoop_addToLoopThread t (DestroyTask a) ?l1"
  let ?s = "server_upd ?l2 ?m' a ?c s"
  have inv: "server_inv t (Some a) s" and o: "opened t (main_loop s) ?m a c" and l: "l = ts_loop (ss_server s)"
    using op at by (auto simp: is_open_def)
  have good: "conn_good t True (main_loop s) ?m a c" using server_invD(4) [OF inv at] by simp
  then obtain x where x: "po_objs (el_poller (main_loop s)) (cn_channel c) = Some x" "ch_fd x = conn_fd c"
      "ch_loop x = el_this (main_loop s)" "0 \<le> conn_fd c"
    by (auto simp: conn_good_def)
  have k: "own_change (cn_channel c) (main_loop s) ?l1" "cn_name ?c = cn_name c"
      "cn_channel ?c = cn_channel c" "conn_fd ?c = conn_fd c"
      "en_buffers (fst s1) = Map.empty" "conn_ok t s1" "established ?c"
    using run(2) by (auto simp: shut_def conn_kept_def)
  note ch = own_change_obj [OF k(1) x(1)]
  obtain e where e: "po_objs (el_poller ?l1) (cn_channel c) = Some (x\<lparr>ch_events := e\<rparr>)" using ch(1) by blast
  have e0: "e = 0" using run(2) e by (auto simp: shut_def loop_channel_def)
  have s1: "s1 = conn_at ?l1 ?c" using k(5) by (cases s1, cases "fst s1") simp
  have ok: "conn_ok t (conn_at ?l2 ?c)" using k(6) s1 conn_ok_add by metis
  have cl: "closing t ?l2 ?m' a ?c (x\<lparr>ch_events := 0\<rparr>)"
    using o k(2,7) ch(3) ok by (simp add: closing_def opened_def)
  have "conn_good t True ?l2 ?m' a ?c"
    using x k(3,4) ch(2) e e0 cl by (auto simp: conn_good_def phase_ok_def)
  moreover have foreign: "foreign_same a c (main_loop s) ?l2"
    using own_change_same [OF k(1), of a] by (auto simp: foreign_same_def)
  moreover have th: "loop_ok t ?l1" using k(6) by (simp add: conn_ok_def)
  ultimately have "server_inv t (Some a) ?s"
    using server_inv_upd [OF inv at _ _ k(2-4), of ?l2 ?m' "Some a"] by simp
  moreover have "bind_result (with_conn a f s) (TcpServer_removeConnection t a) = Inr ?s"
    using with_conn_upd [of s a c f s1] run(1) at l k(2) th o
      removeConnection_run [of "server_upd ?l1 ?m a ?c s" a ?c t]
    by (simp add: server_upd_twice opened_def loop_ok_def)
  moreover have "step_of a s0 ?s"
    using op step_of_upd [of s a c ?l2 ?c ?m'] foreign k(2-4) at l step_of_trans by (auto simp: is_open_def)
  ultimately show ?thesis using e e0 cl k(3) by (auto simp: is_closing_def)
qed


lemma shut_close:
  assumes inv: "conn_inv t s" and est: "established (the_conn s)"
  shows "\<exists>s'. TcpConnection_closeHandler t (Some Inr) s = Inr s' \<and> shut t s s'"
proof -
  have "conn_ok t s" using inv by (simp add: conn_inv_def)
  from closeHandler_kept [OF this est] show ?thesis
    using est by (fastforce simp: shut_def conn_kept_def)
qed

lemma open_hangup:
  assumes op: "is_open t a s0 s"
  shows "\<exists>s'. server_closeHandler t a s = Inr s' \<and> is_closing t a s0 s'"
proof -
  obtain c where c: "ss_conns s a = Some (ts_loop (ss_server s), c)"
      "conn_inv t (conn_at (main_loop s) c)" "established c"
    using is_open_conn [OF op] .
  then obtain s1 where "TcpConnection_closeHandler t (Some Inr) (conn_at (main_loop s) c) = Inr s1"
      "shut t (conn_at (main_loop s) c) s1"
    using shut_close [OF c(2)] by auto
  then show ?thesis using open_close [OF op c(1)] by (simp add: server_closeHandler_def)
qed

lemma open_end_of_file:
  assumes op: "is_open t a s0 s"
  shows "\<exists>s'. server_connectionHandler msg t (Some []) a now s = Inr s' \<and> is_closing t a s0 s'"
proof -
  obtain c where c: "ss_conns s a = Some (ts_loop (ss_server s), c)"
      "conn_inv t (conn_at (main_loop s) c)" "established c" "input_ready c"
    using is_open_conn [OF op] .
  let ?s = "conn_at (main_loop s) c"
  have rf: "read_fits (Some []) (cn_inputBuffer c)"
    using input_ready_buffer [OF c(4)]
    by (auto simp: read_fits_def readFd_fits_def buf_wf_def overrun_def Let_def)
  obtain n b where b: "HyBuffer_readFd (cn_inputBuffer c) (Some []) = Inr (n, b)" "b = cn_inputBuffer c \<or> buf_wf b"
      "to_size n = 0"
    using readFd_kept [OF input_ready_buffer [OF c(4)] rf] by blast
  let ?s1 = "upd_conn (\<lambda>c. c\<lparr>cn_inputBuffer := b\<rparr>) ?s"
  have k: "conn_kept ?s ?s1" "conn_inv t ?s1" "established (the_conn ?s1)"
    using read_kept [OF c(2), of "Some []" n b] b c(3,4) by (simp_all add: established_def upd_conn_def)
  obtain s2 where s2: "TcpConnection_closeHandler t (Some Inr) ?s1 = Inr s2" "shut t ?s1 s2"
    using shut_close [OF k(2,3)] by blast
  then have "shut t ?s s2"
    using conn_kept_trans [OF k(1), of s2] by (auto simp: shut_def upd_conn_def)
  moreover have "TcpConnection_connectionHandler t (Some []) now (Some msg) (Some Inr) ?s = Inr s2"
    using b s2(1) by (simp add: TcpConnection_connectionHandler_def Let_def)
  ultimately show ?thesis using open_close [OF op c(1)] by (simp add: server_connectionHandler_def)
qed

text \<open>A closed connection ignores that its socket is writable.\<close>

lemma closing_write:
  assumes "is_closing t a s0 s"
  shows "server_writeHandler t wr a s = Inr s"
proof -
  obtain c x where c: "ss_conns s a = Some (ts_loop (ss_server s), c)" "ch_events x = 0"
      "po_objs (el_poller (main_loop s)) (cn_channel c) = Some x" "conn_ok t (conn_at (main_loop s) c)"
    using assms by (auto simp: is_closing_def closing_def)
  have "\<not> writing (conn_at (main_loop s) c)"
    using c(2,3) by (simp add: writing_def loop_channel_def Channel_isWriting_def)
  then show ?thesis
    unfolding server_writeHandler_def using conn_ok_isWriting [OF c(4)] conn_ok_thread [OF c(4)]
    by (intro with_conn_same [OF c(1)]) (simp add: TcpConnection_writeHandler_def)
qed

section \<open>Events\<close>

definition mask_kept :: "(Channel \<Rightarrow> Channel) \<Rightarrow> bool" where
  "mask_kept f \<longleftrightarrow> (\<forall>x. ch_fd (f x) = ch_fd x \<and> ch_index (f x) = ch_index x \<and> ch_events (f x) = ch_events x
     \<and> ch_loop (f x) = ch_loop x)"

lemma set_conn_channel_upd:
  assumes "ss_conns s a = Some (ts_loop (ss_server s), c)"
    "po_objs (el_poller (main_loop s)) (cn_channel c) = Some x"
  shows "set_conn_channel a f s = server_upd ((main_loop s)\<lparr>el_poller := (el_poller (main_loop s))
      \<lparr>po_objs := (po_objs (el_poller (main_loop s)))(cn_channel c \<mapsto> f x)\<rparr>\<rparr>)
    (ts_connections (ss_server s)) a c s"
  using assms by (simp add: set_conn_channel_def conn_channel_def server_upd_def fun_upd_idem)

lemma touch_step:
  assumes "ss_conns s a = Some (l, c)"
  shows "step_of a s (set_conn_channel a f s)" "ss_conns (set_conn_channel a f s) = ss_conns s"
  using assms by (simp_all add: step_of_def set_conn_channel_def set_loop_def)

lemma conn_ok_touch:
  assumes "conn_ok t (conn_at l c)" "po_objs (el_poller l) (cn_channel c) = Some x" "mask_kept f"
    "l' = l\<lparr>el_poller := (el_poller l)\<lparr>po_objs := (po_objs (el_poller l))(cn_channel c \<mapsto> f x)\<rparr>\<rparr>"
    "loop_ok t l'"
  shows "conn_ok t (conn_at l' c) \<and> writing (conn_at l' c) = writing (conn_at l c)"
  using assms by (auto simp: conn_ok_def loop_registered_def registered_def writing_def loop_channel_def
      Channel_isWriting_def mask_kept_def)

lemma loop_ok_touch:
  assumes "loop_ok t l" "po_objs (el_poller l) ch = Some x" "mask_kept f"
  shows "loop_ok t (l\<lparr>el_poller := (el_poller l)\<lparr>po_objs := (po_objs (el_poller l))(ch \<mapsto> f x)\<rparr>\<rparr>)"
proof -
  have "poller_inv (el_poller l\<lparr>po_objs := (po_objs (el_poller l))(ch \<mapsto> f x)\<rparr>)"
    using assms by (intro poller_inv_objs) (auto simp: loop_ok_def mask_kept_def)
  then show ?thesis using assms(1) by (simp add: loop_ok_def)
qed


lemma touch_inv:
  assumes inv: "server_inv t h s" and at: "ss_conns s a = Some (l, c)" and f: "mask_kept f"
    and h: "h = None \<or> h = Some a" "h' = None \<and> (\<forall>x. \<not> ch_handlingEvent (f x)) \<or> h' = Some a"
  defines "s' \<equiv> set_conn_channel a f s"
  shows "server_inv t h' s' \<and> ss_conns s' a = Some (ts_loop (ss_server s'), c)
    \<and> (opened t (main_loop s) (ts_connections (ss_server s)) a c
        \<longrightarrow> opened t (main_loop s') (ts_connections (ss_server s')) a c)"
proof -
  let ?m = "ts_connections (ss_server s)" and ?l = "main_loop s"
  have l: "l = ts_loop (ss_server s)" and good: "conn_good t (h = Some a) ?l ?m a c"
    using server_invD [OF inv at] by simp_all
  then obtain x where x: "po_objs (el_poller ?l) (cn_channel c) = Some x" "ch_fd x = conn_fd c"
      "ch_loop x = el_this ?l" "phase_ok t (h = Some a) ?l ?m a c x"
    by (auto simp: conn_good_def)
  define l' where "l' = ?l\<lparr>el_poller := (el_poller ?l)
    \<lparr>po_objs := (po_objs (el_poller ?l))(cn_channel c \<mapsto> f x)\<rparr>\<rparr>"
  have s': "s' = server_upd l' ?m a c s"
    unfolding s'_def l'_def using set_conn_channel_upd [OF _ x(1)] at l by simp
  have lok: "loop_ok t l'"
    unfolding l'_def using server_inv_fixed [OF inv] x(1) f by (intro loop_ok_touch) (simp_all add: server_fixed_def)
  have q: "el_unprocessedFunctors l' = el_unprocessedFunctors ?l" "el_this l' = el_this ?l"
      "po_channels (el_poller l') = po_channels (el_poller ?l)"
    by (simp_all add: l'_def)
  have touch: "conn_ok t (conn_at l' c) \<and> writing (conn_at l' c) = writing (conn_at ?l c)"
    if "conn_ok t (conn_at ?l c)"
    using conn_ok_touch [OF that x(1) f l'_def lok] .
  have op: "opened t l' ?m a c" if "opened t ?l ?m a c"
    using that touch q by (auto simp: opened_def conn_inv_def out_bytes_def fin_sent_def)
  have fx: "ch_index (f x) = ch_index x" "ch_events (f x) = ch_events x" using f by (simp_all add: mask_kept_def)
  have "waiting ?l ?m a c x \<Longrightarrow> waiting l' ?m a c (f x)" using q fx by (simp add: waiting_def)
  moreover have "closing t ?l ?m a c x \<Longrightarrow> closing t l' ?m a c (f x)" using q fx touch by (simp add: closing_def)
  moreover have "destroyed ?l ?m a c \<Longrightarrow> destroyed l' ?m a c" using q by (simp add: destroyed_def)
  moreover have "h' = Some a \<or> \<not> ch_handlingEvent (f x)" using h(2) by auto
  ultimately have "phase_ok t (h' = Some a) l' ?m a c (f x)"
    using x(4) op unfolding phase_ok_def by blast
  then have "conn_good t (h' = Some a) l' ?m a c"
    using good x q f by (auto simp: conn_good_def l'_def mask_kept_def)
  moreover have "foreign_same a c ?l l'" by (auto simp: foreign_same_def l'_def)
  ultimately have "server_inv t h' s'"
    unfolding s' using server_inv_upd [OF inv at lok, of c ?m h'] h by auto
  then show ?thesis using op by (simp add: s')
qed


text \<open>
  What the kernel may do in an event: it reports a hang-up together with \<^verbatim>\<open>POLLIN\<close>, or without
  \<^verbatim>\<open>POLLPRI\<close> and \<^verbatim>\<open>POLLRDHUP\<close> (with \<^verbatim>\<open>POLLHUP\<close> and \<^verbatim>\<open>POLLPRI\<close> alone the code closes the connection and
  then goes on to read from it); \<open>write\<close> takes no more than it is offered; what is read fits the buffer.
\<close>

definition reads :: "mask \<Rightarrow> bool" where
  "reads revents \<longleftrightarrow> revents AND (POLLIN OR POLLPRI OR POLLRDHUP) \<noteq> 0"

definition kernel_ok :: "TcpConnection \<Rightarrow> mask \<Rightarrow> string option \<Rightarrow> (nat \<Rightarrow> nat option) \<Rightarrow> bool" where
  "kernel_ok c revents rd wr \<longleftrightarrow>
     (revents AND POLLHUP \<noteq> 0 \<and> revents AND POLLIN = 0 \<longrightarrow> \<not> reads revents)
     \<and> (\<forall>n. answer_ok (wr n) n) \<and> read_fits rd (cn_inputBuffer c)"

lemma is_closing_conn: "is_closing t a s0 s \<Longrightarrow> \<exists>c. ss_conns s a = Some (ts_loop (ss_server s), c) \<and> server_inv t (Some a) s"
  by (auto simp: is_closing_def)

text \<open>The callbacks in their order, from an open connection.\<close>

lemma callbacks_run:
  assumes op: "is_open t a s0 s" and c: "ss_conns s a = Some (l, c)" and ev: "kernel_ok c revents rd wr"
    and msg: "reads revents \<Longrightarrow> rd \<noteq> Some [] \<Longrightarrow> message_ok msg t now rd c"
  defines "cb \<equiv> server_callbacks msg t rd wr a"
  defines "run \<equiv> bind_result (call_if (revents AND POLLHUP \<noteq> 0 \<and> \<not> revents AND POLLIN \<noteq> 0) (cb_close cb) s) (\<lambda>s.
      bind_result (call_if (revents AND (POLLERR OR POLLNVAL) \<noteq> 0) (cb_error cb) s) (\<lambda>s.
      bind_result (call_if (revents AND (POLLIN OR POLLPRI OR POLLRDHUP) \<noteq> 0)
         (map_option (\<lambda>f. f now) (cb_read cb)) s) (\<lambda>s.
      call_if (revents AND POLLOUT \<noteq> 0) (cb_write cb) s)))"
  shows "(\<exists>e. run = Inl e \<and> reads revents \<and> rd \<noteq> Some [] \<and> parser_fails now rd c e)
    \<or> (\<exists>s'. run = Inr s' \<and> (is_open t a s0 s' \<or> is_closing t a s0 s'))"
proof -
  let ?close = "call_if (revents AND POLLHUP \<noteq> 0 \<and> \<not> revents AND POLLIN \<noteq> 0) (cb_close cb) s"
  let ?err = "call_if (revents AND (POLLERR OR POLLNVAL) \<noteq> 0) (cb_error cb)"
  let ?read = "call_if (revents AND (POLLIN OR POLLPRI OR POLLRDHUP) \<noteq> 0) (map_option (\<lambda>f. f now) (cb_read cb))"
  let ?wrt = "call_if (revents AND POLLOUT \<noteq> 0) (cb_write cb)"
  have wr: "\<exists>s2. ?wrt s1 = Inr s2 \<and> (is_open t a s0 s2 \<or> is_closing t a s0 s2)"
    if "is_open t a s0 s1 \<or> is_closing t a s0 s1" for s1
    using that open_write [of t a s0 s1 wr] closing_write [of t a s0 s1 wr] ev
    by (auto simp: kernel_ok_def call_if_def cb_def server_callbacks_def)
  have err: "?err s1 = Inr s1" if "is_open t a s0 s1 \<or> is_closing t a s0 s1" for s1
    using that error_same by (auto simp: call_if_def cb_def server_callbacks_def is_open_def is_closing_def)
  show ?thesis
  proof (cases "revents AND POLLHUP \<noteq> 0 \<and> revents AND POLLIN = 0")
    case True
    then obtain s1 where "?close = Inr s1" "is_closing t a s0 s1"
      using open_hangup [OF op] by (auto simp: call_if_def cb_def server_callbacks_def)
    moreover have "?read s1 = Inr s1" using True ev by (auto simp: kernel_ok_def reads_def call_if_def)
    ultimately show ?thesis using err wr [of s1] by (simp add: run_def)
  next
    case False
    then have cl: "?close = Inr s" by (auto simp: call_if_def)
    have "(\<exists>e. ?read s = Inl e \<and> reads revents \<and> rd \<noteq> Some [] \<and> parser_fails now rd c e)
      \<or> (\<exists>s1. ?read s = Inr s1 \<and> (is_open t a s0 s1 \<or> is_closing t a s0 s1))"
    proof (cases "reads revents \<and> rd \<noteq> Some []")
      case True
      then have "message_ok msg t now rd c" "read_fits rd (cn_inputBuffer c)"
        using msg ev by (simp_all add: kernel_ok_def)
      moreover have "?read s = server_connectionHandler msg t rd a now s"
        using True by (auto simp: call_if_def cb_def server_callbacks_def reads_def)
      ultimately show ?thesis using open_read [OF op c, of rd msg now] True by auto
    next
      case False
      then show ?thesis
        using op open_end_of_file [OF op] by (auto simp: call_if_def cb_def server_callbacks_def reads_def)
    qed
    then show ?thesis
    proof (elim disjE exE conjE)
      fix e assume "?read s = Inl e" "reads revents" "rd \<noteq> Some []" "parser_fails now rd c e"
      then show ?thesis using cl err [of s] op by (simp add: run_def)
    next
      fix s1 assume "?read s = Inr s1" "is_open t a s0 s1"
      then show ?thesis using cl err [of s] op wr [of s1] by (simp add: run_def)
    next
      fix s1 assume "?read s = Inr s1" "is_closing t a s0 s1"
      then show ?thesis using cl err [of s] op wr [of s1] by (simp add: run_def)
    qed
  qed
qed

lemma event_run_msg:
  assumes inv: "server_inv t None s" and at: "ss_conns s a = Some (l, c)"
    and op: "opened t (main_loop s) (ts_connections (ss_server s)) a c" and ev: "kernel_ok c revents rd wr"
    and msg: "reads revents \<Longrightarrow> rd \<noteq> Some [] \<Longrightarrow> message_ok msg t now rd c"
  shows "(\<exists>e. server_event msg t rd wr revents now a s = Inl e \<and> reads revents \<and> rd \<noteq> Some [] \<and> parser_fails now rd c e)
    \<or> (\<exists>s'. server_event msg t rd wr revents now a s = Inr s' \<and> server_inv t None s'
        \<and> step_of a s s' \<and> (\<exists>l' c'. ss_conns s' a = Some (l', c') \<and> established c'))"
proof -
  define r0 where "r0 = set_conn_channel a (\<lambda>x. Channel_set_revents x revents) s"
  define s1 where "s1 = set_conn_channel a (\<lambda>x. x\<lparr>ch_handlingEvent := True\<rparr>) r0"
  have t0: "server_inv t (Some a) r0 \<and> ss_conns r0 a = Some (ts_loop (ss_server r0), c)
      \<and> opened t (main_loop r0) (ts_connections (ss_server r0)) a c"
    using touch_inv [OF inv at, of "\<lambda>x. Channel_set_revents x revents" "Some a"] op
    by (simp add: r0_def mask_kept_def Channel_set_revents_def)
  then have t1: "server_inv t (Some a) s1 \<and> ss_conns s1 a = Some (ts_loop (ss_server s1), c)
      \<and> opened t (main_loop s1) (ts_connections (ss_server s1)) a c"
    using touch_inv [of t "Some a" r0 a "ts_loop (ss_server r0)" c "\<lambda>x. x\<lparr>ch_handlingEvent := True\<rparr>" "Some a"]
    by (simp add: s1_def mask_kept_def)
  moreover have "step_of a s s1"
    using step_of_trans [OF touch_step(1) [OF at] touch_step(1)] at touch_step(2) [OF at]
    by (simp add: s1_def r0_def)
  ultimately have op1: "is_open t a s s1" by (auto simp: is_open_def)
  have rev: "ch_revents (conn_channel a r0) = revents"
  proof -
    obtain x where "po_objs (el_poller (main_loop s)) (cn_channel c) = Some x" "l = ts_loop (ss_server s)"
      using server_invD [OF inv at] by (auto simp: conn_good_def)
    then show ?thesis
      using at set_conn_channel_upd [of s a c x] by (simp add: r0_def conn_channel_def Channel_set_revents_def)
  qed
  note out = callbacks_run [OF op1 conjunct1 [OF conjunct2 [OF t1]] ev msg]
  consider e where "server_event msg t rd wr revents now a s = Inl e" "reads revents" "rd \<noteq> Some []" "parser_fails now rd c e"
    | s2 where "server_event msg t rd wr revents now a s =
      Inr (set_conn_channel a (\<lambda>x. x\<lparr>ch_handlingEvent := False\<rparr>) s2)" "is_open t a s s2 \<or> is_closing t a s s2"
    using out rev
    by (auto simp: server_event_def Channel_handleEvent_def r0_def [symmetric] s1_def [symmetric] Let_def
        bind_result_eq_Inr bind_result_eq_Inl)
  then show ?thesis
  proof cases
    case (1 e)
    then show ?thesis by blast
  next
    case s2: (2 s2)
    then obtain c2 where c2: "server_inv t (Some a) s2" "ss_conns s2 a = Some (ts_loop (ss_server s2), c2)"
        and st: "step_of a s s2" "established c2"
      by (auto simp: is_open_def is_closing_def opened_def closing_def)
    from touch_inv [OF c2, of "\<lambda>x. x\<lparr>ch_handlingEvent := False\<rparr>" None] show ?thesis
      using s2(1) st step_of_trans [OF st(1) touch_step(1) [OF c2(2)]] by (auto simp: mask_kept_def)
  qed
qed

end
