(* ===== verification/ServerHttp.thy ===== *)
theory ServerHttp
  imports ServerLife
begin

text \<open>
  The message callback of the HTTP server as the message callback of the server's loop. Sending does not
  look at the parser's context, so an answer can be moved past its reset; \<open>onMessage\<close> then stops with
  exactly the error of its parser, or it does its work and leaves the connection in order, ready for the
  next message.
\<close>

section \<open>What sending does not look at\<close>

definition reframe :: "(nat \<rightharpoonup> HyBuffer) \<Rightarrow> HttpContext option \<Rightarrow> 'f conn_state \<Rightarrow> 'f conn_state" where
  "reframe m x s = ((fst s)\<lparr>en_conn := (the_conn s)\<lparr>cn_context := x\<rparr>, en_buffers := m\<rparr>, snd s)"

abbreviation reframed :: "(nat \<rightharpoonup> HyBuffer) \<Rightarrow> HttpContext option \<Rightarrow> 'f conn_state result \<Rightarrow> 'f conn_state result" where
  "reframed m x r \<equiv> bind_result r (\<lambda>s. Inr (reframe m x s))"

lemma reframe_simps [simp]:
  "the_loop (reframe m x s) = the_loop s" "cn_channel (the_conn (reframe m x s)) = cn_channel (the_conn s)"
  "cn_state (the_conn (reframe m x s)) = cn_state (the_conn s)"
  "cn_outputBuffer (the_conn (reframe m x s)) = cn_outputBuffer (the_conn s)"
  "en_buffers (fst (reframe m x s)) = m" "cn_context (the_conn (reframe m x s)) = x"
  "conn_isWriting (reframe m x s) = conn_isWriting s"
  by (simp_all add: reframe_def conn_isWriting_def)

lemma reframe_idem [simp]: "reframe m x (reframe m' x' s) = reframe m x s"
  by (simp add: reframe_def)

lemma reframe_same: "reframe (en_buffers (fst s)) (cn_context (the_conn s)) s = s"
  by (cases s, cases "fst s") (auto simp: reframe_def)

lemma upd_conn_reframe:
  "\<forall>c y. f (c\<lparr>cn_context := y\<rparr>) = (f c)\<lparr>cn_context := y\<rparr> \<Longrightarrow> upd_conn f (reframe m x s) = reframe m x (upd_conn f s)"
  by (simp add: upd_conn_def reframe_def)

lemma change_reframe: "conn_change f t (reframe m x s) = reframed m x (conn_change f t s)"
  by (simp add: conn_change_def reframe_def bind_result_assoc)

lemma accepts_reframe [simp]:
  "upd_conn (kernel_accepts d) (reframe m x s) = reframe m x (upd_conn (kernel_accepts d) s)"
  "upd_conn (\<lambda>c. c\<lparr>cn_outputBuffer := out\<rparr>) (reframe m x s) = reframe m x (upd_conn (\<lambda>c. c\<lparr>cn_outputBuffer := out\<rparr>) s)"
  "upd_conn (\<lambda>c. c\<lparr>cn_socket := (cn_socket c)\<lparr>sk_shutdownWrite := True\<rparr>\<rparr>) (reframe m x s) =
     reframe m x (upd_conn (\<lambda>c. c\<lparr>cn_socket := (cn_socket c)\<lparr>sk_shutdownWrite := True\<rparr>\<rparr>) s)"
  "upd_conn (TcpConnection_setState st) (reframe m x s) = reframe m x (upd_conn (TcpConnection_setState st) s)"
  by (simp_all add: upd_conn_reframe kernel_accepts_def TcpConnection_setState_def)

text \<open>The end of \<open>sendInLoopThread\<close>, for a known direct write.\<close>

lemma enqueue_reframe:
  "bind_result (range_string d n k) (\<lambda>rest.
     bind_result (HyBuffer_append (cn_outputBuffer (the_conn (reframe m x s))) rest) (\<lambda>out.
     (let s = upd_conn (\<lambda>c. c\<lparr>cn_outputBuffer := out\<rparr>) (reframe m x s) in
      if \<not> w then conn_change Channel_enableWriting t s else Inr s)))
   = reframed m x (bind_result (range_string d n k) (\<lambda>rest.
     bind_result (HyBuffer_append (cn_outputBuffer (the_conn s)) rest) (\<lambda>out.
     (let s = upd_conn (\<lambda>c. c\<lparr>cn_outputBuffer := out\<rparr>) s in
      if \<not> w then conn_change Channel_enableWriting t s else Inr s))))"
  by (cases w) (simp_all add: bind_result_assoc change_reframe)

lemma send_reframe:
  "TcpConnection_sendInLoopThread t a d (reframe m x s) = reframed m x (TcpConnection_sendInLoopThread t a d s)"
proof (cases "EventLoop_assertInLoopThread t (the_loop s)")
  case Inl: (Inl e)
  then show ?thesis by (simp add: TcpConnection_sendInLoopThread_def)
next
  case ok: (Inr u)
  show ?thesis
  proof (cases "conn_isWriting s")
    case (Inl e)
    then show ?thesis using ok by (simp add: TcpConnection_sendInLoopThread_def)
  next
    case (Inr w)
    define direct where "direct = (\<not> w \<and> HyBuffer_readableBytes (cn_outputBuffer (the_conn s)) = 0)"
    define n where "n = (if direct then case a of Some n \<Rightarrow> n | None \<Rightarrow> 0 else 0)"
    define left where "left = (if direct then case a of Some n \<Rightarrow> size_sub (length d) n | None \<Rightarrow> length d else length d)"
    define go :: "'a conn_state \<Rightarrow> 'a conn_state result" where
      "go s = (if n < length d then bind_result (range_string d n (n + left)) (\<lambda>rest.
         bind_result (HyBuffer_append (cn_outputBuffer (the_conn s)) rest) (\<lambda>out.
         (let s = upd_conn (\<lambda>c. c\<lparr>cn_outputBuffer := out\<rparr>) s in
          if \<not> w then conn_change Channel_enableWriting t s else Inr s))) else Inr s)" for s
    have go: "go (reframe m x s) = reframed m x (go s)" for s
      unfolding go_def using enqueue_reframe by (cases "n < length d") simp_all
    have run: "TcpConnection_sendInLoopThread t a d s' =
        go (if direct then upd_conn (kernel_accepts (take n d)) s' else s')"
      if "s' = s \<or> s' = reframe m x s" for s'
      using that ok Inr unfolding TcpConnection_sendInLoopThread_def go_def n_def left_def direct_def Let_def
      by auto
    show ?thesis using run [of s] run [of "reframe m x s"] go by (cases direct) simp_all
  qed
qed

lemma shutdown_reframe:
  "TcpConnection_shutdownInLoopThread t (reframe m x s) = reframed m x (TcpConnection_shutdownInLoopThread t s)"
proof (cases "EventLoop_assertInLoopThread t (the_loop s)")
  case (Inr u)
  then show ?thesis
    by (cases "conn_isWriting s") (simp_all add: TcpConnection_shutdownInLoopThread_def)
qed (simp add: TcpConnection_shutdownInLoopThread_def)

lemma conn_send_reframe: "conn_send t a d (reframe m x s) = reframed m x (conn_send t a d s)"
  by (simp add: conn_send_def send_reframe)

lemma conn_shutdown_reframe: "conn_shutdown t (reframe m x s) = reframed m x (conn_shutdown t s)"
  by (simp add: conn_shutdown_def shutdown_reframe)


section \<open>One message\<close>

definition respond :: "nat \<Rightarrow> (nat option \<times> string) option \<Rightarrow> bool \<Rightarrow> 'f conn_state \<Rightarrow> 'f conn_state result" where
  "respond t msg close s =
     bind_result (case msg of None \<Rightarrow> Inr s | Some (answer, data) \<Rightarrow> conn_send t answer data s)
       (\<lambda>s. if close then conn_shutdown t s else Inr s)"

lemma respond_reframe: "respond t msg close (reframe m x s) = reframed m x (respond t msg close s)"
proof (cases msg)
  case None
  then show ?thesis by (simp add: respond_def conn_shutdown_reframe)
next
  case (Some y)
  then show ?thesis
    by (cases y; cases close)
      (simp_all add: respond_def conn_send_reframe conn_shutdown_reframe bind_result_assoc)
qed

lemma change_thread: "conn_change f t s = Inr s' \<Longrightarrow> el_threadId (the_loop s') = el_threadId (the_loop s)"
  by (auto simp: conn_change_def Channel_change_def EventLoop_updateChannel_def bind_result_eq_Inr)

lemma send_thread:
  assumes "TcpConnection_sendInLoopThread t a d s = Inr s'"
  shows "el_threadId (the_loop s') = el_threadId (the_loop s)"
  using assms
  by (auto simp: TcpConnection_sendInLoopThread_def bind_result_eq_Inr Let_def upd_conn_def
      dest!: change_thread split: if_splits)

lemma conn_send_thread:
  "conn_send t a d s = Inr s' \<Longrightarrow> EventLoop_isInLoopThread me (the_loop s') = EventLoop_isInLoopThread me (the_loop s)"
  using send_thread [of t a d s s'] by (auto simp: conn_send_def EventLoop_isInLoopThread_def split: if_splits)

text \<open>After a shutdown nothing is sent any more.\<close>

lemma conn_send_closed: "cn_state (the_conn s) \<noteq> CONNECTED \<Longrightarrow> conn_send t a d s = Inr s"
  by (simp add: conn_send_def)

lemma conn_shutdown_closed: "cn_state (the_conn s) \<noteq> CONNECTED \<Longrightarrow> conn_shutdown t s = Inr s"
  by (simp add: conn_shutdown_def)

lemma conn_shutdown_state:
  "conn_shutdown t s = Inr s' \<Longrightarrow> cn_state (the_conn s') \<noteq> CONNECTED \<and> en_buffers (fst s') = en_buffers (fst s)
    \<and> cn_context (the_conn s') = cn_context (the_conn s) \<and> EventLoop_isInLoopThread me (the_loop s') = EventLoop_isInLoopThread me (the_loop s)"
  by (auto simp: conn_shutdown_def TcpConnection_shutdownInLoopThread_def bind_result_eq_Inr upd_conn_def
      TcpConnection_setState_def split: if_splits)

lemma respond_closed: "cn_state (the_conn s) \<noteq> CONNECTED \<Longrightarrow> respond t msg close s = Inr s"
  by (auto simp: respond_def conn_send_closed conn_shutdown_closed split: option.splits)

lemma respond_frame:
  assumes "respond t msg close s = Inr s'"
  shows "en_buffers (fst s') = en_buffers (fst s)" "cn_context (the_conn s') = cn_context (the_conn s)"
proof -
  have "s' = reframe (en_buffers (fst s)) (cn_context (the_conn s)) s'"
    using respond_reframe [of t msg close "en_buffers (fst s)" "cn_context (the_conn s)" s] assms
    by (simp add: reframe_same)
  then show "en_buffers (fst s') = en_buffers (fst s)" "cn_context (the_conn s') = cn_context (the_conn s)"
    by (metis reframe_simps(5), metis reframe_simps(6))
qed

text \<open>The answer to a refused request is one message and a shutdown.\<close>

lemma refuse_reply:
  assumes thr: "EventLoop_isInLoopThread t (the_loop s)"
    and run: "bind_result (TcpConnection_send t a bad_request s) (TcpConnection_shutdown t) = Inr s'"
  shows "respond t (Some (a, bad_request)) True s = Inr s' \<and> cn_state (the_conn s') \<noteq> CONNECTED
    \<and> EventLoop_isInLoopThread t (the_loop s')"
proof -
  obtain s1 where s1: "conn_send t a bad_request s = Inr s1" "TcpConnection_shutdown t s1 = Inr s'"
    using run conn_send_in_loop [OF thr, of a bad_request] by (auto simp: bind_result_eq_Inr)
  then have "EventLoop_isInLoopThread t (the_loop s1)" using conn_send_thread [OF s1(1)] thr by simp
  then show ?thesis
    using s1 conn_shutdown_in_loop [of t s1] conn_shutdown_state [of t s1 s' t] by (simp add: respond_def)
qed

section \<open>What a message needs\<close>

lemma conn_inv_thread: "conn_inv t s \<Longrightarrow> EventLoop_isInLoopThread t (the_loop s)"
  by (simp add: conn_inv_def conn_ok_def loop_ok_def EventLoop_isInLoopThread_def)

lemma respond_kept:
  assumes inv: "conn_inv t s" and est: "established (the_conn s)"
    and fits: "\<And>a d. msg = Some (a, d) \<Longrightarrow> cn_state (the_conn s) = CONNECTED \<Longrightarrow> data_fits a d (the_conn s)"
  shows "\<exists>s'. respond t msg close s = Inr s' \<and> conn_inv t s' \<and> conn_kept s s' \<and> established (the_conn s')"
proof -
  define m where "m = (case msg of None \<Rightarrow> Inr s | Some (answer, data) \<Rightarrow> conn_send t answer data s)"
  have "\<exists>s2. m = Inr s2 \<and> conn_inv t s2 \<and> conn_kept s s2 \<and> established (the_conn s2)"
  proof (cases msg)
    case None
    then show ?thesis using inv est conn_inv_kept [OF inv] by (simp add: m_def)
  next
    case (Some x)
    obtain a d where x: "x = (a, d)" by (cases x)
    show ?thesis
    proof (cases "cn_state (the_conn s) = CONNECTED")
      case True
      then have "send_fits s (length d)" "answer_ok a (length d)"
        using fits Some x by (simp_all add: data_fits_def send_fits_def out_bytes_def)
      then show ?thesis using conn_send_kept [OF inv est] Some x by (simp add: m_def)
    next
      case False
      then show ?thesis using Some x inv est conn_inv_kept [OF inv] by (simp add: m_def conn_send_closed)
    qed
  qed
  then obtain s2 where s2: "m = Inr s2" "conn_inv t s2" "conn_kept s s2" "established (the_conn s2)" by blast
  then have "respond t msg close s = (if close then conn_shutdown t s2 else Inr s2)"
    by (simp add: respond_def m_def)
  then show ?thesis
    using s2 conn_shutdown_kept [OF s2(2,4)] conn_kept_trans [OF s2(3)] by (cases close) auto
qed

text \<open>\<open>send\<close> of a buffer sends its bytes, when the caller is in the loop's thread.\<close>

lemma sendBuffer_respond:
  assumes thr: "EventLoop_isInLoopThread t (the_loop s)" and wf: "buf_wf b"
  shows "TcpConnection_sendBuffer t a addr (reframe (m(addr \<mapsto> b)) x s) =
    (if cn_state (the_conn s) = CONNECTED then
       reframed (m(addr \<mapsto> HyBuffer_clearAll b)) x (conn_send t a (contents b) s)
     else Inr (reframe (m(addr \<mapsto> b)) x s))"
proof (cases "TcpConnection_sendInLoopThread t a (contents b) s")
  case (Inl e)
  then show ?thesis
    using thr payload_range [OF wf]
    by (simp add: TcpConnection_sendBuffer_def send_payload_def send_reframe conn_send_def)
next
  case (Inr s1)
  have "((fst (reframe (m(addr \<mapsto> b)) x s1))\<lparr>en_buffers := m(addr \<mapsto> HyBuffer_clearAll b)\<rparr>, snd (reframe (m(addr \<mapsto> b)) x s1))
      = reframe (m(addr \<mapsto> HyBuffer_clearAll b)) x s1"
    by (simp add: reframe_def)
  then show ?thesis
    using Inr thr payload_range [OF wf]
    by (simp add: TcpConnection_sendBuffer_def send_payload_def send_reframe conn_send_def)
qed

lemma processRequest_respond:
  assumes inv: "conn_inv t s" and free: "en_buffers (fst s) addr = None"
    and r: "r = httpCallback request (HttpResponse_new (closes_connection request))" and fits: "response_fits r"
  shows "HttpServer_processRequest httpCallback t a addr request s =
    respond t (Some (a, response_text r)) (HttpResponse_nonPersistent r) s"
proof -
  let ?m = "en_buffers (fst s)" and ?x = "cn_context (the_conn s)"
  note thr = conn_inv_thread [OF inv]
  obtain b where b: "HttpResponse_appendToBuffer r HyBuffer_new = Inr b" "buf_wf b" "contents b = response_text r"
    using appendToBuffer_outcome [of r] fits by (auto simp: response_fits_def response_text_def)
  have start: "((fst s)\<lparr>en_buffers := ?m(addr \<mapsto> b)\<rparr>, snd s) = reframe (?m(addr \<mapsto> b)) ?x s" by (simp add: reframe_def)
  have restored: "((fst (reframe (?m(addr \<mapsto> b')) ?x s'))\<lparr>en_buffers := (?m(addr \<mapsto> b'))(addr := None)\<rparr>,
      snd (reframe (?m(addr \<mapsto> b')) ?x s')) = reframe ?m ?x s'" for b' and s' :: "conn_task conn_state"
    using free by (simp add: reframe_def fun_upd_idem)
  define s1 where "s1 = conn_send t a (response_text r) s"
  define b' where "b' = (if cn_state (the_conn s) = CONNECTED then HyBuffer_clearAll b else b)"
  have send: "TcpConnection_sendBuffer t a addr (reframe (?m(addr \<mapsto> b)) ?x s) = reframed (?m(addr \<mapsto> b')) ?x s1"
    using sendBuffer_respond [OF thr b(2), of a addr ?m ?x] b(3) by (simp add: s1_def b'_def conn_send_closed)
  show ?thesis
  proof (cases s1)
    case (Inl e)
    then show ?thesis
      using r b(1) start send s1_def by (simp add: HttpServer_processRequest_def respond_def)
  next
    case (Inr s2)
    then have c: "conn_send t a (response_text r) s = Inr s2" by (simp add: s1_def)
    have thr2: "EventLoop_isInLoopThread t (the_loop s2)" using thr conn_send_thread [OF c] by simp
    let ?fin = "if HttpResponse_nonPersistent r then conn_shutdown t s2 else Inr s2"
    have "(if HttpResponse_nonPersistent r then TcpConnection_shutdown t (reframe (?m(addr \<mapsto> b')) ?x s2)
        else Inr (reframe (?m(addr \<mapsto> b')) ?x s2)) = reframed (?m(addr \<mapsto> b')) ?x ?fin"
      using thr2 by (simp add: conn_shutdown_in_loop conn_shutdown_reframe)
    then have "HttpServer_processRequest httpCallback t a addr request s = reframed ?m ?x ?fin"
      using r b(1) start send Inr restored [of b']
      by (cases ?fin) (auto simp: HttpServer_processRequest_def split: if_splits)
    also have "reframed ?m ?x ?fin = respond t (Some (a, response_text r)) (HttpResponse_nonPersistent r) s"
    proof -
      have f: "respond t (Some (a, response_text r)) (HttpResponse_nonPersistent r) s = ?fin"
        using c by (simp add: respond_def)
      show ?thesis
        using respond_reframe [of t "Some (a, response_text r)" "HttpResponse_nonPersistent r" ?m ?x s]
        by (simp add: f reframe_same)
    qed
    finally show ?thesis .
  qed
qed

lemma refuse_respond:
  assumes thr: "EventLoop_isInLoopThread t (the_loop s)"
  shows "bind_result (TcpConnection_send t a bad_request s) (TcpConnection_shutdown t) =
    respond t (Some (a, bad_request)) True s"
proof (cases "conn_send t a bad_request s")
  case (Inl e)
  then show ?thesis using conn_send_in_loop [OF thr] by (simp add: respond_def)
next
  case (Inr s1)
  then have "EventLoop_isInLoopThread t (the_loop s1)" using thr conn_send_thread [OF Inr] by simp
  then show ?thesis using Inr conn_send_in_loop [OF thr] conn_shutdown_in_loop by (simp add: respond_def)
qed

text \<open>
  The answers fit their buffers when the parser takes what is in the input buffer of \<open>c\<close>: the line that
  refuses a request and the response to a whole one. \<open>a1\<close> and \<open>a2\<close> are the kernel's answers to the
  writes.
\<close>

definition message_fits ::
  "(HttpRequest \<Rightarrow> HttpResponse \<Rightarrow> HttpResponse) \<Rightarrow> nat option \<Rightarrow> nat option \<Rightarrow> Timestamp \<Rightarrow> TcpConnection \<Rightarrow> bool" where
  "message_fits httpCallback a1 a2 now c \<longleftrightarrow>
     (case cn_context c of
        None \<Rightarrow> True
      | Some context \<Rightarrow>
          (case HttpContext_parseRequest context (cn_inputBuffer c) now of
             Some (Inr (ok, context, b)) \<Rightarrow>
               (\<not> ok \<longrightarrow> data_fits a1 bad_request c)
               \<and> (HttpContext_allOk context \<longrightarrow>
                    (let r = httpCallback (ctx_request context) (HttpResponse_new (closes_connection (ctx_request context)))
                     in response_fits r \<and> (ok \<longrightarrow> data_fits a2 (response_text r) c)))
           | _ \<Rightarrow> True))"

lemma conn_inv_reframe [simp]: "conn_inv t (reframe m x s) = conn_inv t s"
  by (simp add: conn_inv_def conn_ok_def writing_def out_bytes_def fin_sent_def reframe_def)

lemma respond_same_frame:
  assumes "respond t msg close s = Inr s'" "cn_context (the_conn s) = x" "en_buffers (fst s) = m"
  shows "reframe m x s' = s'"
  using respond_frame [OF assms(1)] assms(2,3) reframe_same [of s'] by simp

text \<open>The answer to a message that the parser refuses.\<close>

lemma refused_kept:
  assumes inv: "conn_inv t s" and est: "established (the_conn s)"
    and fits: "\<not> ok \<Longrightarrow> data_fits a bad_request (the_conn s)"
  shows "\<exists>s'. (if \<not> ok then bind_result (TcpConnection_send t a bad_request (reframe m x s)) (TcpConnection_shutdown t)
        else Inr (reframe m x s)) = Inr (reframe m x s')
    \<and> conn_inv t s' \<and> conn_kept s s' \<and> established (the_conn s') \<and> (\<not> ok \<longrightarrow> cn_state (the_conn s') \<noteq> CONNECTED)
    \<and> (ok \<longrightarrow> s' = s) \<and> reframe (en_buffers (fst s)) (cn_context (the_conn s)) s' = s'"
proof (cases ok)
  case True
  then show ?thesis using inv est conn_inv_kept [OF inv] reframe_same [of s] by (intro exI [of _ s]) simp
next
  case False
  then obtain s' where s': "respond t (Some (a, bad_request)) True s = Inr s'" "conn_inv t s'" "conn_kept s s'"
      "established (the_conn s')"
    using respond_kept [OF inv est, of "Some (a, bad_request)" True] fits by auto
  have thr: "EventLoop_isInLoopThread t (the_loop (reframe m x s))" using conn_inv_thread [OF inv] by simp
  have "bind_result (TcpConnection_send t a bad_request s) (TcpConnection_shutdown t) = Inr s'"
    using s'(1) refuse_respond [OF conn_inv_thread [OF inv]] by simp
  then have "cn_state (the_conn s') \<noteq> CONNECTED" using refuse_reply [OF conn_inv_thread [OF inv], of a s'] by simp
  then show ?thesis
    using s' False refuse_respond [OF thr, of a] respond_reframe [of t "Some (a, bad_request)" True m x s]
      respond_same_frame [OF s'(1) refl refl] by (intro exI [of _ s']) simp
qed

text \<open>
  \<open>onMessage\<close> stops with the error of its parser, or it handles the message completely and the
  connection stays in order.
\<close>

lemma onMessage_kept:
  assumes inv: "conn_inv t s" and est: "established (the_conn s)" and free: "en_buffers (fst s) addr = None"
    and rdy: "input_ready (the_conn s)" and fits: "message_fits httpCallback a1 a2 now (the_conn s)"
  shows "(\<exists>e x. HttpServer_onMessage httpCallback t a1 a2 addr now s = Some (Inl e) \<and> cn_context (the_conn s) = Some x
        \<and> HttpContext_parseRequest x (cn_inputBuffer (the_conn s)) now = Some (Inl e))
    \<or> (\<exists>s'. HttpServer_onMessage httpCallback t a1 a2 addr now s = Some (Inr s') \<and> conn_inv t s'
        \<and> conn_kept s s' \<and> established (the_conn s'))"
proof -
  obtain x where x: "cn_context (the_conn s) = Some x" "parser_ready x (cn_inputBuffer (the_conn s))"
    using rdy by (auto simp: input_ready_def)
  consider e where "HttpContext_parseRequest x (cn_inputBuffer (the_conn s)) now = Some (Inl e)"
    | ok x' b where "HttpContext_parseRequest x (cn_inputBuffer (the_conn s)) now = Some (Inr (ok, x', b))"
      "buf_wf (cn_inputBuffer (the_conn s))"
    using parse_ready_outcome [OF x(2), of now] by blast
  then show ?thesis
  proof cases
    case (1 e)
    then show ?thesis using x(1) by (simp add: HttpServer_onMessage_def)
  next
    case parse: (2 ok x' b)
    define y where "y = (if HttpContext_allOk x' then HttpContext_reset x' else x')"
    define s0 where "s0 = upd_conn (\<lambda>c. c\<lparr>cn_inputBuffer := b, cn_context := Some y\<rparr>) s"
    define r where "r = httpCallback (ctx_request x') (HttpResponse_new (closes_connection (ctx_request x')))"
    let ?m = "en_buffers (fst s)"
    have f: "\<not> ok \<Longrightarrow> data_fits a1 bad_request (the_conn s)" "HttpContext_allOk x' \<Longrightarrow> response_fits r"
        "HttpContext_allOk x' \<Longrightarrow> ok \<Longrightarrow> data_fits a2 (response_text r) (the_conn s)"
      using fits parse x(1) by (auto simp: message_fits_def r_def Let_def)
    have "parser_ready y b"
      using parse_stays_ready [OF parse(2) _ _ parse(1)] x(2)
      by (auto simp: y_def parser_ready_def [of x] HttpContext_allOk_def)
    then have "harmless (\<lambda>c. c\<lparr>cn_inputBuffer := b, cn_context := Some y\<rparr>)"
      by (simp add: harmless_def input_ready_def)
    from conn_kept_upd [OF conn_inv_linked [OF inv] this] have k: "conn_kept s s0" by (simp only: s0_def)
    have s0: "conn_inv t s0" "established (the_conn s0)" "en_buffers (fst s0) = ?m"
        "cn_context (the_conn s0) = Some y" "data_fits a d (the_conn s0) = data_fits a d (the_conn s)" for a d
      using conn_inv_input(2) [OF inv] est
      by (simp_all add: s0_def established_def upd_conn_def data_fits_def)
    have start: "upd_conn (\<lambda>c. c\<lparr>cn_context := Some x', cn_inputBuffer := b\<rparr>) s = reframe ?m (Some x') s0"
      by (simp add: s0_def upd_conn_def reframe_def)
    obtain s2 where s2: "(if \<not> ok then bind_result (TcpConnection_send t a1 bad_request (reframe ?m (Some x') s0))
          (TcpConnection_shutdown t) else Inr (reframe ?m (Some x') s0)) = Inr (reframe ?m (Some x') s2)"
        "conn_inv t s2" "conn_kept s0 s2" "established (the_conn s2)" "\<not> ok \<longrightarrow> cn_state (the_conn s2) \<noteq> CONNECTED"
        "ok \<longrightarrow> s2 = s0" "reframe ?m (Some y) s2 = s2"
      using refused_kept [OF s0(1,2), of ok a1 ?m "Some x'"] f(1) s0(3-5) by auto
    have k2: "conn_kept s s2" using conn_kept_trans [OF k s2(3)] .
    have run: "HttpServer_onMessage httpCallback t a1 a2 addr now s = Some (if HttpContext_allOk x'
        then bind_result (HttpServer_processRequest httpCallback t a2 addr (ctx_request x') (reframe ?m (Some x') s2))
          (\<lambda>s. Inr (upd_conn (TcpConnection_setContext (HttpContext_reset x')) s))
        else Inr (reframe ?m (Some x') s2))"
      using parse(1) x(1) s2(1) [folded start] by (simp add: HttpServer_onMessage_def Let_def split del: if_split)
    show ?thesis
    proof (cases "HttpContext_allOk x'")
      case False
      then have "HttpServer_onMessage httpCallback t a1 a2 addr now s = Some (Inr s2)"
        using run s2(7) by (simp add: y_def)
      then show ?thesis using s2(2,4) k2 by blast
    next
      case True
      have "data_fits a2 (response_text r) (the_conn s2)" if "cn_state (the_conn s2) = CONNECTED"
        using that True f(3) s2(5,6) s0(5) by auto
      then obtain s3 where s3: "respond t (Some (a2, response_text r)) (HttpResponse_nonPersistent r) s2 = Inr s3"
          "conn_inv t s3" "conn_kept s2 s3" "established (the_conn s3)"
        using respond_kept [OF s2(2,4), of "Some (a2, response_text r)" "HttpResponse_nonPersistent r"] by auto
      have "conn_inv t (reframe ?m (Some x') s2)" "en_buffers (fst (reframe ?m (Some x') s2)) addr = None"
        using s2(2) free by simp_all
      from processRequest_respond [where httpCallback = httpCallback and request = "ctx_request x'",
          OF this r_def f(2) [OF True]] s3(1)
      have "HttpServer_processRequest httpCallback t a2 addr (ctx_request x') (reframe ?m (Some x') s2)
          = Inr (reframe ?m (Some x') s3)"
        using respond_reframe [of t "Some (a2, response_text r)" "HttpResponse_nonPersistent r" ?m "Some x'" s2] by simp
      moreover have "upd_conn (TcpConnection_setContext (HttpContext_reset x')) (reframe ?m (Some x') s3) = s3"
      proof -
        have "cn_context (the_conn s2) = Some y" "en_buffers (fst s2) = ?m"
          using s2(7) by (metis reframe_simps(6), metis reframe_simps(5))
        from respond_same_frame [OF s3(1) this] have "reframe ?m (Some (HttpContext_reset x')) s3 = s3"
          using True by (simp add: y_def)
        moreover have "upd_conn (TcpConnection_setContext (HttpContext_reset x')) (reframe ?m (Some x') s3)
            = reframe ?m (Some (HttpContext_reset x')) s3"
          by (simp add: upd_conn_def reframe_def TcpConnection_setContext_def)
        ultimately show ?thesis by simp
      qed
      ultimately have "HttpServer_onMessage httpCallback t a1 a2 addr now s = Some (Inr s3)" using True run by simp
      then show ?thesis using s3(2,4) conn_kept_trans [OF k2 s3(3)] by blast
    qed
  qed
qed

section \<open>The message callback in the loop of the server\<close>

text \<open>
  The server's loop holds the functors of the server; in the loop's thread \<open>onMessage\<close> queues none, so it
  runs on the loop without them. A call that does not return counts as an error.
\<close>

definition with_functors :: "'g list \<Rightarrow> 'f EventLoop \<Rightarrow> 'g EventLoop" where
  "with_functors fs l =
     \<lparr>el_this = el_this l, el_threadId = el_threadId l, el_looping = el_looping l, el_quit = el_quit l,
      el_processingFunctors = el_processingFunctors l, el_pollReturnTime = el_pollReturnTime l,
      el_poller = el_poller l, el_activeChannels = el_activeChannels l, el_wakenfd = el_wakenfd l,
      el_unprocessedFunctors = fs\<rparr>"

definition http_message ::
  "(HttpRequest \<Rightarrow> HttpResponse \<Rightarrow> HttpResponse) \<Rightarrow> nat \<Rightarrow> nat option \<Rightarrow> nat option \<Rightarrow> nat
    \<Rightarrow> Timestamp \<Rightarrow> server_task conn_state \<Rightarrow> server_task conn_state result" where
  "http_message httpCallback me a1 a2 addr now s =
     (case HttpServer_onMessage httpCallback me a1 a2 addr now (fst s, with_functors [] (the_loop s)) of
        None \<Rightarrow> Inl Abort
      | Some r \<Rightarrow> bind_result r (\<lambda>s'. Inr (fst s', with_functors (el_unprocessedFunctors (the_loop s)) (the_loop s'))))"

lemma with_functors_simps [simp]:
  "el_this (with_functors fs l) = el_this l" "el_threadId (with_functors fs l) = el_threadId l"
  "el_poller (with_functors fs l) = el_poller l" "el_unprocessedFunctors (with_functors fs l) = fs"
  "with_functors gs (with_functors fs l) = with_functors gs l"
  "with_functors (el_unprocessedFunctors l') l' = l'"
  "with_functors fs (l\<lparr>el_poller := p\<rparr>) = (with_functors fs l)\<lparr>el_poller := p\<rparr>"
  by (simp_all add: with_functors_def)

lemma conn_inv_with_functors [simp]: "conn_inv t (e, with_functors fs l) = conn_inv t (e, l)"
  by (simp add: conn_inv_def conn_ok_def loop_ok_def loop_registered_def writing_def loop_channel_def out_bytes_def
      fin_sent_def cong: option.case_cong)

lemma own_change_with_functors:
  assumes "own_change ch (with_functors [] l) l'"
  shows "own_change ch l (with_functors (el_unprocessedFunctors l) l')"
proof -
  obtain p x e where p: "l' = (with_functors [] l)\<lparr>el_poller := p\<rparr>" "po_channels p = po_channels (el_poller l)"
      "po_objs (el_poller l) ch = Some x" "po_objs p = (po_objs (el_poller l))(ch \<mapsto> x\<lparr>ch_events := e\<rparr>)"
    using assms by (auto simp: own_change_def)
  have "with_functors (el_unprocessedFunctors l) l' = l\<lparr>el_poller := p\<rparr>" using p(1) by simp
  then show ?thesis using own_changeI [OF p(3,2,4)] by simp
qed

text \<open>The answers to the message on \<open>c\<close> fit, when \<open>answer\<close> has been read.\<close>

definition answers_fit ::
  "(HttpRequest \<Rightarrow> HttpResponse \<Rightarrow> HttpResponse) \<Rightarrow> nat option \<Rightarrow> nat option \<Rightarrow> Timestamp \<Rightarrow> string option
    \<Rightarrow> TcpConnection \<Rightarrow> bool" where
  "answers_fit httpCallback a1 a2 now answer c \<longleftrightarrow>
     (\<forall>n b. HyBuffer_readFd (cn_inputBuffer c) answer = Inr (n, b) \<longrightarrow>
        message_fits httpCallback a1 a2 now (c\<lparr>cn_inputBuffer := b\<rparr>))"

lemma http_message_ok:
  assumes est: "established c" and fits: "answers_fit httpCallback a1 a2 now answer c"
  shows "message_ok (http_message httpCallback t a1 a2 addr) t now answer c"
  unfolding message_ok_def
proof (intro allI impI, elim conjE)
  fix n b and s :: "server_task conn_state"
  assume b: "HyBuffer_readFd (cn_inputBuffer c) answer = Inr (n, b)"
    and c: "the_conn s = c\<lparr>cn_inputBuffer := b\<rparr>" and s: "en_buffers (fst s) = Map.empty" "conn_inv t s"
      "input_ready (the_conn s)"
  let ?s = "(fst s, with_functors [] (the_loop s)) :: conn_task conn_state"
  have i: "conn_inv t ?s" "en_buffers (fst ?s) addr = None" "input_ready (the_conn ?s)" using s by simp_all
  have e: "established (the_conn ?s)" using est c by (simp add: established_def)
  have m: "message_fits httpCallback a1 a2 now (the_conn ?s)" using fits b c by (simp add: answers_fit_def)
  consider e x where "HttpServer_onMessage httpCallback t a1 a2 addr now ?s = Some (Inl e)" "cn_context (the_conn ?s) = Some x"
      "HttpContext_parseRequest x (cn_inputBuffer (the_conn ?s)) now = Some (Inl e)"
    | s' where "HttpServer_onMessage httpCallback t a1 a2 addr now ?s = Some (Inr s')" "conn_inv t s'"
      "conn_kept ?s s'" "established (the_conn s')"
    using onMessage_kept [OF i(1) e i(2,3) m] by blast
  then show "(\<exists>e. http_message httpCallback t a1 a2 addr now s = Inl e \<and> parser_fails now answer c e)
    \<or> (\<exists>s'. http_message httpCallback t a1 a2 addr now s = Inr s' \<and> conn_inv t s' \<and> conn_kept s s'
      \<and> established (the_conn s'))"
  proof cases
    case (1 e x)
    then have "parser_fails now answer c e" using b c s(3) by (auto simp: parser_fails_def input_ready_def)
    then show ?thesis using 1(1) by (simp add: http_message_def)
  next
    case (2 s')
    let ?r = "(fst s', with_functors (el_unprocessedFunctors (the_loop s)) (the_loop s')) :: server_task conn_state"
    have own: "own_change (cn_channel (the_conn s)) (with_functors [] (the_loop s)) (the_loop s')"
      using 2(3) by (simp add: conn_kept_def)
    have "own_change (cn_channel (the_conn s)) (the_loop s) (the_loop ?r)"
      using own_change_with_functors [OF own] by simp
    then have "conn_kept s ?r" using 2(3) by (simp add: conn_kept_def)
    moreover have "conn_inv t ?r" using 2(2) by (cases s') simp
    ultimately show ?thesis using 2(1,4) by (simp add: http_message_def)
  qed
qed

end
