(* ===== verification/ServerSteps.thy ===== *)
theory ServerSteps
  imports ServerHttp
begin

text \<open>
  The steps of a server and the theorem about them: queued functors, accepted connections, events,
  and the release of a connection that nothing refers to any more.
\<close>

section \<open>Functors\<close>

definition pop_task :: "server_task list \<Rightarrow> server_system \<Rightarrow> server_system" where
  "pop_task fs s = set_loop (ts_loop (ss_server s)) ((main_loop s)\<lparr>el_unprocessedFunctors := fs\<rparr>) s"

lemma pop_task_simps [simp]:
  "ss_server (pop_task fs s) = ss_server s" "ss_conns (pop_task fs s) = ss_conns s"
  "ss_loops (pop_task fs s) = (ss_loops s)(ts_loop (ss_server s) := (main_loop s)\<lparr>el_unprocessedFunctors := fs\<rparr>)"
  by (simp_all add: pop_task_def set_loop_def)

lemma server_upd_pop: "server_upd l' m' a c' (pop_task fs s) = server_upd l' m' a c' s"
  by (simp add: server_upd_def pop_task_def set_loop_def)

lemma loop_ok_queue [simp]: "loop_ok t (l\<lparr>el_unprocessedFunctors := fs\<rparr>) = loop_ok t l"
  by (simp add: loop_ok_def)

text \<open>A functor of the connection at \<open>a\<close> that ends in a good state of this connection.\<close>

lemma task_run:
  assumes inv: "server_inv t None s" and at: "ss_conns s a = Some (l, c)"
    and q: "el_unprocessedFunctors (main_loop s) = g # fs" "g = EstablishTask a \<or> g = DestroyTask a"
    and run: "f (conn_at ((main_loop s)\<lparr>el_unprocessedFunctors := fs\<rparr>) c) = Inr s1"
    and ident: "cn_name (the_conn s1) = cn_name c" "cn_channel (the_conn s1) = cn_channel c"
      "conn_fd (the_conn s1) = conn_fd c"
    and l1: "loop_ok t (the_loop s1)" "the_loop s1 = (main_loop s)\<lparr>el_unprocessedFunctors := fs, el_poller := p\<rparr>"
      "\<And>k. k \<noteq> cn_channel c \<Longrightarrow> same_object (po_objs (el_poller (main_loop s)) k) (po_objs p k)"
      "\<And>fd. fd \<noteq> conn_fd c \<Longrightarrow> po_channels p fd = po_channels (el_poller (main_loop s)) fd"
    and good: "conn_good t False (the_loop s1) (ts_connections (ss_server s)) a (the_conn s1)"
  shows "\<exists>s'. with_conn a f (pop_task fs s) = Inr s' \<and> server_inv t None s' \<and> step_of a s s'
    \<and> ss_conns s' a = Some (ts_loop (ss_server s), the_conn s1)"
proof -
  let ?m = "ts_connections (ss_server s)"
  have l: "l = ts_loop (ss_server s)" using server_invD(1) [OF inv at] .
  have "with_conn a f (pop_task fs s) = Inr (server_upd (the_loop s1) ?m a (the_conn s1) s)"
    using with_conn_upd [of "pop_task fs s" a c f s1] at run l by (simp add: server_upd_pop)
  moreover have same: "foreign_same a c (main_loop s) (the_loop s1)"
    using l1(2-4) q by (auto simp: foreign_same_def)
  moreover have "step_of a s (server_upd (the_loop s1) ?m a (the_conn s1) s)"
    using step_of_upd [of s a c] same ident at l by simp
  ultimately show ?thesis
    using server_inv_upd [OF inv at l1(1) _ ident, of ?m None] good by simp
qed

lemma waiting_of:
  assumes inv: "server_inv t None s" and at: "ss_conns s a = Some (l, c)"
    and q: "EstablishTask a \<in> set (el_unprocessedFunctors (main_loop s))"
  obtains x where "po_objs (el_poller (main_loop s)) (cn_channel c) = Some x" "ch_fd x = conn_fd c"
    "ch_loop x = el_this (main_loop s)" "waiting (main_loop s) (ts_connections (ss_server s)) a c x" "0 \<le> conn_fd c"
proof -
  have "tasks (main_loop s) (EstablishTask a) \<noteq> 0" using q by (simp add: count_list_0_iff)
  then show thesis
    using that server_invD(4) [OF inv at]
    by (auto simp: conn_good_def phase_ok_def opened_def closing_def destroyed_def)
qed

lemma closing_of:
  assumes inv: "server_inv t None s" and at: "ss_conns s a = Some (l, c)"
    and q: "DestroyTask a \<in> set (el_unprocessedFunctors (main_loop s))"
  obtains x where "po_objs (el_poller (main_loop s)) (cn_channel c) = Some x" "ch_fd x = conn_fd c"
    "ch_loop x = el_this (main_loop s)" "closing t (main_loop s) (ts_connections (ss_server s)) a c x" "0 \<le> conn_fd c"
    "\<not> ch_handlingEvent x"
proof -
  have "tasks (main_loop s) (DestroyTask a) \<noteq> 0" using q by (simp add: count_list_0_iff)
  then show thesis
    using that server_invD(4) [OF inv at]
    by (auto simp: conn_good_def phase_ok_def waiting_def opened_def destroyed_def)
qed

lemma establish_task:
  assumes inv: "server_inv t None s" and at: "ss_conns s a = Some (l, c)"
    and q: "el_unprocessedFunctors (main_loop s) = EstablishTask a # fs"
    and room: "length (po_fds (el_poller (main_loop s))) + 1 < 2 ^ 31"
  shows "\<exists>s'. run_server_task t n (EstablishTask a) (pop_task fs s) = Inr s' \<and> server_inv t None s' \<and> step_of a s s'
    \<and> (\<exists>l' c'. ss_conns s' a = Some (l', c') \<and> established c')"
proof -
  let ?l = "main_loop s" and ?m = "ts_connections (ss_server s)"
  let ?lq = "?l\<lparr>el_unprocessedFunctors := fs\<rparr>"
  obtain x where x: "po_objs (el_poller ?l) (cn_channel c) = Some x" "ch_fd x = conn_fd c"
      "ch_loop x = el_this ?l" "waiting ?l ?m a c x" "0 \<le> conn_fd c"
  proof -
    have "EstablishTask a \<in> set (el_unprocessedFunctors ?l)" unfolding q by (rule list.set_intros(1))
    from waiting_of [OF inv at this] show thesis using that .
  qed
  have w: "TcpConnection_new (cn_name c) (conn_fd c) (cn_channel c) = c" "ch_index x < 0" "ch_events x = 0"
      "po_channels (el_poller ?l) (conn_fd c) = None" "?m (cn_name c) = Some a"
    using x(4) by (simp_all add: waiting_def)
  have ok: "loop_ok t ?lq" using server_inv_fixed [OF inv] by (simp add: server_fixed_def)
  have ch: "loop_channel ?lq (cn_channel c) = Some x" using x(1) by (simp add: loop_channel_def)
  have busy: "ch_events (Channel_enableReading x) \<noteq> 0"
    using w(3) by (simp add: Channel_enableReading_def READEVENT_def poll_defs)
  obtain p i where p: "Channel_change Channel_enableReading t (cn_channel c) ?lq = Inr (?lq\<lparr>el_poller := p\<rparr>)"
      "loop_ok t (?lq\<lparr>el_poller := p\<rparr>)"
      "po_channels p = (po_channels (el_poller ?l))(conn_fd c \<mapsto> cn_channel c)"
      "po_objs p = (po_objs (el_poller ?l))(cn_channel c \<mapsto> Channel_set_index (Channel_enableReading x) i)"
    using loop_new_frame [OF ok ch w(2) _ _ _ _ events_only_ops(1) busy] x w(4) room by auto
  let ?c = "c\<lparr>cn_state := CONNECTED\<rparr>" and ?c' = "c\<lparr>cn_state := CONNECTED, cn_context := Some HttpContext_new\<rparr>"
  have st: "cn_state c = CONNECTING" by (subst w(1) [symmetric]) (simp add: TcpConnection_new_def)
  have run: "TcpConnection_establishConnection t f (conn_at ?lq c) = f (conn_at (?lq\<lparr>el_poller := p\<rparr>) ?c)" for f
    using p(1) ok st by (simp add: TcpConnection_establishConnection_def conn_change_def upd_conn_def
        TcpConnection_setState_def EventLoop_assertInLoopThread_def EventLoop_isInLoopThread_def loop_ok_def)
  have env: "en_conn \<lparr>en_conn = c, en_buffers = Map.empty\<rparr> = TcpConnection_new (cn_name c) (conn_fd c) (cn_channel c)"
    unfolding conn_env.select_convs by (rule w(1) [symmetric])
  have "conn_inv t (conn_at (?lq\<lparr>el_poller := p\<rparr>) ?c)"
    using establish_ok [OF ok ch w(2) _ _ _ _ _ env] run [of Inr] x(2,3,5) w(3,4) room
    by (auto simp: Channel_isWriting_def)
  then have inv': "conn_inv t (conn_at (?lq\<lparr>el_poller := p\<rparr>) ?c')"
    by (simp add: conn_inv_def conn_ok_def out_bytes_def fin_sent_def writing_def)
  have "buf_wf (cn_inputBuffer c)" by (subst w(1) [symmetric]) (simp add: TcpConnection_new_def)
  then have "input_ready ?c'"
    by (simp add: input_ready_def parser_ready_def HttpContext_new_def body_not_get_def)
  then have "opened t (?lq\<lparr>el_poller := p\<rparr>) ?m a ?c'"
    using inv' w(5) x(4) q by (simp add: opened_def established_def waiting_def)
  then have "conn_good t False (?lq\<lparr>el_poller := p\<rparr>) ?m a ?c'"
    using x p(4) by (auto simp: conn_good_def phase_ok_def Channel_set_index_def Channel_enableReading_def)
  then have "\<exists>s'. run_server_task t n (EstablishTask a) (pop_task fs s) = Inr s' \<and> server_inv t None s'
      \<and> step_of a s s' \<and> ss_conns s' a = Some (ts_loop (ss_server s), ?c')"
    using task_run [OF inv at q, of "TcpConnection_establishConnection t HttpServer_onConnection"
        "conn_at (?lq\<lparr>el_poller := p\<rparr>) ?c'" p] run [of HttpServer_onConnection] p(2-4)
    by (simp add: run_server_task_def HttpServer_onConnection_def TcpConnection_connected_def upd_conn_def
        TcpConnection_setContext_def)
  moreover have "established ?c'" by (simp add: established_def)
  ultimately show ?thesis by blast
qed


lemma destroy_task:
  assumes inv: "server_inv t None s" and at: "ss_conns s a = Some (l, c)"
    and q: "el_unprocessedFunctors (main_loop s) = DestroyTask a # fs"
  shows "\<exists>s'. run_server_task t n (DestroyTask a) (pop_task fs s) = Inr s' \<and> server_inv t None s' \<and> step_of a s s'
    \<and> (\<exists>l' c'. ss_conns s' a = Some (l', c') \<and> cn_state c' = DISCONNECTED)"
proof -
  let ?l = "main_loop s" and ?m = "ts_connections (ss_server s)"
  let ?lq = "?l\<lparr>el_unprocessedFunctors := fs\<rparr>" and ?c = "c\<lparr>cn_state := DISCONNECTED\<rparr>"
  have mem: "DestroyTask a \<in> set (el_unprocessedFunctors ?l)" using q by simp
  obtain x where x: "po_objs (el_poller ?l) (cn_channel c) = Some x" "ch_fd x = conn_fd c"
      "ch_loop x = el_this ?l" "closing t ?l ?m a c x" "0 \<le> conn_fd c" "\<not> ch_handlingEvent x"
    using closing_of [OF inv at mem] .
  have cl: "established c" "loop_registered ?l (cn_channel c)" "?m (cn_name c) = None"
    using x(4) by (simp_all add: closing_def conn_ok_def)
  have ok: "loop_ok t ?lq" using server_inv_fixed [OF inv] by (simp add: server_fixed_def)
  have ch: "loop_channel ?lq (cn_channel c) = Some x" using x(1) by (simp add: loop_channel_def)
  have reg: "loop_registered ?lq (cn_channel c)"
    using cl(2) by (simp add: loop_registered_def cong: option.case_cong)
  obtain p1 where p1: "Channel_change Channel_disableAll t (cn_channel c) ?lq = Inr (?lq\<lparr>el_poller := p1\<rparr>)"
      "loop_ok t (?lq\<lparr>el_poller := p1\<rparr>)" "po_channels p1 = po_channels (el_poller ?l)"
      "po_objs p1 = (po_objs (el_poller ?l))(cn_channel c \<mapsto> Channel_disableAll x)"
    using loop_change_frame [OF ok reg ch events_only_ops(4)] by auto
  have reg1: "loop_registered (?lq\<lparr>el_poller := p1\<rparr>) (cn_channel c)"
    using reg p1(3,4) x(1,3) by (auto simp: loop_registered_def registered_def Channel_disableAll_def)
  obtain p where p: "EventLoop_removeChannel t (cn_channel c) (?lq\<lparr>el_poller := p1\<rparr>) = Inr (?lq\<lparr>el_poller := p\<rparr>)"
      "loop_ok t (?lq\<lparr>el_poller := p\<rparr>)" "po_channels p = (po_channels p1)(conn_fd c := None)"
      "\<And>k. same_object (po_objs p1 k) (po_objs p k)"
    using loop_remove_frame [OF p1(2) reg1, of "Channel_disableAll x"] p1(4) x(2)
    by (auto simp: loop_channel_def Channel_disableAll_def EMPTYEVENT_def)
  have run: "TcpConnection_destroyConnection t HttpServer_onConnection (conn_at ?lq c)
      = Inr (conn_at (?lq\<lparr>el_poller := p\<rparr>) ?c)"
    using p1(1) p(1) ok cl(1)
    by (simp add: TcpConnection_destroyConnection_def conn_change_def upd_conn_def TcpConnection_setState_def
        EventLoop_assertInLoopThread_def EventLoop_isInLoopThread_def loop_ok_def established_def
        HttpServer_onConnection_def TcpConnection_connected_def)
  obtain i where i: "po_objs p (cn_channel c) = Some ((Channel_disableAll x)\<lparr>ch_index := i\<rparr>)"
    using p(4) [of "cn_channel c"] p1(4) by (auto simp: same_object_def)
  have "destroyed (?lq\<lparr>el_poller := p\<rparr>) ?m a ?c"
    using p(3) cl(3) x(4) q by (simp add: destroyed_def closing_def)
  then have "conn_good t False (?lq\<lparr>el_poller := p\<rparr>) ?m a ?c"
    using i x by (auto simp: conn_good_def phase_ok_def Channel_disableAll_def)
  moreover have "same_object (po_objs (el_poller ?l) k) (po_objs p k)" if "k \<noteq> cn_channel c" for k
    using p(4) [of k] p1(4) that by simp
  ultimately have "\<exists>s'. run_server_task t n (DestroyTask a) (pop_task fs s) = Inr s' \<and> server_inv t None s'
      \<and> step_of a s s' \<and> ss_conns s' a = Some (ts_loop (ss_server s), ?c)"
    using task_run [OF inv at q, of "TcpConnection_destroyConnection t HttpServer_onConnection"
        "conn_at (?lq\<lparr>el_poller := p\<rparr>) ?c" p] run p(2,3) p1(3)
    by (simp add: run_server_task_def)
  moreover have "cn_state ?c = DISCONNECTED" by simp
  ultimately show ?thesis by blast
qed

lemma queue_run:
  assumes inv: "server_inv t None s" and q: "el_unprocessedFunctors (main_loop s) = f # fs"
    and room: "length (po_fds (el_poller (main_loop s))) + 1 < 2 ^ 31"
  shows "\<exists>s' a l' c'. run_server_task t n f (pop_task fs s) = Inr s' \<and> server_inv t None s' \<and> step_of a s s'
    \<and> ss_conns s' a = Some (l', c')
    \<and> (f = EstablishTask a \<and> established c' \<or> f = DestroyTask a \<and> cn_state c' = DISCONNECTED)"
proof -
  have "f \<in> set (el_unprocessedFunctors (main_loop s))" using q by simp
  then obtain a l c where at: "ss_conns s a = Some (l, c)" "f = EstablishTask a \<or> f = DestroyTask a"
    using server_inv_queue [OF inv] by fastforce
  then show ?thesis
    using establish_task [OF inv at(1) _ room] destroy_task [OF inv at(1)] q by blast
qed

section \<open>Release\<close>

text \<open>A connection that nothing refers to has been destroyed, and its channel handles no event.\<close>

lemma unreferenced_destroyed:
  assumes inv: "server_inv t None s" and at: "ss_conns s a = Some (l, c)"
    and free: "\<forall>n. ts_connections (ss_server s) n \<noteq> Some a"
      "EstablishTask a \<notin> set (el_unprocessedFunctors (main_loop s))"
      "DestroyTask a \<notin> set (el_unprocessedFunctors (main_loop s))"
  shows "\<exists>x. po_objs (el_poller (main_loop s)) (cn_channel c) = Some x \<and> ch_fd x = conn_fd c \<and> 0 \<le> conn_fd c
    \<and> destroyed (main_loop s) (ts_connections (ss_server s)) a c \<and> \<not> ch_handlingEvent x"
  using server_invD(4) [OF inv at] free
  by (auto simp: conn_good_def phase_ok_def waiting_def opened_def closing_def count_list_0_iff)

lemma released_inv:
  assumes inv: "server_inv t None s" and at: "ss_conns s a = Some (l, c)"
    and free: "\<forall>n. ts_connections (ss_server s) n \<noteq> Some a"
      "EstablishTask a \<notin> set (el_unprocessedFunctors (main_loop s))"
      "DestroyTask a \<notin> set (el_unprocessedFunctors (main_loop s))"
    and gone: "po_channels (el_poller (main_loop s)) (conn_fd c) = None"
    and l': "loop_ok t l'" "l' = (main_loop s)\<lparr>el_poller := (el_poller (main_loop s))
        \<lparr>po_objs := (po_objs (el_poller (main_loop s)))(cn_channel c := None)\<rparr>\<rparr>"
    and sel: "ss_server s' = ss_server s" "main_loop s' = l'" "ss_conns s' = (ss_conns s)(a := None)"
      "ss_fds s' = ss_fds s - {conn_fd c}" "ss_error s' = ss_error s"
  shows "server_inv t None s'"
  unfolding server_inv_def
proof (intro conjI allI impI)
  show "server_fixed t s'" using server_inv_fixed [OF inv] l' sel by (simp add: server_fixed_def)
  fix b k d assume b: "ss_conns s' b = Some (k, d)"
  then have b': "ss_conns s b = Some (k, d)" "a \<noteq> b" using sel(3) by (auto split: if_splits)
  note ne = server_inv_distinct [OF inv at b']
  show "k = ts_loop (ss_server s')" and "conn_fd d \<in> ss_fds s'" and "server_name_used (ss_server s') (cn_name d)"
    using server_invD(1-3) [OF inv b'(1)] ne sel by simp_all
  have "conn_good t False (main_loop s) (ts_connections (ss_server s)) b d"
    using server_invD(4) [OF inv b'(1)] by simp
  then show "conn_good t (None = Some b) (main_loop s') (ts_connections (ss_server s')) b d"
    using conn_good_frame [of t False "main_loop s" "ts_connections (ss_server s)" b d l'] l' ne sel by simp
next
  fix b b' k k' d d' assume "ss_conns s' b = Some (k, d) \<and> ss_conns s' b' = Some (k', d') \<and> b \<noteq> b'"
  then have "ss_conns s b = Some (k, d)" "ss_conns s b' = Some (k', d')" "b \<noteq> b'"
    using sel(3) by (auto split: if_splits)
  from server_inv_distinct [OF inv this]
  show "cn_name d \<noteq> cn_name d'" "cn_channel d \<noteq> cn_channel d'" "conn_fd d \<noteq> conn_fd d'" by simp_all
next
  fix n b assume "ts_connections (ss_server s') n = Some b"
  then show "\<exists>k d. ss_conns s' b = Some (k, d) \<and> cn_name d = n"
    using server_inv_map [OF inv, of n b] free(1) sel by auto
next
  show "\<forall>f \<in> set (el_unprocessedFunctors (main_loop s')).
      \<exists>b. ss_conns s' b \<noteq> None \<and> (f = EstablishTask b \<or> f = DestroyTask b)"
  proof
    fix f assume "f \<in> set (el_unprocessedFunctors (main_loop s'))"
    then have f: "f \<in> set (el_unprocessedFunctors (main_loop s))" using l'(2) sel(2) by simp
    then obtain b where "ss_conns s b \<noteq> None" "f = EstablishTask b \<or> f = DestroyTask b"
      using server_inv_queue [OF inv] by blast
    then show "\<exists>b. ss_conns s' b \<noteq> None \<and> (f = EstablishTask b \<or> f = DestroyTask b)"
      using f free(2,3) sel(3) by (intro exI [of _ b]) auto
  qed
next
  fix fd ch assume "po_channels (el_poller (main_loop s')) fd = Some ch"
  then have fd: "po_channels (el_poller (main_loop s)) fd = Some ch" unfolding sel(2) l'(2) by simp
  have "fd \<noteq> conn_fd c"
  proof
    assume "fd = conn_fd c"
    then show False using fd gone by simp
  qed
  then show "fd \<in> ss_fds s'" using server_inv_fds [OF inv fd] sel(4) by simp
qed

lemma release_run:
  assumes inv: "server_inv t None s" and at: "ss_conns s a = Some (l, c)"
    and free: "\<forall>n. ts_connections (ss_server s) n \<noteq> Some a"
      "EstablishTask a \<notin> set (el_unprocessedFunctors (main_loop s))"
      "DestroyTask a \<notin> set (el_unprocessedFunctors (main_loop s))"
  shows "\<exists>s'. release_conn a s = Inr s' \<and> server_inv t None s'"
proof -
  let ?l = "main_loop s"
  have l: "l = ts_loop (ss_server s)" using server_invD(1) [OF inv at] .
  obtain x where x: "po_objs (el_poller ?l) (cn_channel c) = Some x" "ch_fd x = conn_fd c" "0 \<le> conn_fd c"
      "destroyed ?l (ts_connections (ss_server s)) a c" "\<not> ch_handlingEvent x"
    using unreferenced_destroyed [OF inv at free] by blast
  have gone: "po_channels (el_poller ?l) (conn_fd c) = None" using x(4) by (simp add: destroyed_def)
  define l' where "l' = ?l\<lparr>el_poller := (el_poller ?l)\<lparr>po_objs := (po_objs (el_poller ?l))(cn_channel c := None)\<rparr>\<rparr>"
  have "poller_inv ((el_poller ?l)\<lparr>po_objs := (po_objs (el_poller ?l))(cn_channel c := None)\<rparr>)"
    using server_inv_fixed [OF inv] x(1,2) gone
    by (intro poller_inv_objs) (auto simp: server_fixed_def loop_ok_def)
  then have lok: "loop_ok t l'" using server_inv_fixed [OF inv] by (simp add: l'_def server_fixed_def loop_ok_def)
  define s' where "s' = set_loop l l' (s\<lparr>ss_conns := (ss_conns s)(a := None), ss_fds := ss_fds s - {conn_fd c}\<rparr>)"
  have "release_conn a s = Inr s'"
    using at x l by (simp add: release_conn_def Channel_delete_def Socket_delete_def Socket_new_def Close_def
        s'_def l'_def)
  then show ?thesis
    using released_inv [OF inv at free gone lok l'_def, of s'] by (simp add: s'_def set_loop_def l)
qed

section \<open>Accepting\<close>

lemma conn_name_inject:
  assumes "0 \<le> i" "i < 2 ^ 31" "0 \<le> j" "j < 2 ^ 31"
  shows "conn_name n i = conn_name n j \<longleftrightarrow> i = j"
proof -
  have "length (fmt_d k) \<le> 10" if "0 \<le> k" "k < 2 ^ 31" for k
    using that length_dec_digits_le [of "nat k" 10] by (simp add: fmt_d_def nat_less_iff)
  then have "snprintf 32 (''#'' @ fmt_d k) = ''#'' @ fmt_d k" if "0 \<le> k" "k < 2 ^ 31" for k
    using that by (fastforce simp: snprintf_def)
  then show ?thesis using assms by (simp add: conn_name_def fmt_d_inject)
qed


lemma loop_ok_new_object:
  assumes "loop_ok t l" "po_objs (el_poller l) ch = None"
  shows "loop_ok t (l\<lparr>el_poller := (el_poller l)\<lparr>po_objs := (po_objs (el_poller l))(ch \<mapsto> x)\<rparr>\<rparr>)"
proof -
  have "poller_inv ((el_poller l)\<lparr>po_objs := (po_objs (el_poller l))(ch \<mapsto> x)\<rparr>)"
    using assms by (intro poller_inv_objs) (auto simp: loop_ok_def)
  then show ?thesis using assms(1) by (simp add: loop_ok_def)
qed

lemma new_conn_good:
  assumes "loop_ok t l" and ch: "po_objs (el_poller l) ch = None" and fd: "0 \<le> fd" "po_channels (el_poller l) fd = None"
    and q: "EstablishTask a \<notin> set (el_unprocessedFunctors l)" "DestroyTask a \<notin> set (el_unprocessedFunctors l)"
    and m: "m n = Some a"
  shows "conn_good t False (EventLoop_addToLoopThread t (EstablishTask a)
      (l\<lparr>el_poller := (el_poller l)\<lparr>po_objs := (po_objs (el_poller l))(ch \<mapsto> Channel_new (el_this l) fd garbage)\<rparr>\<rparr>))
    m a (TcpConnection_new n fd ch)"
  using assms by (simp add: conn_good_def phase_ok_def waiting_def TcpConnection_new_def Channel_new_def
      count_list_0_iff [symmetric])

lemma name_used_mono: "server_name_used sv n \<Longrightarrow> ts_serverName sv' = ts_serverName sv \<Longrightarrow>
    ts_newConnId sv \<le> ts_newConnId sv' \<Longrightarrow> server_name_used sv' n"
  by (auto simp: server_name_used_def)

lemma new_name:
  assumes "server_name_used sv n" "ts_newConnId sv < 2 ^ 31 - 1"
  shows "n \<noteq> conn_name (ts_serverName sv) (ts_newConnId sv)"
  using assms conn_name_inject by (auto simp: server_name_used_def)

text \<open>The state after the connection \<open>c\<close> has been accepted.\<close>

definition accepted :: "nat \<Rightarrow> nat \<Rightarrow> nat \<Rightarrow> int \<Rightarrow> bool \<Rightarrow> server_system \<Rightarrow> TcpConnection \<Rightarrow> server_system \<Rightarrow> bool" where
  "accepted t a ch fd garbage s c s' \<longleftrightarrow>
     c = TcpConnection_new (conn_name (ts_serverName (ss_server s)) (ts_newConnId (ss_server s))) fd ch
     \<and> ss_server s' = (ss_server s)\<lparr>ts_newConnId := ts_newConnId (ss_server s) + 1,
         ts_connections := (ts_connections (ss_server s))(cn_name c \<mapsto> a)\<rparr>
     \<and> ss_loops s' (ts_loop (ss_server s)) = EventLoop_addToLoopThread t (EstablishTask a) ((main_loop s)\<lparr>el_poller :=
         (el_poller (main_loop s))\<lparr>po_objs := (po_objs (el_poller (main_loop s)))
           (ch \<mapsto> Channel_new (el_this (main_loop s)) fd garbage)\<rparr>\<rparr>)
     \<and> ss_conns s' = (ss_conns s)(a \<mapsto> (ts_loop (ss_server s), c))
     \<and> ss_fds s' = insert fd (ss_fds s) \<and> ss_error s' = ss_error s"

definition fresh :: "nat \<Rightarrow> nat \<Rightarrow> int \<Rightarrow> server_system \<Rightarrow> bool" where
  "fresh a ch fd s \<longleftrightarrow> ss_conns s a = None \<and> po_objs (el_poller (main_loop s)) ch = None
     \<and> fd \<notin> ss_fds s \<and> ts_newConnId (ss_server s) < 2 ^ 31 - 1"

lemma accepted_loop:
  assumes "server_inv t None s" "fresh a ch fd s" "accepted t a ch fd garbage s c s'"
  shows "loop_ok t (main_loop s')"
proof -
  have "loop_ok t (main_loop s)" "po_objs (el_poller (main_loop s)) ch = None"
    using server_inv_fixed [OF assms(1)] assms(2) by (simp_all add: server_fixed_def fresh_def)
  from loop_ok_new_object [OF this] show ?thesis using assms(3) by (simp add: accepted_def)
qed

lemma accepted_old:
  assumes inv: "server_inv t None s" and new: "fresh a ch fd s" and acc: "accepted t a ch fd garbage s c s'"
    and b: "ss_conns s b = Some (k, d)"
  shows "cn_name d \<noteq> cn_name c" "cn_channel d \<noteq> cn_channel c" "conn_fd d \<noteq> conn_fd c"
    "conn_good t False (main_loop s') (ts_connections (ss_server s')) b d" "b \<noteq> a"
    "server_name_used (ss_server s') (cn_name d)"
proof -
  note i = server_invD [OF inv b]
  have f: "ss_conns s a = None" "po_objs (el_poller (main_loop s)) ch = None" "fd \<notin> ss_fds s"
      "ts_newConnId (ss_server s) < 2 ^ 31 - 1"
    using new by (simp_all add: fresh_def)
  have c: "cn_name c = conn_name (ts_serverName (ss_server s)) (ts_newConnId (ss_server s))"
      "cn_channel c = ch" "conn_fd c = fd"
    using acc by (simp_all add: accepted_def TcpConnection_new_def)
  have s': "ts_connections (ss_server s') = (ts_connections (ss_server s))(cn_name c \<mapsto> a)"
      "ts_serverName (ss_server s') = ts_serverName (ss_server s)"
      "ts_newConnId (ss_server s') = ts_newConnId (ss_server s) + 1"
      "po_objs (el_poller (main_loop s')) = (po_objs (el_poller (main_loop s)))
         (ch \<mapsto> Channel_new (el_this (main_loop s)) fd garbage)"
      "po_channels (el_poller (main_loop s')) = po_channels (el_poller (main_loop s))"
      "el_this (main_loop s') = el_this (main_loop s)"
      "el_unprocessedFunctors (main_loop s') = el_unprocessedFunctors (main_loop s) @ [EstablishTask a]"
    using acc by (simp_all add: accepted_def)
  show nm: "cn_name d \<noteq> cn_name c" using new_name [OF i(3) f(4)] c(1) by simp
  show ch: "cn_channel d \<noteq> cn_channel c" using i(4) f(2) c(2) by (auto simp: conn_good_def)
  show "conn_fd d \<noteq> conn_fd c" using i(2) f(3) c(3) by metis
  show ba: "b \<noteq> a" using b f(1) by auto
  show "server_name_used (ss_server s') (cn_name d)" using name_used_mono [OF i(3) s'(2)] s'(3) by simp
  have "conn_good t False (main_loop s) (ts_connections (ss_server s)) b d" using i(4) by simp
  then show "conn_good t False (main_loop s') (ts_connections (ss_server s')) b d"
    by (rule conn_good_frame) (use accepted_loop [OF inv new acc] s' nm ch c(2) ba in simp_all)
qed

lemma accepted_new:
  assumes inv: "server_inv t None s" and new: "fresh a ch fd s" "0 \<le> fd" and acc: "accepted t a ch fd garbage s c s'"
  shows "conn_good t False (main_loop s') (ts_connections (ss_server s')) a c"
    "server_name_used (ss_server s') (cn_name c)"
proof -
  let ?l = "main_loop s"
  have fx: "loop_ok t ?l" "0 \<le> ts_newConnId (ss_server s)"
    using server_inv_fixed [OF inv] by (simp_all add: server_fixed_def)
  have f: "ss_conns s a = None" "po_objs (el_poller ?l) ch = None" "fd \<notin> ss_fds s"
    using new by (simp_all add: fresh_def)
  have q: "EstablishTask a \<notin> set (el_unprocessedFunctors ?l)" "DestroyTask a \<notin> set (el_unprocessedFunctors ?l)"
    using server_inv_queue [OF inv, of "EstablishTask a"] server_inv_queue [OF inv, of "DestroyTask a"] f(1)
    by auto
  have free: "po_channels (el_poller ?l) fd = None"
    using server_inv_fds [OF inv, of fd] f(3) by (cases "po_channels (el_poller ?l) fd") simp_all
  show "conn_good t False (main_loop s') (ts_connections (ss_server s')) a c"
    using new_conn_good [OF fx(1) f(2) new(2) free q, of "ts_connections (ss_server s')" "cn_name c" garbage] acc
    by (simp add: accepted_def TcpConnection_new_def)
  show "server_name_used (ss_server s') (cn_name c)"
    using acc fx(2) by (auto simp: accepted_def server_name_used_def TcpConnection_new_def)
qed

lemma accepted_conns:
  assumes "accepted t a ch fd garbage s c s'" "ss_conns s' b = Some (k, d)"
  shows "b = a \<and> k = ts_loop (ss_server s) \<and> d = c \<or> b \<noteq> a \<and> ss_conns s b = Some (k, d)"
  using assms by (auto simp: accepted_def split: if_splits)

lemma accepted_inv:
  assumes inv: "server_inv t None s" and new: "fresh a ch fd s" "0 \<le> fd" and acc: "accepted t a ch fd garbage s c s'"
  shows "server_inv t None s'"
  unfolding server_inv_def
proof (intro conjI allI impI)
  have sv: "ts_loop (ss_server s') = ts_loop (ss_server s)" "ss_fds s' = insert fd (ss_fds s)" "conn_fd c = fd"
    using acc by (simp_all add: accepted_def TcpConnection_new_def)
  note old = accepted_old [OF inv new(1) acc]
  show "server_fixed t s'"
    using server_inv_fixed [OF inv] accepted_loop [OF inv new(1) acc] acc
    by (simp add: server_fixed_def accepted_def)
  fix b k d assume b: "ss_conns s' b = Some (k, d)"
  show "k = ts_loop (ss_server s')" and "conn_fd d \<in> ss_fds s'" and "server_name_used (ss_server s') (cn_name d)"
    and "conn_good t (None = Some b) (main_loop s') (ts_connections (ss_server s')) b d"
    using accepted_conns [OF acc b] accepted_new [OF inv new acc] old(4,6) [of b k d]
      server_invD(1,2) [OF inv, of b k d] sv by auto
next
  note old = accepted_old [OF inv new(1) acc]
  fix b b' k k' d d' assume a: "ss_conns s' b = Some (k, d) \<and> ss_conns s' b' = Some (k', d') \<and> b \<noteq> b'"
  then consider "d = c" "ss_conns s b' = Some (k', d')" | "d' = c" "ss_conns s b = Some (k, d)"
    | "ss_conns s b = Some (k, d)" "ss_conns s b' = Some (k', d')"
    using accepted_conns [OF acc] by metis
  then have "cn_name d \<noteq> cn_name d' \<and> cn_channel d \<noteq> cn_channel d' \<and> conn_fd d \<noteq> conn_fd d'"
    by cases (metis old(1-3), metis old(1-3), metis server_inv_distinct [OF inv] a)
  then show "cn_name d \<noteq> cn_name d'" "cn_channel d \<noteq> cn_channel d'" "conn_fd d \<noteq> conn_fd d'" by simp_all
next
  fix n b assume "ts_connections (ss_server s') n = Some b"
  moreover have "ts_connections (ss_server s') = (ts_connections (ss_server s))(cn_name c \<mapsto> a)"
    using acc by (simp add: accepted_def)
  ultimately consider "n = cn_name c" "b = a" | "ts_connections (ss_server s) n = Some b"
    by (cases "n = cn_name c") simp_all
  then show "\<exists>k d. ss_conns s' b = Some (k, d) \<and> cn_name d = n"
  proof cases
    case 1
    then show ?thesis using acc by (simp add: accepted_def)
  next
    case 2
    then obtain k d where "ss_conns s b = Some (k, d)" "cn_name d = n" using server_inv_map [OF inv] by blast
    moreover from this have "b \<noteq> a" using new(1) by (auto simp: fresh_def)
    ultimately show ?thesis using acc by (simp add: accepted_def)
  qed
next
  show "\<forall>f \<in> set (el_unprocessedFunctors (main_loop s')).
      \<exists>b. ss_conns s' b \<noteq> None \<and> (f = EstablishTask b \<or> f = DestroyTask b)"
  proof
    fix f assume "f \<in> set (el_unprocessedFunctors (main_loop s'))"
    then consider "f = EstablishTask a" | "f \<in> set (el_unprocessedFunctors (main_loop s))"
      using acc by (auto simp: accepted_def)
    then show "\<exists>b. ss_conns s' b \<noteq> None \<and> (f = EstablishTask b \<or> f = DestroyTask b)"
    proof cases
      case 1
      then show ?thesis using acc by (intro exI [of _ a]) (simp add: accepted_def)
    next
      case 2
      then obtain b where "ss_conns s b \<noteq> None" "f = EstablishTask b \<or> f = DestroyTask b"
        using server_inv_queue [OF inv] by blast
      then show ?thesis using acc by (intro exI [of _ b]) (simp add: accepted_def)
    qed
  qed
next
  fix fd' k assume "po_channels (el_poller (main_loop s')) fd' = Some k"
  then have "po_channels (el_poller (main_loop s)) fd' = Some k" using acc by (simp add: accepted_def)
  then show "fd' \<in> ss_fds s'" using server_inv_fds [OF inv] acc by (simp add: accepted_def)
qed


lemma accept_accepted:
  assumes inv: "server_inv t None s" and new: "fresh a ch answer s" and ok: "0 \<le> answer"
  shows "\<exists>s' c. Acceptor_incomingHandler t answer a ch garbage s = Inr s' \<and> accepted t a ch answer garbage s c s'"
proof -
  let ?sv = "ss_server s"
  have fx: "el_threadId (main_loop s) = t" "el_this (main_loop s) = ts_loop ?sv" "pl_loops (ts_threadPool ?sv) = []"
      "pl_mainLoop (ts_threadPool ?sv) = ts_loop ?sv" "pl_mainThread (ts_threadPool ?sv) = t"
      "ac_loop (ts_acceptor ?sv) = ts_loop ?sv" "ac_hasCallback (ts_acceptor ?sv)"
    using server_inv_fixed [OF inv] by (simp_all add: server_fixed_def loop_ok_def)
  show ?thesis
    using ok fx new
    by (simp add: Acceptor_incomingHandler_def TcpServer_newConnectionHandler_def sd_Accept_def fresh_def
        EventLoopThreadPool_nextLoop_def EventLoop_assertInLoopThread_def EventLoop_isInLoopThread_def Let_def
        accepted_def set_loop_def TcpConnection_new_def)
qed

lemma accept_run:
  assumes inv: "server_inv t None s" and new: "fresh a ch answer s"
  shows "\<exists>s'. Acceptor_incomingHandler t answer a ch garbage s = Inr s' \<and> server_inv t None s'"
proof (cases "0 \<le> answer")
  case False
  then have "Acceptor_incomingHandler t answer a ch garbage s = Inr s"
    using server_inv_fixed [OF inv] by (simp add: Acceptor_incomingHandler_def EventLoop_assertInLoopThread_def
        EventLoop_isInLoopThread_def sd_Accept_def server_fixed_def loop_ok_def)
  then show ?thesis using inv by simp
next
  case True
  then show ?thesis using accept_accepted [OF inv new True, of garbage] accepted_inv [OF inv new True] by blast
qed

section \<open>Steps\<close>

definition after :: "server_system \<Rightarrow> server_system result \<Rightarrow> server_system" where
  "after s r = (case r of Inr s' \<Rightarrow> s' | Inl e \<Rightarrow> s\<lparr>ss_error := Some e\<rparr>)"

text \<open>
  Steps of the main thread, \<open>t\<close>, of a server with the application \<open>cb\<close>. A new descriptor and the addresses
  of new objects are unused; the next functor in the queue runs; \<open>poll\<close> reports an event of a registered
  channel with a non-empty mask, and the message callback is \<open>onMessage\<close>; a connection that neither the map
  nor a queued functor refers to is released. An error ends the run.
\<close>

inductive server_step ::
  "(HttpRequest \<Rightarrow> HttpResponse \<Rightarrow> HttpResponse) \<Rightarrow> nat \<Rightarrow> server_system \<Rightarrow> server_system \<Rightarrow> bool" for cb t where
  step_accept: "ss_error s = None \<Longrightarrow> fresh a ch answer s \<Longrightarrow>
    server_step cb t s (after s (Acceptor_incomingHandler t answer a ch garbage s))"
| step_functor: "ss_error s = None \<Longrightarrow> el_unprocessedFunctors (main_loop s) = f # fs \<Longrightarrow>
    length (po_fds (el_poller (main_loop s))) + 1 < 2 ^ 31 \<Longrightarrow>
    server_step cb t s (after s (run_server_task t listen_answer f (pop_task fs s)))"
| step_event: "ss_error s = None \<Longrightarrow> ss_conns s a = Some (l, c) \<Longrightarrow>
    registered (el_poller (main_loop s)) (cn_channel c) \<Longrightarrow>
    channel_events (el_poller (main_loop s)) (cn_channel c) \<noteq> 0 \<Longrightarrow>
    kernel_ok c revents rd wr \<Longrightarrow>
    (reads revents \<Longrightarrow> rd \<noteq> Some [] \<Longrightarrow> answers_fit cb a1 a2 now rd c) \<Longrightarrow>
    server_step cb t s (after s (server_event (http_message cb t a1 a2 addr) t rd wr revents now a s))"
| step_release: "ss_error s = None \<Longrightarrow> ss_conns s a = Some (l, c) \<Longrightarrow>
    (\<forall>n. ts_connections (ss_server s) n \<noteq> Some a) \<Longrightarrow>
    EstablishTask a \<notin> set (el_unprocessedFunctors (main_loop s)) \<Longrightarrow>
    DestroyTask a \<notin> set (el_unprocessedFunctors (main_loop s)) \<Longrightarrow>
    server_step cb t s (after s (release_conn a s))"

inductive_cases server_stepE: "server_step cb t s s'"

text \<open>A server that has been set up in its loop and has no connection yet.\<close>

definition server_start :: "nat \<Rightarrow> server_system \<Rightarrow> bool" where
  "server_start t s \<longleftrightarrow> server_fixed t s \<and> (\<forall>a. ss_conns s a = None)
     \<and> (\<forall>n. ts_connections (ss_server s) n = None) \<and> el_unprocessedFunctors (main_loop s) = []
     \<and> (\<forall>fd ch. po_channels (el_poller (main_loop s)) fd = Some ch \<longrightarrow> fd \<in> ss_fds s)"

lemma server_inv_start: "server_start t s \<Longrightarrow> server_inv t None s"
  by (simp add: server_start_def server_inv_def)

lemma active_opened:
  assumes inv: "server_inv t None s" and at: "ss_conns s a = Some (l, c)"
    and reg: "registered (el_poller (main_loop s)) (cn_channel c)"
    and ev: "channel_events (el_poller (main_loop s)) (cn_channel c) \<noteq> 0"
  shows "opened t (main_loop s) (ts_connections (ss_server s)) a c"
  using server_invD(4) [OF inv at] reg ev
  by (auto simp: conn_good_def phase_ok_def waiting_def closing_def destroyed_def channel_events_def registered_def)

text \<open>
  What holds of every state: the invariant, until the parser of a connection has stopped the program
  with an error; the rest of the state is then that before the event.
\<close>

definition server_state :: "nat \<Rightarrow> server_system \<Rightarrow> bool" where
  "server_state t s \<longleftrightarrow> server_inv t None (s\<lparr>ss_error := None\<rparr>)
     \<and> (\<forall>e. ss_error s = Some e \<longrightarrow>
          (\<exists>a l c now rd. ss_conns s a = Some (l, c) \<and> cn_state c \<in> {CONNECTED, DISCONNECTING} \<and> rd \<noteq> Some []
             \<and> parser_fails now rd c e))"

lemma no_error: "ss_error s = None \<Longrightarrow> s\<lparr>ss_error := None\<rparr> = s"
  by (cases s) simp

lemma inv_no_error:
  assumes "server_inv t None s"
  shows "ss_error s = None" "s\<lparr>ss_error := None\<rparr> = s"
  using server_inv_fixed [OF assms] no_error [of s] by (simp_all add: server_fixed_def)

lemma server_state_inv:
  assumes "server_inv t None s"
  shows "server_state t s"
  unfolding server_state_def inv_no_error [OF assms] using assms by simp

lemma server_state_running: "server_state t s \<Longrightarrow> ss_error s = None \<Longrightarrow> server_inv t None s"
  unfolding server_state_def by (simp only: no_error)

lemma event_step:
  assumes inv: "server_inv t None s" and at: "ss_conns s a = Some (l, c)"
    and reg: "registered (el_poller (main_loop s)) (cn_channel c)" "channel_events (el_poller (main_loop s)) (cn_channel c) \<noteq> 0"
    and ev: "kernel_ok c revents rd wr"
    and fits: "reads revents \<Longrightarrow> rd \<noteq> Some [] \<Longrightarrow> answers_fit cb a1 a2 now rd c"
  shows "server_state t (after s (server_event (http_message cb t a1 a2 addr) t rd wr revents now a s))"
proof -
  note op = active_opened [OF inv at reg]
  then have est: "established c" by (simp add: opened_def)
  have mo: "message_ok (http_message cb t a1 a2 addr) t now rd c" if "reads revents" "rd \<noteq> Some []"
    by (rule http_message_ok [OF est fits [OF that]])
  have "(\<exists>e. server_event (http_message cb t a1 a2 addr) t rd wr revents now a s = Inl e \<and> reads revents \<and> rd \<noteq> Some []
        \<and> parser_fails now rd c e)
    \<or> (\<exists>s'. server_event (http_message cb t a1 a2 addr) t rd wr revents now a s = Inr s' \<and> server_inv t None s'
        \<and> step_of a s s' \<and> (\<exists>l' c'. ss_conns s' a = Some (l', c') \<and> established c'))"
    by (rule event_run_msg [OF inv at op ev], rule mo)
  then show ?thesis
  proof (elim disjE exE conjE)
    fix e assume e: "server_event (http_message cb t a1 a2 addr) t rd wr revents now a s = Inl e" "rd \<noteq> Some []"
      "parser_fails now rd c e"
    let ?s = "s\<lparr>ss_error := Some e\<rparr>"
    have "?s\<lparr>ss_error := None\<rparr> = s" using inv_no_error(2) [OF inv] by simp
    moreover have "ss_conns ?s a = Some (l, c)" "cn_state c \<in> {CONNECTED, DISCONNECTING}" "ss_error ?s = Some e"
      using est at by (simp_all add: established_def)
    ultimately have "server_state t ?s" using e(2,3) inv unfolding server_state_def by (metis option.inject)
    then show ?thesis using e(1) by (simp add: after_def)
  next
    fix s' assume "server_event (http_message cb t a1 a2 addr) t rd wr revents now a s = Inr s'" "server_inv t None s'"
    then show ?thesis by (simp add: after_def server_state_inv)
  qed
qed

lemma server_state_step:
  assumes st: "server_state t s" and "server_step cb t s s'"
  shows "server_state t s'"
  using assms(2)
proof (cases rule: server_step.cases)
  case (step_accept a ch answer garbage)
  have inv: "server_inv t None s" using server_state_running [OF st step_accept(2)] .
  obtain s2 where "Acceptor_incomingHandler t answer a ch garbage s = Inr s2" "server_inv t None s2"
    using accept_run [OF inv step_accept(3)] by blast
  then show ?thesis using step_accept(1) by (simp add: after_def server_state_inv)
next
  case (step_functor f fs listen_answer)
  have inv: "server_inv t None s" using server_state_running [OF st step_functor(2)] .
  obtain s2 where "run_server_task t listen_answer f (pop_task fs s) = Inr s2" "server_inv t None s2"
    using queue_run [OF inv step_functor(3,4)] by blast
  then show ?thesis using step_functor(1) by (simp add: after_def server_state_inv)
next
  case (step_event a l c revents rd wr a1 a2 now addr)
  have inv: "server_inv t None s" using server_state_running [OF st step_event(2)] .
  show ?thesis unfolding step_event(1) by (rule event_step [OF inv step_event(3-7)])
next
  case (step_release a l c)
  have inv: "server_inv t None s" using server_state_running [OF st step_release(2)] .
  obtain s2 where "release_conn a s = Inr s2" "server_inv t None s2"
    using release_run [OF inv step_release(3-6)] by blast
  then show ?thesis using step_release(1) by (simp add: after_def server_state_inv)
qed

interpretation server: step_invariant "server_start t" "server_step cb t" "server_state t" for t cb
  by unfold_locales (fact server_state_inv [OF server_inv_start], fact server_state_step)


section \<open>Starting\<close>

text \<open>\<open>TcpServer::run\<close> on a new server, in the thread of its loop.\<close>

lemma server_run_starts:
  assumes l: "loop_ok t l" "el_this l = m" "el_unprocessedFunctors l = []"
      "length (po_fds (el_poller l)) + 1 < 2 ^ 31"
    and ch: "po_objs (el_poller l) (ac_acceptorChannel ac) = Some (Channel_new m (so_fd (ac_listenSocket ac)) g)"
      "0 \<le> so_fd (ac_listenSocket ac)" "po_channels (el_poller l) (so_fd (ac_listenSocket ac)) = None"
    and fds: "so_fd (ac_listenSocket ac) \<in> fds" "\<And>fd k. po_channels (el_poller l) fd = Some k \<Longrightarrow> fd \<in> fds"
    and ac: "ac_loop ac = m" "\<not> ac_listening ac" and ans: "0 \<le> answer"
  shows "\<exists>s. TcpServer_run t answer \<lparr>ss_server = TcpServer_new m t name n ac, ss_loops = (\<lambda>_. l),
      ss_conns = Map.empty, ss_fds = fds, ss_error = None\<rparr> = Inr s \<and> server_start t s
    \<and> ts_newConnId (ss_server s) = 0 \<and> ss_fds s = fds
    \<and> (\<forall>k. po_objs (el_poller l) k = None \<longrightarrow> po_objs (el_poller (main_loop s)) k = None)
    \<and> po_channels (el_poller (main_loop s)) =
        (po_channels (el_poller l))(so_fd (ac_listenSocket ac) \<mapsto> ac_acceptorChannel ac)
    \<and> el_quit (main_loop s) = el_quit l \<and> el_looping (main_loop s) = el_looping l \<and> ts_loop (ss_server s) = m"
proof -
  let ?x = "Channel_new m (so_fd (ac_listenSocket ac)) g"
  have busy: "ch_events (Channel_enableReading ?x) \<noteq> 0"
    by (simp add: Channel_enableReading_def Channel_new_def READEVENT_def poll_defs)
  obtain p i where p: "Channel_change Channel_enableReading t (ac_acceptorChannel ac) l = Inr (l\<lparr>el_poller := p\<rparr>)"
      "loop_ok t (l\<lparr>el_poller := p\<rparr>)"
      "po_channels p = (po_channels (el_poller l))(so_fd (ac_listenSocket ac) \<mapsto> ac_acceptorChannel ac)"
      "po_objs p = (po_objs (el_poller l))(ac_acceptorChannel ac \<mapsto> Channel_set_index (Channel_enableReading ?x) i)"
    using loop_new_frame [OF l(1), of "ac_acceptorChannel ac" ?x Channel_enableReading, OF _ _ _ _ _ l(4) _ busy]
      ch l(2) by (auto simp: loop_channel_def Channel_new_def)
  let ?sv = "TcpServer_new m t name n ac"
  let ?s = "\<lparr>ss_server = ?sv\<lparr>ts_started := True, ts_acceptor := ac\<lparr>ac_hasCallback := True, ac_listening := True\<rparr>\<rparr>,
      ss_loops = (\<lambda>_. l)(m := l\<lparr>el_poller := p\<rparr>), ss_conns = Map.empty, ss_fds = fds, ss_error = None\<rparr>"
  have "TcpServer_run t answer \<lparr>ss_server = ?sv, ss_loops = (\<lambda>_. l), ss_conns = Map.empty, ss_fds = fds,
      ss_error = None\<rparr> = Inr ?s"
    using p(1) l(1) ac ans
    by (simp add: TcpServer_run_def Acceptor_listen_def TcpServer_new_def EventLoop_isInLoopThread_def
        EventLoop_assertInLoopThread_def loop_ok_def Socket_listen_def sd_Listen_def set_loop_def)
  moreover have "server_start t ?s"
    using p(2,3) l(2,3) ac(1) fds
    by (simp add: server_start_def server_fixed_def TcpServer_new_def EventLoopThreadPool_new_def) blast
  moreover have "po_objs p k = None" if "po_objs (el_poller l) k = None" for k using that p(4) ch(1) by auto
  ultimately show ?thesis using p(3) by (intro exI [of _ ?s]) (simp add: TcpServer_new_def)
qed

section \<open>Properties\<close>

lemma waiting_state:
  assumes "waiting l m a c x"
  shows "cn_state c = CONNECTING"
proof -
  have "TcpConnection_new (cn_name c) (conn_fd c) (cn_channel c) = c" using assms by (simp add: waiting_def)
  moreover have "cn_state (TcpConnection_new (cn_name c) (conn_fd c) (cn_channel c)) = CONNECTING"
    by (simp add: TcpConnection_new_def)
  ultimately show ?thesis by (simp only:)
qed

lemma lifecycle_facts:
  assumes inv: "server_inv t None s"
  shows "(\<forall>a l c. ss_conns s a = Some (l, c) \<longrightarrow>
        conn_fd c \<in> ss_fds s
        \<and> (cn_state c \<in> {CONNECTED, DISCONNECTING} \<longleftrightarrow>
            po_channels (el_poller (main_loop s)) (conn_fd c) = Some (cn_channel c))
        \<and> tasks (main_loop s) (EstablishTask a) = (if cn_state c = CONNECTING then 1 else 0)
        \<and> tasks (main_loop s) (DestroyTask a) =
            (if cn_state c \<in> {CONNECTED, DISCONNECTING} \<and> ts_connections (ss_server s) (cn_name c) = None
             then 1 else 0)
        \<and> (cn_state c = CONNECTING \<longrightarrow> ts_connections (ss_server s) (cn_name c) = Some a)
        \<and> (cn_state c = DISCONNECTED \<longrightarrow> ts_connections (ss_server s) (cn_name c) = None)
        \<and> (\<forall>b k d. ss_conns s b = Some (k, d) \<and> a \<noteq> b \<longrightarrow> cn_name c \<noteq> cn_name d \<and> conn_fd c \<noteq> conn_fd d))
    \<and> (\<forall>n a. ts_connections (ss_server s) n = Some a \<longrightarrow> (\<exists>l c. ss_conns s a = Some (l, c) \<and> cn_name c = n))"
proof -
  have phase: "(cn_state c \<in> {CONNECTED, DISCONNECTING} \<longleftrightarrow>
        po_channels (el_poller (main_loop s)) (conn_fd c) = Some (cn_channel c))
      \<and> tasks (main_loop s) (EstablishTask a) = (if cn_state c = CONNECTING then 1 else 0)
      \<and> tasks (main_loop s) (DestroyTask a) =
          (if cn_state c \<in> {CONNECTED, DISCONNECTING} \<and> ts_connections (ss_server s) (cn_name c) = None
           then 1 else 0)
      \<and> (cn_state c = CONNECTING \<longrightarrow> ts_connections (ss_server s) (cn_name c) = Some a)
      \<and> (cn_state c = DISCONNECTED \<longrightarrow> ts_connections (ss_server s) (cn_name c) = None)"
    if at: "ss_conns s a = Some (l, c)" for a l c
  proof -
    obtain x where x: "po_objs (el_poller (main_loop s)) (cn_channel c) = Some x" "ch_fd x = conn_fd c"
        "phase_ok t False (main_loop s) (ts_connections (ss_server s)) a c x"
      using server_invD(4) [OF inv at] by (auto simp: conn_good_def)
    then consider "waiting (main_loop s) (ts_connections (ss_server s)) a c x"
      | "opened t (main_loop s) (ts_connections (ss_server s)) a c"
      | "closing t (main_loop s) (ts_connections (ss_server s)) a c x"
      | "destroyed (main_loop s) (ts_connections (ss_server s)) a c"
      by (auto simp: phase_ok_def)
    then show ?thesis
    proof cases
      case 1
      then show ?thesis using waiting_state [OF 1] by (simp add: waiting_def)
    qed (use x in \<open>auto simp: opened_def closing_def destroyed_def established_def conn_inv_def conn_ok_def
        loop_registered_def registered_def\<close>)
  qed
  show ?thesis
    using phase server_invD(2) [OF inv] server_inv_distinct(1,3) [OF inv] server_inv_map [OF inv]
    by blast
qed


text \<open>
  C2. Over any sequence of accepted connections, queued functors, events of connections, with the parser and
  \<open>onMessage\<close> of the HTTP server and any application, and releases, the only error is one that
  \<open>parseRequest\<close> raises on the input of an open connection: an assertion of \<open>setMethod\<close> or \<open>setVersion\<close>,
  an exception of \<open>stoi\<close>, or a search in a range that is not valid. No other assertion of the server, of a
  connection, of the loop, of the poller or of a channel fails and no released connection is used. The
  poller knows exactly the established connections; a connection is set up or destroyed by exactly one
  queued functor, is in the server's map until it closes and is released only after it has been
  destroyed; every connection owns an open descriptor of its own. The steps assume that \<open>accept\<close> gives a
  new descriptor, that less than \<open>2 ^ 31 - 1\<close> connections were accepted, that what is read fits the input buffer
  (C11) and that the answers fit their buffers (C10, C12), and that a hang-up is reported together with
  \<^verbatim>\<open>POLLIN\<close> or without \<^verbatim>\<open>POLLPRI\<close> and \<^verbatim>\<open>POLLRDHUP\<close>.
\<close>

theorem server_lifecycle:
  assumes "reachable (server_start t) (server_step cb t) s"
  shows "(\<forall>e. ss_error s = Some e \<longrightarrow> e \<in> {AssertFail, InvalidRange, InvalidArgument, OutOfRange}
        \<and> (\<exists>a l c now rd. ss_conns s a = Some (l, c) \<and> cn_state c \<in> {CONNECTED, DISCONNECTING} \<and> rd \<noteq> Some []
            \<and> parser_fails now rd c e))
    \<and> (\<forall>a l c. ss_conns s a = Some (l, c) \<longrightarrow>
        conn_fd c \<in> ss_fds s
        \<and> (cn_state c \<in> {CONNECTED, DISCONNECTING} \<longleftrightarrow>
            po_channels (el_poller (main_loop s)) (conn_fd c) = Some (cn_channel c))
        \<and> tasks (main_loop s) (EstablishTask a) = (if cn_state c = CONNECTING then 1 else 0)
        \<and> tasks (main_loop s) (DestroyTask a) =
            (if cn_state c \<in> {CONNECTED, DISCONNECTING} \<and> ts_connections (ss_server s) (cn_name c) = None
             then 1 else 0)
        \<and> (cn_state c = CONNECTING \<longrightarrow> ts_connections (ss_server s) (cn_name c) = Some a)
        \<and> (cn_state c = DISCONNECTED \<longrightarrow> ts_connections (ss_server s) (cn_name c) = None)
        \<and> (\<forall>b k d. ss_conns s b = Some (k, d) \<and> a \<noteq> b \<longrightarrow> cn_name c \<noteq> cn_name d \<and> conn_fd c \<noteq> conn_fd d))
    \<and> (\<forall>n a. ts_connections (ss_server s) n = Some a \<longrightarrow> (\<exists>l c. ss_conns s a = Some (l, c) \<and> cn_name c = n))"
proof -
  have st: "server_state t s" using server.reachable_inv [OF assms] .
  have "(\<forall>e. ss_error s = Some e \<longrightarrow> e \<in> {AssertFail, InvalidRange, InvalidArgument, OutOfRange}
        \<and> (\<exists>a l c now rd. ss_conns s a = Some (l, c) \<and> cn_state c \<in> {CONNECTED, DISCONNECTING} \<and> rd \<noteq> Some []
            \<and> parser_fails now rd c e))"
    using st parser_fails_error unfolding server_state_def parser_errors_def by blast
  moreover have "server_inv t None (s\<lparr>ss_error := None\<rparr>)" using st by (simp add: server_state_def)
  note facts = lifecycle_facts [OF this]
  moreover have "ss_conns (s\<lparr>ss_error := None\<rparr>) = ss_conns s" "ss_server (s\<lparr>ss_error := None\<rparr>) = ss_server s"
      "ss_loops (s\<lparr>ss_error := None\<rparr>) = ss_loops s" "ss_fds (s\<lparr>ss_error := None\<rparr>) = ss_fds s"
    by simp_all
  note same = this
  ultimately show ?thesis using facts unfolding same by blast
qed


section \<open>Examples\<close>

definition demo_acceptor :: Acceptor where
  "demo_acceptor = \<lparr>ac_loop = 0, ac_listening = False, ac_listenSocket = Socket_new 3, ac_acceptorChannel = 9,
     ac_hasCallback = False\<rparr>"

definition demo_server_loop :: "server_task EventLoop" where
  "demo_server_loop = \<lparr>el_this = 0, el_threadId = 0, el_looping = False, el_quit = False,
     el_processingFunctors = False, el_pollReturnTime = Timestamp 0,
     el_poller = Poller_new 0 [9 \<mapsto> Channel_new 0 3 False], el_activeChannels = [], el_wakenfd = 0,
     el_unprocessedFunctors = []\<rparr>"

definition demo_server :: server_system where
  "demo_server = \<lparr>ss_server = TcpServer_new 0 0 ''srv'' 4 demo_acceptor, ss_loops = (\<lambda>_. demo_server_loop),
     ss_conns = Map.empty, ss_fds = {3}, ss_error = None\<rparr>"

lemma demo_starts:
  "\<exists>s. TcpServer_run 0 0 demo_server = Inr s \<and> server_start 0 s \<and> ts_newConnId (ss_server s) = 0
    \<and> ss_fds s = {3} \<and> po_objs (el_poller (main_loop s)) 1 = None"
proof -
  have "loop_ok 0 demo_server_loop"
    using poller_inv_new [of 0 "[9 \<mapsto> Channel_new 0 3 False]"]
    by (auto simp: loop_ok_def demo_server_loop_def) (simp add: Poller_new_def)
  from server_run_starts [OF this, of 0 demo_acceptor False "{3}" 0 "''srv''" 4] show ?thesis
    by (auto simp: demo_server_def demo_acceptor_def demo_server_loop_def Poller_new_def Socket_new_def)
qed

lemma demo_fds: "TcpServer_run 0 0 demo_server = Inr s \<Longrightarrow> length (po_fds (el_poller (main_loop s))) = 1"
  by (simp add: demo_server_def TcpServer_run_def TcpServer_new_def Acceptor_listen_def EventLoop_isInLoopThread_def
      EventLoop_assertInLoopThread_def Socket_listen_def sd_Listen_def Socket_new_def demo_server_loop_def
      demo_acceptor_def Channel_change_def EventLoop_updateChannel_def Poller_updateChannel_def Poller_addNew_def
      Poller_new_def Channel_new_def Channel_enableReading_def Channel_set_index_def set_loop_def Let_def to_int32_def
      READEVENT_def poll_defs) (elim subst, simp)

text \<open>A client connects and its functor runs.\<close>

theorem server_lifecycle_witness:
  "\<exists>s s1 s2 c. TcpServer_run 0 0 demo_server = Inr s \<and> Acceptor_incomingHandler 0 5 7 1 False s = Inr s1
    \<and> run_server_task 0 0 (EstablishTask 7) (pop_task [] s1) = Inr s2
    \<and> ss_conns s2 7 = Some (0, c) \<and> conn_fd c = 5 \<and> established c \<and> tasks (main_loop s2) (EstablishTask 7) = 0
    \<and> po_channels (el_poller (main_loop s2)) 5 = Some (cn_channel c) \<and> 5 \<in> ss_fds s2"
proof -
  let ?cb = "\<lambda>(_ :: HttpRequest) r :: HttpResponse. r"
  obtain s where s: "TcpServer_run 0 0 demo_server = Inr s" "server_start 0 s" "ts_newConnId (ss_server s) = 0"
      "ss_fds s = {3}" "po_objs (el_poller (main_loop s)) 1 = None"
    using demo_starts by blast
  have loop: "ts_loop (ss_server s) = 0"
    using s(1) by (auto simp: demo_server_def TcpServer_run_def TcpServer_new_def Acceptor_listen_def Let_def
        bind_result_eq_Inr set_loop_def split: if_splits)
  have fr: "fresh 7 1 5 s" using s by (simp add: fresh_def server_start_def)
  note inv = server_inv_start [OF s(2)]
  obtain s1 c1 where s1: "Acceptor_incomingHandler 0 5 7 1 False s = Inr s1" "accepted 0 7 1 5 False s c1 s1"
    using accept_accepted [OF inv fr] by fastforce
  note inv1 = accepted_inv [OF inv fr _ s1(2), simplified]
  have st1: "server_step ?cb 0 s s1"
    using step_accept [OF inv_no_error(1) [OF inv] fr, of ?cb 0 False] s1(1) by (simp add: after_def)
  have q: "el_unprocessedFunctors (main_loop s1) = EstablishTask 7 # []"
    using s1(2) s(2) by (simp add: accepted_def server_start_def)
  have room: "length (po_fds (el_poller (main_loop s1))) + 1 < 2 ^ 31"
    using demo_fds [OF s(1)] s1(2) by (simp add: accepted_def)
  obtain s2 where s2: "run_server_task 0 0 (EstablishTask 7) (pop_task [] s1) = Inr s2" "step_of 7 s1 s2"
      "\<exists>l c. ss_conns s2 7 = Some (l, c) \<and> established c"
    using queue_run [OF inv1 q room, of 0] by (auto simp: step_of_def)
  have st2: "server_step ?cb 0 s1 s2"
    using step_functor [OF inv_no_error(1) [OF inv1] q room, of ?cb 0 0] s2(1) by (simp add: after_def)
  have "reachable (server_start 0) (server_step ?cb 0) s" by (rule reachable_start) (rule s(2))
  then have "reachable (server_start 0) (server_step ?cb 0) s1" using st1 by (rule reachable_step)
  then have r: "reachable (server_start 0) (server_step ?cb 0) s2" using st2 by (rule reachable_step)
  obtain c where c: "ss_conns s2 7 = Some (0, c)" "conn_fd c = 5" "established c"
    using s2(2,3) s1(2) loop by (auto simp: step_of_def accepted_def TcpConnection_new_def)
  then have "cn_state c \<in> {CONNECTED, DISCONNECTING}" "cn_state c \<noteq> CONNECTING" by (auto simp: established_def)
  then have "tasks (main_loop s2) (EstablishTask 7) = 0" "po_channels (el_poller (main_loop s2)) 5 = Some (cn_channel c)"
      "5 \<in> ss_fds s2"
    using server_lifecycle [OF r, THEN conjunct2, THEN conjunct1, THEN spec, THEN spec, THEN spec, THEN mp, OF c(1)] c(2)
    by simp_all
  then show ?thesis using s(1) s1(1) s2(1) c by blast
qed

end
