(* ===== verification/Application.thy ===== *)
theory Application
  imports HttpServer Sio
begin

text \<open>
  \<^verbatim>\<open>application/hydrogenWeb.cpp\<close>: the web application behind the server. The file system, the clock,
  the database (SQLite) and the password hashing (BCrypt) are a record of functions that every
  operation takes as an argument. \<open>sqlite3_exec\<close> delivers rows of at least one column, each with the
  database at that moment, and stops when its callback does not return 0; a column may be \<open>NULL\<close>. The
  state of the database changes when it is opened, asked and closed. The path of the database is one
  of the arguments, too: \<^verbatim>\<open>include/config.h\<close> leaves it empty and asks the user to set it. Console output
  and logging are left out.
\<close>

section \<open>Services\<close>

text \<open>A file that \<open>open\<close> finds: \<open>mmap\<close> fails for the second kind, a directory for example.\<close>

datatype file_object = Mappable string | Unmappable nat

type_synonym row = "string option \<times> string option list"

record 'db services =
  sv_open :: "string \<Rightarrow> file_object option"
  sv_now :: Timestamp
  sv_databasePath :: string   \<comment> \<open>what \<open>databasePath\<close> has been set to\<close>
  sv_db_open :: "string \<Rightarrow> 'db \<Rightarrow> int \<times> 'db"
  sv_db_close :: "'db \<Rightarrow> 'db"
  sv_prepare :: "string \<Rightarrow> 'db \<Rightarrow> int"
  sv_step :: "string \<Rightarrow> 'db \<Rightarrow> int \<times> 'db"
  sv_exec :: "string \<Rightarrow> 'db \<Rightarrow> (row \<times> 'db) list \<times> int \<times> 'db"
  sv_validatePassword :: "string \<Rightarrow> string \<Rightarrow> bool"
  sv_generateHash :: "string \<Rightarrow> string"

abbreviation SQLITE_OK :: int where "SQLITE_OK \<equiv> 0"
abbreviation SQLITE_ABORT :: int where "SQLITE_ABORT \<equiv> 4"
abbreviation SQLITE_ROW :: int where "SQLITE_ROW \<equiv> 100"
abbreviation SQLITE_DONE :: int where "SQLITE_DONE \<equiv> 101"

definition htmlPath :: string where "htmlPath = ''''"

definition objectPath :: string where "objectPath = ''''"

text \<open>The path of the database as it is in the repository, to be set by the user.\<close>

definition databasePath :: string where "databasePath = ''''"

section \<open>Database access\<close>

definition openDb :: "'db services \<Rightarrow> string \<Rightarrow> 'db \<Rightarrow> int \<times> 'db" where
  "openDb sv dbPath db = sv_db_open sv (c_string dbPath) db"

text \<open>The callback acts on the data it is given, or ends in an error.\<close>

fun exec_rows ::
  "('d \<Rightarrow> row \<Rightarrow> (int \<times> 'd) result) \<Rightarrow> 'd \<Rightarrow> (row \<times> 'db) list \<Rightarrow> ('d \<times> 'db option) result" where
  "exec_rows callback data [] = Inr (data, None)"
| "exec_rows callback data ((r, db) # rows) =
     bind_result (callback data r) (\<lambda>(ret, data).
     if ret \<noteq> 0 then Inr (data, Some db) else exec_rows callback data rows)"

definition execSql ::
  "'db services \<Rightarrow> string \<Rightarrow> ('d \<Rightarrow> row \<Rightarrow> (int \<times> 'd) result) \<Rightarrow> 'd \<Rightarrow> 'db \<Rightarrow> (int \<times> 'd \<times> 'db) result" where
  "execSql sv sql callback data db =
     (let (rows, ret, db') = sv_exec sv (c_string sql) db in
      bind_result (exec_rows callback data rows) (\<lambda>(data, aborted).
      Inr (case aborted of
             Some db'' \<Rightarrow> (SQLITE_ABORT, data, db'')
           | None \<Rightarrow> (ret, data, db'))))"

definition doSql :: "'db services \<Rightarrow> string \<Rightarrow> 'db \<Rightarrow> int \<times> 'db" where
  "doSql sv sql db =
     (let ret = sv_prepare sv (c_string sql) db in
      if ret = SQLITE_OK then sv_step sv (c_string sql) db else (ret, db))"

section \<open>Responses\<close>

definition fillMimeType :: "(string \<rightharpoonup> string) \<Rightarrow> (string \<rightharpoonup> string)" where
  "fillMimeType m = m(
     ''.html'' \<mapsto> ''text/html'', ''.mp4'' \<mapsto> ''video/mpeg'', ''.png'' \<mapsto> ''image/png'',
     ''.jpg'' \<mapsto> ''image/jpeg'', ''.jpeg'' \<mapsto> ''image/jpeg'', ''.gif'' \<mapsto> ''image/gif'',
     ''.mp3'' \<mapsto> ''audio/mpeg'', ''default'' \<mapsto> ''text/html'')"

text \<open>\<open>main\<close> fills the table before the server runs; afterwards it does not change.\<close>

definition mimeTypes :: "string \<rightharpoonup> string" where
  "mimeTypes = fillMimeType (\<lambda>_. None)"

definition responseOK :: "HttpResponse \<Rightarrow> string \<Rightarrow> HttpResponse" where
  "responseOK resp contentType =
     (let resp = HttpResponse_setStatusCode resp OK200;
          resp = HttpResponse_setStatusMsg resp ''OK'';
          resp = HttpResponse_setContentType resp contentType
      in HttpResponse_addHeader resp ''Server'' ''HydrogenWeb'')"

definition response404 :: "HttpResponse \<Rightarrow> HttpResponse" where
  "response404 resp =
     (let resp = HttpResponse_setStatusCode resp NOTFOUND404;
          resp = HttpResponse_setStatusMsg resp ''Not Found'';
          resp = HttpResponse_setContentType resp '''';
          resp = HttpResponse_addHeader resp ''Server'' ''HydrogenWeb'';
          resp = HttpResponse_setCloseConnection resp True
      in HttpResponse_setBody resp ''404 NOTFOUND'')"

definition response500 :: "HttpResponse \<Rightarrow> HttpResponse" where
  "response500 resp =
     (let resp = HttpResponse_setStatusCode resp INTERNAL500;
          resp = HttpResponse_setStatusMsg resp ''Internal Server Error'';
          resp = HttpResponse_setContentType resp '''';
          resp = HttpResponse_addHeader resp ''Server'' ''HydrogenWeb'';
          resp = HttpResponse_setCloseConnection resp True
      in HttpResponse_setBody resp ''500 INTERNAL ERROR'')"

text \<open>
  A column that is \<open>NULL\<close> is a null pointer: neither the format \<open>%s\<close> nor a \<open>std::string\<close> can be made from it.
\<close>

definition column :: "string option \<Rightarrow> string result" where
  "column c = (case c of Some v \<Rightarrow> Inr v | None \<Rightarrow> Inl OutOfBounds)"

fun fill_columns :: "HttpResponse \<Rightarrow> string option list \<Rightarrow> HttpResponse result" where
  "fill_columns resp [] = Inr resp"
| "fill_columns resp (c # cs) =
     bind_result (column c) (\<lambda>v.
     fill_columns (HttpResponse_appendToBody resp (snprintf 256 (''<td>'' @ v @ ''</td>''))) cs)"

definition fillData :: "HttpResponse \<Rightarrow> row \<Rightarrow> (int \<times> HttpResponse) result" where
  "fillData resp r =
     bind_result (fill_columns (HttpResponse_appendToBody resp ''<tr>'') (fst r # snd r)) (\<lambda>resp.
     Inr (0, HttpResponse_appendToBody resp ''</tr>''))"

definition checkPassword :: "'db services \<Rightarrow> string \<Rightarrow> row \<Rightarrow> (int \<times> string) result" where
  "checkPassword sv pw r =
     bind_result (column (fst r)) (\<lambda>h.
     Inr (if sv_validatePassword sv pw h then (0, pw) else (- 1, pw)))"

section \<open>Files\<close>

text \<open>When \<open>mmap\<close> fails its result is no address: only an empty string can be built from it.\<close>

definition serveFile ::
  "'db services \<Rightarrow> string \<Rightarrow> HttpResponse \<Rightarrow> string \<Rightarrow> HttpResponse result" where
  "serveFile sv path resp mimeType =
     (case sv_open sv (c_string path) of
        None \<Rightarrow> Inr (response500 resp)
      | Some f \<Rightarrow>
          bind_result
            (case f of
               Mappable s \<Rightarrow> HttpResponse_setBody_range resp s 0 (length s)
             | Unmappable n \<Rightarrow> HttpResponse_setBody_range resp [] 0 n) (\<lambda>resp.
          Inr (responseOK resp mimeType)))"

definition serveStatic :: "'db services \<Rightarrow> string \<Rightarrow> HttpResponse \<Rightarrow> HttpResponse result" where
  "serveStatic sv path resp =
     (case find_char (CHR ''.'') path of
        None \<Rightarrow> Inl OutOfRange
      | Some i \<Rightarrow>
          (let suffix = take (size_sub (length path) 1) (drop i path);
               mimeType = (case mimeTypes suffix of
                   Some m \<Rightarrow> m
                 | None \<Rightarrow> (case mimeTypes ''default'' of Some m \<Rightarrow> m | None \<Rightarrow> ''''));
               filePath = (if mimeType = ''text/html'' then htmlPath @ path else objectPath @ path)
           in bind_result (serveFile sv filePath resp mimeType) (\<lambda>resp.
              Inr (HttpResponse_setCloseConnection resp True))))"

section \<open>Requests\<close>

abbreviation append_body :: "HttpResponse \<Rightarrow> string \<Rightarrow> HttpResponse" where
  "append_body \<equiv> HttpResponse_appendToBody"

text \<open>The branches of \<open>onRequest\<close>. \<open>/time\<close> counts days in integers, months and years in \<open>double\<close>.\<close>

definition time_months :: "int \<Rightarrow> int" where
  "time_months days = double_to_int64 (double_div (round53 (double_of_int days)) \<lparr>significand = 61, exponent = - 1\<rparr>)"

definition time_years :: "int \<Rightarrow> int" where
  "time_years days =
     double_to_int64 (double_div (double_div (round53 (double_of_int days)) \<lparr>significand = 61, exponent = - 1\<rparr>)
       (double_of_int 12))"

definition request_time :: "'db services \<Rightarrow> HttpResponse \<Rightarrow> HttpResponse" where
  "request_time sv resp =
     (let resp = responseOK resp ''text/html'';
          now = sv_now sv;
          days = Timestamp_toSec now sdiv (60 * 60 * 24);
          resp = HttpResponse_setBody resp ''<html><head><title>Welcome!</title></head>'';
          resp = append_body resp ''<body><h1>Long time no see!</h1>'';
          resp = append_body resp (''<p>Now is '' @ Timestamp_toString now @
                   '' seconds from 1970/00/00 00:00:00'' @ ''</p>'');
          resp = append_body resp (''<p>'' @ fmt_d days @ '' days</p>'');
          resp = append_body resp (''<p>about '' @ fmt_d (time_months days) @ '' months</p>'');
          resp = append_body resp (''<p>about '' @ fmt_d (time_years days) @ '' years</p>'');
          resp = append_body resp ''</html>''
      in HttpResponse_setCloseConnection resp True)"

definition request_booklist :: "'db services \<Rightarrow> HttpResponse \<Rightarrow> 'db \<Rightarrow> (HttpResponse \<times> 'db) result" where
  "request_booklist sv resp db =
     (let resp = responseOK resp ''text/html'';
          resp = HttpResponse_setBody resp ''<html><head><title>Book list!!</title></head>'';
          resp = append_body resp ''<table border=\"1\">''
      in case openDb sv (sv_databasePath sv) db of (ret, db) \<Rightarrow>
           if ret \<noteq> 0 then Inr (response500 resp, db)
           else
             bind_result (execSql sv ''SELECT * from booklist'' fillData resp db) (\<lambda>(ret, resp, db).
             if ret \<noteq> SQLITE_OK then Inr (response500 resp, db)
             else
               (let resp = append_body resp ''</table>'';
                    resp = append_body resp ''</html>''
                in Inr (HttpResponse_setCloseConnection resp True, sv_db_close sv db))))"

definition select_user :: "string \<Rightarrow> string" where
  "select_user username = ''SELECT * from users WHERE username='' @ [CHR 0x27] @ username @ [CHR 0x27]"

definition insert_user :: "string \<Rightarrow> string \<Rightarrow> string" where
  "insert_user username hash =
     ''INSERT INTO users (username, password) '' @ ''VALUES ('' @ [CHR 0x27] @ username
     @ [CHR 0x27] @ '', '' @ [CHR 0x27] @ hash @ [CHR 0x27] @ '')''"

definition select_password :: "string \<Rightarrow> string" where
  "select_password username =
     ''SELECT password from users WHERE username='' @ [CHR 0x27] @ username @ [CHR 0x27]"

definition with_db :: "'db \<Rightarrow> HttpResponse result \<Rightarrow> (HttpResponse \<times> 'db) result" where
  "with_db db r = bind_result r (\<lambda>resp. Inr (resp, db))"

definition request_signup ::
  "'db services \<Rightarrow> HttpRequest \<Rightarrow> HttpResponse \<Rightarrow> 'db \<Rightarrow> (HttpResponse \<times> 'db) result" where
  "request_signup sv req resp db =
     (case openDb sv (sv_databasePath sv) db of (ret, db) \<Rightarrow>
      if ret \<noteq> SQLITE_OK then Inr (response500 resp, db)
      else
        (case doSql sv (select_user (HttpRequest_getBody req ''username'')) db of
           (ret, db) \<Rightarrow>
             bind_result
               (if ret = SQLITE_DONE then
                  bind_result
                    (execSql sv (insert_user (HttpRequest_getBody req ''username'')
                          (sv_generateHash sv (HttpRequest_getBody req ''password'')))
                       (\<lambda>data r. Inr (0, data)) () db) (\<lambda>(ret, data, db).
                  if ret \<noteq> SQLITE_OK then Inr (resp, db)
                  else with_db db (serveStatic sv ''/signin.html'' resp))
                else if ret = SQLITE_ROW then
                  with_db db (serveStatic sv (req_path req @ ''_error.html'') resp)
                else Inr (resp, db)) (\<lambda>(resp, db).
             Inr (resp, sv_db_close sv db))))"

definition request_signin ::
  "'db services \<Rightarrow> HttpRequest \<Rightarrow> HttpResponse \<Rightarrow> 'db \<Rightarrow> (HttpResponse \<times> 'db) result" where
  "request_signin sv req resp db =
     (case openDb sv (sv_databasePath sv) db of (ret, db) \<Rightarrow>
      if ret \<noteq> SQLITE_OK then Inr (response500 resp, db)
      else
        (case doSql sv (select_user (HttpRequest_getBody req ''username'')) db of
           (ret, db) \<Rightarrow>
             bind_result
               (if ret = SQLITE_DONE then
                  with_db db (serveStatic sv (req_path req @ ''_error.html'') resp)
                else if ret = SQLITE_ROW then
                  bind_result
                    (execSql sv (select_password (HttpRequest_getBody req ''username''))
                       (checkPassword sv) (HttpRequest_getBody req ''password'') db) (\<lambda>(ret, data, db).
                  if ret \<noteq> SQLITE_OK then
                    with_db db (serveStatic sv (req_path req @ ''_error.html'') resp)
                  else with_db db (serveStatic sv ''/selection.html'' resp))
                else Inr (resp, db)) (\<lambda>(resp, db).
             Inr (resp, sv_db_close sv db))))"

definition onRequest ::
  "'db services \<Rightarrow> HttpRequest \<Rightarrow> HttpResponse \<Rightarrow> 'db \<Rightarrow> (HttpResponse \<times> 'db) result" where
  "onRequest sv req resp db =
     (let path = req_path req in
      if path = ''/'' \<or> find_char (CHR ''.'') path \<noteq> None then
        if path = ''/'' \<or> path = '''' then with_db db (serveStatic sv ''/home.html'' resp)
        else with_db db (serveStatic sv path resp)
      else if path = ''/time'' then Inr (request_time sv resp, db)
      else if path = ''/booklist'' then request_booklist sv resp db
      else if path = ''/signup'' then request_signup sv req resp db
      else if path = ''/signin'' then request_signin sv req resp db
      else Inr (response404 resp, db))"

text \<open>The command line of \<open>main\<close>: port and number of threads; \<open>None\<close> for the usage message.\<close>

definition main_args :: "string list \<Rightarrow> (int \<times> int) option result" where
  "main_args argv =
     (if length argv < 2 then Inr None
      else if length argv = 3 then
        bind_result (stoi (argv ! 1)) (\<lambda>port.
        bind_result (stoi (argv ! 2)) (\<lambda>numThreads. Inr (Some (port, numThreads))))
      else if length argv = 2 then
        bind_result (stoi (argv ! 1)) (\<lambda>port. Inr (Some (port, 0)))
      else Inr None)"

section \<open>Static pages\<close>

text \<open>The response that serves a file, and the content type of a path.\<close>

definition page :: "HttpResponse \<Rightarrow> string \<Rightarrow> string \<Rightarrow> HttpResponse" where
  "page resp contentType body =
     resp\<lparr>resp_headers := map_assign ''Server'' ''HydrogenWeb''
            (map_assign ''Content-Type'' contentType (resp_headers resp)),
          resp_statusCode := OK200, resp_statusMsg := ''OK'', resp_closeConnection := True,
          resp_body := body\<rparr>"

definition content_type :: "string \<Rightarrow> string" where
  "content_type path =
     (let suffix = dropWhile (\<lambda>c. c \<noteq> CHR ''.'') path in
      if suffix = ''.mp4'' then ''video/mpeg'' else if suffix = ''.png'' then ''image/png''
      else if suffix = ''.jpg'' \<or> suffix = ''.jpeg'' then ''image/jpeg''
      else if suffix = ''.gif'' then ''image/gif'' else if suffix = ''.mp3'' then ''audio/mpeg''
      else ''text/html'')"

lemmas response_setters = HttpResponse_setStatusCode_def HttpResponse_setStatusMsg_def
  HttpResponse_setContentType_def HttpResponse_addHeader_def HttpResponse_setCloseConnection_def
  HttpResponse_setBody_def HttpResponse_appendToBody_def

lemma mimeTypes_lookup:
  "(case mimeTypes suffix of Some m \<Rightarrow> m
    | None \<Rightarrow> (case mimeTypes ''default'' of Some m \<Rightarrow> m | None \<Rightarrow> '''')) =
   (if suffix = ''.mp4'' then ''video/mpeg'' else if suffix = ''.png'' then ''image/png''
    else if suffix = ''.jpg'' \<or> suffix = ''.jpeg'' then ''image/jpeg''
    else if suffix = ''.gif'' then ''image/gif'' else if suffix = ''.mp3'' then ''audio/mpeg''
    else ''text/html'')"
  by (auto simp: mimeTypes_def fillMimeType_def)

lemma find_char_dropWhile: "find_char c xs = Some i \<Longrightarrow> drop i xs = dropWhile (\<lambda>d. d \<noteq> c) xs"
proof -
  assume "find_char c xs = Some i"
  then have "i = length (takeWhile (\<lambda>d. d \<noteq> c) xs)" by (auto simp: find_char_def Let_def split: if_splits)
  then show ?thesis by (simp add: dropWhile_eq_drop)
qed

text \<open>A path of fewer than \<open>2 ^ 64\<close> bytes that begins with a slash keeps its whole suffix.\<close>

lemma serveStatic_exact:
  assumes "path = CHR ''/'' # rest" "CHR ''.'' \<in> set rest" "length path < 2 ^ 64"
  shows "serveStatic sv path resp =
    (case sv_open sv (c_string path) of
       None \<Rightarrow> Inr (response500 resp)
     | Some (Mappable s) \<Rightarrow> Inr (page resp (content_type path) s)
     | Some (Unmappable n) \<Rightarrow>
         if n = 0 then Inr (page resp (content_type path) []) else Inl OutOfBounds)"
proof -
  have "find_char (CHR ''.'') path \<noteq> None" using assms(1,2) by (simp add: find_char_None)
  then obtain i where i: "find_char (CHR ''.'') path = Some i" by auto
  then have drop: "drop i path = dropWhile (\<lambda>c. c \<noteq> CHR ''.'') path" by (rule find_char_dropWhile)
  also have "\<dots> = dropWhile (\<lambda>c. c \<noteq> CHR ''.'') rest" using assms(1) by simp
  finally have "length (drop i path) \<le> length rest" using length_dropWhile_le by metis
  moreover have "size_sub (length path) 1 = length rest" using assms(1,3) by (simp add: size_sub_small)
  ultimately have suffix: "take (size_sub (length path) 1) (drop i path) = dropWhile (\<lambda>c. c \<noteq> CHR ''.'') path"
    using drop by simp
  have close: "response500 r\<lparr>resp_closeConnection := True\<rparr> = response500 r" for r
    by (simp add: response500_def response_setters Let_def)
  show ?thesis
    unfolding serveStatic_def i option.case Let_def suffix mimeTypes_lookup
    by (auto simp: content_type_def Let_def htmlPath_def objectPath_def serveFile_def responseOK_def
        response_setters HttpResponse_setBody_range_def range_string_def Prelude.slice_def page_def close
        split: option.splits file_object.splits)
qed

text \<open>
  C20. A request for \<open>/\<close>, or for a path that begins with a slash and contains a dot, is answered from
  the file of exactly that name: with status 200, the bytes of the file, the content type of the
  text behind the first dot and the connection closing; with status 500 when the file cannot be
  opened. An object that can be opened but not mapped, such as a directory, is read through an
  invalid address. The database is not touched.
\<close>

theorem static_request_exact:
  assumes "req_path req = ''/'' \<and> path = ''/home.html''
      \<or> req_path req = path \<and> path = CHR ''/'' # rest \<and> CHR ''.'' \<in> set rest \<and> length path < 2 ^ 64"
  shows "onRequest sv req resp db =
    (case sv_open sv (c_string path) of
       None \<Rightarrow> Inr (response500 resp, db)
     | Some (Mappable s) \<Rightarrow> Inr (page resp (content_type path) s, db)
     | Some (Unmappable n) \<Rightarrow>
         if n = 0 then Inr (page resp (content_type path) [], db) else Inl OutOfBounds)"
proof -
  have "onRequest sv req resp db = with_db db (serveStatic sv path resp)"
    using assms by (auto simp: onRequest_def Let_def find_char_None)
  moreover have "serveStatic sv path resp =
    (case sv_open sv (c_string path) of
       None \<Rightarrow> Inr (response500 resp)
     | Some (Mappable s) \<Rightarrow> Inr (page resp (content_type path) s)
     | Some (Unmappable n) \<Rightarrow>
         if n = 0 then Inr (page resp (content_type path) []) else Inl OutOfBounds)"
    using assms serveStatic_exact [of path rest sv resp]
      serveStatic_exact [of "''/home.html''" "''home.html''" sv resp] by auto
  ultimately show ?thesis
    by (simp add: with_db_def split: option.splits file_object.splits)
qed

section \<open>Users\<close>

text \<open>
  What the application relies on of the database, for names without quotes: \<open>users\<close> reads the table
  of names and hashes out of a database, opening and closing it leave it as it is (SQLite promises this
  for a path that names a file; the empty path of the repository means a temporary database that is
  deleted when it is closed), and the three statements select and insert in it.
\<close>

definition plain :: "string \<Rightarrow> bool" where
  "plain s \<longleftrightarrow> CHR 0x27 \<notin> set s \<and> NUL \<notin> set s"

definition user_db :: "'db services \<Rightarrow> ('db \<Rightarrow> string \<rightharpoonup> string) \<Rightarrow> bool" where
  "user_db sv users \<longleftrightarrow>
     NUL \<notin> set (sv_databasePath sv)
     \<and> (\<forall>db. sv_db_open sv (sv_databasePath sv) db = (SQLITE_OK, db) \<and> sv_db_close sv db = db)
     \<and> (\<forall>db u. plain u \<longrightarrow>
          sv_prepare sv (select_user u) db = SQLITE_OK
          \<and> sv_step sv (select_user u) db = (if users db u = None then SQLITE_DONE else SQLITE_ROW, db)
          \<and> sv_exec sv (select_password u) db =
              (case users db u of None \<Rightarrow> [] | Some h \<Rightarrow> [((Some h, []), db)], SQLITE_OK, db))
     \<and> (\<forall>db u h. plain u \<longrightarrow> plain h \<longrightarrow> users db u = None \<longrightarrow>
          (\<exists>db'. sv_exec sv (insert_user u h) db = ([], SQLITE_OK, db')
             \<and> users db' = (users db)(u \<mapsto> h)))"

lemma c_string_id: "NUL \<notin> set s \<Longrightarrow> c_string s = s"
  by (auto simp: c_string_def takeWhile_eq_all_conv)

lemma plain_statements:
  "plain u \<Longrightarrow> c_string (select_user u) = select_user u"
  "plain u \<Longrightarrow> c_string (select_password u) = select_password u"
  "plain u \<Longrightarrow> plain h \<Longrightarrow> c_string (insert_user u h) = insert_user u h"
  "user_db sv users \<Longrightarrow> openDb sv (sv_databasePath sv) db = (SQLITE_OK, db)"
  by (auto simp: plain_def select_user_def select_password_def insert_user_def openDb_def user_db_def
      c_string_id)

lemma with_db_bind [simp]:
  "bind_result (with_db db r) (\<lambda>(resp, db). Inr (resp, f db)) = with_db (f db) r"
  by (cases r) (simp_all add: with_db_def)

lemma bind_result_return [simp]: "bind_result r Inr = r"
  by (cases r) simp_all

lemma user_db_steps:
  assumes "user_db sv users" "plain u"
  shows "sv_db_close sv db = db"
    "doSql sv (select_user u) db = (if users db u = None then SQLITE_DONE else SQLITE_ROW, db)"
    "execSql sv (select_password u) (checkPassword sv) pw db =
      (case users db u of
         None \<Rightarrow> Inr (SQLITE_OK, pw, db)
       | Some h \<Rightarrow> Inr (if sv_validatePassword sv pw h then SQLITE_OK else SQLITE_ABORT, pw, db))"
  using assms
  by (auto simp: user_db_def plain_statements doSql_def execSql_def checkPassword_def column_def Let_def
      split: option.splits)

lemma signin_outcome:
  assumes "user_db sv users" "plain (HttpRequest_getBody req ''username'')" "req_path req = ''/signin''"
  shows "onRequest sv req resp db = with_db db (serveStatic sv
    (case users db (HttpRequest_getBody req ''username'') of
       Some h \<Rightarrow> if sv_validatePassword sv (HttpRequest_getBody req ''password'') h
                 then ''/selection.html'' else ''/signin_error.html''
     | None \<Rightarrow> ''/signin_error.html'') resp)"
proof -
  note steps = user_db_steps [OF assms(1,2)] plain_statements(4) [OF assms(1)]
  show ?thesis using assms(3)
    by (cases "users db (HttpRequest_getBody req ''username'')")
      (simp_all add: onRequest_def find_char_def request_signin_def steps)
qed

lemma signup_outcome:
  assumes "user_db sv users" "plain (HttpRequest_getBody req ''username'')"
    "plain (sv_generateHash sv (HttpRequest_getBody req ''password''))" "req_path req = ''/signup''"
  shows "\<exists>db'. onRequest sv req resp db = with_db db' (serveStatic sv
      (if users db (HttpRequest_getBody req ''username'') = None
       then ''/signin.html'' else ''/signup_error.html'') resp)
    \<and> users db' = (if users db (HttpRequest_getBody req ''username'') = None
        then (users db)(HttpRequest_getBody req ''username''
               \<mapsto> sv_generateHash sv (HttpRequest_getBody req ''password''))
        else users db)"
proof (cases "users db (HttpRequest_getBody req ''username'')")
  case (Some h)
  then show ?thesis using assms
    by (intro exI [of _ db])
      (simp add: onRequest_def find_char_def request_signup_def user_db_steps plain_statements(4))
next
  case None
  then obtain db' where ins: "sv_exec sv (insert_user (HttpRequest_getBody req ''username'')
        (sv_generateHash sv (HttpRequest_getBody req ''password''))) db = ([], SQLITE_OK, db')"
      "users db' = (users db)(HttpRequest_getBody req ''username''
         \<mapsto> sv_generateHash sv (HttpRequest_getBody req ''password''))"
    using assms(1-3) unfolding user_db_def by meson
  with None show ?thesis using assms
    by (intro exI [of _ db'])
      (simp add: onRequest_def find_char_def request_signup_def user_db_steps plain_statements execSql_def)
qed

text \<open>
  C21. Signing in with a name without quotes serves the page \<open>/selection.html\<close> exactly when the
  database has the name with a hash that the password matches, and \<open>/signin_error.html\<close> otherwise;
  the database stays as it is. The hypothesis states how the database answers the statements.
\<close>

theorem signin_exact:
  assumes "user_db sv users" "plain (HttpRequest_getBody req ''username'')" "req_path req = ''/signin''"
    and "sv_open sv ''/selection.html'' = Some (Mappable welcome)"
    and "sv_open sv ''/signin_error.html'' = Some (Mappable denied)"
  shows "onRequest sv req resp db = Inr (page resp ''text/html''
    (if \<exists>h. users db (HttpRequest_getBody req ''username'') = Some h
          \<and> sv_validatePassword sv (HttpRequest_getBody req ''password'') h
     then welcome else denied), db)"
proof -
  have sel: "serveStatic sv ''/selection.html'' resp = Inr (page resp ''text/html'' welcome)"
    using assms(4) serveStatic_exact [of "''/selection.html''" "''selection.html''" sv resp]
    by (simp add: c_string_def content_type_def)
  have err: "serveStatic sv ''/signin_error.html'' resp = Inr (page resp ''text/html'' denied)"
    using assms(5) serveStatic_exact [of "''/signin_error.html''" "''signin_error.html''" sv resp]
    by (simp add: c_string_def content_type_def)
  show ?thesis
    using signin_outcome [OF assms(1-3), of resp db] sel err
    by (auto simp: with_db_def split: option.splits)
qed

text \<open>
  C22. Signing up and signing in fit together: when a name without quotes is free, signing up with a
  password stores its hash under the name and serves the sign-in page, and signing in with the same name
  and password afterwards serves the selection page. The hypotheses are the behaviour of the database,
  which keeps its rows when it is closed and opened again (so \<open>databasePath\<close> has to be set to a file), and
  that BCrypt accepts the hash it generated, which has no quotes.
\<close>

theorem signup_then_signin:
  assumes "user_db sv users" "\<And>pw. sv_validatePassword sv pw (sv_generateHash sv pw)"
    and "\<And>pw. plain (sv_generateHash sv pw)"
    and "plain u" "users db u = None"
    and "req_path up = ''/signup''" "HttpRequest_getBody up ''username'' = u"
      "HttpRequest_getBody up ''password'' = pw"
    and "req_path inn = ''/signin''" "HttpRequest_getBody inn ''username'' = u"
      "HttpRequest_getBody inn ''password'' = pw"
    and "sv_open sv ''/signin.html'' = Some (Mappable form)"
      "sv_open sv ''/selection.html'' = Some (Mappable welcome)"
  shows "\<exists>db'. onRequest sv up resp db = Inr (page resp ''text/html'' form, db')
    \<and> users db' = (users db)(u \<mapsto> sv_generateHash sv pw)
    \<and> onRequest sv inn resp' db' = Inr (page resp' ''text/html'' welcome, db')"
proof -
  obtain db' where db': "onRequest sv up resp db = with_db db' (serveStatic sv ''/signin.html'' resp)"
      "users db' = (users db)(u \<mapsto> sv_generateHash sv pw)"
    using signup_outcome [of sv users up resp db] assms by auto
  have "serveStatic sv ''/signin.html'' resp = Inr (page resp ''text/html'' form)"
    using assms(12) serveStatic_exact [of "''/signin.html''" "''signin.html''" sv resp]
    by (simp add: c_string_def content_type_def)
  moreover have "serveStatic sv ''/selection.html'' resp' = Inr (page resp' ''text/html'' welcome)"
    using assms(13) serveStatic_exact [of "''/selection.html''" "''selection.html''" sv resp']
    by (simp add: c_string_def content_type_def)
  moreover have "onRequest sv inn resp' db' = with_db db' (serveStatic sv ''/selection.html'' resp')"
    using signin_outcome [of sv users inn resp' db'] assms db'(2) by simp
  ultimately show ?thesis using db' by (auto simp: with_db_def)
qed

text \<open>
  With the path as it is in the repository, opening gives an empty temporary database, in which the
  statement about the users cannot be prepared. Signing up and signing in then leave the response as it
  is, without a status line, a body or a content type.
\<close>

lemma database_not_configured:
  assumes "sv_databasePath sv = databasePath" and "sv_db_open sv databasePath db = (SQLITE_OK, empty)"
    and "\<And>sql. sv_prepare sv sql empty \<notin> {SQLITE_OK, SQLITE_ROW, SQLITE_DONE}"
    and "req_path req = ''/signup'' \<or> req_path req = ''/signin''"
  shows "onRequest sv req resp db = Inr (resp, sv_db_close sv empty)"
proof -
  have "openDb sv databasePath db = (SQLITE_OK, empty)"
    using assms(2) by (simp add: openDb_def databasePath_def c_string_def)
  then show ?thesis
    using assms(3) [of "c_string (select_user (HttpRequest_getBody req ''username''))"] assms(1,4)
    by (auto simp: onRequest_def find_char_def request_signup_def request_signin_def doSql_def)
qed

section \<open>A concrete environment\<close>

text \<open>Tables as association lists; the statements are taken apart at their quotes.\<close>

definition insert_prefix :: string where
  "insert_prefix = ''INSERT INTO users (username, password) VALUES ('' @ [CHR 0x27]"

definition select_prefix :: string where
  "select_prefix = ''SELECT password from users WHERE username='' @ [CHR 0x27]"

definition up_to_quote :: "string \<Rightarrow> string" where
  "up_to_quote s = takeWhile (\<lambda>c. c \<noteq> CHR 0x27) s"

definition demo_services :: "(string \<times> string) list services" where
  "demo_services =
     \<lparr>sv_open = map_of [(''/signin.html'', Mappable ''form''), (''/selection.html'', Mappable ''hello''),
        (''/signin_error.html'', Mappable ''no''), (''/logo.png'', Mappable ''PNG''), (''/.'', Unmappable 4096)],
      sv_now = Timestamp 0, sv_databasePath = ''users.db'', sv_db_open = (\<lambda>_ db. (0, db)), sv_db_close = id,
      sv_prepare = (\<lambda>_ _. 0),
      sv_step = (\<lambda>sql db. (if \<exists>(u, h) \<in> set db. sql = select_user u then SQLITE_ROW else SQLITE_DONE, db)),
      sv_exec = (\<lambda>sql db.
        if take (length insert_prefix) sql = insert_prefix then
          (let u = up_to_quote (drop (length insert_prefix) sql);
               h = up_to_quote (drop (length insert_prefix + length u + 4) sql)
           in ([], 0, (u, h) # db))
        else (case map_of db (up_to_quote (drop (length select_prefix) sql)) of
                None \<Rightarrow> [] | Some h \<Rightarrow> [((Some h, []), db)], 0, db)),
      sv_validatePassword = (\<lambda>pw h. length h = length pw),
      sv_generateHash = (\<lambda>pw. replicate (length pw) (CHR ''x''))\<rparr>"

lemma up_to_quote_plain: "plain u \<Longrightarrow> up_to_quote (u @ CHR 0x27 # rest) = u"
  unfolding up_to_quote_def plain_def by (subst takeWhile_append2) auto

lemma insert_user_parts:
  "insert_user u h = insert_prefix @ u @ CHR 0x27 # '', '' @ CHR 0x27 # h @ CHR 0x27 # '')''"
  by (simp add: insert_user_def insert_prefix_def)

lemma select_password_parts: "select_password u = select_prefix @ u @ CHR 0x27 # []"
  by (simp add: select_password_def select_prefix_def)

lemma demo_insert:
  assumes "plain u" "plain h"
  shows "sv_exec demo_services (insert_user u h) db = ([], 0, (u, h) # db)"
proof -
  have "drop (length insert_prefix + length u + 4) (insert_user u h) = h @ CHR 0x27 # '')''"
    unfolding insert_user_parts by (simp add: eval_nat_numeral)
  moreover have "drop (length insert_prefix) (insert_user u h)
      = u @ CHR 0x27 # '', '' @ CHR 0x27 # h @ CHR 0x27 # '')''"
    unfolding insert_user_parts by simp
  moreover have "take (length insert_prefix) (insert_user u h) = insert_prefix"
    unfolding insert_user_parts by simp
  ultimately show ?thesis using assms
    by (simp add: demo_services_def Let_def up_to_quote_plain)
qed

lemma demo_select:
  assumes "plain u"
  shows "sv_exec demo_services (select_password u) db
    = (case map_of db u of None \<Rightarrow> [] | Some h \<Rightarrow> [((Some h, []), db)], 0, db)"
proof -
  have "take (length insert_prefix) (select_password u) \<noteq> insert_prefix"
    by (simp add: insert_prefix_def select_password_def)
  moreover have "drop (length select_prefix) (select_password u) = u @ CHR 0x27 # []"
    unfolding select_password_parts by simp
  ultimately show ?thesis using assms by (simp add: demo_services_def up_to_quote_plain)
qed

lemma demo_user_db: "user_db demo_services map_of"
proof -
  have step: "sv_step demo_services (select_user u) db
      = (if map_of db u = None then SQLITE_DONE else SQLITE_ROW, db)" for u db
    by (force simp: demo_services_def select_user_def map_of_eq_None_iff image_iff)
  have "sv_db_open demo_services p db = (0, db)" "sv_db_close demo_services db = db"
      "sv_prepare demo_services s db = 0" "NUL \<notin> set (sv_databasePath demo_services)" for p s db
    by (simp_all add: demo_services_def)
  then show ?thesis
    unfolding user_db_def using step demo_insert demo_select by auto
qed

definition demo_form :: "string \<Rightarrow> string \<Rightarrow> string \<Rightarrow> HttpRequest" where
  "demo_form path u pw =
     HttpRequest_new\<lparr>req_path := path, req_headers := [(''password'', pw), (''username'', u)]\<rparr>"

lemma demo_form_simps:
  "req_path (demo_form path u pw) = path" "HttpRequest_getBody (demo_form path u pw) ''username'' = u"
  "HttpRequest_getBody (demo_form path u pw) ''password'' = pw"
  by (simp_all add: demo_form_def HttpRequest_getBody_def map_lookup_def)

lemma demo_pages:
  "sv_open demo_services ''/signin.html'' = Some (Mappable ''form'')"
  "sv_open demo_services ''/selection.html'' = Some (Mappable ''hello'')"
  "sv_open demo_services ''/signin_error.html'' = Some (Mappable ''no'')"
  by (simp_all add: demo_services_def)

theorem static_request_exact_witness:
  "onRequest demo_services (demo_form ''/logo.png'' '''' '''') (HttpResponse_new False) []
     = Inr (page (HttpResponse_new False) ''image/png'' ''PNG'', [])
   \<and> onRequest demo_services (demo_form ''/.'' '''' '''') (HttpResponse_new False) [] = Inl OutOfBounds"
  using static_request_exact [of "demo_form ''/logo.png'' '''' ''''" "''/logo.png''" "''logo.png''" demo_services "HttpResponse_new False" "[]"]
    static_request_exact [of "demo_form ''/.'' '''' ''''" "''/.''" "''.''" demo_services "HttpResponse_new False" "[]"]
  by (simp add: demo_form_simps demo_services_def c_string_def content_type_def)

theorem signin_exact_witness:
  "onRequest demo_services (demo_form ''/signin'' ''ann'' ''pw'') (HttpResponse_new False) [(''ann'', ''xx'')]
     = Inr (page (HttpResponse_new False) ''text/html'' ''hello'', [(''ann'', ''xx'')])
   \<and> onRequest demo_services (demo_form ''/signin'' ''ann'' ''p'') (HttpResponse_new False) [(''ann'', ''xx'')]
     = Inr (page (HttpResponse_new False) ''text/html'' ''no'', [(''ann'', ''xx'')])"
proof -
  have "plain ''ann''" by (simp add: plain_def)
  then show ?thesis
    using signin_exact [OF demo_user_db, of "demo_form ''/signin'' ''ann'' ''pw''" "''hello''" "''no''"]
      signin_exact [OF demo_user_db, of "demo_form ''/signin'' ''ann'' ''p''" "''hello''" "''no''"]
    by (simp add: demo_form_simps demo_pages) (simp add: demo_services_def)
qed

theorem signup_then_signin_witness:
  "\<exists>db. onRequest demo_services (demo_form ''/signup'' ''ann'' ''pw'') (HttpResponse_new False) []
      = Inr (page (HttpResponse_new False) ''text/html'' ''form'', db)
    \<and> onRequest demo_services (demo_form ''/signin'' ''ann'' ''pw'') (HttpResponse_new True) db
      = Inr (page (HttpResponse_new True) ''text/html'' ''hello'', db)"
proof -
  have v: "sv_validatePassword demo_services pw (sv_generateHash demo_services pw)"
    and h: "plain (sv_generateHash demo_services pw)" for pw
    by (simp_all add: demo_services_def plain_def)
  have "plain ''ann''" "map_of [] ''ann'' = None" by (simp_all add: plain_def)
  from signup_then_signin [OF demo_user_db v h this demo_form_simps(1-3) demo_form_simps(1-3) demo_pages(1,2)]
  show ?thesis by blast
qed

end
