(* ===== verification/ServerRun.thy ===== *)
theory ServerRun
  imports ServerSteps
begin

text \<open>
  The event loop of the whole server: \<^verbatim>\<open>EventLoop::loop\<close> with the channels of the timer queue, of the
  eventfd, of the acceptor and of the connections, and with the functors of the server. An iteration is
  \<open>loop_iteration\<close> on the server's state; at its end the executed functors are destroyed, and with the
  functor of a destroyed connection the connection goes.
\<close>

section \<open>The program\<close>

text \<open>What a channel's callbacks are bound to.\<close>

datatype target = TimerTarget | WakenTarget | AcceptorTarget | ConnTarget nat

text \<open>
  What the handlers of one event get: the answers of \<open>accept\<close>, \<open>read\<close> and \<open>write\<close>, the addresses and the
  uninitialised member of a new connection, the answers of \<open>write\<close> to what the message callback sends and
  the address of its local buffer, and two clock readings.
\<close>

record event_answers =
  ev_accept :: int
  ev_addr :: nat
  ev_channel :: nat
  ev_garbage :: bool
  ev_read :: "string option"
  ev_write :: "nat \<Rightarrow> nat option"
  ev_sends :: "nat option \<times> nat option"
  ev_local :: nat
  ev_clock :: "Timestamp \<times> Timestamp"

record server_run =
  sr_sys :: server_system
  sr_target :: "nat \<rightharpoonup> target"
  sr_timers :: TimerQueue
  sr_httpCallback :: "HttpRequest \<Rightarrow> HttpResponse \<Rightarrow> HttpResponse"
  sr_events :: nat                     \<comment> \<open>number of events so far\<close>
  sr_finished :: "server_task list"    \<comment> \<open>functors executed in this iteration\<close>

definition main_channel :: "nat \<Rightarrow> server_run \<Rightarrow> Channel" where
  "main_channel ch w =
     (case po_objs (el_poller (main_loop (sr_sys w))) ch of None \<Rightarrow> Channel_new 0 0 False | Some x \<Rightarrow> x)"

definition set_main_loop :: "server_task EventLoop \<Rightarrow> server_run \<Rightarrow> server_run" where
  "set_main_loop l w = w\<lparr>sr_sys := set_loop (ts_loop (ss_server (sr_sys w))) l (sr_sys w)\<rparr>"

definition set_main_channel :: "nat \<Rightarrow> (Channel \<Rightarrow> Channel) \<Rightarrow> server_run \<Rightarrow> server_run" where
  "set_main_channel ch f w =
     (let l = main_loop (sr_sys w) in
      set_main_loop (l\<lparr>el_poller := (el_poller l)
        \<lparr>po_objs := (po_objs (el_poller l))(ch \<mapsto> f (main_channel ch w))\<rparr>\<rparr>) w)"

text \<open>The callbacks of the loop's own channels. The server gives no timers to the queue.\<close>

definition timer_callbacks :: "event_answers \<Rightarrow> nat \<Rightarrow> server_run callbacks" where
  "timer_callbacks a me =
     \<lparr>cb_read = Some (\<lambda>_ w.
        bind_result (TimerQueue_timerHandler me (fst (ev_clock a)) (snd (ev_clock a)) (\<lambda>_. Inr) ((), sr_timers w))
          (\<lambda>(_, q). Inr (w\<lparr>sr_timers := q\<rparr>))),
      cb_write = None, cb_error = None, cb_close = None\<rparr>"

definition waken_callbacks :: "server_run callbacks" where
  "waken_callbacks =
     \<lparr>cb_read = Some (\<lambda>_ w. Inr (set_main_loop (EventLoop_readFd (main_loop (sr_sys w))) w)),
      cb_write = None, cb_error = None, cb_close = None\<rparr>"

text \<open>The constructor of a connection binds the callbacks of its channel.\<close>

definition acceptor_callbacks :: "event_answers \<Rightarrow> nat \<Rightarrow> server_run callbacks" where
  "acceptor_callbacks a me =
     \<lparr>cb_read = Some (\<lambda>_ w.
        bind_result (Acceptor_incomingHandler me (ev_accept a) (ev_addr a) (ev_channel a) (ev_garbage a) (sr_sys w))
          (\<lambda>s. Inr (w\<lparr>sr_sys := s,
             sr_target := (if 0 \<le> ev_accept a then (sr_target w)(ev_channel a \<mapsto> ConnTarget (ev_addr a))
                           else sr_target w)\<rparr>))),
      cb_write = None, cb_error = None, cb_close = None\<rparr>"

definition conn_event :: "event_answers \<Rightarrow> nat \<Rightarrow> Timestamp \<Rightarrow> nat \<Rightarrow> server_run \<Rightarrow> server_run result" where
  "conn_event a me now b w =
     bind_result
       (server_event (http_message (sr_httpCallback w) me (fst (ev_sends a)) (snd (ev_sends a)) (ev_local a))
          me (ev_read a) (ev_write a)
          (ch_revents (conn_channel b (sr_sys w))) now b (sr_sys w))
       (\<lambda>s. Inr (w\<lparr>sr_sys := s\<rparr>))"

text \<open>\<open>handleEvent\<close> of the channel at \<open>ch\<close>; \<open>ans\<close> gives the answers for each event of the run.\<close>

definition run_event ::
  "(nat \<Rightarrow> event_answers) \<Rightarrow> nat \<Rightarrow> nat \<Rightarrow> Timestamp \<Rightarrow> server_run \<Rightarrow> server_run result" where
  "run_event ans me ch now w =
     (let a = ans (sr_events w); w = w\<lparr>sr_events := sr_events w + 1\<rparr>;
          own = (\<lambda>cbs. Channel_handleEvent (main_channel ch) (set_main_channel ch) cbs now w)
      in case sr_target w ch of
           None \<Rightarrow> Inl OutOfBounds
         | Some TimerTarget \<Rightarrow> own (timer_callbacks a me)
         | Some WakenTarget \<Rightarrow> own waken_callbacks
         | Some AcceptorTarget \<Rightarrow> own (acceptor_callbacks a me)
         | Some (ConnTarget b) \<Rightarrow> conn_event a me now b w)"

definition run_functor :: "nat \<Rightarrow> int \<Rightarrow> server_task \<Rightarrow> server_run \<Rightarrow> server_run result" where
  "run_functor me listen_answer f w =
     bind_result (run_server_task me listen_answer f (sr_sys w))
       (\<lambda>s. Inr (w\<lparr>sr_sys := s, sr_finished := sr_finished w @ [f]\<rparr>))"

text \<open>The state as the event loop sees it, with the loop apart.\<close>

definition on_loop ::
  "(server_run \<Rightarrow> server_run result) \<Rightarrow> server_run \<times> server_task EventLoop
    \<Rightarrow> (server_run \<times> server_task EventLoop) result" where
  "on_loop f s = bind_result (f (set_main_loop (snd s) (fst s))) (\<lambda>w. Inr (w, main_loop (sr_sys w)))"

text \<open>The functor of a destroyed connection holds the last reference to it.\<close>

definition drop_functor :: "server_task \<Rightarrow> server_run \<Rightarrow> server_run result" where
  "drop_functor f w =
     (case f of
        DestroyTask a \<Rightarrow>
          (case ss_conns (sr_sys w) a of
             None \<Rightarrow> Inl OutOfBounds
           | Some (l, c) \<Rightarrow>
               bind_result (release_conn a (sr_sys w)) (\<lambda>s.
               Inr (w\<lparr>sr_sys := s, sr_target := (sr_target w)(cn_channel c := None)\<rparr>)))
      | _ \<Rightarrow> Inr w)"

fun drop_functors :: "server_task list \<Rightarrow> server_run \<Rightarrow> server_run result" where
  "drop_functors [] w = Inr w"
| "drop_functors (f # fs) w = bind_result (drop_functor f w) (drop_functors fs)"

definition server_iteration ::
  "(nat \<Rightarrow> event_answers) \<Rightarrow> nat \<Rightarrow> int \<Rightarrow> (int \<times> 16 word list) option \<times> Timestamp \<Rightarrow> server_run
    \<Rightarrow> server_run result" where
  "server_iteration ans me listen_answer input w =
     bind_result
       (loop_iteration (\<lambda>ch now. on_loop (run_event ans me ch now)) (\<lambda>f. on_loop (run_functor me listen_answer f))
          input (w\<lparr>sr_finished := []\<rparr>, main_loop (sr_sys w)))
       (\<lambda>(w, l). drop_functors (sr_finished w) (set_main_loop l w))"

fun server_while ::
  "(nat \<Rightarrow> event_answers) \<Rightarrow> nat \<Rightarrow> int \<Rightarrow> ((int \<times> 16 word list) option \<times> Timestamp) list \<Rightarrow> server_run
    \<Rightarrow> server_run result option" where
  "server_while ans me listen_answer inputs w =
     (if el_quit (main_loop (sr_sys w)) then Some (Inr w)
      else case inputs of
        [] \<Rightarrow> None
      | input # rest \<Rightarrow>
          (case server_iteration ans me listen_answer input w of
             Inl e \<Rightarrow> Some (Inl e)
           | Inr w \<Rightarrow> server_while ans me listen_answer rest w))"

declare server_while.simps [simp del]

definition server_loop ::
  "(nat \<Rightarrow> event_answers) \<Rightarrow> nat \<Rightarrow> int \<Rightarrow> ((int \<times> 16 word list) option \<times> Timestamp) list \<Rightarrow> server_run
    \<Rightarrow> server_run result option" where
  "server_loop ans me listen_answer inputs w =
     (let l = main_loop (sr_sys w) in
      case bind_result (assert_that (\<not> el_looping l)) (\<lambda>_. EventLoop_assertInLoopThread me l) of
        Inl e \<Rightarrow> Some (Inl e)
      | Inr _ \<Rightarrow>
          map_option (map_sum id (\<lambda>w. set_main_loop ((main_loop (sr_sys w))\<lparr>el_looping := False\<rparr>) w))
            (server_while ans me listen_answer inputs (set_main_loop (l\<lparr>el_looping := True, el_quit := False\<rparr>) w)))"

section \<open>Changes of the loop that a connection does not notice\<close>

definition quiet :: "Channel option \<Rightarrow> Channel option \<Rightarrow> bool" where
  "quiet x y \<longleftrightarrow> (\<forall>c. x = Some c \<longrightarrow> (\<exists>r. y = Some (c\<lparr>ch_revents := r\<rparr>)))"

lemma quiet_refl [simp]: "quiet x x"
  by (auto simp: quiet_def intro: exI [of _ "ch_revents (the x)"])

lemma conn_ok_quiet:
  assumes "conn_ok t (conn_at l c)" "loop_ok t l'" "el_this l' = el_this l"
    "po_channels (el_poller l') = po_channels (el_poller l)"
    "quiet (po_objs (el_poller l) (cn_channel c)) (po_objs (el_poller l') (cn_channel c))"
    "po_objs (el_poller l) (cn_channel c) = Some x"
  shows "conn_ok t (conn_at l' c) \<and> writing (conn_at l' c) = writing (conn_at l c)"
  using assms
  by (auto simp: conn_ok_def loop_registered_def registered_def quiet_def writing_def
      loop_channel_def Channel_isWriting_def)

lemma conn_good_quiet:
  assumes good: "conn_good t busy l m a c" and l': "loop_ok t l'" "el_this l' = el_this l"
    "po_channels (el_poller l') = po_channels (el_poller l)"
    "el_unprocessedFunctors l' = el_unprocessedFunctors l"
    and obj: "quiet (po_objs (el_poller l) (cn_channel c)) (po_objs (el_poller l') (cn_channel c))"
  shows "conn_good t busy l' m a c"
proof -
  obtain x where x: "po_objs (el_poller l) (cn_channel c) = Some x" "ch_fd x = conn_fd c"
      "ch_loop x = el_this l" "phase_ok t busy l m a c x"
    using good by (auto simp: conn_good_def)
  obtain r where r: "po_objs (el_poller l') (cn_channel c) = Some (x\<lparr>ch_revents := r\<rparr>)"
    using obj x(1) by (auto simp: quiet_def)
  have fr: "conn_ok t (conn_at l c) \<Longrightarrow> conn_ok t (conn_at l' c) \<and> writing (conn_at l' c) = writing (conn_at l c)"
    using conn_ok_quiet [OF _ l'(1-3) obj x(1)] by simp
  have "waiting l m a c x \<Longrightarrow> waiting l' m a c (x\<lparr>ch_revents := r\<rparr>)" using l' by (simp add: waiting_def)
  moreover have "opened t l m a c \<Longrightarrow> opened t l' m a c"
    using fr l' by (auto simp: opened_def conn_inv_def out_bytes_def fin_sent_def)
  moreover have "closing t l m a c x \<Longrightarrow> closing t l' m a c (x\<lparr>ch_revents := r\<rparr>)"
    using fr l' by (auto simp: closing_def)
  moreover have "destroyed l m a c \<Longrightarrow> destroyed l' m a c" using l' by (simp add: destroyed_def)
  ultimately have "phase_ok t busy l' m a c (x\<lparr>ch_revents := r\<rparr>)" using x(4) by (auto simp: phase_ok_def)
  then show ?thesis using good r x(2,3) l'(2) by (auto simp: conn_good_def)
qed

text \<open>Such a change keeps the invariant of the server.\<close>

lemma server_inv_quiet:
  assumes inv: "server_inv t h s" and l': "loop_ok t l'" "el_this l' = el_this (main_loop s)"
    "po_channels (el_poller l') = po_channels (el_poller (main_loop s))"
    "el_unprocessedFunctors l' = el_unprocessedFunctors (main_loop s)"
    and obj: "\<And>a k c. ss_conns s a = Some (k, c) \<Longrightarrow>
      quiet (po_objs (el_poller (main_loop s)) (cn_channel c)) (po_objs (el_poller l') (cn_channel c))"
  shows "server_inv t h (set_loop (ts_loop (ss_server s)) l' s)"
proof -
  have "server_fixed t (set_loop (ts_loop (ss_server s)) l' s)"
    using server_inv_fixed [OF inv] l' by (simp add: server_fixed_def set_loop_def)
  moreover have "conn_good t (h = Some a) l' (ts_connections (ss_server s)) a c" if "ss_conns s a = Some (k, c)" for a k c
    using conn_good_quiet [OF server_invD(4) [OF inv that] l' obj [OF that]] .
  ultimately show ?thesis
    using inv l'(3,4) unfolding server_inv_def set_loop_def
    by (simp split del: if_split)
qed

section \<open>Invariant\<close>

text \<open>
  Targets and connections correspond, the loop's own channels are registered with the descriptors \<open>base\<close>,
  every registered channel has a target, and the open descriptors are \<open>base\<close> and those of the
  connections.
\<close>

definition run_inv :: "nat \<Rightarrow> int set \<Rightarrow> server_run \<Rightarrow> bool" where
  "run_inv t base w \<longleftrightarrow> server_inv t None (sr_sys w) \<and> \<not> el_quit (main_loop (sr_sys w))
     \<and> (\<forall>b ch. sr_target w ch = Some (ConnTarget b) \<longleftrightarrow>
          (\<exists>k c. ss_conns (sr_sys w) b = Some (k, c) \<and> cn_channel c = ch))
     \<and> (\<forall>ch x. sr_target w ch = Some x \<and> (\<forall>b. x \<noteq> ConnTarget b) \<longrightarrow>
          (\<exists>fd \<in> base. po_channels (el_poller (main_loop (sr_sys w))) fd = Some ch))
     \<and> (\<forall>fd ch. po_channels (el_poller (main_loop (sr_sys w))) fd = Some ch \<longrightarrow> sr_target w ch \<noteq> None)
     \<and> (\<forall>fd. fd \<in> ss_fds (sr_sys w) \<longleftrightarrow>
          fd \<in> base \<or> (\<exists>b k c. ss_conns (sr_sys w) b = Some (k, c) \<and> conn_fd c = fd))
     \<and> (\<forall>b k c. ss_conns (sr_sys w) b = Some (k, c) \<longrightarrow> conn_fd c \<notin> base)
     \<and> (\<forall>fd \<in> ss_fds (sr_sys w). fd + 2 < 2 ^ 31)
     \<and> tq_timers (sr_timers w) = [] \<and> tq_thread (sr_timers w) = t"

lemma run_inv_server: "run_inv t base w \<Longrightarrow> server_inv t None (sr_sys w)"
  by (simp add: run_inv_def)

lemma run_inv_counters [simp]:
  "run_inv t base (w\<lparr>sr_events := n\<rparr>) = run_inv t base w"
  "run_inv t base (w\<lparr>sr_finished := fs\<rparr>) = run_inv t base w"
  by (simp_all add: run_inv_def)

lemma set_main_loop_simps [simp]:
  "sr_target (set_main_loop l w) = sr_target w" "sr_timers (set_main_loop l w) = sr_timers w"
  "sr_events (set_main_loop l w) = sr_events w" "sr_finished (set_main_loop l w) = sr_finished w"
  "ss_server (sr_sys (set_main_loop l w)) = ss_server (sr_sys w)"
  "ss_conns (sr_sys (set_main_loop l w)) = ss_conns (sr_sys w)"
  "ss_fds (sr_sys (set_main_loop l w)) = ss_fds (sr_sys w)"
  "ss_loops (sr_sys (set_main_loop l w)) = (ss_loops (sr_sys w))(ts_loop (ss_server (sr_sys w)) := l)"
  "set_main_loop l (set_main_loop l2 w) = set_main_loop l w"
  "set_main_loop (main_loop (sr_sys w)) w = w"
  by (simp_all add: set_main_loop_def set_loop_def)

lemma run_inv_quiet:
  assumes inv: "run_inv t base w" and l': "loop_ok t l'" "el_this l' = el_this (main_loop (sr_sys w))"
    "po_channels (el_poller l') = po_channels (el_poller (main_loop (sr_sys w)))"
    "el_unprocessedFunctors l' = el_unprocessedFunctors (main_loop (sr_sys w))" "\<not> el_quit l'"
    and obj: "\<And>a k c. ss_conns (sr_sys w) a = Some (k, c) \<Longrightarrow>
      quiet (po_objs (el_poller (main_loop (sr_sys w))) (cn_channel c)) (po_objs (el_poller l') (cn_channel c))"
  shows "run_inv t base (set_main_loop l' w)"
proof -
  have "server_inv t None (sr_sys (set_main_loop l' w))"
    using server_inv_quiet [OF run_inv_server [OF inv] l'(1-4) obj] by (simp add: set_main_loop_def)
  then show ?thesis using inv l'(3,5) by (simp add: run_inv_def)
qed

lemma conn_registered:
  assumes "conn_good t busy l m a c"
  shows "po_channels (el_poller l) (conn_fd c) = None \<or> po_channels (el_poller l) (conn_fd c) = Some (cn_channel c)"
proof -
  obtain x where x: "po_objs (el_poller l) (cn_channel c) = Some x" "ch_fd x = conn_fd c" "phase_ok t busy l m a c x"
    using assms by (auto simp: conn_good_def)
  then show ?thesis
    by (auto simp: phase_ok_def waiting_def opened_def closing_def destroyed_def conn_inv_def conn_ok_def
        loop_registered_def registered_def)
qed

text \<open>A step of one connection.\<close>

lemma run_inv_step:
  assumes inv: "run_inv t base w" and st: "step_of a (sr_sys w) s'" and s': "server_inv t None s'"
  shows "run_inv t base (w\<lparr>sr_sys := s'\<rparr>)"
proof -
  let ?s = "sr_sys w"
  obtain l c c' where c: "ss_conns ?s a = Some (l, c)" "ss_conns s' a = Some (l, c')"
      "cn_channel c' = cn_channel c" "conn_fd c' = conn_fd c"
      "\<And>fd. fd \<noteq> conn_fd c \<Longrightarrow>
        po_channels (el_poller (main_loop s')) fd = po_channels (el_poller (main_loop ?s)) fd"
    using st unfolding step_of_def by blast
  have other: "ss_conns s' b = ss_conns ?s b" if "b \<noteq> a" for b using st that by (simp add: step_of_def)
  have same: "ss_fds s' = ss_fds ?s" "el_quit (main_loop s') = el_quit (main_loop ?s)"
    using st by (simp_all add: step_of_def)
  have conns: "(\<exists>k d. ss_conns s' b = Some (k, d) \<and> cn_channel d = ch) \<longleftrightarrow>
      (\<exists>k d. ss_conns ?s b = Some (k, d) \<and> cn_channel d = ch)"
    "(\<exists>k d. ss_conns s' b = Some (k, d) \<and> conn_fd d = fd) \<longleftrightarrow>
      (\<exists>k d. ss_conns ?s b = Some (k, d) \<and> conn_fd d = fd)" for b ch fd
    using c(1-4) other [of b] by (cases "b = a"; simp)+
  have a: "conn_fd c \<notin> base" "sr_target w (cn_channel c) = Some (ConnTarget a)"
    using inv c(1) unfolding run_inv_def by blast+
  have own: "\<exists>fd \<in> base. po_channels (el_poller (main_loop s')) fd = Some ch"
    if x: "sr_target w ch = Some x" "\<forall>b. x \<noteq> ConnTarget b" for ch x
  proof -
    obtain fd where fd: "fd \<in> base" "po_channels (el_poller (main_loop ?s)) fd = Some ch"
      using inv x unfolding run_inv_def by blast
    then have "fd \<noteq> conn_fd c" using a(1) by auto
    then show ?thesis using fd c(5) [of fd] by (intro bexI [of _ fd]) simp_all
  qed
  have reg: "sr_target w ch \<noteq> None" if "po_channels (el_poller (main_loop s')) fd = Some ch" for fd ch
  proof (cases "fd = conn_fd c")
    case True
    then have "ch = cn_channel c"
      using conn_registered [OF server_invD(4) [OF s' c(2)]] c(3,4) that by auto
    then show ?thesis using a(2) by simp
  next
    case False
    then show ?thesis using inv that c(5) unfolding run_inv_def by metis
  qed
  have fds: "conn_fd d \<notin> base" if "ss_conns s' b = Some (k, d)" for b k d
    using that other [of b] c a(1) inv unfolding run_inv_def by (cases "b = a") auto
  show ?thesis
    using inv s' own reg fds unfolding run_inv_def by (simp add: conns same)
qed

section \<open>Events\<close>

text \<open>A connection that is open and in the server's map; a channel whose event can be handled.\<close>

definition live :: "nat \<Rightarrow> server_system \<Rightarrow> bool" where
  "live b s \<longleftrightarrow> (\<exists>k d. ss_conns s b = Some (k, d) \<and> established d
     \<and> ts_connections (ss_server s) (cn_name d) = Some b)"

definition ok_target :: "server_run \<Rightarrow> nat \<Rightarrow> bool" where
  "ok_target w ch \<longleftrightarrow> sr_target w ch \<noteq> None
     \<and> (\<forall>b. sr_target w ch = Some (ConnTarget b) \<longrightarrow> live b (sr_sys w))"

definition no_dead :: "server_system \<Rightarrow> bool" where
  "no_dead s \<longleftrightarrow> (\<forall>b k c. ss_conns s b = Some (k, c) \<longrightarrow> cn_state c \<noteq> DISCONNECTED)"

text \<open>
  What the kernel and the application may answer in an event of the channel at \<open>ch\<close>: \<open>accept\<close> gives a new
  descriptor, \<open>read\<close> and \<open>write\<close> keep to their buffers (\<open>kernel_ok\<close>), and the answers to a message fit.
\<close>

definition legal_event :: "event_answers \<Rightarrow> Timestamp \<Rightarrow> nat \<Rightarrow> server_run \<Rightarrow> bool" where
  "legal_event a now ch w \<longleftrightarrow>
     (case sr_target w ch of
        Some AcceptorTarget \<Rightarrow> 0 \<le> ev_accept a \<longrightarrow>
          fresh (ev_addr a) (ev_channel a) (ev_accept a) (sr_sys w) \<and> ev_accept a + 2 < 2 ^ 31
      | Some (ConnTarget b) \<Rightarrow>
          (\<forall>k c. ss_conns (sr_sys w) b = Some (k, c) \<longrightarrow>
             kernel_ok c (ch_revents (conn_channel b (sr_sys w))) (ev_read a) (ev_write a)
             \<and> (reads (ch_revents (conn_channel b (sr_sys w))) \<and> ev_read a \<noteq> Some [] \<longrightarrow>
                  answers_fit (sr_httpCallback w) (fst (ev_sends a)) (snd (ev_sends a)) now (ev_read a) c))
      | _ \<Rightarrow> True)"

text \<open>The event is one of a connection, and its parser stops with the error \<open>e\<close> on what is read.\<close>

definition stops_event :: "event_answers \<Rightarrow> Timestamp \<Rightarrow> nat \<Rightarrow> server_run \<Rightarrow> cpp_error \<Rightarrow> bool" where
  "stops_event a now ch w e \<longleftrightarrow>
     (\<exists>b k c. sr_target w ch = Some (ConnTarget b) \<and> ss_conns (sr_sys w) b = Some (k, c)
        \<and> reads (ch_revents (conn_channel b (sr_sys w))) \<and> ev_read a \<noteq> Some []
        \<and> parser_fails now (ev_read a) c e)"

lemma stops_event_error: "stops_event a now ch w e \<Longrightarrow> e \<in> parser_errors"
  by (auto simp: stops_event_def dest: parser_fails_error)

lemma live_opened:
  assumes inv: "server_inv t None s" and "live b s"
  obtains k d where "ss_conns s b = Some (k, d)" "opened t (main_loop s) (ts_connections (ss_server s)) b d"
proof -
  obtain k d where d: "ss_conns s b = Some (k, d)" "established d" "ts_connections (ss_server s) (cn_name d) = Some b"
    using assms(2) by (auto simp: live_def)
  have "conn_good t False (main_loop s) (ts_connections (ss_server s)) b d"
    using server_invD(4) [OF inv d(1)] by simp
  then have "opened t (main_loop s) (ts_connections (ss_server s)) b d"
    using d(2,3) by (auto simp: conn_good_def phase_ok_def closing_def destroyed_def established_def dest: waiting_state)
  then show thesis using that d(1) by blast
qed

lemma opened_live:
  "ss_conns s b = Some (k, d) \<Longrightarrow> opened t (main_loop s) (ts_connections (ss_server s)) b d \<Longrightarrow> live b s"
  by (auto simp: live_def opened_def)

lemma live_step:
  assumes inv: "server_inv t h s" and st: "step_of a s s'" and "live b s" "b \<noteq> a"
  shows "live b s'"
proof -
  obtain k d where d: "ss_conns s b = Some (k, d)" "established d" "ts_connections (ss_server s) (cn_name d) = Some b"
    using assms(3) by (auto simp: live_def)
  obtain l c where c: "ss_conns s a = Some (l, c)" "\<And>n. n \<noteq> cn_name c \<Longrightarrow>
      ts_connections (ss_server s') n = ts_connections (ss_server s) n" "ss_conns s' b = ss_conns s b"
    using st assms(4) unfolding step_of_def by blast
  have "cn_name d \<noteq> cn_name c" using server_inv_distinct(1) [OF inv d(1) c(1)] assms(4) by simp
  then show ?thesis using c d by (simp add: live_def)
qed

lemma no_dead_step:
  assumes "no_dead s" "step_of a s s'" "ss_conns s' a = Some (l, c)" "established c"
  shows "no_dead s'"
  unfolding no_dead_def
proof (intro allI impI)
  fix b k d assume b: "ss_conns s' b = Some (k, d)"
  show "cn_state d \<noteq> DISCONNECTED"
  proof (cases "b = a")
    case True
    then show ?thesis using assms(3,4) b by (auto simp: established_def)
  next
    case False
    then have "ss_conns s b = Some (k, d)" using assms(2) b by (simp add: step_of_def)
    then show ?thesis using assms(1) unfolding no_dead_def by blast
  qed
qed

lemma conn_event_ok:
  assumes inv: "run_inv t base w" and nd: "no_dead (sr_sys w)" and tg: "sr_target w ch = Some (ConnTarget b)"
    and ok: "ok_target w ch" and legal: "legal_event a now ch w"
  shows "(\<exists>e. conn_event a t now b w = Inl e \<and> stops_event a now ch w e)
    \<or> (\<exists>w'. conn_event a t now b w = Inr w' \<and> run_inv t base w' \<and> no_dead (sr_sys w')
        \<and> sr_finished w' = sr_finished w
        \<and> (\<forall>ch'. ch' \<noteq> ch \<and> ok_target w ch' \<longrightarrow> ok_target w' ch'))"
proof -
  let ?s = "sr_sys w"
  note si = run_inv_server [OF inv]
  have "live b ?s" using ok tg by (simp add: ok_target_def)
  from live_opened [OF si this] obtain k c where c: "ss_conns ?s b = Some (k, c)"
      "opened t (main_loop ?s) (ts_connections (ss_server ?s)) b c" .
  let ?msg = "http_message (sr_httpCallback w) t (fst (ev_sends a)) (snd (ev_sends a)) (ev_local a)"
  let ?rev = "ch_revents (conn_channel b ?s)"
  have ko: "kernel_ok c ?rev (ev_read a) (ev_write a)"
    and msg: "reads ?rev \<Longrightarrow> ev_read a \<noteq> Some [] \<Longrightarrow>
      answers_fit (sr_httpCallback w) (fst (ev_sends a)) (snd (ev_sends a)) now (ev_read a) c"
    using legal c(1) tg by (simp_all add: legal_event_def)
  have mo: "message_ok ?msg t now (ev_read a) c" if "reads ?rev" "ev_read a \<noteq> Some []"
    by (rule http_message_ok [OF _ msg [OF that]]) (use c(2) in \<open>simp add: opened_def\<close>)
  have "(\<exists>e. server_event ?msg t (ev_read a) (ev_write a) ?rev now b ?s = Inl e \<and> reads ?rev \<and> ev_read a \<noteq> Some []
        \<and> parser_fails now (ev_read a) c e)
    \<or> (\<exists>s'. server_event ?msg t (ev_read a) (ev_write a) ?rev now b ?s = Inr s' \<and> server_inv t None s'
        \<and> step_of b ?s s' \<and> (\<exists>l' c'. ss_conns s' b = Some (l', c') \<and> established c'))"
    by (rule event_run_msg [OF si c ko], rule mo)
  then consider e where "server_event ?msg t (ev_read a) (ev_write a) ?rev now b ?s = Inl e" "reads ?rev" "ev_read a \<noteq> Some []"
        "parser_fails now (ev_read a) c e"
    | s' l' c' where "server_event ?msg t (ev_read a) (ev_write a) ?rev now b ?s = Inr s'" "server_inv t None s'"
      "step_of b ?s s'" "ss_conns s' b = Some (l', c')" "established c'"
    by blast
  then show ?thesis
  proof cases
    case (1 e)
    then have "stops_event a now ch w e" using tg c(1) unfolding stops_event_def by blast
    then show ?thesis using 1(1) by (simp add: conn_event_def)
  next
    case s': (2 s' l' c')
    have "ok_target (w\<lparr>sr_sys := s'\<rparr>) ch'" if ot: "ch' \<noteq> ch" "ok_target w ch'" for ch'
    proof -
      have "live d s'" if d: "sr_target w ch' = Some (ConnTarget d)" for d
      proof -
        have "d \<noteq> b"
        proof
          assume "d = b"
          then have "\<exists>k e. ss_conns ?s b = Some (k, e) \<and> cn_channel e = ch'"
            using inv d unfolding run_inv_def by blast
          moreover have "\<exists>k e. ss_conns ?s b = Some (k, e) \<and> cn_channel e = ch"
            using inv tg unfolding run_inv_def by blast
          ultimately show False using ot(1) by auto
        qed
        then show ?thesis using live_step [OF si s'(3)] ot d by (simp add: ok_target_def)
      qed
      then show ?thesis using ot by (simp add: ok_target_def)
    qed
    then show ?thesis
      using s'(1) run_inv_step [OF inv s'(3,2)] no_dead_step [OF nd s'(3-5)] by (simp add: conn_event_def)
  qed
qed

text \<open>The loop's own channels.\<close>

definition own_target :: "server_run \<Rightarrow> nat \<Rightarrow> bool" where
  "own_target w ch \<longleftrightarrow> (\<exists>x. sr_target w ch = Some x \<and> (\<forall>b. x \<noteq> ConnTarget b))"

lemma own_object:
  assumes inv: "run_inv t base w" and own: "own_target w ch"
  obtains x where "po_objs (el_poller (main_loop (sr_sys w))) ch = Some x"
proof -
  obtain fd where "po_channels (el_poller (main_loop (sr_sys w))) fd = Some ch"
    using inv own unfolding run_inv_def own_target_def by blast
  moreover have "poller_inv (el_poller (main_loop (sr_sys w)))"
    using server_inv_fixed [OF run_inv_server [OF inv]] by (simp add: server_fixed_def loop_ok_def)
  ultimately show thesis using that unfolding poller_inv_def slot_def by blast
qed

lemma own_not_conn:
  assumes inv: "run_inv t base w" and own: "own_target w ch" and "ss_conns (sr_sys w) a = Some (k, c)"
  shows "cn_channel c \<noteq> ch"
proof
  assume "cn_channel c = ch"
  then have "sr_target w ch = Some (ConnTarget a)" using inv assms(3) unfolding run_inv_def by blast
  then show False using own by (auto simp: own_target_def)
qed

lemma own_touch:
  assumes inv: "run_inv t base w" and own: "own_target w ch" and f: "mask_kept f"
  shows "run_inv t base (set_main_channel ch f w)"
proof -
  let ?l = "main_loop (sr_sys w)"
  obtain x where x: "po_objs (el_poller ?l) ch = Some x" using own_object [OF inv own] .
  have "loop_ok t ?l" "\<not> el_quit ?l"
    using server_inv_fixed [OF run_inv_server [OF inv]] inv by (simp_all add: server_fixed_def run_inv_def)
  moreover from loop_ok_touch [OF this(1) x f]
  have "loop_ok t (?l\<lparr>el_poller := (el_poller ?l)\<lparr>po_objs := (po_objs (el_poller ?l))(ch \<mapsto> f x)\<rparr>\<rparr>)" .
  ultimately show ?thesis
    using run_inv_quiet [OF inv, of "?l\<lparr>el_poller := (el_poller ?l)\<lparr>po_objs := (po_objs (el_poller ?l))(ch \<mapsto> f x)\<rparr>\<rparr>"]
      own_not_conn [OF inv own] x
    by (auto simp: set_main_channel_def main_channel_def Let_def)
qed

lemma set_main_channel_simps [simp]:
  "sr_target (set_main_channel ch f w) = sr_target w"
  "sr_timers (set_main_channel ch f w) = sr_timers w"
  "sr_finished (set_main_channel ch f w) = sr_finished w"
  "ss_conns (sr_sys (set_main_channel ch f w)) = ss_conns (sr_sys w)"
  "ss_server (sr_sys (set_main_channel ch f w)) = ss_server (sr_sys w)"
  "ss_fds (sr_sys (set_main_channel ch f w)) = ss_fds (sr_sys w)"
  "own_target (set_main_channel ch f w) = own_target w"
  "ok_target (set_main_channel ch f w) = ok_target w"
  "no_dead (sr_sys (set_main_channel ch f w)) = no_dead (sr_sys w)"
  by (simp_all add: set_main_channel_def Let_def own_target_def ok_target_def live_def no_dead_def fun_eq_iff)

text \<open>An event of a channel that has a read callback only.\<close>

lemma own_event:
  assumes inv: "run_inv t base w" and own: "own_target w ch" and nd: "no_dead (sr_sys w)"
    and read: "\<And>w1. w1 = set_main_channel ch (\<lambda>c. c\<lparr>ch_handlingEvent := True\<rparr>) w \<Longrightarrow> run_inv t base w1 \<Longrightarrow>
      \<exists>w2. f now w1 = Inr w2 \<and> run_inv t base w2 \<and> own_target w2 ch \<and> no_dead (sr_sys w2)
        \<and> sr_finished w2 = sr_finished w1 \<and> (\<forall>ch'. ok_target w1 ch' \<longrightarrow> ok_target w2 ch')"
  shows "\<exists>w'. Channel_handleEvent (main_channel ch) (set_main_channel ch)
      \<lparr>cb_read = Some f, cb_write = None, cb_error = None, cb_close = None\<rparr> now w = Inr w'
    \<and> run_inv t base w' \<and> no_dead (sr_sys w') \<and> sr_finished w' = sr_finished w
    \<and> (\<forall>ch'. ok_target w ch' \<longrightarrow> ok_target w' ch')"
proof -
  define w1 where "w1 = set_main_channel ch (\<lambda>c. c\<lparr>ch_handlingEvent := True\<rparr>) w"
  define cond where "cond = (ch_revents (main_channel ch w) AND (POLLIN OR POLLPRI OR POLLRDHUP) \<noteq> 0)"
  have i1: "run_inv t base w1" using own_touch [OF inv own] by (simp add: w1_def mask_kept_def)
  have kept: "own_target w1 ch" "no_dead (sr_sys w1)" "ok_target w1 = ok_target w" using own nd by (simp_all add: w1_def)
  obtain w2 where w2: "call_if cond (Some (f now)) w1 = Inr w2" "run_inv t base w2" "own_target w2 ch"
      "no_dead (sr_sys w2)" "\<forall>ch'. ok_target w1 ch' \<longrightarrow> ok_target w2 ch'" "sr_finished w2 = sr_finished w1"
    using read [OF w1_def i1] i1 kept by (cases cond) (auto simp: call_if_def)
  have "Channel_handleEvent (main_channel ch) (set_main_channel ch)
      \<lparr>cb_read = Some f, cb_write = None, cb_error = None, cb_close = None\<rparr> now w =
      Inr (set_main_channel ch (\<lambda>c. c\<lparr>ch_handlingEvent := False\<rparr>) w2)"
    using w2(1) by (simp add: Channel_handleEvent_def Let_def w1_def cond_def call_if_def)
  moreover have "run_inv t base (set_main_channel ch (\<lambda>c. c\<lparr>ch_handlingEvent := False\<rparr>) w2)"
    using own_touch [OF w2(2,3)] by (simp add: mask_kept_def)
  ultimately show ?thesis using w2(4-6) kept(3) by (simp add: w1_def)
qed

lemma fresh_target:
  assumes inv: "run_inv t base w" and new: "fresh a ch fd (sr_sys w)"
  shows "sr_target w ch = None"
proof (rule ccontr)
  let ?s = "sr_sys w"
  have n: "po_objs (el_poller (main_loop ?s)) ch = None" using new by (simp add: fresh_def)
  assume "sr_target w ch \<noteq> None"
  then consider b where "sr_target w ch = Some (ConnTarget b)" | "own_target w ch"
    unfolding own_target_def by auto
  then show False
  proof cases
    case (1 b)
    then obtain k d where "ss_conns ?s b = Some (k, d)" "cn_channel d = ch"
      using inv unfolding run_inv_def by blast
    then show ?thesis using server_invD(4) [OF run_inv_server [OF inv], of b k d] n by (auto simp: conn_good_def)
  next
    case 2
    then show ?thesis using own_object [OF inv 2] n by auto
  qed
qed

lemma accepted_run_inv:
  assumes inv: "run_inv t base w" and new: "fresh a ch fd (sr_sys w)" "0 \<le> fd" "fd + 2 < 2 ^ 31"
    and acc: "accepted t a ch fd garbage (sr_sys w) c s'"
  shows "run_inv t base (w\<lparr>sr_sys := s', sr_target := (sr_target w)(ch \<mapsto> ConnTarget a)\<rparr>)"
proof -
  let ?s = "sr_sys w"
  note si = run_inv_server [OF inv]
  have s': "server_inv t None s'" using accepted_inv [OF si new(1,2) acc] .
  have c: "cn_channel c = ch" "conn_fd c = fd" using acc by (simp_all add: accepted_def TcpConnection_new_def)
  have e: "ss_conns s' = (ss_conns ?s)(a \<mapsto> (ts_loop (ss_server ?s), c))" "ss_fds s' = insert fd (ss_fds ?s)"
      "po_channels (el_poller (main_loop s')) = po_channels (el_poller (main_loop ?s))"
      "el_quit (main_loop s') = el_quit (main_loop ?s)"
    using acc by (simp_all add: accepted_def)
  have n: "ss_conns ?s a = None" "fd \<notin> ss_fds ?s" "po_objs (el_poller (main_loop ?s)) ch = None"
    using new(1) by (simp_all add: fresh_def)
  have free: "sr_target w ch = None" using fresh_target [OF inv new(1)] .
  have old: "sr_target w x \<noteq> Some (ConnTarget a)" for x
    using inv n(1) unfolding run_inv_def by (metis option.distinct(1))
  have conns: "(\<exists>k d. ss_conns s' b = Some (k, d) \<and> cn_channel d = x) \<longleftrightarrow>
      (if b = a then x = ch else \<exists>k d. ss_conns ?s b = Some (k, d) \<and> cn_channel d = x)" for b x
    using c(1) e(1) by auto
  have tg: "(\<exists>k d. ss_conns ?s b = Some (k, d) \<and> cn_channel d = x) \<longleftrightarrow> sr_target w x = Some (ConnTarget b)" for b x
    using inv unfolding run_inv_def by blast
  have targets: "((sr_target w)(ch \<mapsto> ConnTarget a)) x = Some (ConnTarget b) \<longleftrightarrow>
      (\<exists>k d. ss_conns s' b = Some (k, d) \<and> cn_channel d = x)" for b x
    unfolding conns tg using free old by auto
  have fds: "y \<in> ss_fds s' \<longleftrightarrow> y \<in> base \<or> (\<exists>b k d. ss_conns s' b = Some (k, d) \<and> conn_fd d = y)" for y
  proof -
    have "y \<in> ss_fds ?s \<longleftrightarrow> y \<in> base \<or> (\<exists>b k d. ss_conns ?s b = Some (k, d) \<and> conn_fd d = y)"
      using inv unfolding run_inv_def by blast
    moreover have "(\<exists>b k d. ss_conns s' b = Some (k, d) \<and> conn_fd d = y) \<longleftrightarrow>
        y = fd \<or> (\<exists>b k d. ss_conns ?s b = Some (k, d) \<and> conn_fd d = y)"
    proof
      assume "\<exists>b k d. ss_conns s' b = Some (k, d) \<and> conn_fd d = y"
      then show "y = fd \<or> (\<exists>b k d. ss_conns ?s b = Some (k, d) \<and> conn_fd d = y)"
        using e(1) c(2) by (auto split: if_splits)
    next
      assume "y = fd \<or> (\<exists>b k d. ss_conns ?s b = Some (k, d) \<and> conn_fd d = y)"
      then consider "y = fd" | b k d where "ss_conns ?s b = Some (k, d)" "conn_fd d = y" by blast
      then show "\<exists>b k d. ss_conns s' b = Some (k, d) \<and> conn_fd d = y"
      proof cases
        case 1
        then show ?thesis using e(1) c(2) by - (rule exI [of _ a], simp)
      next
        case (2 b k d)
        then have "b \<noteq> a" using n(1) by auto
        then show ?thesis using 2 e(1) by - (rule exI [of _ b], simp)
      qed
    qed
    ultimately show ?thesis using e(2) by auto
  qed
  have base: "conn_fd d \<notin> base" if "ss_conns s' b = Some (k, d)" for b k d
  proof (cases "b = a")
    case True
    then have "conn_fd d = fd" using that e(1) c(2) by simp
    moreover have "fd \<notin> base" using n(2) inv unfolding run_inv_def by blast
    ultimately show ?thesis by simp
  next
    case False
    then show ?thesis using that e(1) inv unfolding run_inv_def by auto
  qed
  have own: "\<exists>y \<in> base. po_channels (el_poller (main_loop s')) y = Some x"
    if "((sr_target w)(ch \<mapsto> ConnTarget a)) x = Some z" "\<forall>b. z \<noteq> ConnTarget b" for x z
    using that e(3) inv unfolding run_inv_def by (auto split: if_splits)
  have reg: "((sr_target w)(ch \<mapsto> ConnTarget a)) x \<noteq> None" if "po_channels (el_poller (main_loop s')) y = Some x" for x y
    using that e(3) inv unfolding run_inv_def by auto
  have small: "\<forall>y \<in> ss_fds s'. y + 2 < 2 ^ 31" using inv new(3) e(2) unfolding run_inv_def by auto
  show ?thesis
    using s' inv targets fds base own reg small e(4) unfolding run_inv_def by simp
qed

lemma accept_event_ok:
  assumes inv: "run_inv t base w" and own: "own_target w ch" and nd: "no_dead (sr_sys w)"
    and legal: "0 \<le> ev_accept a \<longrightarrow>
      fresh (ev_addr a) (ev_channel a) (ev_accept a) (sr_sys w) \<and> ev_accept a + 2 < 2 ^ 31"
  shows "\<exists>w2. bind_result
        (Acceptor_incomingHandler t (ev_accept a) (ev_addr a) (ev_channel a) (ev_garbage a) (sr_sys w))
        (\<lambda>s. Inr (w\<lparr>sr_sys := s,
           sr_target := (if 0 \<le> ev_accept a then (sr_target w)(ev_channel a \<mapsto> ConnTarget (ev_addr a))
                         else sr_target w)\<rparr>)) = Inr w2
    \<and> run_inv t base w2 \<and> own_target w2 ch \<and> no_dead (sr_sys w2) \<and> sr_finished w2 = sr_finished w
    \<and> (\<forall>ch'. ok_target w ch' \<longrightarrow> ok_target w2 ch')"
proof (cases "0 \<le> ev_accept a")
  case False
  then have "Acceptor_incomingHandler t (ev_accept a) (ev_addr a) (ev_channel a) (ev_garbage a) (sr_sys w) = Inr (sr_sys w)"
    using server_inv_fixed [OF run_inv_server [OF inv]] by (simp add: Acceptor_incomingHandler_def
        EventLoop_assertInLoopThread_def EventLoop_isInLoopThread_def sd_Accept_def server_fixed_def loop_ok_def)
  then show ?thesis using inv own nd False by simp
next
  case True
  note si = run_inv_server [OF inv]
  have new: "fresh (ev_addr a) (ev_channel a) (ev_accept a) (sr_sys w)" "ev_accept a + 2 < 2 ^ 31"
    using legal True by blast+
  obtain s' c where s': "Acceptor_incomingHandler t (ev_accept a) (ev_addr a) (ev_channel a) (ev_garbage a) (sr_sys w) = Inr s'"
      "accepted t (ev_addr a) (ev_channel a) (ev_accept a) (ev_garbage a) (sr_sys w) c s'"
    using accept_accepted [OF si new(1) True] by blast
  let ?w = "w\<lparr>sr_sys := s', sr_target := (sr_target w)(ev_channel a \<mapsto> ConnTarget (ev_addr a))\<rparr>"
  have free: "sr_target w (ev_channel a) = None" using fresh_target [OF inv new(1)] .
  have e: "ss_conns s' = (ss_conns (sr_sys w))(ev_addr a \<mapsto> (ts_loop (ss_server (sr_sys w)), c))"
      "ts_connections (ss_server s') = (ts_connections (ss_server (sr_sys w)))(cn_name c \<mapsto> ev_addr a)"
      "cn_state c = CONNECTING"
    using s'(2) by (simp_all add: accepted_def TcpConnection_new_def)
  have lv: "live b s'" if b: "live b (sr_sys w)" for b
  proof -
    obtain k d where d: "ss_conns (sr_sys w) b = Some (k, d)" "established d"
        "ts_connections (ss_server (sr_sys w)) (cn_name d) = Some b"
      using b by (auto simp: live_def)
    then show ?thesis using accepted_old(1,5) [OF si new(1) s'(2) d(1)] e by (simp add: live_def)
  qed
  have "ok_target ?w ch'" if ok: "ok_target w ch'" for ch'
  proof -
    have "ch' \<noteq> ev_channel a" using ok free by (auto simp: ok_target_def)
    then show ?thesis using ok lv by (simp add: ok_target_def)
  qed
  moreover have "own_target ?w ch" using own free by (auto simp: own_target_def)
  moreover have "no_dead s'" using nd e(1,3) by (auto simp: no_dead_def split: if_splits)
  ultimately show ?thesis
    using accepted_run_inv [OF inv new(1) True new(2) s'(2)] s'(1) True by (intro exI [of _ ?w]) simp
qed

lemma timer_event_ok:
  assumes inv: "run_inv t base w"
  shows "\<exists>q. TimerQueue_timerHandler t now clock (\<lambda>_. Inr) ((), sr_timers w) = Inr ((), q)
    \<and> tq_timers q = [] \<and> tq_thread q = t"
  using inv by (simp add: run_inv_def TimerQueue_timerHandler_def TimerQueue_getExpiration_def TimerQueue_reset_def
      delete_expired_def)

lemma run_inv_timers: "run_inv t base w \<Longrightarrow> tq_timers q = [] \<Longrightarrow> tq_thread q = t \<Longrightarrow> run_inv t base (w\<lparr>sr_timers := q\<rparr>)"
  by (simp add: run_inv_def)

lemma readFd_run_inv: "run_inv t base w \<Longrightarrow> run_inv t base (set_main_loop (EventLoop_readFd (main_loop (sr_sys w))) w)"
  using server_inv_fixed [OF run_inv_server, of t base w]
  by (intro run_inv_quiet) (simp_all add: EventLoop_readFd_def server_fixed_def loop_ok_def run_inv_def)

lemma fresh_touch:
  assumes own: "own_target w ch" and inv: "run_inv t base w" and new: "fresh a ch' fd (sr_sys w)"
  shows "fresh a ch' fd (sr_sys (set_main_channel ch f w))"
proof -
  obtain x where "po_objs (el_poller (main_loop (sr_sys w))) ch = Some x" using own_object [OF inv own] .
  then have "ch' \<noteq> ch" using new by (auto simp: fresh_def)
  then show ?thesis using new by (simp add: fresh_def set_main_channel_def Let_def)
qed

lemma run_event_ok:
  assumes inv: "run_inv t base w" and nd: "no_dead (sr_sys w)" and ok: "ok_target w ch"
    and legal: "legal_event (ans (sr_events w)) now ch w"
  shows "(\<exists>e. run_event ans t ch now w = Inl e \<and> stops_event (ans (sr_events w)) now ch w e)
    \<or> (\<exists>w'. run_event ans t ch now w = Inr w' \<and> run_inv t base w' \<and> no_dead (sr_sys w')
        \<and> sr_finished w' = sr_finished w
        \<and> (\<forall>ch'. ch' \<noteq> ch \<and> ok_target w ch' \<longrightarrow> ok_target w' ch'))"
proof -
  define a where "a = ans (sr_events w)"
  define v where "v = w\<lparr>sr_events := sr_events w + 1\<rparr>"
  have v: "run_inv t base v" "no_dead (sr_sys v)" "ok_target v = ok_target w" "sr_target v = sr_target w"
      "legal_event a now ch v" "sr_finished v = sr_finished w" "stops_event a now ch v e = stops_event a now ch w e" for e
    using inv nd legal by (auto simp: v_def a_def ok_target_def legal_event_def stops_event_def cong: option.case_cong target.case_cong)
  obtain x where x: "sr_target w ch = Some x" using ok by (auto simp: ok_target_def)
  have run: "run_event ans t ch now w = (case x of
      TimerTarget \<Rightarrow> Channel_handleEvent (main_channel ch) (set_main_channel ch) (timer_callbacks a t) now v
    | WakenTarget \<Rightarrow> Channel_handleEvent (main_channel ch) (set_main_channel ch) waken_callbacks now v
    | AcceptorTarget \<Rightarrow> Channel_handleEvent (main_channel ch) (set_main_channel ch) (acceptor_callbacks a t) now v
    | ConnTarget b \<Rightarrow> conn_event a t now b v)"
    unfolding a_def v_def by (cases x) (simp_all add: run_event_def Let_def x)
  have own: "own_target v ch" if "\<And>b. x \<noteq> ConnTarget b" using that x v(4) by (simp add: own_target_def)
  show ?thesis
  proof (cases x)
    case (ConnTarget b)
    then have "sr_target v ch = Some (ConnTarget b)" using x v(4) by simp
    from conn_event_ok [OF v(1,2) this _ v(5)] show ?thesis using ok v(3,6,7) ConnTarget run a_def by simp
  next
    case TimerTarget
    then have o: "own_target v ch" using own by simp
    have "\<exists>w2. bind_result (TimerQueue_timerHandler t (fst (ev_clock a)) (snd (ev_clock a)) (\<lambda>_. Inr) ((), sr_timers w1))
          (\<lambda>(_, q). Inr (w1\<lparr>sr_timers := q\<rparr>)) = Inr w2
        \<and> run_inv t base w2 \<and> own_target w2 ch \<and> no_dead (sr_sys w2)
        \<and> sr_finished w2 = sr_finished w1 \<and> (\<forall>ch'. ok_target w1 ch' \<longrightarrow> ok_target w2 ch')"
      if w1: "w1 = set_main_channel ch (\<lambda>c. c\<lparr>ch_handlingEvent := True\<rparr>) v" "run_inv t base w1" for w1
    proof -
      have k: "own_target w1 ch" "no_dead (sr_sys w1)" using o v(2) w1(1) by simp_all
      obtain q where "TimerQueue_timerHandler t (fst (ev_clock a)) (snd (ev_clock a)) (\<lambda>_. Inr) ((), sr_timers w1) = Inr ((), q)"
          "tq_timers q = []" "tq_thread q = t"
        using timer_event_ok [OF w1(2)] by blast
      then show ?thesis using k run_inv_timers [OF w1(2), of q] by (simp add: own_target_def ok_target_def)
    qed
    note read = this
    have "\<exists>w'. Channel_handleEvent (main_channel ch) (set_main_channel ch) (timer_callbacks a t) now v = Inr w'
        \<and> run_inv t base w' \<and> no_dead (sr_sys w') \<and> sr_finished w' = sr_finished v
        \<and> (\<forall>ch'. ok_target v ch' \<longrightarrow> ok_target w' ch')"
      unfolding timer_callbacks_def by (rule own_event [OF v(1) o v(2)], rule read)
    then show ?thesis using run TimerTarget v(3,6) by auto
  next
    case WakenTarget
    then have o: "own_target v ch" using own by simp
    have "\<exists>w2. Inr (set_main_loop (EventLoop_readFd (main_loop (sr_sys w1))) w1) = (Inr w2 :: server_run result)
        \<and> run_inv t base w2 \<and> own_target w2 ch \<and> no_dead (sr_sys w2)
        \<and> sr_finished w2 = sr_finished w1 \<and> (\<forall>ch'. ok_target w1 ch' \<longrightarrow> ok_target w2 ch')"
      if w1: "w1 = set_main_channel ch (\<lambda>c. c\<lparr>ch_handlingEvent := True\<rparr>) v" "run_inv t base w1" for w1
    proof -
      have "own_target w1 ch" "no_dead (sr_sys w1)" using o v(2) w1(1) by simp_all
      then show ?thesis
        using readFd_run_inv [OF w1(2)] by (simp add: own_target_def ok_target_def live_def no_dead_def)
    qed
    note read = this
    have "\<exists>w'. Channel_handleEvent (main_channel ch) (set_main_channel ch) waken_callbacks now v = Inr w'
        \<and> run_inv t base w' \<and> no_dead (sr_sys w') \<and> sr_finished w' = sr_finished v
        \<and> (\<forall>ch'. ok_target v ch' \<longrightarrow> ok_target w' ch')"
      unfolding waken_callbacks_def by (rule own_event [OF v(1) o v(2)], rule read)
    then show ?thesis using run WakenTarget v(3,6) by auto
  next
    case AcceptorTarget
    then have o: "own_target v ch" using own by simp
    have lg: "0 \<le> ev_accept a \<Longrightarrow> fresh (ev_addr a) (ev_channel a) (ev_accept a) (sr_sys v) \<and> ev_accept a + 2 < 2 ^ 31"
      using v(4,5) x AcceptorTarget by (simp add: legal_event_def)
    have "\<exists>w2. bind_result
          (Acceptor_incomingHandler t (ev_accept a) (ev_addr a) (ev_channel a) (ev_garbage a) (sr_sys w1))
          (\<lambda>s. Inr (w1\<lparr>sr_sys := s,
             sr_target := (if 0 \<le> ev_accept a then (sr_target w1)(ev_channel a \<mapsto> ConnTarget (ev_addr a))
                           else sr_target w1)\<rparr>)) = Inr w2
        \<and> run_inv t base w2 \<and> own_target w2 ch \<and> no_dead (sr_sys w2)
        \<and> sr_finished w2 = sr_finished w1 \<and> (\<forall>ch'. ok_target w1 ch' \<longrightarrow> ok_target w2 ch')"
      if w1: "w1 = set_main_channel ch (\<lambda>c. c\<lparr>ch_handlingEvent := True\<rparr>) v" "run_inv t base w1" for w1
    proof (rule accept_event_ok [OF w1(2)])
      show "own_target w1 ch" "no_dead (sr_sys w1)" using o v(2) w1(1) by simp_all
      show "0 \<le> ev_accept a \<longrightarrow> fresh (ev_addr a) (ev_channel a) (ev_accept a) (sr_sys w1) \<and> ev_accept a + 2 < 2 ^ 31"
        using lg fresh_touch [OF o v(1)] w1(1) by blast
    qed
    note read = this
    have "\<exists>w'. Channel_handleEvent (main_channel ch) (set_main_channel ch) (acceptor_callbacks a t) now v = Inr w'
        \<and> run_inv t base w' \<and> no_dead (sr_sys w') \<and> sr_finished w' = sr_finished v
        \<and> (\<forall>ch'. ok_target v ch' \<longrightarrow> ok_target w' ch')"
      unfolding acceptor_callbacks_def by (rule own_event [OF v(1) o v(2)], rule read)
    then show ?thesis using run AcceptorTarget v(3,6) by auto
  qed
qed

section \<open>Polling and handling the active channels\<close>

definition legal_poll :: "Poller \<Rightarrow> (int \<times> 16 word list) option \<Rightarrow> bool" where
  "legal_poll p answer \<longleftrightarrow> (case answer of None \<Rightarrow> True | Some (n, revents) \<Rightarrow> poll_answer p n revents)"

definition polled :: "Poller \<Rightarrow> nat list \<Rightarrow> Timestamp \<Rightarrow> server_run \<Rightarrow> server_run" where
  "polled p active now w =
     set_main_loop ((main_loop (sr_sys w))\<lparr>el_poller := p, el_activeChannels := active, el_pollReturnTime := now\<rparr>) w"

lemma polled_inv:
  assumes inv: "run_inv t base w" and p: "poller_inv p" "po_thread p = t"
    "po_channels p = po_channels (el_poller (main_loop (sr_sys w)))"
    "\<And>ch. quiet (po_objs (el_poller (main_loop (sr_sys w))) ch) (po_objs p ch)"
  shows "run_inv t base (polled p active now w)"
  unfolding polled_def
  using server_inv_fixed [OF run_inv_server [OF inv]] inv p
  by (intro run_inv_quiet) (simp_all add: server_fixed_def loop_ok_def run_inv_def)

lemma ok_target_polled [simp]: "ok_target (polled p active now w) = ok_target w"
  by (simp add: polled_def ok_target_def live_def fun_eq_iff)

lemma registered_ok_target:
  assumes inv: "run_inv t base w" and reg: "registered (el_poller (main_loop (sr_sys w))) ch"
    and ev: "channel_events (el_poller (main_loop (sr_sys w))) ch \<noteq> 0"
  shows "ok_target w ch"
proof -
  have tg: "sr_target w ch \<noteq> None"
    using reg inv unfolding run_inv_def registered_def by (auto split: option.splits)
  have "live b (sr_sys w)" if "sr_target w ch = Some (ConnTarget b)" for b
  proof -
    obtain k c where c: "ss_conns (sr_sys w) b = Some (k, c)" "cn_channel c = ch"
      using inv \<open>sr_target w ch = _\<close> unfolding run_inv_def by blast
    then show ?thesis
      using active_opened [OF run_inv_server [OF inv] c(1)] reg ev opened_live [OF c(1)] by simp
  qed
  then show ?thesis using tg by (simp add: ok_target_def)
qed

lemma poll_ok:
  assumes inv: "run_inv t base w" and legal: "legal_poll (el_poller (main_loop (sr_sys w))) answer"
  shows "\<exists>p active. Poller_poll answer now (el_poller (main_loop (sr_sys w))) [] = Inr (now, p, active)
    \<and> run_inv t base (polled p active now w) \<and> distinct active \<and> (\<forall>ch \<in> set active. ok_target w ch)"
proof (cases answer)
  case None
  have "loop_ok t (main_loop (sr_sys w))"
    using server_inv_fixed [OF run_inv_server [OF inv]] by (simp add: server_fixed_def)
  then show ?thesis using None polled_inv [OF inv] by (simp add: Poller_poll_def loop_ok_def)
next
  case (Some nr)
  obtain n revents where nr: "nr = (n, revents)" by (cases nr)
  define p where "p = el_poller (main_loop (sr_sys w))"
  define q where "q = answered p revents"
  have p: "poller_inv p" "po_thread p = t"
    using server_inv_fixed [OF run_inv_server [OF inv]] by (simp_all add: server_fixed_def loop_ok_def p_def)
  have ans: "poll_answer p n revents" using legal Some nr by (simp add: legal_poll_def p_def)
  note act = answered_active [OF p(1) ans q_def]
  define A where "A = filter active_pfd (po_fds q)"
  define active where "active = map (\<lambda>pfd. the (po_channels q (pfd_fd pfd))) A"
  obtain p' where p': "fillActive (po_fds q) n q [] = Inr (p', active)" "revents_set q (po_fds q) p'"
    using fillActive_all [of "po_fds q" q "[]"] act by (auto simp: A_def active_def)
  have qi: "poller_inv q" using answered_inv [OF p(1)] ans by (simp add: q_def poll_answer_def)
  have q: "po_channels q = po_channels p" "po_objs q = po_objs p" "po_thread q = t"
    using p(2) by (simp_all add: q_def answered_def)
  have run: "Poller_poll answer now p [] = Inr (now, p', active)"
    using Some nr p'(1) act(3) poll_run [of n revents now p "[]"] by (simp add: q_def)
  have "quiet (po_objs p ch) (po_objs p' ch)" for ch using p'(2) q(2) by (auto simp: revents_set_def quiet_def)
  then have i: "run_inv t base (polled p' active now w)"
    using polled_inv [OF inv revents_inv [OF qi p'(2)]] p'(2) q by (simp add: p_def revents_set_def)
  have tg: "\<exists>ch c. pfd_target q pfd ch c \<and> 0 \<le> pfd_fd pfd" if "pfd \<in> set A" for pfd
    using act(1) that by (auto simp: A_def)
  have "inj_on (\<lambda>pfd. the (po_channels q (pfd_fd pfd))) (set A)"
  proof (rule inj_onI)
    fix x y assume xy: "x \<in> set A" "y \<in> set A" "the (po_channels q (pfd_fd x)) = the (po_channels q (pfd_fd y))"
    then have "pfd_fd x = pfd_fd y" using tg [OF xy(1)] tg [OF xy(2)] by (auto simp: pfd_target_def)
    moreover have "inj_on pfd_fd (set A)" using act(2) by (simp add: A_def distinct_map)
    ultimately show "x = y" using xy by (auto dest: inj_onD)
  qed
  moreover have "distinct A" using act(2) by (simp add: A_def distinct_map)
  ultimately have "distinct active" by (simp add: active_def distinct_map)
  moreover have "ok_target w ch" if ch: "ch \<in> set active" for ch
  proof -
    obtain pfd where pfd: "pfd \<in> set A" "ch = the (po_channels q (pfd_fd pfd))" using ch by (auto simp: active_def)
    obtain c where c: "po_channels q (pfd_fd pfd) = Some ch" "po_objs q ch = Some c" "ch_fd c = pfd_fd pfd" "0 \<le> pfd_fd pfd"
      using tg [OF pfd(1)] pfd(2) by (auto simp: pfd_target_def)
    have reg: "registered q ch" using c by (simp add: registered_def)
    obtain i where i: "i < length (po_fds q)" "pfd = po_fds q ! i" using pfd(1) by (auto simp: A_def in_set_conv_nth)
    obtain ch' c' where sl: "slot q i ch' c'" using poller_inv_entry [OF qi i(1)] .
    then have "ch_fd c' = pfd_fd pfd" using c(4) i(2) by (auto simp: slot_def pfd_owner_def split: if_splits)
    then have "ch' = ch" using sl c(1) by (simp add: slot_def)
    then have "c' = c" "ch_events c \<noteq> 0" using sl c(2,4) i(2) by (auto simp: slot_def)
    then have "channel_events p ch \<noteq> 0" using c(2) q(2) by (simp add: channel_events_def)
    moreover have "registered p ch" using reg q by (simp add: registered_def cong: option.case_cong)
    ultimately show ?thesis using registered_ok_target [OF inv] by (simp add: p_def)
  qed
  ultimately show ?thesis using run i by (auto simp: p_def)
qed

text \<open>The events of one iteration are legal, each in the state in which it is handled.\<close>

fun legal_events ::
  "(nat \<Rightarrow> event_answers) \<Rightarrow> nat \<Rightarrow> Timestamp \<Rightarrow> nat list \<Rightarrow> server_run \<Rightarrow> bool" where
  "legal_events ans me now [] w = True"
| "legal_events ans me now (ch # chs) w \<longleftrightarrow> legal_event (ans (sr_events w)) now ch w
     \<and> (case run_event ans me ch now w of Inl e \<Rightarrow> True | Inr w \<Rightarrow> legal_events ans me now chs w)"

text \<open>The parser stops in one of the events, the first that ends in an error.\<close>

fun stops_events ::
  "(nat \<Rightarrow> event_answers) \<Rightarrow> nat \<Rightarrow> Timestamp \<Rightarrow> nat list \<Rightarrow> server_run \<Rightarrow> cpp_error \<Rightarrow> bool" where
  "stops_events ans me now [] w e = False"
| "stops_events ans me now (ch # chs) w e \<longleftrightarrow>
     (case run_event ans me ch now w of
        Inl e' \<Rightarrow> e' = e \<and> stops_event (ans (sr_events w)) now ch w e
      | Inr w \<Rightarrow> stops_events ans me now chs w e)"

lemma on_loop_pair [simp]:
  "on_loop f (w, l) = bind_result (f (set_main_loop l w)) (\<lambda>w. Inr (w, main_loop (sr_sys w)))"
  by (simp add: on_loop_def)

lemma handle_active_run:
  assumes "run_inv t base (set_main_loop l w)" "no_dead (sr_sys w)" "distinct chs"
    "\<forall>ch \<in> set chs. ok_target (set_main_loop l w) ch" "legal_events ans t now chs (set_main_loop l w)"
  shows "(\<exists>e. handle_active (\<lambda>ch now. on_loop (run_event ans t ch now)) now chs (w, l) = Inl e
        \<and> stops_events ans t now chs (set_main_loop l w) e)
    \<or> (\<exists>w' l'. handle_active (\<lambda>ch now. on_loop (run_event ans t ch now)) now chs (w, l) = Inr (w', l')
        \<and> run_inv t base (set_main_loop l' w') \<and> no_dead (sr_sys w') \<and> sr_finished w' = sr_finished w)"
  using assms
proof (induction chs arbitrary: w l)
  case Nil
  then show ?case by auto
next
  case (Cons ch chs)
  let ?w = "set_main_loop l w"
  have nd: "no_dead (sr_sys ?w)" using Cons.prems(2) by (simp add: no_dead_def)
  consider e where "run_event ans t ch now ?w = Inl e" "stops_event (ans (sr_events ?w)) now ch ?w e"
    | w1 where "run_event ans t ch now ?w = Inr w1" "run_inv t base w1" "no_dead (sr_sys w1)"
      "sr_finished w1 = sr_finished w" "\<And>ch'. ch' \<noteq> ch \<Longrightarrow> ok_target ?w ch' \<Longrightarrow> ok_target w1 ch'"
    using run_event_ok [OF Cons.prems(1) nd, of ch ans now] Cons.prems(4,5) by auto
  then show ?case
  proof cases
    case (1 e)
    then show ?thesis by simp
  next
    case w1: (2 w1)
    have "\<forall>ch' \<in> set chs. ok_target w1 ch'"
    proof
      fix ch' assume "ch' \<in> set chs"
      then have "ch' \<noteq> ch" "ok_target ?w ch'" using Cons.prems(3,4) by auto
      then show "ok_target w1 ch'" by (rule w1(5))
    qed
    moreover have "legal_events ans t now chs w1" using Cons.prems(5) w1(1) by simp
    ultimately show ?thesis
      using Cons.IH [of "main_loop (sr_sys w1)" w1] w1(1-4) Cons.prems(3) by simp
  qed
qed

section \<open>Functors\<close>

text \<open>Functors that are waiting in front of the queue.\<close>

definition add_front :: "server_task list \<Rightarrow> server_task EventLoop \<Rightarrow> server_task EventLoop" where
  "add_front fs l = l\<lparr>el_unprocessedFunctors := fs @ el_unprocessedFunctors l\<rparr>"

definition front :: "server_task list \<Rightarrow> server_system \<Rightarrow> server_system" where
  "front fs s = set_loop (ts_loop (ss_server s)) (add_front fs (main_loop s)) s"

lemma updateChannel_front:
  "EventLoop_updateChannel me ch (add_front fs l) = map_sum id (add_front fs) (EventLoop_updateChannel me ch l)"
  by (simp add: EventLoop_updateChannel_def add_front_def EventLoop_assertInLoopThread_def EventLoop_isInLoopThread_def
      deref_def assert_that_def bind_result_def split: option.split sum.split)

lemma removeChannel_front:
  "EventLoop_removeChannel me ch (add_front fs l) = map_sum id (add_front fs) (EventLoop_removeChannel me ch l)"
  by (simp add: EventLoop_removeChannel_def add_front_def EventLoop_assertInLoopThread_def EventLoop_isInLoopThread_def
      deref_def assert_that_def bind_result_def split: option.split sum.split)

lemma Channel_change_front:
  "Channel_change f me ch (add_front fs l) = map_sum id (add_front fs) (Channel_change f me ch l)"
proof -
  have "add_front fs l\<lparr>el_poller := p\<rparr> = add_front fs (l\<lparr>el_poller := p\<rparr>)" for p by (simp add: add_front_def)
  then have "EventLoop_updateChannel me ch (add_front fs l\<lparr>el_poller := p\<rparr>) =
      map_sum id (add_front fs) (EventLoop_updateChannel me ch (l\<lparr>el_poller := p\<rparr>))" for p
    by (simp add: updateChannel_front)
  moreover have "el_poller (add_front fs l) = el_poller l" by (simp add: add_front_def)
  ultimately show ?thesis by (simp add: Channel_change_def deref_def bind_result_def split: option.split)
qed

lemma bind_map: "bind_result (map_sum id g m) f = bind_result m (\<lambda>x. f (g x))"
  by (cases m) (simp_all add: bind_result_def)

lemma map_bind: "map_sum id g (bind_result m h) = bind_result m (\<lambda>x. map_sum id g (h x))"
  by (cases m) (simp_all add: bind_result_def)

lemmas bind_map_sum = bind_map map_bind

lemma add_front_simps [simp]:
  "el_threadId (add_front fs l) = el_threadId l"
  "EventLoop_assertInLoopThread me (add_front fs l) = EventLoop_assertInLoopThread me l"
  by (simp_all add: add_front_def EventLoop_assertInLoopThread_def EventLoop_isInLoopThread_def)

lemma onConnection_front:
  "HttpServer_onConnection (e, add_front fs l) = map_sum id (apsnd (add_front fs)) (HttpServer_onConnection (e, l))"
  by (simp add: HttpServer_onConnection_def upd_conn_def)

lemma conn_change_front:
  "conn_change f me (e, add_front fs l) = map_sum id (apsnd (add_front fs)) (conn_change f me (e, l))"
  by (simp add: conn_change_def Channel_change_front bind_map_sum)

lemma establish_front:
  "TcpConnection_establishConnection me HttpServer_onConnection (e, add_front fs l) =
     map_sum id (apsnd (add_front fs)) (TcpConnection_establishConnection me HttpServer_onConnection (e, l))"
proof -
  have "HttpServer_onConnection (apsnd (add_front fs) s) = map_sum id (apsnd (add_front fs)) (HttpServer_onConnection s)"
    for s :: "server_task conn_state"
    by (cases s) (simp add: onConnection_front)
  then show ?thesis
    by (simp add: TcpConnection_establishConnection_def upd_conn_def conn_change_front bind_map_sum)
qed

lemma destroy_front:
  "TcpConnection_destroyConnection me HttpServer_onConnection (e, add_front fs l) =
     map_sum id (apsnd (add_front fs)) (TcpConnection_destroyConnection me HttpServer_onConnection (e, l))"
proof -
  have "HttpServer_onConnection (apsnd (add_front fs) s) = map_sum id (apsnd (add_front fs)) (HttpServer_onConnection s)"
    for s :: "server_task conn_state"
    by (cases s) (simp add: onConnection_front)
  then show ?thesis
    by (simp add: TcpConnection_destroyConnection_def upd_conn_def conn_change_front bind_map_sum removeChannel_front)
qed

lemma with_conn_front:
  assumes f: "\<And>e l. f (e, add_front fs l) = map_sum id (apsnd (add_front fs)) (f (e, l))"
    and at: "ss_conns s a = Some (ts_loop (ss_server s), c)"
  shows "with_conn a f (front fs s) = map_sum id (front fs) (with_conn a f s)"
  using at
  by (simp add: with_conn_def front_def set_loop_def f bind_map_sum case_prod_unfold)

lemma run_task_front:
  assumes "ss_conns s a = Some (ts_loop (ss_server s), c)" "f = EstablishTask a \<or> f = DestroyTask a"
  shows "run_server_task me n f (front fs s) = map_sum id (front fs) (run_server_task me n f s)"
  using assms with_conn_front [OF establish_front [of me] assms(1)] with_conn_front [OF destroy_front [of me] assms(1)]
  by (auto simp: run_server_task_def)

text \<open>These functors do not queue others.\<close>

lemma updateChannel_queue:
  "EventLoop_updateChannel me ch l = Inr l' \<Longrightarrow> el_unprocessedFunctors l' = el_unprocessedFunctors l"
  by (auto simp: EventLoop_updateChannel_def bind_result_eq_Inr)

lemma removeChannel_queue:
  "EventLoop_removeChannel me ch l = Inr l' \<Longrightarrow> el_unprocessedFunctors l' = el_unprocessedFunctors l"
  by (auto simp: EventLoop_removeChannel_def bind_result_eq_Inr)

lemma conn_change_queue:
  "conn_change f me s = Inr s' \<Longrightarrow> el_unprocessedFunctors (the_loop s') = el_unprocessedFunctors (the_loop s)"
  by (auto simp: conn_change_def Channel_change_def bind_result_eq_Inr dest!: updateChannel_queue)

lemma onConnection_queue: "HttpServer_onConnection s = Inr s' \<Longrightarrow> the_loop s' = the_loop s"
  by (auto simp: HttpServer_onConnection_def upd_conn_def split: if_splits)

lemma establish_queue:
  "TcpConnection_establishConnection me HttpServer_onConnection s = Inr s' \<Longrightarrow>
     el_unprocessedFunctors (the_loop s') = el_unprocessedFunctors (the_loop s)"
  by (auto simp: TcpConnection_establishConnection_def bind_result_eq_Inr upd_conn_def
      dest!: conn_change_queue onConnection_queue)

lemma destroy_queue:
  "TcpConnection_destroyConnection me HttpServer_onConnection s = Inr s' \<Longrightarrow>
     el_unprocessedFunctors (the_loop s') = el_unprocessedFunctors (the_loop s)"
  by (auto simp: TcpConnection_destroyConnection_def bind_result_eq_Inr upd_conn_def
      dest!: conn_change_queue onConnection_queue removeChannel_queue)

lemma with_conn_queue:
  assumes "with_conn a f s = Inr s'" "ss_conns s a = Some (ts_loop (ss_server s), c)"
    "\<And>x y. f x = Inr y \<Longrightarrow> el_unprocessedFunctors (the_loop y) = el_unprocessedFunctors (the_loop x)"
  shows "el_unprocessedFunctors (main_loop s') = el_unprocessedFunctors (main_loop s)"
  using assms by (auto simp: with_conn_def bind_result_eq_Inr set_loop_def dest!: assms(3))

lemma run_task_queue:
  assumes "run_server_task me n f s = Inr s'" "ss_conns s a = Some (ts_loop (ss_server s), c)"
    "f = EstablishTask a \<or> f = DestroyTask a"
  shows "el_unprocessedFunctors (main_loop s') = el_unprocessedFunctors (main_loop s)"
  using assms(3,1) with_conn_queue [OF _ assms(2) establish_queue [of me]]
    with_conn_queue [OF _ assms(2) destroy_queue [of me]]
  by (auto simp: run_server_task_def)

lemma run_inv_room:
  assumes inv: "run_inv t base w"
  shows "length (po_fds (el_poller (main_loop (sr_sys w)))) + 1 < 2 ^ 31"
proof -
  let ?p = "el_poller (main_loop (sr_sys w))"
  have p: "poller_inv ?p"
    using server_inv_fixed [OF run_inv_server [OF inv]] by (simp add: server_fixed_def loop_ok_def)
  have "pfd_owner pfd \<in> {0..<2 ^ 31 - 2}" if pfd: "pfd \<in> set (po_fds ?p)" for pfd
  proof -
    obtain i where "i < length (po_fds ?p)" "pfd = po_fds ?p ! i" using pfd by (auto simp: in_set_conv_nth)
    then obtain ch c where c: "slot ?p i ch c" "pfd_owner pfd = ch_fd c"
      using poller_inv_entry [OF p] by (metis slot_def)
    then have "po_channels ?p (ch_fd c) = Some ch" "0 \<le> ch_fd c" by (simp_all add: slot_def)
    moreover from server_inv_fds [OF run_inv_server [OF inv] this(1)]
    have "ch_fd c \<in> ss_fds (sr_sys w)" .
    then have "ch_fd c + 2 < 2 ^ 31" using inv unfolding run_inv_def by blast
    ultimately show ?thesis using c(2) by simp
  qed
  then have "set (map pfd_owner (po_fds ?p)) \<subseteq> {0..<2 ^ 31 - 2}" by auto
  then have "card (set (map pfd_owner (po_fds ?p))) \<le> card {0..<2 ^ 31 - 2 :: int}" by (intro card_mono) simp_all
  then show ?thesis using distinct_card [OF owners_distinct [OF p]] by simp
qed

text \<open>The destroyed connections are those whose functor has run, each once.\<close>

definition destroyed_by :: "server_task list \<Rightarrow> nat list" where
  "destroyed_by fs = concat (map (\<lambda>f. case f of DestroyTask a \<Rightarrow> [a] | _ \<Rightarrow> []) fs)"

definition gone_are :: "nat list \<Rightarrow> server_system \<Rightarrow> bool" where
  "gone_are as s \<longleftrightarrow> distinct as \<and> (\<forall>a \<in> set as. ss_conns s a \<noteq> None)
     \<and> (\<forall>b k c. ss_conns s b = Some (k, c) \<longrightarrow> (cn_state c = DISCONNECTED \<longleftrightarrow> b \<in> set as))"

lemma destroyed_by_simps [simp]:
  "destroyed_by [] = []" "destroyed_by (fs @ gs) = destroyed_by fs @ destroyed_by gs"
  "destroyed_by (DestroyTask a # fs) = a # destroyed_by fs"
  "destroyed_by (EstablishTask a # fs) = destroyed_by fs"
  by (simp_all add: destroyed_by_def)

lemma gone_are_step:
  assumes gone: "gone_are as s" and st: "step_of a s s'" and c: "ss_conns s' a = Some (l, c)"
    and f: "a \<notin> set as" "as' = (if cn_state c = DISCONNECTED then as @ [a] else as)"
  shows "gone_are as' s'"
proof -
  have other: "ss_conns s' b = ss_conns s b" if "b \<noteq> a" for b using st that by (simp add: step_of_def)
  have "distinct as'" using gone f by (simp add: gone_are_def)
  moreover have "\<forall>b \<in> set as'. ss_conns s' b \<noteq> None"
  proof
    fix b assume "b \<in> set as'"
    then show "ss_conns s' b \<noteq> None"
      using gone f c other [of b] by (cases "b = a") (auto simp: gone_are_def split: if_splits)
  qed
  moreover have "cn_state d = DISCONNECTED \<longleftrightarrow> b \<in> set as'" if b: "ss_conns s' b = Some (k, d)" for b k d
  proof (cases "b = a")
    case True
    then show ?thesis using b c f by simp
  next
    case False
    then have "ss_conns s b = Some (k, d)" using b other by simp
    then show ?thesis using gone f False by (auto simp: gone_are_def)
  qed
  ultimately show ?thesis by (simp add: gone_are_def)
qed

lemma functor_front:
  assumes inv: "run_inv t base (set_main_loop (add_front (f # fs) l) w)"
    and gone: "gone_are (destroyed_by (sr_finished w)) (sr_sys w)"
  shows "\<exists>w2 l2. on_loop (run_functor t n f) (w, l) = Inr (w2, l2)
    \<and> run_inv t base (set_main_loop (add_front fs l2) w2) \<and> gone_are (destroyed_by (sr_finished w2)) (sr_sys w2)
    \<and> el_unprocessedFunctors l2 = el_unprocessedFunctors l"
proof -
  let ?W = "set_main_loop (add_front (f # fs) l) w" and ?R = "set_main_loop l w"
  let ?v = "sr_sys ?W" and ?s = "sr_sys ?R"
  have q: "el_unprocessedFunctors (main_loop ?v) = f # (fs @ el_unprocessedFunctors l)" by (simp add: add_front_def)
  have pop: "pop_task (fs @ el_unprocessedFunctors l) ?v = front fs ?s"
    by (simp add: pop_task_def front_def set_main_loop_def set_loop_def add_front_def)
  note si = run_inv_server [OF inv]
  obtain s' a l' c' where s': "run_server_task t n f (front fs ?s) = Inr s'" "server_inv t None s'" "step_of a ?v s'"
      "ss_conns s' a = Some (l', c')"
      "f = EstablishTask a \<and> established c' \<or> f = DestroyTask a \<and> cn_state c' = DISCONNECTED"
    using queue_run [OF si q run_inv_room [OF inv], of n] unfolding pop by blast
  obtain k c where c: "ss_conns ?v a = Some (k, c)" using s'(3) unfolding step_of_def by blast
  then have at: "ss_conns ?s a = Some (ts_loop (ss_server ?s), c)" using server_invD(1) [OF si c] by simp
  have fa: "f = EstablishTask a \<or> f = DestroyTask a" using s'(5) by blast
  from run_task_front [OF at this, of t n fs] have "map_sum id (front fs) (run_server_task t n f ?s) = Inr s'"
    unfolding s'(1) by (rule sym)
  then obtain s2 where s2: "run_server_task t n f ?s = Inr s2" "s' = front fs s2"
    by (cases "run_server_task t n f ?s") auto
  let ?w2 = "?R\<lparr>sr_sys := s2, sr_finished := sr_finished w @ [f]\<rparr>"
  have "set_main_loop (add_front fs (main_loop s2)) ?w2 = ?W\<lparr>sr_sys := s', sr_finished := sr_finished w @ [f]\<rparr>"
    by (simp add: s2(2) set_main_loop_def front_def)
  then have "run_inv t base (set_main_loop (add_front fs (main_loop s2)) ?w2)"
    using run_inv_step [OF inv s'(3,2)] by simp
  moreover have "gone_are (destroyed_by (sr_finished ?w2)) s2"
  proof -
    have g: "gone_are (destroyed_by (sr_finished w)) ?v" using gone by (simp add: gone_are_def)
    have mem: "f \<in> set (el_unprocessedFunctors (main_loop ?v))" unfolding q by (rule list.set_intros(1))
    have "cn_state c \<noteq> DISCONNECTED"
    proof (cases "f = DestroyTask a")
      case True
      then have "DestroyTask a \<in> set (el_unprocessedFunctors (main_loop ?v))" using mem by (simp only:)
      then obtain x where "closing t (main_loop ?v) (ts_connections (ss_server ?v)) a c x"
        by (rule closing_of [OF si c])
      then show ?thesis by (auto simp: closing_def established_def)
    next
      case False
      then have "f = EstablishTask a" using s'(5) by blast
      then have "EstablishTask a \<in> set (el_unprocessedFunctors (main_loop ?v))" using mem by (simp only:)
      then obtain x where "waiting (main_loop ?v) (ts_connections (ss_server ?v)) a c x"
        by (rule waiting_of [OF si c])
      from waiting_state [OF this] show ?thesis by simp
    qed
    then have "a \<notin> set (destroyed_by (sr_finished w))" using g c unfolding gone_are_def by blast
    moreover have "destroyed_by (sr_finished ?w2) =
        (if cn_state c' = DISCONNECTED then destroyed_by (sr_finished w) @ [a] else destroyed_by (sr_finished w))"
      using s'(5) by (auto simp: established_def)
    ultimately have "gone_are (destroyed_by (sr_finished ?w2)) s'" using gone_are_step [OF g s'(3,4)] by blast
    then show ?thesis by (simp add: gone_are_def s2(2) front_def set_loop_def)
  qed
  moreover have "on_loop (run_functor t n f) (w, l) = Inr (?w2, main_loop s2)"
    using s2(1) by (simp add: run_functor_def)
  moreover have "el_unprocessedFunctors (main_loop s2) = el_unprocessedFunctors l"
    using run_task_queue [OF s2(1) at fa] by simp
  ultimately show ?thesis by (intro exI [of _ ?w2] exI [of _ "main_loop s2"]) simp
qed

lemma run_functors_run:
  assumes "run_inv t base (set_main_loop (add_front fs l) w)" "gone_are (destroyed_by (sr_finished w)) (sr_sys w)"
  shows "\<exists>w' l'. run_functors (\<lambda>f. on_loop (run_functor t n f)) fs (w, l) = Inr (w', l')
    \<and> run_inv t base (set_main_loop l' w') \<and> gone_are (destroyed_by (sr_finished w')) (sr_sys w')
    \<and> el_unprocessedFunctors l' = el_unprocessedFunctors l"
  using assms
proof (induction fs arbitrary: w l)
  case Nil
  then show ?case by (auto simp: add_front_def)
next
  case (Cons f fs)
  obtain w2 l2 where w2: "on_loop (run_functor t n f) (w, l) = Inr (w2, l2)"
      "run_inv t base (set_main_loop (add_front fs l2) w2)" "gone_are (destroyed_by (sr_finished w2)) (sr_sys w2)"
      "el_unprocessedFunctors l2 = el_unprocessedFunctors l"
    using functor_front [OF Cons.prems] by blast
  from Cons.IH [OF w2(2,3)] show ?case using w2(1,4) by (simp del: on_loop_pair)
qed

text \<open>\<open>processFunctors\<close> takes the queue; the waiting functors and the new queue are the old queue.\<close>

lemma processFunctors_run:
  assumes inv: "run_inv t base (set_main_loop l w)" and fin: "sr_finished w = []" and nd: "no_dead (sr_sys w)"
  shows "\<exists>w' l'. EventLoop_processFunctors (\<lambda>f. on_loop (run_functor t n f)) (w, l) = Inr (w', l')
    \<and> run_inv t base (set_main_loop l' w') \<and> gone_are (destroyed_by (sr_finished w')) (sr_sys w')
    \<and> el_unprocessedFunctors l' = []"
proof -
  let ?fs = "el_unprocessedFunctors l" and ?l = "l\<lparr>el_processingFunctors := True, el_unprocessedFunctors := []\<rparr>"
  have "loop_ok t l" "\<not> el_quit l"
    using server_inv_fixed [OF run_inv_server [OF inv]] inv by (simp_all add: server_fixed_def run_inv_def)
  then have "run_inv t base (set_main_loop (add_front ?fs ?l) (set_main_loop l w))"
    by (intro run_inv_quiet [OF inv]) (simp_all add: add_front_def loop_ok_def)
  moreover have "gone_are (destroyed_by (sr_finished w)) (sr_sys w)" using fin nd by (auto simp: gone_are_def no_dead_def)
  ultimately obtain w' l' where w': "run_functors (\<lambda>f. on_loop (run_functor t n f)) ?fs (w, ?l) = Inr (w', l')"
      "run_inv t base (set_main_loop l' w')" "gone_are (destroyed_by (sr_finished w')) (sr_sys w')"
      "el_unprocessedFunctors l' = []"
    using run_functors_run [of t base ?fs ?l w n] by auto
  have "loop_ok t l'" "\<not> el_quit l'"
    using server_inv_fixed [OF run_inv_server [OF w'(2)]] w'(2) by (simp_all add: server_fixed_def run_inv_def)
  then have "run_inv t base (set_main_loop (l'\<lparr>el_processingFunctors := False\<rparr>) (set_main_loop l' w'))"
    by (intro run_inv_quiet [OF w'(2)]) (simp_all add: loop_ok_def)
  then show ?thesis
    using w'(1,3,4) by (simp add: EventLoop_processFunctors_def EventLoop_takeFunctors_def)
qed

section \<open>The end of an iteration\<close>

lemma dead_destroyed:
  assumes inv: "server_inv t None s" and at: "ss_conns s a = Some (l, c)" and dead: "cn_state c = DISCONNECTED"
  obtains x where "po_objs (el_poller (main_loop s)) (cn_channel c) = Some x" "ch_fd x = conn_fd c"
    "destroyed (main_loop s) (ts_connections (ss_server s)) a c"
proof -
  obtain x where x: "po_objs (el_poller (main_loop s)) (cn_channel c) = Some x" "ch_fd x = conn_fd c"
      "phase_ok t False (main_loop s) (ts_connections (ss_server s)) a c x"
    using server_invD(4) [OF inv at] by (auto simp: conn_good_def)
  have "\<not> waiting (main_loop s) (ts_connections (ss_server s)) a c x" using dead waiting_state by fastforce
  then have "destroyed (main_loop s) (ts_connections (ss_server s)) a c"
    using x(3) dead by (auto simp: phase_ok_def opened_def closing_def established_def)
  then show thesis using that x(1,2) by blast
qed

lemma released:
  assumes at: "ss_conns s a = Some (l, c)" and fd: "0 \<le> conn_fd c" and run: "release_conn a s = Inr s'"
  shows "ss_conns s' = (ss_conns s)(a := None)" "ss_fds s' = ss_fds s - {conn_fd c}" "ss_server s' = ss_server s"
    "po_channels (el_poller (main_loop s')) = po_channels (el_poller (main_loop s))"
    "el_quit (main_loop s') = el_quit (main_loop s)"
    "el_unprocessedFunctors (main_loop s') = el_unprocessedFunctors (main_loop s)"
proof -
  obtain x where "s' = set_loop l
      ((ss_loops s l)\<lparr>el_poller := (el_poller (ss_loops s l))
         \<lparr>po_objs := (po_objs (el_poller (ss_loops s l)))(cn_channel c := None)\<rparr>\<rparr>)
      (s\<lparr>ss_conns := (ss_conns s)(a := None), ss_fds := Socket_delete 0 (Socket_new (conn_fd c)) (ss_fds s)\<rparr>)"
      "deref (po_objs (el_poller (ss_loops s l))) (cn_channel c) = Inr x"
    using run at by (auto simp: release_conn_def bind_result_eq_Inr)
  moreover have "Socket_delete 0 (Socket_new (conn_fd c)) (ss_fds s) = ss_fds s - {conn_fd c}"
    using fd by (simp add: Socket_delete_def Socket_new_def Close_def)
  ultimately show "ss_conns s' = (ss_conns s)(a := None)" "ss_fds s' = ss_fds s - {conn_fd c}" "ss_server s' = ss_server s"
    "po_channels (el_poller (main_loop s')) = po_channels (el_poller (main_loop s))"
    "el_quit (main_loop s') = el_quit (main_loop s)"
    "el_unprocessedFunctors (main_loop s') = el_unprocessedFunctors (main_loop s)"
    by (simp_all add: set_loop_def)
qed

lemma released_run_inv:
  assumes inv: "run_inv t base w" and at: "ss_conns (sr_sys w) a = Some (l, c)" and dead: "cn_state c = DISCONNECTED"
    and s': "release_conn a (sr_sys w) = Inr s'" "server_inv t None s'"
  shows "run_inv t base (w\<lparr>sr_sys := s', sr_target := (sr_target w)(cn_channel c := None)\<rparr>)"
proof -
  let ?s = "sr_sys w"
  note si = run_inv_server [OF inv]
  obtain x where x: "po_objs (el_poller (main_loop ?s)) (cn_channel c) = Some x" "ch_fd x = conn_fd c"
      "destroyed (main_loop ?s) (ts_connections (ss_server ?s)) a c"
    using dead_destroyed [OF si at dead] .
  have "0 \<le> conn_fd c" using server_invD(4) [OF si at] by (simp add: conn_good_def)
  note e = released [OF at this s'(1)]
  have tc: "sr_target w (cn_channel c) = Some (ConnTarget a)" using inv at unfolding run_inv_def by blast
  have tg: "sr_target w y = Some (ConnTarget b) \<longleftrightarrow> (\<exists>k d. ss_conns ?s b = Some (k, d) \<and> cn_channel d = y)" for b y
    using inv unfolding run_inv_def by blast
  have targets: "((sr_target w)(cn_channel c := None)) y = Some (ConnTarget b) \<longleftrightarrow>
      (\<exists>k d. ss_conns s' b = Some (k, d) \<and> cn_channel d = y)" for b y
  proof (cases "b = a")
    case True
    have "\<not> (sr_target w y = Some (ConnTarget a) \<and> y \<noteq> cn_channel c)" using tg [of y a] at by auto
    then show ?thesis using True e(1) by auto
  next
    case False
    have "cn_channel d \<noteq> cn_channel c" if "ss_conns ?s b = Some (k, d)" for k d
      using server_inv_distinct(2) [OF si that at] False by simp
    then show ?thesis using tg [of y b] False e(1) by auto
  qed
  have own: "\<exists>fd \<in> base. po_channels (el_poller (main_loop s')) fd = Some y"
    if "((sr_target w)(cn_channel c := None)) y = Some z" "\<forall>b. z \<noteq> ConnTarget b" for y z
    using that e(4) inv unfolding run_inv_def by (auto split: if_splits)
  have reg: "((sr_target w)(cn_channel c := None)) y \<noteq> None" if "po_channels (el_poller (main_loop s')) fd = Some y" for fd y
  proof -
    have p: "po_channels (el_poller (main_loop ?s)) fd = Some y" using that e(4) by simp
    moreover have "poller_inv (el_poller (main_loop ?s))"
      using server_inv_fixed [OF si] by (simp add: server_fixed_def loop_ok_def)
    ultimately obtain i d where "slot (el_poller (main_loop ?s)) i y d" "ch_fd d = fd" unfolding poller_inv_def by blast
    then have "y \<noteq> cn_channel c" using x p by (auto simp: slot_def destroyed_def)
    moreover have "sr_target w y \<noteq> None" using p inv unfolding run_inv_def by blast
    ultimately show ?thesis by simp
  qed
  have fds: "y \<in> ss_fds s' \<longleftrightarrow> y \<in> base \<or> (\<exists>b k d. ss_conns s' b = Some (k, d) \<and> conn_fd d = y)" for y
  proof -
    have old: "y \<in> ss_fds ?s \<longleftrightarrow> y \<in> base \<or> (\<exists>b k d. ss_conns ?s b = Some (k, d) \<and> conn_fd d = y)"
      using inv unfolding run_inv_def by blast
    have "conn_fd c \<notin> base" using inv at unfolding run_inv_def by blast
    moreover have "(\<exists>b k d. ss_conns s' b = Some (k, d) \<and> conn_fd d = y) \<longleftrightarrow>
        y \<noteq> conn_fd c \<and> (\<exists>b k d. ss_conns ?s b = Some (k, d) \<and> conn_fd d = y)"
    proof
      assume "\<exists>b k d. ss_conns s' b = Some (k, d) \<and> conn_fd d = y"
      then obtain b k d where b: "ss_conns ?s b = Some (k, d)" "conn_fd d = y" "b \<noteq> a"
        using e(1) by (auto split: if_splits)
      then show "y \<noteq> conn_fd c \<and> (\<exists>b k d. ss_conns ?s b = Some (k, d) \<and> conn_fd d = y)"
        using server_inv_distinct(3) [OF si b(1) at b(3)] by blast
    next
      assume y: "y \<noteq> conn_fd c \<and> (\<exists>b k d. ss_conns ?s b = Some (k, d) \<and> conn_fd d = y)"
      then obtain b k d where b: "ss_conns ?s b = Some (k, d)" "conn_fd d = y" by blast
      then have "b \<noteq> a" using y at by auto
      then show "\<exists>b k d. ss_conns s' b = Some (k, d) \<and> conn_fd d = y" using b e(1) by - (rule exI [of _ b], simp)
    qed
    ultimately show ?thesis using old e(2) by auto
  qed
  have base: "conn_fd d \<notin> base" if "ss_conns s' b = Some (k, d)" for b k d
    using that e(1) inv unfolding run_inv_def by (auto split: if_splits)
  have small: "\<forall>fd \<in> ss_fds s'. fd + 2 < 2 ^ 31" using inv e(2) unfolding run_inv_def by blast
  show ?thesis
    using s'(2) inv targets fds base own reg small e(5) unfolding run_inv_def by simp
qed

lemma drop_destroyed:
  assumes inv: "run_inv t base w" and gone: "gone_are (a # as) (sr_sys w)"
  shows "\<exists>w'. drop_functor (DestroyTask a) w = Inr w' \<and> run_inv t base w' \<and> gone_are as (sr_sys w')
    \<and> el_unprocessedFunctors (main_loop (sr_sys w')) = el_unprocessedFunctors (main_loop (sr_sys w))"
proof -
  let ?s = "sr_sys w"
  note si = run_inv_server [OF inv]
  obtain l c where at: "ss_conns ?s a = Some (l, c)" using gone by (auto simp: gone_are_def)
  then have dead: "cn_state c = DISCONNECTED" using gone by (auto simp: gone_are_def)
  have d: "destroyed (main_loop ?s) (ts_connections (ss_server ?s)) a c"
    by (rule dead_destroyed [OF si at dead])
  have "\<forall>n. ts_connections (ss_server ?s) n \<noteq> Some a"
    using server_inv_map [OF si] at d by (fastforce simp: destroyed_def)
  moreover have "EstablishTask a \<notin> set (el_unprocessedFunctors (main_loop ?s))"
      "DestroyTask a \<notin> set (el_unprocessedFunctors (main_loop ?s))"
    using d by (simp_all add: destroyed_def count_list_0_iff)
  ultimately obtain s' where s': "release_conn a ?s = Inr s'" "server_inv t None s'"
    using release_run [OF si at] by blast
  have "gone_are as s'"
    using gone released(1) [OF at _ s'(1)] server_invD(4) [OF si at] by (auto simp: gone_are_def conn_good_def)
  then show ?thesis
    using released_run_inv [OF inv at dead s'] released(6) [OF at _ s'(1)] server_invD(4) [OF si at] s'(1) at
    by (auto simp: drop_functor_def conn_good_def)
qed

lemma drop_functors_run:
  assumes "run_inv t base w" "gone_are (destroyed_by fs) (sr_sys w)"
  shows "\<exists>w'. drop_functors fs w = Inr w' \<and> run_inv t base w' \<and> no_dead (sr_sys w')
    \<and> el_unprocessedFunctors (main_loop (sr_sys w')) = el_unprocessedFunctors (main_loop (sr_sys w))"
  using assms
proof (induction fs arbitrary: w)
  case Nil
  then show ?case by (auto simp: gone_are_def no_dead_def)
next
  case (Cons f fs)
  show ?case
  proof (cases "\<exists>a. f = DestroyTask a")
    case True
    then obtain a where f: "f = DestroyTask a" by blast
    then obtain w' where w': "drop_functor f w = Inr w'" "run_inv t base w'" "gone_are (destroyed_by fs) (sr_sys w')"
        "el_unprocessedFunctors (main_loop (sr_sys w')) = el_unprocessedFunctors (main_loop (sr_sys w))"
      using drop_destroyed [OF Cons.prems(1), of a "destroyed_by fs"] Cons.prems(2) by auto
    from Cons.IH [OF w'(2,3)] show ?thesis using w'(1,4) by simp
  next
    case False
    then have "drop_functor f w = Inr w" "destroyed_by (f # fs) = destroyed_by fs"
      by (cases f; simp add: drop_functor_def destroyed_by_def)+
    then show ?thesis using Cons.IH Cons.prems by simp
  qed
qed

definition legal_iteration ::
  "(nat \<Rightarrow> event_answers) \<Rightarrow> nat \<Rightarrow> (int \<times> 16 word list) option \<times> Timestamp \<Rightarrow> server_run \<Rightarrow> bool" where
  "legal_iteration ans me input w \<longleftrightarrow> legal_poll (el_poller (main_loop (sr_sys w))) (fst input)
     \<and> (case Poller_poll (fst input) (snd input) (el_poller (main_loop (sr_sys w))) [] of
          Inl e \<Rightarrow> True
        | Inr (now, p, active) \<Rightarrow>
            legal_events ans me now active (polled p active now (w\<lparr>sr_finished := []\<rparr>)))"

definition stops_iteration ::
  "(nat \<Rightarrow> event_answers) \<Rightarrow> nat \<Rightarrow> (int \<times> 16 word list) option \<times> Timestamp \<Rightarrow> server_run \<Rightarrow> cpp_error \<Rightarrow> bool" where
  "stops_iteration ans me input w e \<longleftrightarrow>
     (case Poller_poll (fst input) (snd input) (el_poller (main_loop (sr_sys w))) [] of
        Inl _ \<Rightarrow> False
      | Inr (now, p, active) \<Rightarrow> stops_events ans me now active (polled p active now (w\<lparr>sr_finished := []\<rparr>)) e)"

text \<open>Between two iterations no functor waits and no destroyed connection is left: all are open.\<close>

definition settled :: "server_system \<Rightarrow> bool" where
  "settled s \<longleftrightarrow> el_unprocessedFunctors (main_loop s) = [] \<and> no_dead s"

lemma settled_open:
  assumes inv: "server_inv t None s" and set: "settled s" and at: "ss_conns s b = Some (k, c)"
  shows "opened t (main_loop s) (ts_connections (ss_server s)) b c"
proof -
  have "conn_good t False (main_loop s) (ts_connections (ss_server s)) b c" "cn_state c \<noteq> DISCONNECTED"
    using server_invD(4) [OF inv at] set at by (auto simp: settled_def no_dead_def)
  then show ?thesis
    using set by (auto simp: conn_good_def phase_ok_def waiting_def closing_def destroyed_def settled_def)
qed

lemma iteration_ok:
  assumes inv: "run_inv t base w" and nd: "no_dead (sr_sys w)" and legal: "legal_iteration ans t input w"
  shows "(\<exists>e. server_iteration ans t n input w = Inl e \<and> stops_iteration ans t input w e)
    \<or> (\<exists>w'. server_iteration ans t n input w = Inr w' \<and> run_inv t base w' \<and> settled (sr_sys w'))"
proof -
  obtain answer now where input: "input = (answer, now)" by (cases input)
  let ?v = "w\<lparr>sr_finished := []\<rparr>" and ?p = "el_poller (main_loop (sr_sys w))"
  have v: "run_inv t base ?v" using inv by simp
  have lp: "legal_poll (el_poller (main_loop (sr_sys ?v))) answer" using legal input by (simp add: legal_iteration_def)
  obtain p active where p: "Poller_poll answer now ?p [] = Inr (now, p, active)"
      "run_inv t base (polled p active now ?v)" "distinct active" "\<forall>ch \<in> set active. ok_target ?v ch"
    using poll_ok [OF v lp, of now] by auto
  let ?l = "(main_loop (sr_sys w))\<lparr>el_poller := p, el_activeChannels := active, el_pollReturnTime := now\<rparr>"
  have pol: "polled p active now ?v = set_main_loop ?l ?v" by (simp add: polled_def)
  have ok: "\<forall>ch \<in> set active. ok_target (set_main_loop ?l ?v) ch" using p(4) ok_target_polled [of p active now ?v] pol by simp
  have le: "legal_events ans t now active (set_main_loop ?l ?v)"
    using legal p(1) input pol by (simp add: legal_iteration_def)
  let ?active = "handle_active (\<lambda>ch now. on_loop (run_event ans t ch now)) now active (?v, ?l)"
  consider e where "?active = Inl e" "stops_events ans t now active (set_main_loop ?l ?v) e"
    | w1 l1 where "?active = Inr (w1, l1)" "run_inv t base (set_main_loop l1 w1)" "no_dead (sr_sys w1)" "sr_finished w1 = []"
    using handle_active_run [OF p(2) [unfolded pol] _ p(3) ok le] nd by auto
  then show ?thesis
  proof cases
    case (1 e)
    then have "stops_iteration ans t input w e" using p(1) input pol by (simp add: stops_iteration_def)
    moreover have "server_iteration ans t n input w = Inl e"
      using 1(1) p(1) input by (simp add: server_iteration_def loop_iteration_def)
    ultimately show ?thesis by blast
  next
    case w1: (2 w1 l1)
    obtain w2 l2 where w2: "EventLoop_processFunctors (\<lambda>f. on_loop (run_functor t n f)) (w1, l1) = Inr (w2, l2)"
        "run_inv t base (set_main_loop l2 w2)" "gone_are (destroyed_by (sr_finished w2)) (sr_sys w2)"
        "el_unprocessedFunctors l2 = []"
      using processFunctors_run [OF w1(2,4,3), of n] by blast
    have "gone_are (destroyed_by (sr_finished w2)) (sr_sys (set_main_loop l2 w2))" using w2(3) by (simp add: gone_are_def)
    from drop_functors_run [OF w2(2) this] obtain w' where
      "drop_functors (sr_finished w2) (set_main_loop l2 w2) = Inr w'" "run_inv t base w'" "settled (sr_sys w')"
      using w2(4) by (auto simp: settled_def)
    then show ?thesis
      using p(1) w1(1) w2(1) input by (simp add: server_iteration_def loop_iteration_def)
  qed
qed

lemma stops_events_error: "stops_events ans me now chs w e \<Longrightarrow> e \<in> parser_errors"
  by (induction chs arbitrary: w) (auto split: sum.splits dest: stops_event_error)

lemma stops_iteration_error: "stops_iteration ans me input w e \<Longrightarrow> e \<in> parser_errors"
  by (auto simp: stops_iteration_def split: sum.splits dest: stops_events_error)

section \<open>The loop\<close>

fun legal_run ::
  "(nat \<Rightarrow> event_answers) \<Rightarrow> nat \<Rightarrow> int \<Rightarrow> ((int \<times> 16 word list) option \<times> Timestamp) list \<Rightarrow> server_run \<Rightarrow> bool" where
  "legal_run ans me n [] w = True"
| "legal_run ans me n (input # inputs) w \<longleftrightarrow> legal_iteration ans me input w
     \<and> (case server_iteration ans me n input w of Inl e \<Rightarrow> True | Inr w \<Rightarrow> legal_run ans me n inputs w)"

fun server_iterations ::
  "(nat \<Rightarrow> event_answers) \<Rightarrow> nat \<Rightarrow> int \<Rightarrow> ((int \<times> 16 word list) option \<times> Timestamp) list \<Rightarrow> server_run
    \<Rightarrow> server_run result" where
  "server_iterations ans me n [] w = Inr w"
| "server_iterations ans me n (input # inputs) w =
     bind_result (server_iteration ans me n input w) (server_iterations ans me n inputs)"

text \<open>The run stops in one of its iterations.\<close>

fun stops_run ::
  "(nat \<Rightarrow> event_answers) \<Rightarrow> nat \<Rightarrow> int \<Rightarrow> ((int \<times> 16 word list) option \<times> Timestamp) list \<Rightarrow> server_run
    \<Rightarrow> cpp_error \<Rightarrow> bool" where
  "stops_run ans me n [] w e = False"
| "stops_run ans me n (input # inputs) w e \<longleftrightarrow>
     (case server_iteration ans me n input w of
        Inl e' \<Rightarrow> e' = e \<and> stops_iteration ans me input w e
      | Inr w \<Rightarrow> stops_run ans me n inputs w e)"

lemma stops_run_error: "stops_run ans me n inputs w e \<Longrightarrow> e \<in> parser_errors"
  by (induction inputs arbitrary: w) (auto split: sum.splits dest: stops_iteration_error)

lemma iterations_ok:
  assumes "run_inv t base w" "settled (sr_sys w)" "legal_run ans t n inputs w"
  shows "(\<exists>e. server_iterations ans t n inputs w = Inl e \<and> stops_run ans t n inputs w e
        \<and> server_while ans t n inputs w = Some (Inl e))
    \<or> (\<exists>w'. server_iterations ans t n inputs w = Inr w' \<and> run_inv t base w' \<and> settled (sr_sys w')
        \<and> server_while ans t n inputs w = None)"
  using assms
proof (induction inputs arbitrary: w)
  case Nil
  then show ?case by (simp add: server_while.simps [of ans t n "[]"] run_inv_def)
next
  case (Cons input inputs)
  have q: "\<not> el_quit (main_loop (sr_sys w))" using Cons.prems(1) by (simp add: run_inv_def)
  consider e where "server_iteration ans t n input w = Inl e" "stops_iteration ans t input w e"
    | w1 where "server_iteration ans t n input w = Inr w1" "run_inv t base w1" "settled (sr_sys w1)"
    using iteration_ok [OF Cons.prems(1), of ans input n] Cons.prems(2,3) by (auto simp: settled_def)
  then show ?case
  proof cases
    case (1 e)
    then show ?thesis using q by (simp add: server_while.simps [of ans t n "input # inputs"])
  next
    case w1: (2 w1)
    then have "legal_run ans t n inputs w1" using Cons.prems(3) by simp
    from Cons.IH [OF w1(2,3) this] show ?thesis
      using w1(1) q by (simp add: server_while.simps [of ans t n "input # inputs"])
  qed
qed

end
