(* ===== verification/HydrogenMain.thy ===== *)
theory HydrogenMain
  imports ServerRun Application
begin

text \<open>
  From \<open>main\<close> to the running server: the constructors of the event loop, of the timer queue, of the
  acceptor and of \<^verbatim>\<open>HttpServer\<close>, \<open>run\<close> and \<open>loop\<close>. The answers of the system calls and the addresses of the
  objects are arguments.
\<close>

section \<open>Data\<close>

record HttpServer =
  hs_tcpServer :: TcpServer
  hs_httpCallback :: "(HttpRequest \<Rightarrow> HttpResponse \<Rightarrow> HttpResponse) option"

text \<open>Answers of the system calls at the start, addresses of the loop's channels, uninitialised members.\<close>

record startup =
  st_timerfd :: int
  st_eventfd :: int
  st_socket :: int
  st_bind :: int
  st_listen :: int
  st_timerChannel :: nat
  st_wakenChannel :: nat
  st_acceptorChannel :: nat
  st_garbage :: "nat \<Rightarrow> bool"

section \<open>Constructors\<close>

text \<open>
  The connection and message callbacks that the constructor gives to the server, \<open>onConnection\<close> and
  \<open>onMessage\<close>, are those of \<open>run_server_task\<close> and of \<open>conn_event\<close>.
\<close>

definition HttpServer_new :: "nat \<Rightarrow> nat \<Rightarrow> string \<Rightarrow> nat \<Rightarrow> Acceptor \<Rightarrow> HttpServer" where
  "HttpServer_new loop thread serverName numThreads acceptor =
     \<lparr>hs_tcpServer = TcpServer_new loop thread serverName numThreads acceptor, hs_httpCallback = None\<rparr>"

definition HttpServer_setHttpCallback ::
  "(HttpRequest \<Rightarrow> HttpResponse \<Rightarrow> HttpResponse) \<Rightarrow> HttpServer \<Rightarrow> HttpServer" where
  "HttpServer_setHttpCallback cb s = s\<lparr>hs_httpCallback := Some cb\<rparr>"

definition HttpServer_run :: "nat \<Rightarrow> int \<Rightarrow> server_system \<Rightarrow> server_system result" where
  "HttpServer_run me listen_answer s = TcpServer_run me listen_answer s"

definition TimerQueue_new :: "nat \<Rightarrow> TimerQueue" where
  "TimerQueue_new thread = \<lparr>tq_thread = thread, tq_timers = [], tq_objs = Map.empty, tq_timerfd = None\<rparr>"

definition opened_fd :: "int \<Rightarrow> int set \<Rightarrow> int set" where
  "opened_fd answer fds = (if 0 \<le> answer then insert answer fds else fds)"

text \<open>\<^verbatim>\<open>EventLoop loop;\<close> with its timer queue, and the descriptors afterwards.\<close>

definition main_EventLoop ::
  "startup \<Rightarrow> nat \<Rightarrow> nat \<Rightarrow> int set \<Rightarrow> (server_task EventLoop \<times> TimerQueue \<times> int set) result" where
  "main_EventLoop st me loop fds =
     bind_result
       (EventLoop_new loop me
          [st_timerChannel st \<mapsto> Channel_new loop (st_timerfd st) (st_garbage st 0),
           st_wakenChannel st \<mapsto> Channel_new loop (st_eventfd st) (st_garbage st 1)]
          (st_timerChannel st) (st_wakenChannel st))
       (\<lambda>l. Inr (l, TimerQueue_new me, opened_fd (st_eventfd st) (opened_fd (st_timerfd st) fds)))"

text \<open>\<^verbatim>\<open>HttpServer server(&loop, InetAddr(port), numThreads);\<close> up to the call of \<open>loop\<close>.\<close>

definition main_server ::
  "startup \<Rightarrow> (32 word \<Rightarrow> string option) \<Rightarrow> int \<Rightarrow> int \<Rightarrow> nat \<Rightarrow> nat
    \<Rightarrow> (HttpRequest \<Rightarrow> HttpResponse \<Rightarrow> HttpResponse) \<Rightarrow> server_task EventLoop \<times> TimerQueue \<times> int set
    \<Rightarrow> (server_run \<times> HttpServer) result" where
  "main_server st ntop port numThreads me loop cb = (\<lambda>(l, q, fds).
     bind_result (Acceptor_new loop (st_socket st) (st_bind st) (st_acceptorChannel st) fds) (\<lambda>(ac, fds).
     (let ch = Channel_new loop (so_fd (ac_listenSocket ac)) (st_garbage st 2);
          l = l\<lparr>el_poller := (el_poller l)
                \<lparr>po_objs := (po_objs (el_poller l))(st_acceptorChannel st \<mapsto> ch)\<rparr>\<rparr>;
          name = InetAddr_toString ntop (InetAddr_any (word_of_int port));
          server = HttpServer_setHttpCallback cb (HttpServer_new loop me name (to_size numThreads) ac)
      in bind_result
           (HttpServer_run me (st_listen st)
              \<lparr>ss_server = hs_tcpServer server, ss_loops = (\<lambda>_. l), ss_conns = Map.empty, ss_fds = fds,
               ss_error = None\<rparr>) (\<lambda>s.
         Inr (\<lparr>sr_sys = s,
               sr_target = [st_timerChannel st \<mapsto> TimerTarget, st_wakenChannel st \<mapsto> WakenTarget,
                            st_acceptorChannel st \<mapsto> AcceptorTarget],
               sr_timers = q, sr_httpCallback = the (hs_httpCallback server), sr_events = 0, sr_finished = []\<rparr>,
             server)))))"

definition hydrogen_start ::
  "startup \<Rightarrow> (32 word \<Rightarrow> string option) \<Rightarrow> string list \<Rightarrow> nat \<Rightarrow> nat
    \<Rightarrow> (HttpRequest \<Rightarrow> HttpResponse \<Rightarrow> HttpResponse) \<Rightarrow> int set \<Rightarrow> (server_run \<times> HttpServer) option result" where
  "hydrogen_start st ntop argv me loop cb fds =
     bind_result (main_args argv) (\<lambda>args.
     case args of
       None \<Rightarrow> Inr None
     | Some (port, numThreads) \<Rightarrow>
         bind_result (main_EventLoop st me loop fds) (\<lambda>made.
         bind_result (main_server st ntop port numThreads me loop cb made) (\<lambda>w. Inr (Some w))))"

text \<open>\<open>main\<close>: \<open>None\<close> when it does not return.\<close>

definition hydrogen_main ::
  "startup \<Rightarrow> (32 word \<Rightarrow> string option) \<Rightarrow> string list \<Rightarrow> nat \<Rightarrow> nat
    \<Rightarrow> (HttpRequest \<Rightarrow> HttpResponse \<Rightarrow> HttpResponse) \<Rightarrow> int set
    \<Rightarrow> (nat \<Rightarrow> event_answers) \<Rightarrow> ((int \<times> 16 word list) option \<times> Timestamp) list
    \<Rightarrow> server_run option result option" where
  "hydrogen_main st ntop argv me loop cb fds ans inputs =
     (case hydrogen_start st ntop argv me loop cb fds of
        Inl e \<Rightarrow> Some (Inl e)
      | Inr None \<Rightarrow> Some (Inr None)
      | Inr (Some (w, server)) \<Rightarrow>
          map_option (map_sum id Some) (server_loop ans me (st_listen st) inputs w))"

section \<open>Starting\<close>

text \<open>The system calls of the start succeed, with new descriptors; the objects have different addresses.\<close>

definition startup_ok :: "startup \<Rightarrow> int set \<Rightarrow> bool" where
  "startup_ok st fds \<longleftrightarrow> 0 \<le> st_timerfd st \<and> 0 \<le> st_eventfd st \<and> 0 \<le> st_socket st
     \<and> distinct [st_timerfd st, st_eventfd st, st_socket st]
     \<and> {st_timerfd st, st_eventfd st, st_socket st} \<inter> fds = {}
     \<and> (\<forall>fd \<in> fds \<union> {st_timerfd st, st_eventfd st, st_socket st}. fd + 2 < 2 ^ 31)
     \<and> 0 \<le> st_bind st \<and> 0 \<le> st_listen st
     \<and> distinct [st_timerChannel st, st_wakenChannel st, st_acceptorChannel st]"

lemma new_busy: "ch_events (Channel_enableReading (Channel_new loop fd g)) \<noteq> 0"
  by (simp add: Channel_enableReading_def Channel_new_def READEVENT_def poll_defs)

lemma main_EventLoop_ok:
  assumes ok: "startup_ok st fds"
  shows "\<exists>l. main_EventLoop st me loop fds = Inr (l, TimerQueue_new me, {st_eventfd st, st_timerfd st} \<union> fds)
    \<and> loop_ok me l \<and> el_this l = loop \<and> el_unprocessedFunctors l = [] \<and> \<not> el_quit l \<and> \<not> el_looping l
    \<and> po_channels (el_poller l) = [st_timerfd st \<mapsto> st_timerChannel st, st_eventfd st \<mapsto> st_wakenChannel st]
    \<and> length (po_fds (el_poller l)) = 2 \<and> po_objs (el_poller l) (st_acceptorChannel st) = None"
proof -
  let ?o = "[st_timerChannel st \<mapsto> Channel_new loop (st_timerfd st) (st_garbage st 0),
           st_wakenChannel st \<mapsto> Channel_new loop (st_eventfd st) (st_garbage st 1)]"
  let ?p = "Poller_new me ?o"
  have st: "0 \<le> st_timerfd st" "0 \<le> st_eventfd st" "st_timerfd st \<noteq> st_eventfd st"
      "st_timerChannel st \<noteq> st_wakenChannel st" "st_acceptorChannel st \<noteq> st_timerChannel st"
      "st_acceptorChannel st \<noteq> st_wakenChannel st"
    using ok by (simp_all add: startup_ok_def)
  have p: "po_objs ?p = ?o" "po_channels ?p = Map.empty" "po_fds ?p = []" "po_thread ?p = me"
    by (simp_all add: Poller_new_def)
  have t: "po_objs ?p (st_timerChannel st) = Some (Channel_new loop (st_timerfd st) (st_garbage st 0))"
    using p(1) st(4) by simp
  obtain p1 where p1: "channel_change Channel_enableReading me (st_timerChannel st) ?p = Inr p1" "poller_inv p1"
      "po_thread p1 = me" "po_channels p1 = [st_timerfd st \<mapsto> st_timerChannel st]" "length (po_fds p1) = 1"
      "\<And>ch. ch \<noteq> st_timerChannel st \<Longrightarrow> po_objs p1 ch = ?o ch"
    using channel_change_new [OF poller_inv_new t _ _ _ _ events_only_ops(1) new_busy] p st(1)
    by (auto simp: Channel_new_def)
  have w: "po_objs p1 (st_wakenChannel st) = Some (Channel_new loop (st_eventfd st) (st_garbage st 1))"
    using p1(6) [of "st_wakenChannel st"] st(4) by simp
  obtain p2 where p2: "channel_change Channel_enableReading me (st_wakenChannel st) p1 = Inr p2" "poller_inv p2"
      "po_thread p2 = me" "po_channels p2 = [st_timerfd st \<mapsto> st_timerChannel st, st_eventfd st \<mapsto> st_wakenChannel st]"
      "length (po_fds p2) = 2" "\<And>ch. ch \<noteq> st_wakenChannel st \<Longrightarrow> po_objs p2 ch = po_objs p1 ch"
    using channel_change_new [OF p1(2) w _ _ _ _ events_only_ops(1) new_busy] p1(3-5) st(2,3)
    by (auto simp: Channel_new_def)
  have "po_objs p2 (st_acceptorChannel st) = None"
    using p2(6) [of "st_acceptorChannel st"] p1(6) [of "st_acceptorChannel st"] st(5,6) by simp
  then show ?thesis
    using p1(1) p2 st(1,2) by (auto simp: main_EventLoop_def EventLoop_new_def opened_fd_def loop_ok_def)
qed

abbreviation main_fds :: "startup \<Rightarrow> int set \<Rightarrow> int set" where
  "main_fds st fds \<equiv> {st_socket st, st_eventfd st, st_timerfd st} \<union> fds"

lemma main_server_ok:
  assumes ok: "startup_ok st fds" and l: "main_EventLoop st me loop fds = Inr made"
  shows "\<exists>w server. main_server st ntop port n me loop cb made = Inr (w, server)
    \<and> run_inv me (main_fds st fds) w \<and> settled (sr_sys w) \<and> \<not> el_looping (main_loop (sr_sys w))"
proof -
  obtain l where made: "made = (l, TimerQueue_new me, {st_eventfd st, st_timerfd st} \<union> fds)"
    and li: "loop_ok me l" "el_this l = loop" "el_unprocessedFunctors l = []" "\<not> el_quit l" "\<not> el_looping l"
      "po_channels (el_poller l) = [st_timerfd st \<mapsto> st_timerChannel st, st_eventfd st \<mapsto> st_wakenChannel st]"
      "length (po_fds (el_poller l)) = 2" "po_objs (el_poller l) (st_acceptorChannel st) = None"
    using main_EventLoop_ok [OF ok, of me loop] l by auto
  have st: "0 \<le> st_socket st" "0 \<le> st_bind st" "0 \<le> st_listen st" "st_socket st \<noteq> st_timerfd st"
      "st_socket st \<noteq> st_eventfd st" "st_timerfd st \<noteq> st_eventfd st"
      "st_timerChannel st \<noteq> st_wakenChannel st" "st_acceptorChannel st \<noteq> st_timerChannel st"
      "st_acceptorChannel st \<noteq> st_wakenChannel st" "\<forall>fd \<in> main_fds st fds. fd + 2 < 2 ^ 31"
    using ok by (auto simp: startup_ok_def)
  define ac where "ac = \<lparr>ac_loop = loop, ac_listening = False, ac_listenSocket = Socket_new (st_socket st),
    ac_acceptorChannel = st_acceptorChannel st, ac_hasCallback = False\<rparr>"
  define l1 where "l1 = l\<lparr>el_poller := (el_poller l)\<lparr>po_objs := (po_objs (el_poller l))
    (st_acceptorChannel st \<mapsto> Channel_new loop (st_socket st) (st_garbage st 2))\<rparr>\<rparr>"
  have lok: "loop_ok me l1"
    unfolding l1_def using loop_ok_new_object [OF li(1,8)] by simp
  have acn: "Acceptor_new loop (st_socket st) (st_bind st) (st_acceptorChannel st) ({st_eventfd st, st_timerfd st} \<union> fds)
      = Inr (ac, main_fds st fds)"
    using st(1,2) by (simp add: Acceptor_new_def sd_nonblockingSocket_def sd_Socket_def Socket_bindAddr_def sd_Bind_def ac_def)
  have so: "so_fd (ac_listenSocket ac) = st_socket st" by (simp add: ac_def Socket_new_def)
  let ?name = "InetAddr_toString ntop (InetAddr_any (word_of_int port))"
  have l1: "el_this l1 = loop" "el_unprocessedFunctors l1 = []" "length (po_fds (el_poller l1)) + 1 < 2 ^ 31"
      "po_objs (el_poller l1) (ac_acceptorChannel ac) = Some (Channel_new loop (so_fd (ac_listenSocket ac)) (st_garbage st 2))"
      "0 \<le> so_fd (ac_listenSocket ac)" "po_channels (el_poller l1) (so_fd (ac_listenSocket ac)) = None"
      "so_fd (ac_listenSocket ac) \<in> main_fds st fds" "ac_loop ac = loop" "\<not> ac_listening ac"
    unfolding so using li st by (simp_all add: l1_def ac_def)
  have reg1: "fd \<in> main_fds st fds" if "po_channels (el_poller l1) fd = Some k" for fd k
    using that li(6) by (auto simp: l1_def split: if_splits)
  have l1_same: "po_channels (el_poller l1) = po_channels (el_poller l)" "el_quit l1 = el_quit l" "el_looping l1 = el_looping l"
    by (simp_all add: l1_def)
  have ach: "ac_acceptorChannel ac = st_acceptorChannel st" by (simp add: ac_def)
  have start: "\<exists>s. TcpServer_run me (st_listen st) \<lparr>ss_server = TcpServer_new loop me ?name (to_size n) ac,
        ss_loops = (\<lambda>_. l1), ss_conns = Map.empty, ss_fds = main_fds st fds, ss_error = None\<rparr> = Inr s
      \<and> server_start me s \<and> ts_newConnId (ss_server s) = 0 \<and> ss_fds s = main_fds st fds
      \<and> (\<forall>k. po_objs (el_poller l1) k = None \<longrightarrow> po_objs (el_poller (main_loop s)) k = None)
      \<and> po_channels (el_poller (main_loop s)) =
          (po_channels (el_poller l1))(so_fd (ac_listenSocket ac) \<mapsto> ac_acceptorChannel ac)
      \<and> el_quit (main_loop s) = el_quit l1 \<and> el_looping (main_loop s) = el_looping l1 \<and> ts_loop (ss_server s) = loop"
    by (rule server_run_starts [OF lok l1(1-7) _ l1(8,9) st(3)], rule reg1)
  obtain s where s: "TcpServer_run me (st_listen st) \<lparr>ss_server = TcpServer_new loop me ?name (to_size n) ac,
        ss_loops = (\<lambda>_. l1), ss_conns = Map.empty, ss_fds = main_fds st fds, ss_error = None\<rparr> = Inr s"
      "server_start me s" "ss_fds s = main_fds st fds"
      "po_channels (el_poller (main_loop s)) = (po_channels (el_poller l))(st_socket st \<mapsto> st_acceptorChannel st)"
      "\<not> el_quit (main_loop s)" "\<not> el_looping (main_loop s)"
    using start li(4,5) unfolding l1_same so ach by blast
  let ?w = "\<lparr>sr_sys = s, sr_target = [st_timerChannel st \<mapsto> TimerTarget, st_wakenChannel st \<mapsto> WakenTarget,
      st_acceptorChannel st \<mapsto> AcceptorTarget], sr_timers = TimerQueue_new me, sr_httpCallback = cb, sr_events = 0, sr_finished = []\<rparr>"
  have ch: "po_channels (el_poller (main_loop s)) = [st_timerfd st \<mapsto> st_timerChannel st,
      st_eventfd st \<mapsto> st_wakenChannel st, st_socket st \<mapsto> st_acceptorChannel st]"
    using s(4) li(6) by simp
  have conns: "ss_conns s = Map.empty" using s(2) by (auto simp: server_start_def fun_eq_iff)
  have inv: "server_inv me None s" using server_inv_start [OF s(2)] .
  have run: "main_server st ntop port n me loop cb made = Inr (?w, HttpServer_setHttpCallback cb
      (HttpServer_new loop me ?name (to_size n) ac))"
    using s(1) acn so unfolding made
    by (simp add: main_server_def HttpServer_run_def HttpServer_setHttpCallback_def HttpServer_new_def l1_def Let_def)
  have own: "\<exists>fd \<in> main_fds st fds. po_channels (el_poller (main_loop s)) fd = Some k"
    if "sr_target ?w k = Some x" for k x
    using that st(4-9) unfolding ch by (auto split: if_splits)
  have reg: "sr_target ?w k \<noteq> None" if "po_channels (el_poller (main_loop s)) fd = Some k" for fd k
    using that unfolding ch by (auto split: if_splits)
  have tg: "sr_target ?w k \<noteq> Some (ConnTarget b)" for k b by simp
  have "run_inv me (main_fds st fds) ?w"
    unfolding run_inv_def using inv s(3,5) own reg tg st(10)
    by (simp add: conns TimerQueue_new_def del: fun_upd_apply)
  moreover have "settled s" using s(2) conns by (simp add: settled_def no_dead_def server_start_def)
  ultimately show ?thesis using run s(6) by (intro exI [of _ ?w] exI) (auto)
qed

lemma hydrogen_start_ok:
  assumes "main_args argv = Inr (Some (port, n))" and "startup_ok st fds"
  shows "\<exists>w server. hydrogen_start st ntop argv me loop cb fds = Inr (Some (w, server))
    \<and> run_inv me (main_fds st fds) w \<and> settled (sr_sys w) \<and> \<not> el_looping (main_loop (sr_sys w))"
proof -
  obtain l where "main_EventLoop st me loop fds = Inr (l, TimerQueue_new me, {st_eventfd st, st_timerfd st} \<union> fds)"
    using main_EventLoop_ok [OF assms(2), of me loop] by blast
  then show ?thesis
    using main_server_ok [OF assms(2), of me loop _ ntop port n cb] assms(1) by (fastforce simp: hydrogen_start_def)
qed

text \<open>The state in which \<open>loop\<close> begins to iterate.\<close>

definition loop_entered :: "server_run \<Rightarrow> server_run" where
  "loop_entered w = set_main_loop ((main_loop (sr_sys w))\<lparr>el_looping := True, el_quit := False\<rparr>) w"

lemma loop_entered_inv:
  assumes inv: "run_inv t base w" and "settled (sr_sys w)"
  shows "run_inv t base (loop_entered w) \<and> settled (sr_sys (loop_entered w))"
proof -
  have "loop_ok t (main_loop (sr_sys w))"
    using server_inv_fixed [OF run_inv_server [OF inv]] by (simp add: server_fixed_def)
  then have "run_inv t base (loop_entered w)"
    unfolding loop_entered_def by (intro run_inv_quiet [OF inv]) (simp_all add: loop_ok_def)
  then show ?thesis using assms(2) by (simp add: settled_def no_dead_def loop_entered_def)
qed

lemma server_loop_runs:
  assumes inv: "run_inv me base w" "settled (sr_sys w)" "\<not> el_looping (main_loop (sr_sys w))"
    and legal: "legal_run ans me n inputs (loop_entered w)"
  shows "(\<exists>e. server_loop ans me n inputs w = Some (Inl e) \<and> stops_run ans me n inputs (loop_entered w) e)
    \<or> (server_loop ans me n inputs w = None
      \<and> (\<exists>v. server_iterations ans me n inputs (loop_entered w) = Inr v \<and> run_inv me base v \<and> settled (sr_sys v)))"
proof -
  have "EventLoop_assertInLoopThread me (main_loop (sr_sys w)) = Inr ()"
    using server_inv_fixed [OF run_inv_server [OF inv(1)]]
    by (simp add: server_fixed_def loop_ok_def EventLoop_assertInLoopThread_def EventLoop_isInLoopThread_def)
  then show ?thesis
    using loop_entered_inv [OF inv(1,2)] iterations_ok [of me base "loop_entered w" ans n inputs] legal inv(3)
    by (auto simp: server_loop_def loop_entered_def)
qed

text \<open>
  No functor waits; the open descriptors are \<open>base\<close> and those of the connections; each connection is
  open, in the server's map and registered with its descriptor.
\<close>

definition serving :: "int set \<Rightarrow> server_system \<Rightarrow> bool" where
  "serving base s \<longleftrightarrow> el_unprocessedFunctors (main_loop s) = []
     \<and> ss_fds s = base \<union> {conn_fd c |b k c. ss_conns s b = Some (k, c)}
     \<and> (\<forall>b k c. ss_conns s b = Some (k, c) \<longrightarrow> conn_fd c \<notin> base
          \<and> cn_state c \<in> {CONNECTED, DISCONNECTING}
          \<and> ts_connections (ss_server s) (cn_name c) = Some b
          \<and> po_channels (el_poller (main_loop s)) (conn_fd c) = Some (cn_channel c))"

lemma settled_serving:
  assumes inv: "run_inv t base w" and set: "settled (sr_sys w)"
  shows "serving base (sr_sys w)"
proof -
  let ?s = "sr_sys w"
  note si = run_inv_server [OF inv]
  have "cn_state c \<in> {CONNECTED, DISCONNECTING} \<and> ts_connections (ss_server ?s) (cn_name c) = Some b
      \<and> po_channels (el_poller (main_loop ?s)) (conn_fd c) = Some (cn_channel c)"
    if c: "ss_conns ?s b = Some (k, c)" for b k c
    using settled_open [OF si set c] server_invD(4) [OF si c]
    by (auto simp: conn_good_def opened_def established_def conn_inv_def conn_ok_def loop_registered_def registered_def)
  moreover have "ss_fds ?s = base \<union> {conn_fd c |b k c. ss_conns ?s b = Some (k, c)}"
    using inv unfolding run_inv_def by blast
  moreover have "conn_fd c \<notin> base" if "ss_conns ?s b = Some (k, c)" for b k c
    using inv that unfolding run_inv_def by blast
  ultimately show ?thesis using set by (auto simp: serving_def settled_def)
qed

section \<open>Properties\<close>

text \<open>
  C3. With a port among its arguments and system calls that succeed at the start, the program reaches its
  loop. There it never returns: either it goes on, or \<open>parseRequest\<close> ends it with an error on what a
  client has sent: a failed assertion of \<open>setMethod\<close> or \<open>setVersion\<close>, an exception of \<open>stoi\<close>, or a search
  in a range that is not valid. No other assertion fails, no other exception is thrown and no dangling
  object is used, in \<open>poll\<close>, in the handlers, in the functors and in the destruction of connections. After
  every iteration no functor waits, and exactly the open connections exist: each is in the server's map
  and registered with its descriptor, and no other descriptor is open than those of the start. The run
  has to be legal: \<open>accept\<close> gives new descriptors below \<open>2 ^ 31 - 2\<close> and less than \<open>2 ^ 31 - 1\<close> connections are
  accepted; \<open>poll\<close> counts the entries it reports, and reports a hang-up together with \<^verbatim>\<open>POLLIN\<close> or without \<^verbatim>\<open>POLLPRI\<close> and
  \<^verbatim>\<open>POLLRDHUP\<close>; writes return (no \<^verbatim>\<open>SIGPIPE\<close>); what is read fits the input buffer (C11), and so do the 400
  line and the responses of the application in theirs (C10, C12); and the application's callback \<open>cb\<close> is a
  function of the request, so it returns.
\<close>

theorem hydrogen_main_serves:
  assumes "main_args argv = Inr (Some (port, n))" and "startup_ok st fds"
  shows "\<exists>w server. hydrogen_start st ntop argv me loop cb fds = Inr (Some (w, server))
    \<and> (\<forall>ans inputs. legal_run ans me (st_listen st) inputs (loop_entered w) \<longrightarrow>
         (\<exists>e. hydrogen_main st ntop argv me loop cb fds ans inputs = Some (Inl e)
             \<and> e \<in> {AssertFail, InvalidRange, InvalidArgument, OutOfRange}
             \<and> stops_run ans me (st_listen st) inputs (loop_entered w) e)
         \<or> hydrogen_main st ntop argv me loop cb fds ans inputs = None
           \<and> (\<exists>v. server_iterations ans me (st_listen st) inputs (loop_entered w) = Inr v
               \<and> serving (main_fds st fds) (sr_sys v)))"
proof -
  obtain w server where w: "hydrogen_start st ntop argv me loop cb fds = Inr (Some (w, server))"
      "run_inv me (main_fds st fds) w" "settled (sr_sys w)" "\<not> el_looping (main_loop (sr_sys w))"
    using hydrogen_start_ok [OF assms] by blast
  have main: "hydrogen_main st ntop argv me loop cb fds ans inputs
      = map_option (map_sum id Some) (server_loop ans me (st_listen st) inputs w)" for ans inputs
    using w(1) by (simp add: hydrogen_main_def)
  have "(\<exists>e. hydrogen_main st ntop argv me loop cb fds ans inputs = Some (Inl e)
        \<and> e \<in> {AssertFail, InvalidRange, InvalidArgument, OutOfRange}
        \<and> stops_run ans me (st_listen st) inputs (loop_entered w) e)
      \<or> hydrogen_main st ntop argv me loop cb fds ans inputs = None
        \<and> (\<exists>v. server_iterations ans me (st_listen st) inputs (loop_entered w) = Inr v
           \<and> serving (main_fds st fds) (sr_sys v))"
    if legal: "legal_run ans me (st_listen st) inputs (loop_entered w)" for ans inputs
    using server_loop_runs [OF w(2-4) legal]
  proof (elim disjE exE conjE)
    fix e assume "server_loop ans me (st_listen st) inputs w = Some (Inl e)"
      "stops_run ans me (st_listen st) inputs (loop_entered w) e"
    then show ?thesis using stops_run_error main unfolding parser_errors_def by fastforce
  next
    fix v assume "server_loop ans me (st_listen st) inputs w = None"
      "server_iterations ans me (st_listen st) inputs (loop_entered w) = Inr v"
      "run_inv me (main_fds st fds) v" "settled (sr_sys v)"
    then show ?thesis using settled_serving main by auto
  qed
  then show ?thesis using w(1) by blast
qed

section \<open>Example\<close>

definition demo_startup :: startup where
  "demo_startup = \<lparr>st_timerfd = 3, st_eventfd = 4, st_socket = 5, st_bind = 0, st_listen = 0,
     st_timerChannel = 10, st_wakenChannel = 11, st_acceptorChannel = 12, st_garbage = (\<lambda>_. False)\<rparr>"

lemma demo_startup_ok: "startup_ok demo_startup {0, 1, 2}"
  by (simp add: startup_ok_def demo_startup_def)

lemma demo_port: "main_args [''hydrogenWeb'', ''8080''] = Inr (Some (8080, 0))"
  by code_simp

definition demo_channel :: "int \<Rightarrow> int \<Rightarrow> Channel" where
  "demo_channel fd i = \<lparr>ch_loop = 0, ch_fd = fd, ch_events = 3, ch_revents = 0, ch_index = i, ch_handlingEvent = False\<rparr>"

definition demo_poller :: Poller where
  "demo_poller = \<lparr>po_thread = 0, po_fds = map (\<lambda>fd. \<lparr>pfd_fd = fd, pfd_events = 3, pfd_revents = 0\<rparr>) [3, 4, 5],
     po_channels = [3 \<mapsto> 10, 4 \<mapsto> 11, 5 \<mapsto> 12],
     po_objs = [10 \<mapsto> demo_channel 3 0, 11 \<mapsto> demo_channel 4 1, 12 \<mapsto> demo_channel 5 2]\<rparr>"

text \<open>The program after its start.\<close>

definition demo_loop :: "bool \<Rightarrow> Poller \<Rightarrow> server_task EventLoop" where
  "demo_loop looping p = \<lparr>el_this = 0, el_threadId = 0, el_looping = looping, el_quit = False,
     el_processingFunctors = False, el_pollReturnTime = Timestamp 0, el_poller = p, el_activeChannels = [],
     el_wakenfd = 0, el_unprocessedFunctors = []\<rparr>"

definition demo_name :: string where
  "demo_name = InetAddr_toString (\<lambda>_. None) (InetAddr_any 8080)"

definition demo_world :: "(nat \<Rightarrow> server_task EventLoop) \<Rightarrow> (HttpRequest \<Rightarrow> HttpResponse \<Rightarrow> HttpResponse) \<Rightarrow> server_run" where
  "demo_world loops cb =
     \<lparr>sr_sys = \<lparr>ss_server = \<lparr>ts_loop = 0, ts_serverName = demo_name,
          ts_acceptor = \<lparr>ac_loop = 0, ac_listening = True, ac_listenSocket = \<lparr>so_fd = 5\<rparr>, ac_acceptorChannel = 12,
            ac_hasCallback = True\<rparr>,
          ts_started = True, ts_newConnId = 0, ts_connections = Map.empty,
          ts_threadPool = EventLoopThreadPool_new 0 0 (to_size 0)\<rparr>,
        ss_loops = loops, ss_conns = Map.empty, ss_fds = {5, 4, 3, 0, 1, 2}, ss_error = None\<rparr>,
      sr_target = [10 \<mapsto> TimerTarget, 11 \<mapsto> WakenTarget, 12 \<mapsto> AcceptorTarget], sr_timers = TimerQueue_new 0,
      sr_httpCallback = cb, sr_events = 0, sr_finished = []\<rparr>"

lemma demo_started:
  "\<exists>loops server. hydrogen_start demo_startup (\<lambda>_. None) [''hydrogenWeb'', ''8080''] 0 0 cb {0, 1, 2} =
     Inr (Some (demo_world loops cb, server)) \<and> loops 0 = demo_loop False demo_poller"
  by (simp add: demo_world_def demo_name_def demo_loop_def demo_poller_def demo_channel_def
   hydrogen_start_def demo_port main_EventLoop_def EventLoop_new_def demo_startup_def channel_change_def
   Poller_updateChannel_def Poller_addNew_def Poller_new_def Channel_new_def Channel_enableReading_def Channel_set_index_def Let_def opened_fd_def to_int32_def
   main_server_def Acceptor_new_def sd_nonblockingSocket_def sd_Socket_def Socket_bindAddr_def sd_Bind_def
   HttpServer_run_def TcpServer_run_def HttpServer_setHttpCallback_def HttpServer_new_def TcpServer_new_def
   EventLoop_isInLoopThread_def Acceptor_listen_def EventLoop_assertInLoopThread_def Socket_listen_def sd_Listen_def
   Channel_change_def EventLoop_updateChannel_def Socket_new_def set_loop_def READEVENT_def poll_defs)

lemma demo_start:
  "\<exists>w server. hydrogen_start demo_startup (\<lambda>_. None) [''hydrogenWeb'', ''8080''] 0 0 cb {0, 1, 2} = Inr (Some (w, server))
    \<and> el_poller (main_loop (sr_sys w)) = demo_poller \<and> ss_conns (sr_sys w) = Map.empty
    \<and> ss_fds (sr_sys w) = {5, 4, 3, 0, 1, 2} \<and> ts_newConnId (ss_server (sr_sys w)) = 0
    \<and> sr_target w 12 = Some AcceptorTarget"
  using demo_started [of cb] by (auto simp: demo_world_def demo_loop_def)

text \<open>A client connects: \<open>accept\<close> gives the descriptor 7.\<close>

definition demo_answers :: event_answers where
  "demo_answers = \<lparr>ev_accept = 7, ev_addr = 20, ev_channel = 13, ev_garbage = False, ev_read = None,
     ev_write = (\<lambda>_. None), ev_sends = (None, None), ev_local = 30,
     ev_clock = (Timestamp 0, Timestamp 0)\<rparr>"

lemma demo_poll:
  "\<exists>p. Poller_poll (Some (1, [0, 0, 1])) (Timestamp 9) demo_poller [] = Inr (Timestamp 9, p, [12])
    \<and> po_objs p 13 = None"
proof -
  have "0 <s (1 :: 16 word)" by code_simp
  then show ?thesis
    by (simp add: Poller_poll_def Poller_fillActiveChannels_def demo_poller_def demo_channel_def)
qed

text \<open>A callback that leaves the response as it is; any other would do.\<close>

definition demo_callback :: "HttpRequest \<Rightarrow> HttpResponse \<Rightarrow> HttpResponse" where
  "demo_callback req resp = resp"

theorem hydrogen_main_serves_witness:
  "\<exists>w server v. hydrogen_start demo_startup (\<lambda>_. None) [''hydrogenWeb'', ''8080''] 0 0 demo_callback {0, 1, 2} = Inr (Some (w, server))
    \<and> sr_target w 12 = Some AcceptorTarget
    \<and> hydrogen_main demo_startup (\<lambda>_. None) [''hydrogenWeb'', ''8080''] 0 0 demo_callback {0, 1, 2} (\<lambda>_. demo_answers)
        [(Some (1, [0, 0, 1]), Timestamp 9)] = None
    \<and> server_iterations (\<lambda>_. demo_answers) 0 0 [(Some (1, [0, 0, 1]), Timestamp 9)] (loop_entered w) = Inr v
    \<and> serving {5, 4, 3, 0, 1, 2} (sr_sys v)"
proof -
  obtain w server where w: "hydrogen_start demo_startup (\<lambda>_. None) [''hydrogenWeb'', ''8080''] 0 0 demo_callback {0, 1, 2} = Inr (Some (w, server))"
      "el_poller (main_loop (sr_sys w)) = demo_poller" "ss_conns (sr_sys w) = Map.empty"
      "ss_fds (sr_sys w) = {5, 4, 3, 0, 1, 2}" "ts_newConnId (ss_server (sr_sys w)) = 0"
      "sr_target w 12 = Some AcceptorTarget"
    using demo_start [of demo_callback] by blast
  obtain p where p: "Poller_poll (Some (1, [0, 0, 1])) (Timestamp 9) demo_poller [] = Inr (Timestamp 9, p, [12])"
      "po_objs p 13 = None"
    using demo_poll by blast
  have "0 <s (1 :: 16 word)" by code_simp
  then have "legal_poll demo_poller (Some (1, [0, 0, 1]))"
    by (simp add: legal_poll_def poll_answer_def demo_poller_def)
  moreover have "legal_event demo_answers (Timestamp 9) 12 (polled p [12] (Timestamp 9) (loop_entered w\<lparr>sr_finished := []\<rparr>))"
    using w(3-6) p(2)
    by (simp add: legal_event_def polled_def loop_entered_def fresh_def demo_answers_def set_main_loop_def set_loop_def)
  ultimately have legal: "legal_run (\<lambda>_. demo_answers) 0 0 [(Some (1, [0, 0, 1]), Timestamp 9)] (loop_entered w)"
    using w(2) p(1) by (simp add: legal_iteration_def loop_entered_def split: sum.split)
  have st: "st_listen demo_startup = 0" "main_fds demo_startup {0, 1, 2} = {5, 4, 3, 0, 1, 2}"
    by (auto simp: demo_startup_def)
  have "\<not> stops_event demo_answers (Timestamp 9) 12 (polled p [12] (Timestamp 9) (loop_entered w\<lparr>sr_finished := []\<rparr>)) e" for e
    using w(6) by (simp add: stops_event_def polled_def loop_entered_def)
  then have go: "\<not> stops_run (\<lambda>_. demo_answers) 0 0 [(Some (1, [0, 0, 1]), Timestamp 9)] (loop_entered w) e" for e
    using w(2) p(1) by (simp add: stops_iteration_def loop_entered_def split: sum.split)
  obtain w' server' where r: "hydrogen_start demo_startup (\<lambda>_. None) [''hydrogenWeb'', ''8080''] 0 0 demo_callback {0, 1, 2} = Inr (Some (w', server'))"
    and run: "\<And>ans inputs. legal_run ans 0 0 inputs (loop_entered w') \<Longrightarrow>
         (\<exists>e. hydrogen_main demo_startup (\<lambda>_. None) [''hydrogenWeb'', ''8080''] 0 0 demo_callback {0, 1, 2} ans inputs = Some (Inl e)
             \<and> e \<in> {AssertFail, InvalidRange, InvalidArgument, OutOfRange}
             \<and> stops_run ans 0 0 inputs (loop_entered w') e)
         \<or> hydrogen_main demo_startup (\<lambda>_. None) [''hydrogenWeb'', ''8080''] 0 0 demo_callback {0, 1, 2} ans inputs = None
           \<and> (\<exists>v. server_iterations ans 0 0 inputs (loop_entered w') = Inr v \<and> serving {5, 4, 3, 0, 1, 2} (sr_sys v))"
    using hydrogen_main_serves [OF demo_port demo_startup_ok, of "\<lambda>_. None" 0 0 demo_callback]
    unfolding st by blast
  have "w' = w" using w(1) r by simp
  then show ?thesis using run [of "\<lambda>_. demo_answers" "[(Some (1, [0, 0, 1]), Timestamp 9)]"] legal go w(1,6) by blast
qed

end
