(* ===== verification/ServerAnswers.thy ===== *)
theory ServerAnswers
  imports HydrogenMain
begin

text \<open>
  What the running server does with a request: an event of \<^verbatim>\<open>EventLoop::loop\<close> in which a connection has
  bytes to read passes through \<open>handleEvent\<close>, \<open>connectionHandler\<close>, \<open>onMessage\<close>, the parser, the
  application and \<open>send\<close>.
\<close>

text \<open>The bytes a client will have been sent: those the kernel has taken and those that wait.\<close>

definition wire :: "TcpConnection \<Rightarrow> string" where
  "wire c = sk_sent (cn_socket c) @ contents (cn_outputBuffer c)"

lemma touch_server [simp]: "ss_server (set_conn_channel a f s) = ss_server s"
  by (auto simp: set_conn_channel_def set_loop_def split: option.split)

lemma read_event:
  assumes inv: "server_inv t None s" and at: "ss_conns s a = Some (l, c)"
    and op: "opened t (main_loop s) (ts_connections (ss_server s)) a c"
    and rd: "HyBuffer_readFd (cn_inputBuffer c) (Some d) = Inr (n, buf)" "buf_wf buf" "d \<noteq> []" "to_size n \<noteq> 0"
    and run: "server_event msg t (Some d) wr POLLIN now a s = Inr s'"
  shows "\<exists>l1 s1. conn_inv t (conn_at l1 (c\<lparr>cn_inputBuffer := buf\<rparr>))
    \<and> msg now (conn_at l1 (c\<lparr>cn_inputBuffer := buf\<rparr>)) = Inr s1 \<and> ss_conns s' a = Some (l, the_conn s1)"
proof -
  define r0 where "r0 = set_conn_channel a (\<lambda>x. Channel_set_revents x POLLIN) s"
  define s1 where "s1 = set_conn_channel a (\<lambda>x. x\<lparr>ch_handlingEvent := True\<rparr>) r0"
  have t0: "server_inv t (Some a) r0 \<and> ss_conns r0 a = Some (ts_loop (ss_server r0), c)
      \<and> opened t (main_loop r0) (ts_connections (ss_server r0)) a c"
    using touch_inv [OF inv at, of "\<lambda>x. Channel_set_revents x POLLIN" "Some a"] op
    by (simp add: r0_def mask_kept_def Channel_set_revents_def)
  then have t1: "server_inv t (Some a) s1 \<and> ss_conns s1 a = Some (ts_loop (ss_server s1), c)
      \<and> opened t (main_loop s1) (ts_connections (ss_server s1)) a c"
    using touch_inv [of t "Some a" r0 a "ts_loop (ss_server r0)" c "\<lambda>x. x\<lparr>ch_handlingEvent := True\<rparr>" "Some a"]
    by (simp add: s1_def mask_kept_def)
  have l: "l = ts_loop (ss_server s)" using server_invD(1) [OF inv at] .
  have rev: "ch_revents (conn_channel a r0) = POLLIN"
  proof -
    obtain x where "po_objs (el_poller (main_loop s)) (cn_channel c) = Some x"
      using server_invD(4) [OF inv at] by (auto simp: conn_good_def)
    then show ?thesis
      using at l set_conn_channel_upd [of s a c x] by (simp add: r0_def conn_channel_def Channel_set_revents_def)
  qed
  have masks: "POLLIN AND POLLHUP = 0" "POLLIN AND (POLLERR OR POLLNVAL) = 0" "POLLIN AND POLLOUT = 0"
      "POLLIN AND (POLLIN OR POLLPRI OR POLLRDHUP) \<noteq> 0" "POLLIN \<noteq> 0"
    by (simp_all add: poll_defs)
  let ?f = "TcpConnection_connectionHandler t (Some d) now (Some msg) (Some Inr)"
  have ev: "server_event msg t (Some d) wr POLLIN now a s = bind_result (with_conn a ?f s1)
      (\<lambda>s. Inr (set_conn_channel a (\<lambda>x. x\<lparr>ch_handlingEvent := False\<rparr>) s))"
    using rd(3)
    by (simp add: server_event_def Channel_handleEvent_def r0_def [symmetric] s1_def [symmetric] Let_def rev masks
        call_if_def server_callbacks_def server_connectionHandler_def bind_result_assoc)
  have h: "?f (conn_at (main_loop s1) c) = msg now (conn_at (main_loop s1) (c\<lparr>cn_inputBuffer := buf\<rparr>))"
    using rd(1,4) by (simp add: TcpConnection_connectionHandler_def Let_def upd_conn_def)
  obtain s2 where s2: "with_conn a ?f s1 = Inr s2" "s' = set_conn_channel a (\<lambda>x. x\<lparr>ch_handlingEvent := False\<rparr>) s2"
    using run ev by (auto simp: bind_result_eq_Inr)
  obtain s3 where s3: "?f (conn_at (main_loop s1) c) = Inr s3"
    using s2(1) t1 by (auto simp: with_conn_def bind_result_eq_Inr)
  have sv: "ts_loop (ss_server s1) = l" using l by (simp add: s1_def r0_def)
  have "ss_conns s2 a = Some (l, the_conn s3)"
    using with_conn_upd [of s1 a c ?f s3] t1 s3 s2(1) sv by simp
  then have "ss_conns s' a = Some (l, the_conn s3)" using touch_step(2) s2(2) by metis
  moreover have "conn_inv t (conn_at (main_loop s1) (c\<lparr>cn_inputBuffer := buf\<rparr>))"
    using conn_inv_input(1) [of t "conn_at (main_loop s1) c" buf] t1 by (simp add: opened_def upd_conn_def)
  moreover have "msg now (conn_at (main_loop s1) (c\<lparr>cn_inputBuffer := buf\<rparr>)) = Inr s3" using s3 h by simp
  ultimately show ?thesis by blast
qed

text \<open>
  The loop handles the event of a readable channel whose connection, the one at \<open>b\<close>, waits for a
  request with its input buffer in order (a completed body leaves it with one byte too many taken); the
  state is one of the running server, and \<open>write\<close> takes no more than it is offered.
\<close>

definition request_event ::
  "nat \<Rightarrow> int set \<Rightarrow> event_answers \<Rightarrow> nat \<Rightarrow> nat \<Rightarrow> nat \<Rightarrow> TcpConnection \<Rightarrow> server_run \<Rightarrow> bool" where
  "request_event t base a ch b k c w \<longleftrightarrow> run_inv t base w \<and> no_dead (sr_sys w) \<and> ok_target w ch
     \<and> sr_target w ch = Some (ConnTarget b)
     \<and> ss_conns (sr_sys w) b = Some (k, c) \<and> cn_state c = CONNECTED \<and> cn_context c = Some HttpContext_new
     \<and> buf_wf (cn_inputBuffer c)
     \<and> ch_revents (conn_channel b (sr_sys w)) = POLLIN \<and> (\<forall>n. answer_ok (ev_write a n) n)"

text \<open>A read that fits, and the request that the parser finds.\<close>

lemma request_read:
  assumes wf: "buf_wf (cn_inputBuffer c)" and ctx: "cn_context c = Some HttpContext_new"
    and rd: "read_fits (Some d) (cn_inputBuffer c)"
    and req: "contents (cn_inputBuffer c) @ d = request_line GET path q v @ CRLF @ headers_text hs @ rest"
      "target_ok path q" "v \<noteq> UNKNOWN" "list_all header_ok hs"
    and r: "request = parsed now GET path q v hs" "r = cb request (HttpResponse_new (closes_connection request))"
    and fits: "response_fits r" "data_fits a2 (response_text r) c"
  shows "\<exists>buf. HyBuffer_readFd (cn_inputBuffer c) (Some d) = Inr (int (length d), buf) \<and> buf_wf buf
    \<and> contents buf = contents (cn_inputBuffer c) @ d \<and> length d < 2 ^ 63 \<and> answers_fit cb a1 a2 now (Some d) c"
proof -
  obtain buf where buf: "HyBuffer_readFd (cn_inputBuffer c) (Some d) = Inr (int (length d), buf)" "buf_wf buf"
      "contents buf = contents (cn_inputBuffer c) @ d" "length d < 2 ^ 63"
    using readFd_outcome_aux [OF wf, of d] rd by (auto simp: read_fits_def)
  obtain buf' where parse: "HttpContext_parseRequest HttpContext_new buf now =
      Some (Inr (True, \<lparr>ctx_state = ALLOK, ctx_request = request\<rparr>, buf'))"
    using get_parsed [OF buf(2) req(2-4), of rest now] req(1) buf(3) r(1) by auto
  have "answers_fit cb a1 a2 now (Some d) c"
    using buf(1) parse ctx r fits
    by (simp add: answers_fit_def message_fits_def HttpContext_allOk_def Let_def data_fits_def)
  then show ?thesis using buf by blast
qed

lemma served:
  assumes ev: "request_event t base (ans (sr_events w)) ch b k c w"
    and rd: "ev_read (ans (sr_events w)) = Some d" "d \<noteq> []" "read_fits (Some d) (cn_inputBuffer c)"
    and req: "contents (cn_inputBuffer c) @ d = request_line GET path q v @ CRLF @ headers_text hs @ rest"
      "target_ok path q" "v \<noteq> UNKNOWN" "list_all header_ok hs"
    and r: "request = parsed now GET path q v hs"
      "r = sr_httpCallback w request (HttpResponse_new (closes_connection request))"
    and fits: "response_fits r" "data_fits (snd (ev_sends (ans (sr_events w)))) (response_text r) c"
  shows "\<exists>w' c'. run_event ans t ch now w = Inr w' \<and> run_inv t base w'
    \<and> ss_conns (sr_sys w') b = Some (k, c') \<and> wire c' = wire c @ response_text r
    \<and> contents (cn_inputBuffer c') = rest \<and> cn_context c' = Some HttpContext_new
    \<and> cn_state c' = (if HttpResponse_nonPersistent r then DISCONNECTING else CONNECTED)
    \<and> (\<forall>b'. b' \<noteq> b \<longrightarrow> ss_conns (sr_sys w') b' = ss_conns (sr_sys w) b')"
proof -
  have inv: "run_inv t base w" "no_dead (sr_sys w)" and ok: "ok_target w ch"
    and tg: "sr_target w ch = Some (ConnTarget b)"
    and c: "ss_conns (sr_sys w) b = Some (k, c)" "cn_state c = CONNECTED" "cn_context c = Some HttpContext_new"
    and wf: "buf_wf (cn_inputBuffer c)"
    and rev: "ch_revents (conn_channel b (sr_sys w)) = POLLIN"
    using ev by (simp_all add: request_event_def)
  let ?a = "ans (sr_events w)" and ?s = "sr_sys w"
  let ?msg = "http_message (sr_httpCallback w) t (fst (ev_sends ?a)) (snd (ev_sends ?a)) (ev_local ?a)"
  note si = run_inv_server [OF inv(1)]
  obtain k' c2 where c2: "ss_conns ?s b = Some (k', c2)" "opened t (main_loop ?s) (ts_connections (ss_server ?s)) b c2"
    using live_opened [OF si] ok tg by (auto simp: ok_target_def)
  then have op: "opened t (main_loop ?s) (ts_connections (ss_server ?s)) b c" using c(1) by simp
  from request_read [where cb = "sr_httpCallback w" and ?a1.0 = "fst (ev_sends ?a)", OF wf c(3) rd(3) req r fits]
  obtain buf where buf: "HyBuffer_readFd (cn_inputBuffer c) (Some d) = Inr (int (length d), buf)" "buf_wf buf"
      "contents buf = contents (cn_inputBuffer c) @ d" "length d < 2 ^ 63"
    and af: "answers_fit (sr_httpCallback w) (fst (ev_sends ?a)) (snd (ev_sends ?a)) now (Some d) c"
    by blast
  have ko: "kernel_ok c POLLIN (Some d) (ev_write ?a)"
    using ev rd(3) by (simp add: kernel_ok_def request_event_def poll_defs)
  have legal: "legal_event ?a now ch w" using tg c(1) rev rd(1) ko af by (simp add: legal_event_def)
  let ?c = "c\<lparr>cn_inputBuffer := buf\<rparr>"
  have mo: "message_ok ?msg t now (Some d) c"
    by (rule http_message_ok [OF _ af]) (use op in \<open>simp add: opened_def\<close>)
  have "\<not> stops_event ?a now ch w e" for e
  proof
    assume "stops_event ?a now ch w e"
    then have "HttpContext_parseRequest HttpContext_new buf now = Some (Inl e)"
      using tg c(1,3) rd(1) buf(1) by (auto simp: stops_event_def parser_fails_def)
    then show False using get_parsed [OF buf(2) req(2-4), of rest now] req(1) buf(3) by auto
  qed
  then obtain w' where w': "run_event ans t ch now w = Inr w'" "run_inv t base w'"
    using run_event_ok [where ans = ans, OF inv ok legal] by blast
  then obtain s' where s': "server_event ?msg t (Some d) (ev_write ?a) POLLIN now b ?s = Inr s'" "sr_sys w' = s'"
    using tg rev rd(1) by (auto simp: run_event_def conn_event_def Let_def bind_result_eq_Inr)
  have "to_size (int (length d)) \<noteq> 0" using buf(4) rd(2) by (simp add: to_size_nonneg)
  from read_event [OF si c(1) op buf(1,2) rd(2) this s'(1)] obtain l1 s1 where s1: "conn_inv t (conn_at l1 ?c)"
      "?msg now (conn_at l1 ?c) = Inr s1" "ss_conns s' b = Some (k, the_conn s1)"
    by blast
  let ?u = "(\<lparr>en_conn = ?c, en_buffers = Map.empty\<rparr>, with_functors [] l1) :: conn_task conn_state"
  obtain s2 where s2: "HttpServer_onMessage (sr_httpCallback w) t (fst (ev_sends ?a)) (snd (ev_sends ?a)) (ev_local ?a) now ?u
      = Some (Inr s2)" "the_conn s1 = the_conn s2"
    using s1(2) by (auto simp: http_message_def bind_result_eq_Inr split: option.splits)
  have u: "conn_inv t ?u" "cn_state (the_conn ?u) = CONNECTED" "cn_context (the_conn ?u) = Some HttpContext_new"
      "buf_wf (cn_inputBuffer (the_conn ?u))" "en_buffers (fst ?u) (ev_local ?a) = None"
      "contents (cn_inputBuffer (the_conn ?u)) = request_line GET path q v @ CRLF @ headers_text hs @ rest"
      "send_fits ?u (length (response_text r))" "answer_ok (snd (ev_sends ?a)) (length (response_text r))"
    using s1(1) c(2,3) buf(2,3) req(1) fits(2) by (simp_all add: send_fits_def data_fits_def out_bytes_def)
  have "sent s2 @ out_bytes s2 = sent ?u @ out_bytes ?u @ response_text r \<and> cn_context (the_conn s2) = Some HttpContext_new
      \<and> contents (cn_inputBuffer (the_conn s2)) = rest
      \<and> cn_state (the_conn s2) = (if HttpResponse_nonPersistent r then DISCONNECTING else CONNECTED)"
    using onMessage_get [where httpCallback = "sr_httpCallback w", OF u(1-4) req(2-4) u(6) r fits(1) u(7,8,5), of "fst (ev_sends ?a)"]
      s2(1) by auto
  moreover have "\<forall>b'. b' \<noteq> b \<longrightarrow> ss_conns s' b' = ss_conns ?s b'"
    using event_run_msg [OF si c(1) op ko, of ?msg now] mo s'(1) by (auto simp: step_of_def)
  ultimately show ?thesis
    using w' s1(3) s2(2) s'(2) by (intro exI [of _ w'] exI [of _ "the_conn s1"]) (simp add: wire_def sent_def out_bytes_def)
qed

section \<open>Properties\<close>

text \<open>
  C4. In the running server (the invariant \<open>run_inv\<close> holds in every state of \<open>hydrogen_main\<close>) a client that sends a
  well-formed GET request is answered at once: when the
  loop handles the event, the parser hands the application exactly this request, the response follows
  everything sent to this client before, completely and in order, the bytes behind the request stay
  in the input buffer, the context is ready for the next request, the connection begins to close
  exactly when the response says so, no other connection is touched, and the invariant of the server
  still holds. What is read has to fit the input buffer (\<open>read_fits\<close>; an empty buffer of 1024 bytes is
  written past its end by 1025 to 2048 bytes, C11), the response its own buffer (\<open>response_fits\<close>: at most
  1024 bytes altogether, or more than 1024 in the body, C12) and the output buffer (\<open>data_fits\<close>), and the
  last request on the connection was not a POST with a body.
\<close>

theorem request_served:
  assumes "request_event t base (ans (sr_events w)) ch b k c w"
    and "ev_read (ans (sr_events w)) = Some d" "d \<noteq> []" "read_fits (Some d) (cn_inputBuffer c)"
    and "contents (cn_inputBuffer c) @ d = request_line GET path q v @ CRLF @ headers_text hs @ rest"
      "target_ok path q" "v \<noteq> UNKNOWN" "list_all header_ok hs"
    and "request = parsed now GET path q v hs"
      "r = sr_httpCallback w request (HttpResponse_new (closes_connection request))"
    and "response_fits r" "data_fits (snd (ev_sends (ans (sr_events w)))) (response_text r) c"
  shows "\<exists>w' c'. run_event ans t ch now w = Inr w' \<and> run_inv t base w'
    \<and> ss_conns (sr_sys w') b = Some (k, c') \<and> wire c' = wire c @ response_text r
    \<and> contents (cn_inputBuffer c') = rest \<and> cn_context c' = Some HttpContext_new
    \<and> cn_state c' = (if HttpResponse_nonPersistent r then DISCONNECTING else CONNECTED)
    \<and> (\<forall>b'. b' \<noteq> b \<longrightarrow> ss_conns (sr_sys w') b' = ss_conns (sr_sys w) b')"
  using assms by (rule served)

section \<open>Example\<close>

text \<open>A client has connected to the program of HydrogenMain.\<close>

definition served_channel :: "int \<Rightarrow> int \<Rightarrow> mask \<Rightarrow> Channel" where
  "served_channel fd i r = \<lparr>ch_loop = 0, ch_fd = fd, ch_events = 3, ch_revents = r, ch_index = i, ch_handlingEvent = False\<rparr>"

text \<open>The poller with the new channel, and the last events of the acceptor and of the new channel in the array (\<open>q\<close>, \<open>r\<close>) and in the channel (\<open>m\<close>).\<close>

definition served_poller :: "16 word \<Rightarrow> 16 word \<Rightarrow> mask \<Rightarrow> Poller" where
  "served_poller q r m = \<lparr>po_thread = 0,
     po_fds = [\<lparr>pfd_fd = 3, pfd_events = 3, pfd_revents = 0\<rparr>, \<lparr>pfd_fd = 4, pfd_events = 3, pfd_revents = 0\<rparr>,
       \<lparr>pfd_fd = 5, pfd_events = 3, pfd_revents = q\<rparr>, \<lparr>pfd_fd = 7, pfd_events = 3, pfd_revents = r\<rparr>],
     po_channels = [3 \<mapsto> 10, 4 \<mapsto> 11, 5 \<mapsto> 12, 7 \<mapsto> 13],
     po_objs = [10 \<mapsto> demo_channel 3 0, 11 \<mapsto> demo_channel 4 1, 12 \<mapsto> served_channel 5 2 1, 13 \<mapsto> served_channel 7 3 m]\<rparr>"

lemma ready_one: "0 <s (1 :: 16 word)"
  by code_simp

definition demo_connected :: TcpConnection where
  "demo_connected = (TcpConnection_new (conn_name demo_name 0) 7 13)
     \<lparr>cn_state := CONNECTED, cn_context := Some HttpContext_new\<rparr>"

lemma demo_accepts:
  assumes "loops 0 = demo_loop False demo_poller"
  shows "\<exists>v. server_iteration (\<lambda>_. demo_answers) 0 0 (Some (1, [0, 0, 1]), Timestamp 9) (loop_entered (demo_world loops cb)) = Inr v
    \<and> ss_conns (sr_sys v) = [20 \<mapsto> (0, demo_connected)]
    \<and> el_poller (main_loop (sr_sys v)) = served_poller 1 0 0 \<and> sr_target v 13 = Some (ConnTarget 20)
    \<and> sr_httpCallback v = cb \<and> ts_loop (ss_server (sr_sys v)) = 0"
  by (simp add: assms ready_one demo_connected_def demo_world_def demo_loop_def demo_poller_def demo_channel_def served_poller_def served_channel_def
   loop_entered_def server_iteration_def loop_iteration_def Poller_poll_def Poller_fillActiveChannels_def run_event_def
   Channel_handleEvent_def main_channel_def set_main_channel_def set_main_loop_def Let_def acceptor_callbacks_def demo_answers_def
   Acceptor_incomingHandler_def sd_Accept_def TcpServer_newConnectionHandler_def EventLoop_assertInLoopThread_def EventLoop_isInLoopThread_def
   EventLoopThreadPool_nextLoop_def EventLoopThreadPool_new_def call_if_def poll_defs set_loop_def in_loop_thread_def to_size_def
   EventLoop_addToLoopThread_def EventLoop_push_def EventLoop_waken_def EventLoop_processFunctors_def EventLoop_takeFunctors_def
   run_functor_def run_server_task_def with_conn_def TcpConnection_establishConnection_def TcpConnection_setState_def upd_conn_def
   conn_change_def Channel_change_def EventLoop_updateChannel_def Poller_updateChannel_def Poller_addNew_def Channel_new_def
   Channel_enableReading_def Channel_set_index_def to_int32_def READEVENT_def HttpServer_onConnection_def TcpConnection_connected_def
   TcpConnection_setContext_def drop_functor_def TcpConnection_new_def Channel_set_revents_def)

lemma demo_polls:
  "Poller_poll (Some (1, [0, 0, 0, 1])) (Timestamp 10) (served_poller 1 0 0) [] = Inr (Timestamp 10, served_poller 0 1 1, [13])"
  by (simp add: ready_one Poller_poll_def Poller_fillActiveChannels_def served_poller_def demo_channel_def served_channel_def
    Channel_set_revents_def)

text \<open>The client sends \<open>d\<close>; \<open>write\<close> takes seven bytes of the answer.\<close>

definition demo_read :: "string \<Rightarrow> event_answers" where
  "demo_read d = demo_answers\<lparr>ev_read := Some d, ev_sends := (None, Some 7)\<rparr>"

lemma demo_request_event:
  "\<exists>w base. request_event 0 base (demo_read d) 13 20 0 demo_connected w \<and> sr_httpCallback w = cb"
proof -
  let ?base = "main_fds demo_startup {0, 1, 2}"
  obtain loops server where start: "hydrogen_start demo_startup (\<lambda>_. None) [''hydrogenWeb'', ''8080''] 0 0 cb {0, 1, 2} =
      Inr (Some (demo_world loops cb, server))" "loops 0 = demo_loop False demo_poller"
    using demo_started by blast
  let ?w0 = "loop_entered (demo_world loops cb)"
  have w0: "run_inv 0 ?base ?w0" "settled (sr_sys ?w0)"
    using hydrogen_start_ok [OF demo_port demo_startup_ok, of "\<lambda>_. None" 0 0 cb] start(1) loop_entered_inv by auto
  obtain p where p: "Poller_poll (Some (1, [0, 0, 1])) (Timestamp 9) demo_poller [] = Inr (Timestamp 9, p, [12])"
      "po_objs p 13 = None"
    using demo_poll by blast
  have legal: "legal_iteration (\<lambda>_. demo_answers) 0 (Some (1, [0, 0, 1]), Timestamp 9) ?w0"
    using p start(2) ready_one
    by (simp add: legal_iteration_def loop_entered_def demo_world_def demo_loop_def legal_poll_def poll_answer_def demo_poller_def
        legal_event_def polled_def fresh_def demo_answers_def set_main_loop_def set_loop_def split: sum.split)
  obtain v where v: "server_iteration (\<lambda>_. demo_answers) 0 0 (Some (1, [0, 0, 1]), Timestamp 9) ?w0 = Inr v"
      "ss_conns (sr_sys v) = [20 \<mapsto> (0, demo_connected)]"
      "el_poller (main_loop (sr_sys v)) = served_poller 1 0 0" "sr_target v 13 = Some (ConnTarget 20)"
      "sr_httpCallback v = cb" "ts_loop (ss_server (sr_sys v)) = 0"
    using demo_accepts [of loops cb] start(2) by blast
  have i: "run_inv 0 ?base v" "settled (sr_sys v)"
    using iteration_ok [OF w0(1) _ legal, of 0] w0(2) v(1) by (simp_all add: settled_def)
  have "legal_poll (el_poller (main_loop (sr_sys v))) (Some (1, [0, 0, 0, 1]))"
    using ready_one by (simp add: v(3) legal_poll_def poll_answer_def served_poller_def)
  from poll_ok [OF i(1) this, of "Timestamp 10"] have polled: "run_inv 0 ?base (polled (served_poller 0 1 1) [13] (Timestamp 10) v)"
      "ok_target v 13"
    unfolding v(3) demo_polls by auto
  let ?w = "polled (served_poller 0 1 1) [13] (Timestamp 10) v"
  have tg: "ok_target ?w 13" using polled(2) by simp
  have c: "cn_state demo_connected = CONNECTED" "cn_context demo_connected = Some HttpContext_new"
      "cn_inputBuffer demo_connected = HyBuffer_new" "cn_channel demo_connected = 13"
    by (simp_all add: demo_connected_def TcpConnection_new_def)
  have w: "no_dead (sr_sys ?w)" "sr_target ?w 13 = Some (ConnTarget 20)"
      "ss_conns (sr_sys ?w) 20 = Some (0, demo_connected)" "sr_httpCallback ?w = cb"
      "ch_revents (conn_channel 20 (sr_sys ?w)) = POLLIN"
    using i(2) v(2,4-6) c
    by (simp_all add: settled_def no_dead_def polled_def set_main_loop_def set_loop_def conn_channel_def served_poller_def
        served_channel_def poll_defs)
  have "request_event 0 ?base (demo_read d) 13 20 0 demo_connected ?w"
    using polled(1) w tg c(1-3) by (simp add: request_event_def demo_read_def demo_answers_def answer_ok_def)
  then show ?thesis using w(4) by blast
qed

text \<open>The sizes of the example: short requests and responses.\<close>

lemma demo_sizes:
  assumes "length d \<le> 1024" and "7 \<le> length m" "length m < 2000"
  shows "read_fits (Some d) (cn_inputBuffer demo_connected)" "data_fits (snd (ev_sends (demo_read d))) m demo_connected"
proof -
  have new: "length (buffer HyBuffer_new) = 1032" "contents HyBuffer_new = []" "readerIndex HyBuffer_new = 8"
    by (simp_all add: HyBuffer_new_def PREPENDABLEBYTES_def INITIALSIZE_def contents_def slice_empty)
  show "read_fits (Some d) (cn_inputBuffer demo_connected)"
    using assms(1) new by (simp add: read_fits_def demo_connected_def TcpConnection_new_def readFd_fits_new)
  show "data_fits (snd (ev_sends (demo_read d))) m demo_connected"
    using assms(2,3) new by (simp add: data_fits_def answer_ok_def demo_connected_def TcpConnection_new_def demo_read_def)
qed

lemma wire_connected: "wire demo_connected = []" "cn_inputBuffer demo_connected = HyBuffer_new"
  by (simp_all add: wire_def demo_connected_def TcpConnection_new_def)

definition demo_request :: string where
  "demo_request = request_line GET ''/x'' None HTTP11 @ CRLF @ headers_text [] @ ''GE''"

text \<open>A request and the beginning of the next.\<close>

theorem request_served_witness:
  "\<exists>w w' c'. run_event (\<lambda>_. demo_read demo_request) 0 13 (Timestamp 10) w = Inr w' \<and> ss_conns (sr_sys w') 20 = Some (0, c')
    \<and> wire c' = response_text (demo_app (parsed (Timestamp 10) GET ''/x'' None HTTP11 [])
        (HttpResponse_new (closes_connection (parsed (Timestamp 10) GET ''/x'' None HTTP11 []))))
    \<and> contents (cn_inputBuffer c') = ''GE''"
proof -
  let ?q = "parsed (Timestamp 10) GET ''/x'' None HTTP11 []"
  let ?r = "demo_app ?q (HttpResponse_new (closes_connection ?q))"
  have len: "length demo_request \<le> 1024" "demo_request \<noteq> []" unfolding demo_request_def by code_simp+
  have t: "target_ok ''/x'' None" by code_simp
  have fits: "response_fits ?r" "length (response_text ?r) < 200"
    using demo_response [OF refl, of ?q] by (auto simp: parsed_def)
  moreover have "7 \<le> length (response_text ?r)" by (simp add: response_text_def response_head_def)
  ultimately have r: "response_fits ?r" "7 \<le> length (response_text ?r)" "length (response_text ?r) < 2000" by simp_all
  note sizes = demo_sizes [OF len(1) r(2,3)]
  from demo_request_event [of demo_request demo_app] obtain w base where
    w: "request_event 0 base (demo_read demo_request) 13 20 0 demo_connected w" "sr_httpCallback w = demo_app"
    by blast
  have req: "contents (cn_inputBuffer demo_connected) @ demo_request = request_line GET ''/x'' None HTTP11 @ CRLF @ headers_text [] @ ''GE''"
    by (simp add: wire_connected demo_request_def)
  have rd: "ev_read (demo_read demo_request) = Some demo_request" by (simp add: demo_read_def)
  obtain w' c' where "run_event (\<lambda>_. demo_read demo_request) 0 13 (Timestamp 10) w = Inr w'" "ss_conns (sr_sys w') 20 = Some (0, c')"
      "wire c' = wire demo_connected @ response_text (sr_httpCallback w ?q (HttpResponse_new (closes_connection ?q)))"
      "contents (cn_inputBuffer c') = ''GE''"
    using request_served [where ans = "\<lambda>_. demo_read demo_request" and now = "Timestamp 10", OF w(1) rd len(2) sizes(1) req t _ _ refl refl] r(1) sizes(2) w(2) by auto
  then show ?thesis unfolding wire_connected w(2) by auto
qed

end
