(* ===== verification/UnixUtility.thy ===== *)
theory UnixUtility
  imports SocketDetail
begin

text \<open>
  \<^verbatim>\<open>include/system/unixUtility.hpp\<close>, \<^verbatim>\<open>src/unixUtility.cpp\<close> and the wrappers of \<^verbatim>\<open>src/socketDetail.cpp\<close> that
  are not in SocketDetail, with what they log. The state is what a process has: open descriptors,
  the actions of its signals, \<open>errno\<close> and the lines given to the logger. The answers of the system
  calls are arguments, the texts of errors function arguments.
\<close>

section \<open>Processes\<close>

record 'h sigaction =
  sa_handler :: 'h
  sa_mask :: "int set"
  sa_flags :: int

record 'h process =
  pr_fds :: "int set"
  pr_actions :: "int \<Rightarrow> 'h sigaction"
  pr_errno :: int
  pr_log :: "string list"

datatype sys_answer = Ok int | Err int   \<comment> \<open>the result, or the value of \<open>errno\<close>\<close>

definition sys_call :: "sys_answer \<Rightarrow> 'h process \<Rightarrow> int \<times> 'h process" where
  "sys_call answer p =
     (case answer of Ok ret \<Rightarrow> (ret, p) | Err e \<Rightarrow> (- 1, p\<lparr>pr_errno := e\<rparr>))"

section \<open>Error handling\<close>

definition log_line :: "string \<Rightarrow> 'h process \<Rightarrow> 'h process" where
  "log_line line p = p\<lparr>pr_log := pr_log p @ [line]\<rparr>"

definition unix_error :: "(int \<Rightarrow> string) \<Rightarrow> string \<Rightarrow> 'h process \<Rightarrow> 'h process" where
  "unix_error strerror msg p = log_line (msg @ '': '' @ strerror (pr_errno p)) p"

definition posix_error :: "(int \<Rightarrow> string) \<Rightarrow> int \<Rightarrow> string \<Rightarrow> 'h process \<Rightarrow> 'h process" where
  "posix_error strerror code msg p = log_line (msg @ '': '' @ strerror code) p"

definition gai_error :: "(int \<Rightarrow> string) \<Rightarrow> int \<Rightarrow> string \<Rightarrow> 'h process \<Rightarrow> 'h process" where
  "gai_error gai_strerror code msg p = log_line (msg @ '': '' @ gai_strerror code) p"

definition app_error :: "string \<Rightarrow> 'h process \<Rightarrow> 'h process" where
  "app_error msg p = log_line msg p"

section \<open>Wrappers of Unix I/O\<close>

definition un_Close :: "(int \<Rightarrow> string) \<Rightarrow> sys_answer \<Rightarrow> int \<Rightarrow> 'h process \<Rightarrow> int \<times> 'h process" where
  "un_Close strerror answer fd p =
     (let (ret, p) = sys_call answer p in
      if ret < 0 then (ret, unix_error strerror ''Close error'' p)
      else (ret, p\<lparr>pr_fds := pr_fds p - {fd}\<rparr>))"

text \<open>
  \<open>select\<close> leaves the sets as they are when it fails; otherwise each set keeps the descriptors below
  \<open>n\<close> that the kernel reports, and the result is their number.
\<close>

definition selected :: "int \<Rightarrow> int set \<Rightarrow> int set option \<Rightarrow> int set option" where
  "selected n ready fds = map_option (\<lambda>s. {fd \<in> s. 0 \<le> fd \<and> fd < n \<and> fd \<in> ready}) fds"

definition set_size :: "int set option \<Rightarrow> int" where
  "set_size fds = (case fds of None \<Rightarrow> 0 | Some s \<Rightarrow> int (card s))"

type_synonym fd_sets = "int set option \<times> int set option \<times> int set option"

definition un_Select ::
  "(int \<Rightarrow> string) \<Rightarrow> int + int set \<times> int set \<times> int set \<Rightarrow> int \<Rightarrow> fd_sets \<Rightarrow> 'h process
    \<Rightarrow> int \<times> fd_sets \<times> 'h process" where
  "un_Select strerror answer n sets p =
     (case (answer, sets) of
        (Inl e, _) \<Rightarrow> (- 1, sets, unix_error strerror ''Select error'' (p\<lparr>pr_errno := e\<rparr>))
      | (Inr (rd, wr, er), (readfds, writefds, errorfds)) \<Rightarrow>
          (let r = selected n rd readfds; w = selected n wr writefds; x = selected n er errorfds
           in (set_size r + set_size w + set_size x, (r, w, x), p)))"

section \<open>Wrappers of process control\<close>

text \<open>\<open>Fork\<close> in the process that gets the answer of \<open>fork\<close>: 0 in the child.\<close>

definition un_Fork :: "(int \<Rightarrow> string) \<Rightarrow> sys_answer \<Rightarrow> 'h process \<Rightarrow> int \<times> 'h process" where
  "un_Fork strerror answer p =
     (let (pid, p) = sys_call answer p in
      (pid, if pid < 0 then unix_error strerror ''Fork error'' p else p))"

definition un_Waitpid :: "(int \<Rightarrow> string) \<Rightarrow> sys_answer \<Rightarrow> 'h process \<Rightarrow> int \<times> 'h process" where
  "un_Waitpid strerror answer p =
     (let (ret, p) = sys_call answer p in
      (ret, if ret < 0 then unix_error strerror ''Waitpid error'' p else p))"

section \<open>Wrappers of signal functions\<close>

text \<open>Linux has the signals 1 to 64.\<close>

definition all_signals :: "int set" where
  "all_signals = set [1..64]"

definition un_Sigemptyset :: "(int \<Rightarrow> string) \<Rightarrow> sys_answer \<Rightarrow> int set \<Rightarrow> 'h process \<Rightarrow> int \<times> int set \<times> 'h process" where
  "un_Sigemptyset strerror answer sigs p =
     (let (ret, p) = sys_call answer p in
      if ret < 0 then (ret, sigs, unix_error strerror ''Sigemptyset error'' p) else (ret, {}, p))"

definition un_Sigfillset :: "(int \<Rightarrow> string) \<Rightarrow> sys_answer \<Rightarrow> int set \<Rightarrow> 'h process \<Rightarrow> int \<times> int set \<times> 'h process" where
  "un_Sigfillset strerror answer sigs p =
     (let (ret, p) = sys_call answer p in
      if ret < 0 then (ret, sigs, unix_error strerror ''Sigfillset error'' p) else (ret, all_signals, p))"

definition un_Sigaddset ::
  "(int \<Rightarrow> string) \<Rightarrow> sys_answer \<Rightarrow> int set \<Rightarrow> int \<Rightarrow> 'h process \<Rightarrow> int \<times> int set \<times> 'h process" where
  "un_Sigaddset strerror answer sigs signum p =
     (let (ret, p) = sys_call answer p in
      if ret < 0 then (ret, sigs, unix_error strerror ''Sigaddset error'' p)
      else (ret, insert signum sigs, p))"

definition SA_RESTART :: int where
  "SA_RESTART = 0x10000000"

text \<open>
  \<open>action\<close> and \<open>actionOld\<close> are local variables without initial values, so their first contents are
  arguments; \<open>empty_answer\<close> and \<open>answer\<close> are those of \<open>sigemptyset\<close> and \<open>sigaction\<close>.
\<close>

definition un_Signal ::
  "(int \<Rightarrow> string) \<Rightarrow> sys_answer \<Rightarrow> sys_answer \<Rightarrow> 'h sigaction \<Rightarrow> 'h sigaction \<Rightarrow> int \<Rightarrow> 'h
    \<Rightarrow> 'h process \<Rightarrow> 'h \<times> 'h process" where
  "un_Signal strerror empty_answer answer action actionOld signum handler p =
     (let action = action\<lparr>sa_handler := handler\<rparr>;
          (_, mask, p) = un_Sigemptyset strerror empty_answer (sa_mask action) p;
          action = action\<lparr>sa_mask := mask, sa_flags := SA_RESTART\<rparr>;
          (ret, p) = sys_call answer p
      in if ret < 0 then (sa_handler actionOld, unix_error strerror ''Signal error'' p)
         else (sa_handler (pr_actions p signum), p\<lparr>pr_actions := (pr_actions p)(signum := action)\<rparr>))"

section \<open>Wrappers of threads and of descriptors made by the kernel\<close>

definition un_Pthread_create :: "(int \<Rightarrow> string) \<Rightarrow> int \<Rightarrow> 'h process \<Rightarrow> int \<times> 'h process" where
  "un_Pthread_create strerror ret p =
     (ret, if ret \<noteq> 0 then posix_error strerror ret ''Pthread_create error'' p else p)"

definition un_Pthread_detach :: "(int \<Rightarrow> string) \<Rightarrow> int \<Rightarrow> 'h process \<Rightarrow> int \<times> 'h process" where
  "un_Pthread_detach strerror ret p =
     (ret, if ret \<noteq> 0 then posix_error strerror ret ''Pthread_detach error'' p else p)"

definition un_Timerfd_create :: "(int \<Rightarrow> string) \<Rightarrow> sys_answer \<Rightarrow> 'h process \<Rightarrow> int \<times> 'h process" where
  "un_Timerfd_create strerror answer p =
     (let (ret, p) = sys_call answer p in
      if ret < 0 then (ret, unix_error strerror ''Timerfd_create error'' p)
      else (ret, p\<lparr>pr_fds := insert ret (pr_fds p)\<rparr>))"

definition un_Eventfd :: "(int \<Rightarrow> string) \<Rightarrow> sys_answer \<Rightarrow> 'h process \<Rightarrow> int \<times> 'h process" where
  "un_Eventfd strerror answer p =
     (let (fd, p) = sys_call answer p in
      if fd < 0 then (fd, unix_error strerror ''Eventfd error'' p)
      else (fd, p\<lparr>pr_fds := insert fd (pr_fds p)\<rparr>))"


section \<open>Wrappers of sockets\<close>

text \<open>
  The options set on sockets and the sockets shut down for writing are state of the kernel, which the
  wrappers below change; \<open>Listen\<close> and \<open>Bind\<close> abort when the call fails.
\<close>

record kernel =
  ke_options :: "(int \<times> int \<times> int) \<rightharpoonup> int"
  ke_shutdown :: "int set"

definition un_Socket :: "(int \<Rightarrow> string) \<Rightarrow> sys_answer \<Rightarrow> 'h process \<Rightarrow> int \<times> 'h process" where
  "un_Socket strerror answer p =
     (let (fd, p) = sys_call answer p in
      if fd < 0 then (fd, unix_error strerror ''Socket error'' p)
      else (fd, p\<lparr>pr_fds := insert fd (pr_fds p)\<rparr>))"

definition un_Connect :: "(int \<Rightarrow> string) \<Rightarrow> sys_answer \<Rightarrow> 'h process \<Rightarrow> int \<times> 'h process" where
  "un_Connect strerror answer p =
     (let (ret, p) = sys_call answer p in
      (ret, if ret < 0 then unix_error strerror ''Connect error'' p else p))"

definition un_Bind :: "(int \<Rightarrow> string) \<Rightarrow> sys_answer \<Rightarrow> 'h process \<Rightarrow> (int \<times> 'h process) result" where
  "un_Bind strerror answer p =
     (let (ret, p) = sys_call answer p in
      if ret < 0 then (let p = unix_error strerror ''Bind error'' p in Inl Abort) else Inr (ret, p))"

definition un_Listen :: "(int \<Rightarrow> string) \<Rightarrow> sys_answer \<Rightarrow> 'h process \<Rightarrow> (int \<times> 'h process) result" where
  "un_Listen strerror answer p =
     (let (ret, p) = sys_call answer p in
      if ret < 0 then (let p = unix_error strerror ''Listen error'' p in Inl Abort) else Inr (ret, p))"

text \<open>\<open>peer\<close> is the address that a successful call stores; a failing one leaves \<open>addr\<close>.\<close>

definition un_Accept ::
  "(int \<Rightarrow> string) \<Rightarrow> sys_answer \<Rightarrow> 'addr \<Rightarrow> 'addr \<Rightarrow> 'h process \<Rightarrow> int \<times> 'addr \<times> 'h process" where
  "un_Accept strerror answer peer addr p =
     (let (connfd, p) = sys_call answer p in
      if connfd < 0 then (connfd, addr, unix_error strerror ''Accept error'' p)
      else (connfd, peer, p\<lparr>pr_fds := insert connfd (pr_fds p)\<rparr>))"

definition un_GetAddrInfo ::
  "(int \<Rightarrow> string) \<Rightarrow> int \<Rightarrow> 'a list \<Rightarrow> 'a list \<Rightarrow> 'h process \<Rightarrow> int \<times> 'a list \<times> 'h process" where
  "un_GetAddrInfo gai_strerror ret found old p =
     (if ret \<noteq> 0 then (ret, old, gai_error gai_strerror ret ''GetAddrInfo error'' p) else (ret, found, p))"

definition un_GetNameInfo ::
  "(int \<Rightarrow> string) \<Rightarrow> int \<Rightarrow> string \<times> string \<Rightarrow> string \<times> string \<Rightarrow> 'h process
    \<Rightarrow> int \<times> (string \<times> string) \<times> 'h process" where
  "un_GetNameInfo gai_strerror ret found old p =
     (if ret \<noteq> 0 then (ret, old, gai_error gai_strerror ret ''GetNameInfo error'' p) else (ret, found, p))"

definition un_Setsockopt ::
  "(int \<Rightarrow> string) \<Rightarrow> sys_answer \<Rightarrow> int \<Rightarrow> int \<Rightarrow> int \<Rightarrow> int \<Rightarrow> 'h process \<times> kernel \<Rightarrow> int \<times> 'h process \<times> kernel" where
  "un_Setsockopt strerror answer sockfd level optname optval pk =
     (let (p, k) = pk; (ret, p) = sys_call answer p in
      if ret < 0 then (ret, unix_error strerror ''Setsockopt error'' p, k)
      else (ret, p, k\<lparr>ke_options := (ke_options k)((sockfd, level, optname) \<mapsto> optval)\<rparr>))"

definition un_getLocalAddr ::
  "(int \<Rightarrow> string) \<Rightarrow> sys_answer \<Rightarrow> InetAddr \<Rightarrow> 'h process \<Rightarrow> InetAddr \<times> 'h process" where
  "un_getLocalAddr strerror answer local p =
     (let (ret, p) = sys_call answer p in
      if ret < 0
      then (\<lparr>ia_family = 0, ia_port = 0, ia_addr = 0\<rparr>, unix_error strerror ''getLocalAddr error'' p)
      else (local, p))"

definition un_shutdownWrite ::
  "(int \<Rightarrow> string) \<Rightarrow> sys_answer \<Rightarrow> int \<Rightarrow> 'h process \<times> kernel \<Rightarrow> 'h process \<times> kernel" where
  "un_shutdownWrite strerror answer sockfd pk =
     (let (p, k) = pk; (ret, p) = sys_call answer p in
      if ret < 0 then (unix_error strerror ''socketDetail::shutdownWrite error'' p, k)
      else (p, k\<lparr>ke_shutdown := insert sockfd (ke_shutdown k)\<rparr>))"

section \<open>The rest of class \<open>Socket\<close>\<close>

definition SOL_SOCKET :: int where "SOL_SOCKET = 1"

definition SO_REUSEADDR :: int where "SO_REUSEADDR = 2"

definition Socket_setReuse ::
  "(int \<Rightarrow> string) \<Rightarrow> sys_answer \<Rightarrow> bool \<Rightarrow> Socket \<Rightarrow> 'h process \<times> kernel \<Rightarrow> 'h process \<times> kernel" where
  "Socket_setReuse strerror answer reuse s pk =
     (let optval = if reuse then 1 else 0
      in snd (un_Setsockopt strerror answer (so_fd s) SOL_SOCKET SO_REUSEADDR optval pk))"

definition Socket_shutdownWrite ::
  "(int \<Rightarrow> string) \<Rightarrow> sys_answer \<Rightarrow> Socket \<Rightarrow> 'h process \<times> kernel \<Rightarrow> 'h process \<times> kernel" where
  "Socket_shutdownWrite strerror answer s pk = un_shutdownWrite strerror answer (so_fd s) pk"

section \<open>Lemmas\<close>

lemmas wrapper_defs = sys_call_def log_line_def unix_error_def posix_error_def gai_error_def

lemma sys_call_cases:
  obtains (ok) ret where "answer = Ok ret" "sys_call answer p = (ret, p)"
  | (err) e where "answer = Err e" "sys_call answer p = (- 1, p\<lparr>pr_errno := e\<rparr>)"
  by (cases answer) (auto simp: sys_call_def)

text \<open>On the descriptors the wrappers do what SocketDetail says.\<close>

lemma un_Close_fds:
  "un_Close strerror answer fd p = (ret, p') \<Longrightarrow> (ret, pr_fds p') = Close ret fd (pr_fds p)"
  by (cases answer) (auto simp: un_Close_def wrapper_defs Close_def split: if_splits)

lemma un_Socket_fds:
  "un_Socket strerror answer p = (ret, p') \<Longrightarrow> (ret, pr_fds p') = sd_Socket ret (pr_fds p)"
  by (cases answer) (auto simp: un_Socket_def wrapper_defs sd_Socket_def split: if_splits)

lemma un_Accept_fds:
  "un_Accept strerror answer peer addr p = (ret, a, p') \<Longrightarrow> (ret, pr_fds p') = sd_Accept ret (pr_fds p)"
  by (cases answer) (auto simp: un_Accept_def wrapper_defs sd_Accept_def split: if_splits)

lemma un_Bind_result:
  "un_Bind strerror (Ok ret) p = bind_result (sd_Bind ret) (\<lambda>ret. Inr (ret, p))"
  "un_Listen strerror (Ok ret) p = bind_result (sd_Listen ret) (\<lambda>ret. Inr (ret, p))"
  by (simp_all add: un_Bind_def un_Listen_def sd_Bind_def sd_Listen_def sys_call_def)

text \<open>
  When \<open>sigaction\<close> refuses the handler, \<open>Signal\<close> returns what happened to be in its local variable;
  otherwise it returns the old handler, and the new one is in force with an empty mask.
\<close>

lemma un_Signal_exact:
  "un_Signal strerror (Ok 0) (Ok 0) x y signum handler p =
     (sa_handler (pr_actions p signum),
      p\<lparr>pr_actions := (pr_actions p)(signum := \<lparr>sa_handler = handler, sa_mask = {}, sa_flags = SA_RESTART\<rparr>)\<rparr>)"
  "un_Signal strerror (Ok 0) (Err e) x y signum handler p =
     (sa_handler y, unix_error strerror ''Signal error'' (p\<lparr>pr_errno := e\<rparr>))"
  by (cases x; simp add: un_Signal_def un_Sigemptyset_def sys_call_def)+

end
