(* ===== verification/Echo.thy ===== *)
theory Echo
  imports RobustIO UnixUtility
begin

text \<open>
  The echo programs \<^verbatim>\<open>application/echoServer.cpp\<close>, \<^verbatim>\<open>application/echoServerp.cpp\<close> and \<^verbatim>\<open>application/echoClient.cpp\<close>: the
  loop that sends every line back, one connection after the other or one process per connection, and
  the client. A connection is the list of answers of \<open>read\<close> and, for each call of \<open>writen\<close>, the answers
  of \<open>write\<close>; when they are used up the kernel takes everything. The text on the console is left
  out, except the client's, which is what the user sees.
\<close>

section \<open>The echo loop\<close>

definition MAXLINE :: nat where
  "MAXLINE = 8192"

record echo_state =
  ec_n :: nat                                        \<comment> \<open>\<open>n\<close>, of type \<open>size_t\<close>\<close>
  ec_buf :: string
  ec_riob :: Riob
  ec_writes :: "(write_answer list \<times> bool) list"   \<comment> \<open>and whether \<open>errno\<close> is \<open>EINTR\<close> before\<close>
  ec_out :: string                                   \<comment> \<open>everything written to the connection\<close>

definition echo_read :: "echo_state \<Rightarrow> echo_state result" where
  "echo_read s =
     bind_result (Riob_readlineb (ec_buf s) MAXLINE (ec_riob s)) (\<lambda>(rc, u, r).
     Inr (s\<lparr>ec_n := to_size rc, ec_buf := u, ec_riob := r\<rparr>))"

text \<open>
  A \<open>write\<close> of more than \<open>SSIZE_MAX\<close> bytes is refused by the kernel, and \<open>writen\<close> returns \<open>-1\<close>. The
  result of \<open>writen\<close> is not used.
\<close>

definition Rio_writen_checked ::
  "write_answer list \<Rightarrow> bool \<Rightarrow> string \<Rightarrow> nat \<Rightarrow> (int \<times> string) result" where
  "Rio_writen_checked answers intr u n =
     (if n \<ge> 2 ^ 63 then Inr (- 1, [])
      else if length u < n then Inl OutOfBounds
      else Inr (Rio_writen answers intr u n))"

definition next_write :: "'a list \<Rightarrow> 'a \<Rightarrow> 'a \<times> 'a list" where
  "next_write xs x = (case xs of [] \<Rightarrow> (x, []) | y # ys \<Rightarrow> (y, ys))"

definition echo_write :: "echo_state \<Rightarrow> echo_state result" where
  "echo_write s =
     (let ((answers, intr), rest) = next_write (ec_writes s) ([], False) in
      bind_result (Rio_writen_checked answers intr (ec_buf s) (ec_n s)) (\<lambda>(rc, written).
      Inr (s\<lparr>ec_writes := rest, ec_out := ec_out s @ written\<rparr>)))"

definition echo_going :: "echo_state \<Rightarrow> bool" where
  "echo_going s \<longleftrightarrow> ec_n s \<noteq> 0"

definition echo_body :: "echo_state \<Rightarrow> echo_state result option" where
  "echo_body s = Some (bind_result (echo_write s) echo_read)"

text \<open>The arrays of the function and of \<open>Riob\<close> are not initialised: \<open>u\<close> and \<open>array\<close>.\<close>

definition echo_start ::
  "string \<Rightarrow> string \<Rightarrow> descriptor \<Rightarrow> (write_answer list \<times> bool) list \<Rightarrow> echo_state" where
  "echo_start u array fd writes =
     \<lparr>ec_n = 0, ec_buf = u, ec_riob = Riob_new array fd, ec_writes = writes, ec_out = []\<rparr>"

definition echo ::
  "string \<Rightarrow> string \<Rightarrow> descriptor \<Rightarrow> (write_answer list \<times> bool) list \<Rightarrow> echo_state result option" where
  "echo u array fd writes =
     (case echo_read (echo_start u array fd writes) of
        Inl e \<Rightarrow> Some (Inl e)
      | Inr s \<Rightarrow> cpp_while echo_going echo_body s)"

section \<open>Progress\<close>

text \<open>How much a descriptor can still deliver; every call of \<open>_read\<close> that delivers uses some of it.\<close>

definition fuel_of :: "read_answer list \<Rightarrow> nat" where
  "fuel_of as = sum_list (map (\<lambda>a. case a of Data d \<Rightarrow> Suc (length d) | _ \<Rightarrow> 1) as)"

definition riob_fuel :: "Riob \<Rightarrow> nat" where
  "riob_fuel r = nat (rb_cnt r) + fuel_of (de_answers (rb_fd r))"

lemma sys_read_fuel:
  assumes "sys_read n fd = (rc, d, fd')" "0 < n"
  shows "nat rc + fuel_of (de_answers fd') \<le> fuel_of (de_answers fd)"
    and "rc \<noteq> 0 \<Longrightarrow> nat rc + fuel_of (de_answers fd') < fuel_of (de_answers fd) \<or> rc = int (length d) \<and> d \<noteq> []"
  using assms by (auto simp: sys_read_def fuel_of_def min_def split: list.splits read_answer.splits if_splits)

lemma refill_fuel:
  assumes "riob_refill r = (x, r')"
  shows "riob_fuel r' \<le> riob_fuel r \<and> (x = Some (- 1) \<longrightarrow> riob_fuel r' < riob_fuel r)
    \<and> (x = None \<longrightarrow> rb_cnt r' > 0) \<and> (x = None \<or> x = Some 0 \<or> x = Some (- 1))"
  using assms
proof (induction r arbitrary: x r' rule: riob_refill.induct)
  case (1 r)
  show ?case
  proof (cases "rb_cnt r \<le> 0")
    case False
    then show ?thesis using "1.prems" by (auto simp: riob_refill.simps [of r])
  next
    case True
    obtain n d fd where rd: "sys_read RIO_BUFSIZE (rb_fd r) = (n, d, fd)" by (cases "sys_read RIO_BUFSIZE (rb_fd r)")
    let ?r = "r\<lparr>rb_cnt := n, rb_buf := d @ drop (length d) (rb_buf r), rb_fd := fd\<rparr>"
    have size: "0 < RIO_BUFSIZE" by (simp add: RIO_BUFSIZE_def)
    have le: "riob_fuel ?r \<le> riob_fuel r"
      using sys_read_fuel(1) [OF rd size] True by (simp add: riob_fuel_def)
    have lt: "n < 0 \<Longrightarrow> riob_fuel ?r < riob_fuel r"
      using sys_read_fuel(2) [OF rd size] True by (simp add: riob_fuel_def)
    note eq = riob_refill.simps [of r]
    consider "n < 0" "\<not> de_intr fd" | "n < 0" "de_intr fd" | "n = 0" | "n > 0" by linarith
    then show ?thesis
    proof cases
      case 1
      then show ?thesis using "1.prems" True rd le lt by (auto simp: eq)
    next
      case 2
      then have "riob_refill ?r = (x, r')" using "1.prems" True rd by (simp add: eq)
      from "1.IH"(1) [OF True rd [symmetric] refl refl 2(1) _ this] 2 lt show ?thesis by auto
    next
      case 3
      then show ?thesis using "1.prems" True rd le by (auto simp: eq)
    next
      case 4
      then have "riob_refill (?r\<lparr>rb_bufptr := 0\<rparr>) = (x, r')" using "1.prems" True rd by (simp add: eq)
      from "1.IH"(2) [OF True rd [symmetric] refl refl _ _ this] 4 le show ?thesis
        by (auto simp: riob_fuel_def)
    qed
  qed
qed


lemma Riob_read_fuel:
  assumes "Riob_read 1 r = Inr (rc, d, r')"
  shows "riob_fuel r' \<le> riob_fuel r \<and> (rc \<noteq> 0 \<longrightarrow> riob_fuel r' < riob_fuel r)"
proof -
  obtain x r1 where ref: "riob_refill r = (x, r1)" by (cases "riob_refill r")
  note fuel = refill_fuel [OF ref]
  show ?thesis
  proof (cases x)
    case None
    define cnt where "cnt = (if to_size (rb_cnt r1) < 1 then rb_cnt r1 else to_int32 (int 1))"
    have pos: "0 < rb_cnt r1" "0 < cnt" using fuel None by (auto simp: cnt_def to_int32_def)
    have "rc = cnt \<and> r' = r1\<lparr>rb_bufptr := nat (int (rb_bufptr r1) + cnt), rb_cnt := rb_cnt r1 - cnt\<rparr>"
      using assms unfolding Riob_read_def ref None prod.case option.case Let_def cnt_def [symmetric]
      by (auto simp: bind_result_eq_Inr)
    then have "riob_fuel r' < riob_fuel r1" using pos by (auto simp: riob_fuel_def)
    then show ?thesis using fuel by linarith
  next
    case (Some y)
    then have "rc = y" "r' = r1" using assms ref by (simp_all add: Riob_read_def)
    then show ?thesis using fuel Some by auto
  qed
qed

lemma readline_loop_fuel:
  assumes "readline_loop maxlen n u b r = Inr (rc, u', r')"
  shows "riob_fuel r' \<le> riob_fuel r \<and> (n = 1 \<and> n < maxlen \<and> rc \<noteq> 0 \<longrightarrow> riob_fuel r' < riob_fuel r)"
  using assms
proof (induction maxlen n u b r rule: readline_loop.induct)
  case (1 maxlen n u b r)
  note eq = readline_loop.simps [of maxlen n u b r]
  show ?case
  proof (cases "n < maxlen")
    case False
    then show ?thesis using "1.prems" by (subst (asm) eq) (auto simp: bind_result_eq_Inr)
  next
    case True
    then obtain rc1 d r1 where rd: "Riob_read 1 r = Inr (rc1, d, r1)"
      using "1.prems" by (subst (asm) eq) (auto simp: bind_result_eq_Inr)
    note fuel = Riob_read_fuel [OF rd]
    show ?thesis
    proof (cases "rc1 = 1")
      case False
      then show ?thesis using "1.prems" True rd fuel
        by (subst (asm) eq) (auto simp: bind_result_eq_Inr split: if_splits)
    next
      case one: True
      obtain c u1 where cu: "load d 0 = Inr c" "store u b c = Inr u1"
        using "1.prems" True rd one by (subst (asm) eq) (auto simp: bind_result_eq_Inr)
      show ?thesis
      proof (cases "c = CHR 0x0A")
        case True
        then show ?thesis using "1.prems" \<open>n < maxlen\<close> rd one cu fuel
          by (subst (asm) eq) (auto simp: bind_result_eq_Inr)
      next
        case False
        then have "n < 2 ^ 31 - 1" "readline_loop maxlen (Suc n) u1 (Suc b) r1 = Inr (rc, u', r')"
          using "1.prems" \<open>n < maxlen\<close> rd one cu by (subst (asm) eq; simp split: if_splits)+
        then have "riob_fuel r' \<le> riob_fuel r1"
          using "1.IH" [OF refl True rd refl refl one cu False] by auto
        then show ?thesis using fuel one by auto
      qed
    qed
  qed
qed

section \<open>The loop returns\<close>

text \<open>What holds between two rounds: the arrays have their sizes and \<open>n\<close> fits the array or is \<open>(size_t) -1\<close>.\<close>

definition echo_inv :: "echo_state \<Rightarrow> bool" where
  "echo_inv s \<longleftrightarrow> riob_ok (ec_riob s) \<and> length (ec_buf s) = MAXLINE
     \<and> (ec_n s \<le> MAXLINE \<or> ec_n s = 2 ^ 64 - 1)"

lemma line_of_length: "length (line_of s) \<le> length s"
proof (induction s)
  case (Cons c s)
  then show ?case by (auto simp: line_of_Cons)
qed simp

lemma MAXLINE_bounds: "1 < MAXLINE" "MAXLINE < 2 ^ 31"
  by (simp_all add: MAXLINE_def)

lemma readlineb_echo:
  assumes "riob_ok r" "length u = MAXLINE"
  defines "l \<equiv> take (MAXLINE - 1) (line_of (riob_stream r))"
  shows "\<exists>r' u'. Riob_readlineb u MAXLINE r = Inr (line_result MAXLINE l (riob_fails r), u', r')
    \<and> riob_ok r' \<and> length u' = MAXLINE \<and> take (length l) u' = l
    \<and> (line_stored MAXLINE l (riob_fails r) \<longrightarrow> u' ! length l = NUL)
    \<and> (CHR 0x0A \<in> set l \<or> Suc (length l) = MAXLINE \<longrightarrow>
         riob_stream r' = drop (length l) (riob_stream r) \<and> riob_fails r' = riob_fails r)
    \<and> riob_fuel r' \<le> riob_fuel r
    \<and> (line_result MAXLINE l (riob_fails r) \<noteq> 0 \<longrightarrow> riob_fuel r' < riob_fuel r)"
proof -
  have len: "length l < MAXLINE" using MAXLINE_bounds by (simp add: l_def)
  obtain r' where r': "Riob_readlineb u MAXLINE r
      = Inr (line_result MAXLINE l (riob_fails r),
             l @ (if line_stored MAXLINE l (riob_fails r)
                  then NUL # drop (Suc (length l)) u else drop (length l) u), r')" "riob_ok r'"
      "CHR 0x0A \<in> set l \<or> Suc (length l) = MAXLINE \<longrightarrow>
         riob_stream r' = drop (length l) (riob_stream r) \<and> riob_fails r' = riob_fails r"
    using readline_loop_exact [of r "[]" MAXLINE u l] assms MAXLINE_bounds
    by (auto simp: Riob_readlineb_def simp del: if_split cong: if_cong)
  moreover have "riob_fuel r' \<le> riob_fuel r
      \<and> (line_result MAXLINE l (riob_fails r) \<noteq> 0 \<longrightarrow> riob_fuel r' < riob_fuel r)"
    using readline_loop_fuel [OF r'(1) [unfolded Riob_readlineb_def]] MAXLINE_bounds by simp
  ultimately show ?thesis using len assms(2)
    by (intro exI [of _ r'] exI [of _ "l @ (if line_stored MAXLINE l (riob_fails r)
        then NUL # drop (Suc (length l)) u else drop (length l) u)"]) (simp add: nth_append)
qed


section \<open>The end of the stream\<close>

text \<open>
  A descriptor whose end of file lasts: no answer is an empty read, so only the end of the list is the
  end of file.
\<close>

definition solid :: "Riob \<Rightarrow> bool" where
  "solid r \<longleftrightarrow> Data [] \<notin> set (de_answers (rb_fd r))"

definition drained :: "Riob \<Rightarrow> bool" where
  "drained r \<longleftrightarrow> rb_cnt r = 0 \<and> de_answers (rb_fd r) = []"

lemma drained_stream: "drained r \<Longrightarrow> riob_stream r = [] \<and> \<not> riob_fails r"
  by (simp add: drained_def riob_stream_def riob_bytes_def riob_fails_def)

lemma sys_read_solid:
  assumes "sys_read n fd = (rc, d, fd')" "0 < n" "Data [] \<notin> set (de_answers fd)"
  shows "Data [] \<notin> set (de_answers fd') \<and> (rc = 0 \<longrightarrow> de_answers fd' = [])"
  using assms by (auto simp: sys_read_def split: list.splits read_answer.splits if_splits)

lemma refill_solid:
  assumes "riob_refill r = (x, r')" "solid r"
  shows "solid r' \<and> (x = Some 0 \<longrightarrow> drained r')"
  using assms
proof (induction r arbitrary: x r' rule: riob_refill.induct)
  case (1 r)
  show ?case
  proof (cases "rb_cnt r \<le> 0")
    case False
    then show ?thesis using "1.prems" by (auto simp: riob_refill.simps [of r])
  next
    case True
    obtain n d fd where rd: "sys_read RIO_BUFSIZE (rb_fd r) = (n, d, fd)" by (cases "sys_read RIO_BUFSIZE (rb_fd r)")
    let ?r = "r\<lparr>rb_cnt := n, rb_buf := d @ drop (length d) (rb_buf r), rb_fd := fd\<rparr>"
    have size: "0 < RIO_BUFSIZE" by (simp add: RIO_BUFSIZE_def)
    have s: "solid ?r" "n = 0 \<longrightarrow> de_answers fd = []"
      using sys_read_solid [OF rd size] "1.prems"(2) by (simp_all add: solid_def)
    note eq = riob_refill.simps [of r]
    consider "n < 0" "\<not> de_intr fd" | "n < 0" "de_intr fd" | "n = 0" | "n > 0" by linarith
    then show ?thesis
    proof cases
      case 1
      then show ?thesis using "1.prems" True rd s by (auto simp: eq)
    next
      case 2
      then have "riob_refill ?r = (x, r')" using "1.prems" True rd by (simp add: eq)
      from "1.IH"(1) [OF True rd [symmetric] refl refl 2(1) _ this s(1)] 2 show ?thesis by auto
    next
      case 3
      then show ?thesis using "1.prems" True rd s by (auto simp: eq drained_def)
    next
      case 4
      then have "riob_refill (?r\<lparr>rb_bufptr := 0\<rparr>) = (x, r')" using "1.prems" True rd by (simp add: eq)
      from "1.IH"(2) [OF True rd [symmetric] refl refl _ _ this] 4 s show ?thesis by (auto simp: solid_def)
    qed
  qed
qed

lemma Riob_read_solid:
  assumes "Riob_read 1 r = Inr (rc, d, r')" "solid r"
  shows "solid r' \<and> (rc = 0 \<longrightarrow> drained r')"
proof -
  obtain x r1 where ref: "riob_refill r = (x, r1)" by (cases "riob_refill r")
  note s = refill_solid [OF ref assms(2)]
  show ?thesis
  proof (cases x)
    case None
    then have "rb_cnt r1 > 0" using refill_fuel [OF ref] by simp
    then show ?thesis using assms(1) ref None s
      by (auto simp: Riob_read_def Let_def bind_result_eq_Inr solid_def to_int32_def split: if_splits)
  next
    case (Some y)
    then show ?thesis using assms ref s by (auto simp: Riob_read_def)
  qed
qed

lemma readline_solid:
  assumes "readline_loop maxlen n u b r = Inr (rc, u', r')" "solid r"
  shows "solid r'"
  using assms
proof (induction maxlen n u b r rule: readline_loop.induct)
  case (1 maxlen n u b r)
  note eq = readline_loop.simps [of maxlen n u b r]
  show ?case
  proof (cases "n < maxlen")
    case False
    then show ?thesis using "1.prems" by (subst (asm) eq) (auto simp: bind_result_eq_Inr)
  next
    case True
    then obtain rc1 d r1 where rd: "Riob_read 1 r = Inr (rc1, d, r1)"
      using "1.prems" by (subst (asm) eq) (auto simp: bind_result_eq_Inr)
    note s = Riob_read_solid [OF rd "1.prems"(2)]
    show ?thesis
    proof (cases "rc1 = 1 \<and> load d 0 \<noteq> Inr (CHR 0x0A)")
      case False
      then show ?thesis using "1.prems" True rd s
        by (subst (asm) eq) (auto simp: bind_result_eq_Inr split: if_splits)
    next
      case one: True
      then obtain c u1 where cu: "load d 0 = Inr c" "store u b c = Inr u1" "c \<noteq> CHR 0x0A"
        using "1.prems" True rd by (subst (asm) eq) (auto simp: bind_result_eq_Inr)
      then have "n < 2 ^ 31 - 1" "readline_loop maxlen (Suc n) u1 (Suc b) r1 = Inr (rc, u', r')"
        using "1.prems" True rd one by (subst (asm) eq; simp split: if_splits)+
      then show ?thesis using "1.IH" [OF refl True rd refl refl _ cu] s one by auto
    qed
  qed
qed

text \<open>A last line without a newline ends where the descriptor is drained.\<close>

lemma readline_eof:
  assumes "readline_loop maxlen n u b r = Inr (rc, u', r')" "solid r" "riob_ok r"
    and "CHR 0x0A \<notin> set (riob_stream r)" "\<not> riob_fails r" "n + length (riob_stream r) < maxlen"
  shows "drained r'"
  using assms
proof (induction maxlen n u b r rule: readline_loop.induct)
  case (1 maxlen n u b r)
  note eq = readline_loop.simps [of maxlen n u b r]
  have lt: "n < maxlen" using "1.prems"(6) by simp
  have one: "0 < (1::nat)" by simp
  show ?case
    using riob.rd_cases [OF "1.prems"(3) one]
  proof (elim disjE exE conjE)
    fix d r1
    assume rd: "Riob_read 1 r = Inr (int (length d), d, r1)" and d: "d \<noteq> []" "length d \<le> 1"
      and st: "riob_stream r = d @ riob_stream r1" "riob_fails r1 = riob_fails r" and ok: "riob_ok r1"
    then obtain c where c: "d = [c]" by (cases d) auto
    have nl: "c \<noteq> CHR 0x0A" using "1.prems"(4) st c by auto
    have ld: "load d 0 = Inr c" by (simp add: load_def c)
    obtain u1 where u1: "store u b c = Inr u1"
      using "1.prems"(1) lt rd c ld by (subst (asm) eq) (auto simp: bind_result_eq_Inr)
    have "n < 2 ^ 31 - 1" "readline_loop maxlen (Suc n) u1 (Suc b) r1 = Inr (rc, u', r')"
      using "1.prems"(1) lt rd c ld u1 nl by (subst (asm) eq; simp split: if_splits)+
    then show ?thesis
      using "1.IH" [OF refl lt rd refl refl _ ld u1 nl] Riob_read_solid [OF rd "1.prems"(2)] ok st c "1.prems"
      by auto
  next
    fix r1
    assume rd: "Riob_read 1 r = Inr (0, [], r1)"
    have "drained r1" using Riob_read_solid [OF rd "1.prems"(2)] by simp
    then show ?thesis using "1.prems"(1) lt rd
      by (subst (asm) eq) (auto simp: bind_result_eq_Inr split: if_splits)
  qed (use "1.prems" in simp_all)
qed


section \<open>What is echoed\<close>

text \<open>The stream is cut into lines and these into pieces of at most \<open>MAXLINE - 1\<close> bytes.\<close>

function echo_chunks :: "string \<Rightarrow> string list" where
  "echo_chunks s =
     (if s = [] then []
      else (let l = take (MAXLINE - 1) (line_of s) in l # echo_chunks (drop (length l) s)))"
  by auto
termination
proof (relation "measure length")
  fix s l :: string
  assume "s \<noteq> []" "l = take (MAXLINE - 1) (line_of s)"
  then show "(drop (length l) s, s) \<in> measure length"
    using MAXLINE_bounds by (cases s) (auto simp: line_of_Cons)
qed simp

declare echo_chunks.simps [simp del]

text \<open>A piece without its newline is sent with the null character that \<open>readlineb\<close> puts behind it.\<close>

definition echo_line :: "string \<Rightarrow> string" where
  "echo_line l = (if CHR 0x0A \<in> set l then l else l @ [NUL])"

definition echo_text :: "string \<Rightarrow> string" where
  "echo_text s = concat (map echo_line (echo_chunks s))"

lemma echo_text_Nil [simp]: "echo_text [] = []"
  by (simp add: echo_text_def echo_chunks.simps)

lemma echo_text_step:
  "s \<noteq> [] \<Longrightarrow> l = take (MAXLINE - 1) (line_of s) \<Longrightarrow> echo_text s = echo_line l @ echo_text (drop (length l) s)"
  by (simp add: echo_text_def echo_chunks.simps [of s] Let_def)

definition pending :: "echo_state \<Rightarrow> string" where
  "pending s = take (ec_n s) (ec_buf s)"

definition lasting :: "Riob \<Rightarrow> bool" where
  "lasting r \<longleftrightarrow> solid r \<and> \<not> riob_fails r"

lemma line_of_prefix: "line_of s = take (length (line_of s)) s"
proof (induction s)
  case (Cons c s)
  then show ?case by (auto simp: line_of_Cons)
qed simp

lemma line_of_all: "CHR 0x0A \<notin> set (line_of s) \<longleftrightarrow> CHR 0x0A \<notin> set s" "CHR 0x0A \<notin> set s \<Longrightarrow> line_of s = s"
  by (auto simp: line_of_def takeWhile_eq_all_conv dest: set_takeWhileD)

text \<open>The line that is neither cut nor ended by a newline is the rest of the stream.\<close>

lemma open_line_rest:
  assumes "l = take m (line_of s)" "CHR 0x0A \<notin> set l" "length l < m"
  shows "l = s" "CHR 0x0A \<notin> set s"
proof -
  have "l = line_of s" using assms(1,3) by (simp add: min_def split: if_splits)
  then show "CHR 0x0A \<notin> set s" using assms(2) line_of_all(1) by blast
  then show "l = s" using \<open>l = line_of s\<close> line_of_all(2) by simp
qed

lemma echo_read_exact:
  assumes "riob_ok (ec_riob s)" "length (ec_buf s) = MAXLINE"
  shows "\<exists>s'. echo_read s = Inr s' \<and> echo_inv s' \<and> ec_writes s' = ec_writes s \<and> ec_out s' = ec_out s
    \<and> riob_fuel (ec_riob s') \<le> riob_fuel (ec_riob s)
    \<and> (ec_n s' \<noteq> 0 \<longrightarrow> riob_fuel (ec_riob s') < riob_fuel (ec_riob s))
    \<and> (lasting (ec_riob s) \<longrightarrow> lasting (ec_riob s') \<and> ec_n s' \<le> MAXLINE
        \<and> (ec_n s' = 0 \<longrightarrow> riob_stream (ec_riob s') = [])
        \<and> pending s' @ echo_text (riob_stream (ec_riob s')) = echo_text (riob_stream (ec_riob s)))"
proof -
  let ?r = "ec_riob s" and ?w = "riob_stream (ec_riob s)"
  define l where "l = take (MAXLINE - 1) (line_of ?w)"
  define rc where "rc = line_result MAXLINE l (riob_fails ?r)"
  have len: "length l \<le> MAXLINE - 1" by (simp add: l_def)
  obtain r' u' where rd: "Riob_readlineb (ec_buf s) MAXLINE ?r = Inr (rc, u', r')"
    and r': "riob_ok r'" "length u' = MAXLINE" "take (length l) u' = l"
      "line_stored MAXLINE l (riob_fails ?r) \<longrightarrow> u' ! length l = NUL"
      "CHR 0x0A \<in> set l \<or> Suc (length l) = MAXLINE \<longrightarrow>
         riob_stream r' = drop (length l) ?w \<and> riob_fails r' = riob_fails ?r"
      "riob_fuel r' \<le> riob_fuel ?r" "rc \<noteq> 0 \<longrightarrow> riob_fuel r' < riob_fuel ?r"
    using readlineb_echo [OF assms] unfolding l_def rc_def by blast
  let ?s = "s\<lparr>ec_n := to_size rc, ec_buf := u', ec_riob := r'\<rparr>"
  have rc: "- 1 \<le> rc" "rc \<le> int MAXLINE" using len MAXLINE_bounds by (auto simp: rc_def line_result_def)
  have n: "rc = - 1 \<and> to_size rc = 2 ^ 64 - 1 \<or> 0 \<le> rc \<and> to_size rc = nat rc"
  proof (cases "rc = - 1")
    case False
    then have "0 \<le> rc" "rc < 2 ^ 64" using rc MAXLINE_bounds by auto
    then show ?thesis by (simp add: to_size_nonneg)
  qed (simp add: to_size_def)
  have inv: "echo_inv ?s" using r' n rc by (auto simp: echo_inv_def)
  have zero: "to_size rc \<noteq> 0 \<longrightarrow> rc \<noteq> 0" by (auto simp: to_size_def)
  have last: "lasting r' \<and> to_size rc \<le> MAXLINE \<and> (to_size rc = 0 \<longrightarrow> riob_stream r' = [])
      \<and> pending ?s @ echo_text (riob_stream r') = echo_text ?w" if lr: "lasting ?r"
  proof -
    have nf: "\<not> riob_fails ?r" and sol: "solid ?r" using lr by (simp_all add: lasting_def)
    have sol': "solid r'" using readline_solid [OF rd [unfolded Riob_readlineb_def] sol] .
    show ?thesis
    proof (cases "CHR 0x0A \<in> set l \<or> Suc (length l) = MAXLINE")
      case True
      have "?w \<noteq> []" using True MAXLINE_bounds by (auto simp: l_def)
      then have t: "echo_text ?w = echo_line l @ echo_text (drop (length l) ?w)" using l_def by (rule echo_text_step)
      have ne: "0 < rc" "nat rc = length (echo_line l)" "rc = int (nat rc)"
        using True len by (auto simp: rc_def line_result_def echo_line_def)
      have "line_stored MAXLINE l (riob_fails ?r)" using True by (auto simp: line_stored_def)
      then have "take (Suc (length l)) u' = l @ [NUL]"
        using r'(2-4) len MAXLINE_bounds by (simp add: take_Suc_conv_app_nth)
      then have "take (nat rc) u' = echo_line l" using ne(2) r'(3) by (auto simp: echo_line_def)
      then show ?thesis using ne n rc r'(5) True t nf sol' by (auto simp: pending_def lasting_def)
    next
      case False
      have nl: "CHR 0x0A \<notin> set l" using False by simp
      have "Suc (length l) \<noteq> MAXLINE" using False by simp
      then have short: "length l < MAXLINE - 1" using len MAXLINE_bounds by arith
      note l = open_line_rest [OF l_def nl short]
      have "drained r'"
        using readline_eof [OF rd [unfolded Riob_readlineb_def] sol assms(1) l(2) nf] short l(1) by simp
      then have d: "riob_stream r' = []" "\<not> riob_fails r'" using drained_stream by auto
      show ?thesis
      proof (cases "l = []")
        case True
        then have "rc = 0" using nf MAXLINE_bounds by (simp add: rc_def line_result_def)
        then show ?thesis using d sol' l True by (simp add: pending_def lasting_def to_size_def)
      next
        case ne: False
        then have "rc = int (Suc (length l))" using False nf by (simp add: rc_def line_result_def)
        then have k: "to_size rc = Suc (length l)" using n by auto
        have "line_stored MAXLINE l (riob_fails ?r)" using ne nf by (simp add: line_stored_def)
        then have "take (Suc (length l)) u' = l @ [NUL]"
          using r'(2-4) len MAXLINE_bounds by (simp add: take_Suc_conv_app_nth)
        moreover have "l = take (MAXLINE - 1) (line_of ?w)" by (rule l_def)
        then have "echo_text ?w = echo_line l" using echo_text_step [of ?w l] ne l by simp
        ultimately show ?thesis using k d sol' short False ne l by (simp add: pending_def lasting_def echo_line_def)
      qed
    qed
  qed
  have "echo_read s = Inr ?s" by (simp add: echo_read_def rd)
  then show ?thesis using inv r' zero last by (intro exI [of _ ?s]) simp
qed


section \<open>The whole loop\<close>

definition writes_ok :: "(write_answer list \<times> bool) list \<Rightarrow> bool" where
  "writes_ok ws \<longleftrightarrow> list_all (\<lambda>(as, intr). WFail \<notin> set as \<and> Takes 0 \<notin> set as) ws"

lemma next_write_ok: "writes_ok ws \<Longrightarrow> next_write ws ([], False) = ((as, intr), rest) \<Longrightarrow>
    writes_ok rest \<and> WFail \<notin> set as \<and> Takes 0 \<notin> set as"
  by (cases ws) (auto simp: next_write_def writes_ok_def)

lemma echo_write_exact:
  assumes "echo_inv s"
  shows "\<exists>ws out. echo_write s = Inr (s\<lparr>ec_writes := ws, ec_out := ec_out s @ out\<rparr>)
    \<and> (writes_ok (ec_writes s) \<longrightarrow> writes_ok ws)
    \<and> (writes_ok (ec_writes s) \<and> ec_n s \<le> MAXLINE \<longrightarrow> out = pending s)"
proof -
  obtain as intr rest where nw: "next_write (ec_writes s) ([], False) = ((as, intr), rest)"
    by (metis prod.exhaust)
  note ok = next_write_ok [OF _ nw]
  show ?thesis
  proof (cases "ec_n s \<le> MAXLINE")
    case True
    obtain rc out where w: "Rio_writen as intr (ec_buf s) (ec_n s) = (rc, out)" by (cases "Rio_writen as intr (ec_buf s) (ec_n s)")
    have len: "ec_n s \<le> length (ec_buf s)" "ec_n s < 2 ^ 63"
      using True assms MAXLINE_bounds by (auto simp: echo_inv_def)
    then have "Rio_writen_checked as intr (ec_buf s) (ec_n s) = Inr (rc, out)"
      by (simp add: Rio_writen_checked_def w)
    moreover have "out = pending s" if "WFail \<notin> set as" "Takes 0 \<notin> set as"
      using writen_loop_exact [of 0 "ec_n s" "ec_n s" "ec_buf s" "[]" as intr rc out] w len that
      by (auto simp: Rio_writen_def pending_def)
    ultimately show ?thesis using nw ok
      by (intro exI [of _ rest] exI [of _ out]) (auto simp: echo_write_def)
  next
    case False
    then have "ec_n s = 2 ^ 64 - 1" using assms by (auto simp: echo_inv_def)
    then have "Rio_writen_checked as intr (ec_buf s) (ec_n s) = Inr (- 1, [])" by (simp add: Rio_writen_checked_def)
    then show ?thesis using nw ok False
      by (intro exI [of _ rest] exI [of _ "[]"]) (auto simp: echo_write_def)
  qed
qed

definition echo_fine :: "echo_state \<Rightarrow> bool" where
  "echo_fine s \<longleftrightarrow> lasting (ec_riob s) \<and> writes_ok (ec_writes s) \<and> ec_n s \<le> MAXLINE
     \<and> (ec_n s = 0 \<longrightarrow> riob_stream (ec_riob s) = [])"

lemma echo_loop_exact:
  assumes "echo_inv s"
  shows "\<exists>s'. cpp_while echo_going echo_body s = Some (Inr s')
    \<and> (echo_fine s \<longrightarrow> ec_out s' = ec_out s @ pending s @ echo_text (riob_stream (ec_riob s)))"
  using assms
proof (induction "riob_fuel (ec_riob s)" arbitrary: s rule: less_induct)
  case less
  show ?case
  proof (cases "ec_n s = 0")
    case True
    then show ?thesis by (simp add: cpp_while_done echo_going_def echo_fine_def pending_def)
  next
    case False
    obtain ws out where w: "echo_write s = Inr (s\<lparr>ec_writes := ws, ec_out := ec_out s @ out\<rparr>)"
        "writes_ok (ec_writes s) \<longrightarrow> writes_ok ws"
        "writes_ok (ec_writes s) \<and> ec_n s \<le> MAXLINE \<longrightarrow> out = pending s"
      using echo_write_exact [OF less.prems] by blast
    let ?s = "s\<lparr>ec_writes := ws, ec_out := ec_out s @ out\<rparr>"
    have "riob_ok (ec_riob ?s)" "length (ec_buf ?s) = MAXLINE" using less.prems by (simp_all add: echo_inv_def)
    from echo_read_exact [OF this]
    obtain s1 where s1: "echo_read ?s = Inr s1" "echo_inv s1" "ec_writes s1 = ws" "ec_out s1 = ec_out s @ out"
        "ec_n s1 \<noteq> 0 \<longrightarrow> riob_fuel (ec_riob s1) < riob_fuel (ec_riob s)"
        "lasting (ec_riob s) \<longrightarrow> lasting (ec_riob s1) \<and> ec_n s1 \<le> MAXLINE
          \<and> (ec_n s1 = 0 \<longrightarrow> riob_stream (ec_riob s1) = [])
          \<and> pending s1 @ echo_text (riob_stream (ec_riob s1)) = echo_text (riob_stream (ec_riob s))"
      by auto
    have step: "cpp_while echo_going echo_body s = cpp_while echo_going echo_body s1"
      using False w(1) s1(1) by (intro cpp_while_step) (simp_all add: echo_going_def echo_body_def)
    have fine: "echo_fine s \<longrightarrow> echo_fine s1" using w(2) s1(3,6) by (auto simp: echo_fine_def)
    have out: "echo_fine s \<longrightarrow> out = pending s" using w(3) by (simp add: echo_fine_def)
    show ?thesis
    proof (cases "ec_n s1 = 0")
      case True
      then have "cpp_while echo_going echo_body s1 = Some (Inr s1)" by (simp add: cpp_while_done echo_going_def)
      then show ?thesis using step fine out s1(4,6) True by (auto simp: echo_fine_def pending_def)
    next
      case ne: False
      then obtain s' where "cpp_while echo_going echo_body s1 = Some (Inr s')"
          "echo_fine s1 \<longrightarrow> ec_out s' = ec_out s1 @ pending s1 @ echo_text (riob_stream (ec_riob s1))"
        using less.hyps [of s1] s1(2,5) by blast
      then show ?thesis using step fine out s1(4,6) by (auto simp: echo_fine_def)
    qed
  qed
qed

text \<open>A stream that ends and never fails.\<close>

definition descr_lasting :: "descriptor \<Rightarrow> bool" where
  "descr_lasting fd \<longleftrightarrow> Data [] \<notin> set (de_answers fd) \<and> \<not> failing (de_answers fd)"

lemma echo_total:
  assumes "length u = MAXLINE" "length array = RIO_BUFSIZE"
  shows "\<exists>s. echo u array fd ws = Some (Inr s)
    \<and> (descr_lasting fd \<and> writes_ok ws \<longrightarrow> ec_out s = echo_text (data_of (de_answers fd)))"
proof -
  let ?s = "echo_start u array fd ws"
  have "riob_ok (ec_riob ?s)" "length (ec_buf ?s) = MAXLINE"
    using assms riob_ok_new by (simp_all add: echo_start_def)
  from echo_read_exact [OF this]
  obtain s1 where s1: "echo_read ?s = Inr s1" "echo_inv s1" "ec_writes s1 = ws" "ec_out s1 = []"
      "lasting (ec_riob ?s) \<longrightarrow> lasting (ec_riob s1) \<and> ec_n s1 \<le> MAXLINE
        \<and> (ec_n s1 = 0 \<longrightarrow> riob_stream (ec_riob s1) = [])
        \<and> pending s1 @ echo_text (riob_stream (ec_riob s1)) = echo_text (riob_stream (ec_riob ?s))"
    by (auto simp: echo_start_def)
  have r: "riob_stream (ec_riob ?s) = data_of (de_answers fd)"
      "descr_lasting fd \<longrightarrow> lasting (ec_riob ?s)"
    by (simp_all add: echo_start_def riob_stream_new lasting_def descr_lasting_def solid_def)
      (simp add: Riob_new_def)
  then have "descr_lasting fd \<and> writes_ok ws \<longrightarrow> echo_fine s1" using s1(3,5) by (auto simp: echo_fine_def)
  then show ?thesis using echo_loop_exact [OF s1(2)] s1 r by (auto simp: echo_def)
qed


lemma line_of_line: "CHR 0x0A \<notin> set b \<Longrightarrow> line_of (b @ CHR 0x0A # w) = b @ [CHR 0x0A]"
  by (induction b) (auto simp: line_of_Cons)

text \<open>Lines that end with a newline and fit the array are echoed as they are.\<close>

definition short_line :: "string \<Rightarrow> bool" where
  "short_line l \<longleftrightarrow> l \<noteq> [] \<and> last l = CHR 0x0A \<and> CHR 0x0A \<notin> set (butlast l) \<and> length l < MAXLINE"

lemma echo_text_line: "short_line l \<Longrightarrow> echo_text (l @ w) = l @ echo_text w"
proof -
  assume l: "short_line l"
  then obtain b where b: "l = b @ [CHR 0x0A]" "CHR 0x0A \<notin> set b"
    unfolding short_line_def by (metis append_butlast_last_id)
  have "line_of (l @ w) = l" using b line_of_line [of b w] by simp
  moreover have "length l \<le> MAXLINE - 1" using l by (auto simp: short_line_def)
  ultimately have "l = take (MAXLINE - 1) (line_of (l @ w))" by simp
  from echo_text_step [OF _ this] show ?thesis using b by (simp add: echo_line_def)
qed

lemma echo_text_lines: "list_all short_line ls \<Longrightarrow> echo_text (concat ls) = concat ls"
  by (induction ls) (simp_all add: echo_text_line)

section \<open>The iterative server\<close>

text \<open>What the kernel and the peer do for one connection, and the arrays of the call of \<open>echo\<close>.\<close>

record connection =
  co_accept :: sys_answer
  co_name :: int
  co_input :: descriptor
  co_writes :: "(write_answer list \<times> bool) list"
  co_close :: sys_answer
  co_buf :: string
  co_array :: string

definition echo_connection :: "connection \<Rightarrow> string result option" where
  "echo_connection c =
     map_option (map_sum id ec_out) (echo (co_buf c) (co_array c) (co_input c) (co_writes c))"

definition serve_iterative ::
  "(int \<Rightarrow> string) \<Rightarrow> (int \<Rightarrow> string) \<Rightarrow> connection \<Rightarrow> 'h process \<Rightarrow> (string \<times> 'h process) result option" where
  "serve_iterative strerror gai_strerror c p =
     (let (connfd, addr, p) = un_Accept strerror (co_accept c) () () p;
          (ret, names, p) = un_GetNameInfo gai_strerror (co_name c) ([], []) ([], []) p
      in map_option
           (\<lambda>r. bind_result r (\<lambda>out. Inr (out, snd (un_Close strerror (co_close c) connfd p))))
           (echo_connection c))"

text \<open>The endless loop of \<open>main\<close>, for the connections that come.\<close>

fun serve_all ::
  "(connection \<Rightarrow> 'h process \<Rightarrow> (string \<times> 'h process) result option) \<Rightarrow> connection list \<Rightarrow> 'h process
    \<Rightarrow> (string list \<times> 'h process) result option" where
  "serve_all serve [] p = Some (Inr ([], p))"
| "serve_all serve (c # cs) p =
     (case serve c p of
        None \<Rightarrow> None
      | Some (Inl e) \<Rightarrow> Some (Inl e)
      | Some (Inr (out, p)) \<Rightarrow>
          map_option (\<lambda>r. bind_result r (\<lambda>(outs, p). Inr (out # outs, p))) (serve_all serve cs p))"

section \<open>One process per connection\<close>

text \<open>The child has a copy of the parent's descriptors; after \<open>exit(0)\<close> they are gone.\<close>

definition child_process ::
  "(int \<Rightarrow> string) \<Rightarrow> int \<Rightarrow> int \<Rightarrow> connection \<Rightarrow> 'h process \<Rightarrow> (string \<times> 'h process) result option" where
  "child_process strerror listenfd connfd c p =
     (let p = snd (un_Close strerror (Ok 0) listenfd p)
      in map_option
           (\<lambda>r. bind_result r (\<lambda>out. Inr (out, snd (un_Close strerror (co_close c) connfd p))))
           (echo_connection c))"

text \<open>
  One round of the parent: \<open>fork_answer\<close> is what it gets from \<open>fork\<close>; the child, if there is one, runs
  on its own. A failed \<open>fork\<close> is handled like the parent's side of a successful one.
\<close>

definition serve_forking ::
  "(int \<Rightarrow> string) \<Rightarrow> int \<Rightarrow> sys_answer \<Rightarrow> sys_answer \<Rightarrow> connection \<Rightarrow> 'h process
    \<Rightarrow> (string \<times> 'h process) result option option \<times> 'h process" where
  "serve_forking strerror listenfd fork_answer close_answer c p =
     (let (connfd, addr, p) = un_Accept strerror (co_accept c) () () p;
          child = (case fork_answer of Err e \<Rightarrow> None | Ok pid \<Rightarrow> Some (child_process strerror listenfd connfd c p));
          (pid, p) = un_Fork strerror fork_answer p
      in (child, snd (un_Close strerror close_answer connfd p)))"

fun forking_all ::
  "(int \<Rightarrow> string) \<Rightarrow> int \<Rightarrow> (sys_answer \<times> sys_answer \<times> connection) list \<Rightarrow> 'h process
    \<Rightarrow> (string \<times> 'h process) result option option list \<times> 'h process" where
  "forking_all strerror listenfd [] p = ([], p)"
| "forking_all strerror listenfd ((fork_answer, close_answer, c) # cs) p =
     (let (child, p) = serve_forking strerror listenfd fork_answer close_answer c p;
          (children, p) = forking_all strerror listenfd cs p
      in (child # children, p))"

text \<open>
  The handler of \<open>SIGCHLD\<close>: the answers of \<open>waitpid\<close> are the children that have ended, then 0 or \<open>-1\<close>;
  for each of the messages the answers of \<open>write\<close> are given.
\<close>

definition reap_message :: "int \<Rightarrow> string" where
  "reap_message pid = ''retrieve child process '' @ fmt_d pid @ [CHR 0x0A]"

fun sigchld_handler :: "int list \<Rightarrow> (int \<times> int) list \<Rightarrow> string \<Rightarrow> (int list \<times> string) result" where
  "sigchld_handler [] ws out = Inr ([], out)"
| "sigchld_handler (pid # waits) ws out =
     (if pid > 0 then
        (let ((a, b), ws) = next_write ws (int (length (reap_message pid)), 0) in
         bind_result (sio_Prints_string a b (reap_message pid) out) (\<lambda>(n, out).
         sigchld_handler waits ws out))
      else Inr (waits, out))"


section \<open>The main functions\<close>

text \<open>
  With too few arguments the programs print their usage and exit. \<open>listening\<close> has the answers of the
  calls in \<open>OpenListenFd\<close>, whose result is not checked; \<open>signals\<close> those in \<open>Signal\<close> and the contents
  of its local variables.
\<close>

abbreviation SIGCHLD :: int where
  "SIGCHLD \<equiv> 17"

definition echoServer_main ::
  "(int \<Rightarrow> string) \<Rightarrow> (int \<Rightarrow> string) \<Rightarrow> string list \<Rightarrow> int \<times> addr_try list \<times> int \<times> int \<Rightarrow> connection list
    \<Rightarrow> 'h process \<Rightarrow> (string list \<times> 'h process) result option" where
  "echoServer_main strerror gai_strerror args listening cs p =
     (if length args < 2 then Some (Inr ([], p))
      else
        (case listening of (gai, addrs, listen_answer, close_answer) \<Rightarrow>
           (case OpenListenFd gai addrs listen_answer close_answer (pr_fds p) of
              Inl e \<Rightarrow> Some (Inl e)
            | Inr (listenfd, fds) \<Rightarrow>
                serve_all (serve_iterative strerror gai_strerror) cs (p\<lparr>pr_fds := fds\<rparr>))))"

definition echoServerp_main ::
  "(int \<Rightarrow> string) \<Rightarrow> 'h \<Rightarrow> string list \<Rightarrow> sys_answer \<times> sys_answer \<times> 'h sigaction \<times> 'h sigaction
    \<Rightarrow> int \<times> addr_try list \<times> int \<times> int \<Rightarrow> (sys_answer \<times> sys_answer \<times> connection) list \<Rightarrow> 'h process
    \<Rightarrow> ((string \<times> 'h process) result option option list \<times> 'h process) result" where
  "echoServerp_main strerror handler args signals listening cs p =
     (if length args < 2 then Inr ([], p)
      else
        (case (signals, listening) of
           ((empty_answer, action_answer, x, y), (gai, addrs, listen_answer, close_answer)) \<Rightarrow>
             (let p = snd (un_Signal strerror empty_answer action_answer x y SIGCHLD handler p) in
              bind_result (OpenListenFd gai addrs listen_answer close_answer (pr_fds p)) (\<lambda>(listenfd, fds).
              Inr (forking_all strerror listenfd cs (p\<lparr>pr_fds := fds\<rparr>))))))"

section \<open>Properties of the servers\<close>

definition connection_ok :: "int set \<Rightarrow> connection \<Rightarrow> bool" where
  "connection_ok fds c \<longleftrightarrow> (\<exists>fd. co_accept c = Ok fd \<and> 0 \<le> fd \<and> fd \<notin> fds) \<and> co_close c = Ok 0
     \<and> length (co_buf c) = MAXLINE \<and> length (co_array c) = RIO_BUFSIZE"

definition answered :: "connection \<Rightarrow> string \<Rightarrow> bool" where
  "answered c out \<longleftrightarrow>
     (descr_lasting (co_input c) \<and> writes_ok (co_writes c) \<longrightarrow> out = echo_text (data_of (de_answers (co_input c))))"

lemma echo_connection_ok:
  "length (co_buf c) = MAXLINE \<Longrightarrow> length (co_array c) = RIO_BUFSIZE \<Longrightarrow>
   \<exists>out. echo_connection c = Some (Inr out) \<and> answered c out"
  using echo_total [of "co_buf c" "co_array c" "co_input c" "co_writes c"]
  by (auto simp: echo_connection_def answered_def)

lemma serve_iterative_ok:
  assumes "connection_ok (pr_fds p) c"
  shows "\<exists>out p'. serve_iterative strerror gai_strerror c p = Some (Inr (out, p')) \<and> answered c out
    \<and> pr_fds p' = pr_fds p"
proof -
  obtain fd where fd: "co_accept c = Ok fd" "0 \<le> fd" "fd \<notin> pr_fds p" "co_close c = Ok 0"
      "length (co_buf c) = MAXLINE" "length (co_array c) = RIO_BUFSIZE"
    using assms by (auto simp: connection_ok_def)
  obtain out where "echo_connection c = Some (Inr out)" "answered c out" using echo_connection_ok fd(5,6) by blast
  then show ?thesis using fd(1-4)
    by (cases "co_name c = 0")
      (simp_all add: serve_iterative_def un_Accept_def un_GetNameInfo_def un_Close_def wrapper_defs)
qed

text \<open>
  C31. The iterative echo server returns from every connection, whatever its peer sends and whatever the
  kernel takes, never leaves an array, and closes every descriptor it accepts. A peer whose stream ends
  without a failure gets its lines back in order, cut into pieces of at most 8191 bytes; a piece that does not
  end with a newline comes back with a null character behind it.
\<close>

theorem serve_all_exact:
  assumes "list_all (connection_ok (pr_fds p)) cs"
  shows "\<exists>outs p'. serve_all (serve_iterative strerror gai_strerror) cs p = Some (Inr (outs, p'))
    \<and> list_all2 answered cs outs \<and> pr_fds p' = pr_fds p"
  using assms
proof (induction cs arbitrary: p)
  case (Cons c cs)
  then obtain out p1 where p1: "serve_iterative strerror gai_strerror c p = Some (Inr (out, p1))" "answered c out"
      "pr_fds p1 = pr_fds p"
    using serve_iterative_ok [of p c strerror gai_strerror] Cons.prems by auto
  then obtain outs p' where "serve_all (serve_iterative strerror gai_strerror) cs p1 = Some (Inr (outs, p'))"
      "list_all2 answered cs outs" "pr_fds p' = pr_fds p"
    using Cons.IH [of p1] Cons.prems by auto
  then show ?case using p1 by simp
qed simp

text \<open>Two connections: one sends a line in two pieces, the other ends in the middle of a line.\<close>

definition demo_connection :: "read_answer list \<Rightarrow> connection" where
  "demo_connection as =
     \<lparr>co_accept = Ok 4, co_name = 0, co_input = \<lparr>de_answers = as, de_intr = False\<rparr>, co_writes = [],
      co_close = Ok 0, co_buf = replicate MAXLINE NUL, co_array = replicate RIO_BUFSIZE NUL\<rparr>"

definition demo_process :: "unit process" where
  "demo_process =
     \<lparr>pr_fds = {0, 3}, pr_actions = (\<lambda>_. \<lparr>sa_handler = (), sa_mask = {}, sa_flags = 0\<rparr>), pr_errno = 0, pr_log = []\<rparr>"

lemma echo_text_open: "CHR 0x0A \<notin> set s \<Longrightarrow> s \<noteq> [] \<Longrightarrow> length s < MAXLINE \<Longrightarrow> echo_text s = s @ [NUL]"
  using echo_text_step [of s s] by (simp add: line_of_all(2) echo_line_def)

theorem serve_all_exact_witness:
  "\<exists>p'. serve_all (serve_iterative (\<lambda>_. []) (\<lambda>_. []))
      [demo_connection [Data ''a'', Intr, Data [CHR ''b'', CHR 0x0A]], demo_connection [Data ''hi'']] demo_process
    = Some (Inr ([[CHR ''a'', CHR ''b'', CHR 0x0A], ''hi'' @ [NUL]], p')) \<and> pr_fds p' = {0, 3}"
proof -
  let ?a = "demo_connection [Data ''a'', Intr, Data [CHR ''b'', CHR 0x0A]]" and ?b = "demo_connection [Data ''hi'']"
  have "list_all (connection_ok (pr_fds demo_process)) [?a, ?b]"
    by (simp add: connection_ok_def demo_connection_def demo_process_def)
  from serve_all_exact [OF this, of "\<lambda>_. []" "\<lambda>_. []"]
  obtain x y p' where r: "serve_all (serve_iterative (\<lambda>_. []) (\<lambda>_. [])) [?a, ?b] demo_process = Some (Inr ([x, y], p'))"
      "answered ?a x" "answered ?b y" "pr_fds p' = {0, 3}"
    by (auto simp: list_all2_Cons1 demo_process_def)
  have l: "short_line [CHR ''a'', CHR ''b'', CHR 0x0A]" by (simp add: short_line_def MAXLINE_def)
  have "x = [CHR ''a'', CHR ''b'', CHR 0x0A]"
    using r(2) echo_text_line [OF l, of "[]"]
    by (simp add: answered_def demo_connection_def descr_lasting_def writes_ok_def)
  moreover have "y = ''hi'' @ [NUL]"
    using r(3) echo_text_open [of "''hi''"]
    by (simp add: answered_def demo_connection_def descr_lasting_def writes_ok_def MAXLINE_def)
  ultimately show ?thesis using r(1,4) by auto
qed


text \<open>
  The forking server: the child sends the echo and ends without the listening descriptor, the parent
  keeps its descriptors as they were. When \<open>fork\<close> fails the connection is closed without an answer.
\<close>

lemma serve_forking_ok:
  assumes "connection_ok (pr_fds p) c" "listenfd \<in> pr_fds p"
  shows "\<exists>out q p'. serve_forking strerror listenfd (Ok pid) (Ok 0) c p = (Some (Some (Inr (out, q))), p')
    \<and> answered c out \<and> pr_fds q = pr_fds p - {listenfd} \<and> pr_fds p' = pr_fds p"
proof -
  obtain fd where fd: "co_accept c = Ok fd" "0 \<le> fd" "fd \<notin> pr_fds p" "co_close c = Ok 0"
      "length (co_buf c) = MAXLINE" "length (co_array c) = RIO_BUFSIZE"
    using assms by (auto simp: connection_ok_def)
  obtain out where "echo_connection c = Some (Inr out)" "answered c out" using echo_connection_ok fd(5,6) by blast
  then show ?thesis using fd(1-4) assms(2)
    by (auto simp: serve_forking_def child_process_def un_Accept_def un_Fork_def un_Close_def wrapper_defs)
qed

lemma serve_forking_fails:
  assumes "connection_ok (pr_fds p) c"
  shows "fst (serve_forking strerror listenfd (Err e) (Ok 0) c p) = None
    \<and> pr_fds (snd (serve_forking strerror listenfd (Err e) (Ok 0) c p)) = pr_fds p"
  using assms
  by (auto simp: connection_ok_def serve_forking_def un_Accept_def un_Fork_def un_Close_def wrapper_defs)

lemma forking_all_ok:
  assumes "list_all (\<lambda>(f, a, c). connection_ok (pr_fds p) c \<and> a = Ok 0 \<and> (\<exists>pid. f = Ok pid)) cs" "listenfd \<in> pr_fds p"
  shows "\<exists>children p'. forking_all strerror listenfd cs p = (children, p') \<and> pr_fds p' = pr_fds p
    \<and> list_all2 (\<lambda>(f, a, c) child. \<exists>out q. child = Some (Some (Inr (out, q))) \<and> answered c out
        \<and> pr_fds q = pr_fds p - {listenfd}) cs children"
  using assms
proof (induction cs arbitrary: p)
  case (Cons x cs)
  obtain pid c where x: "x = (Ok pid, Ok 0, c)" "connection_ok (pr_fds p) c" using Cons.prems(1) by (cases x) auto
  obtain out q p1 where p1: "serve_forking strerror listenfd (Ok pid) (Ok 0) c p = (Some (Some (Inr (out, q))), p1)"
      "answered c out" "pr_fds q = pr_fds p - {listenfd}" "pr_fds p1 = pr_fds p"
    using serve_forking_ok [OF x(2) Cons.prems(2), of strerror pid] by blast
  then show ?case using Cons.IH [of p1] Cons.prems x(1) by auto
qed simp

text \<open>One call of the handler reports every child that has ended, also when several signals became one.\<close>

lemma sigchld_handler_reaps:
  "list_all (\<lambda>pid. 0 < pid) pids \<Longrightarrow> rc \<le> 0 \<Longrightarrow>
   sigchld_handler (pids @ rc # waits) [] out = Inr (waits, out @ concat (map reap_message pids))"
proof (induction pids arbitrary: out)
  case (Cons pid pids)
  have "NUL \<notin> set (reap_message pid)" using NUL_not_fmt_d by (simp add: reap_message_def)
  then have "sio_Prints_string (int (length (reap_message pid))) 0 (reap_message pid) out
      = Inr (int (length (reap_message pid)), out @ reap_message pid)"
    using sio_prints_exact [of "reap_message pid" _ "[]"]
    by (simp add: sio_Prints_string_def sio_Prints_def)
  then show ?case using Cons by (simp add: next_write_def)
qed simp

section \<open>The client\<close>

record client =
  cl_buf :: string
  cl_stdin :: string                                 \<comment> \<open>what is left of the standard input\<close>
  cl_riob :: Riob
  cl_writes :: "(write_answer list \<times> bool) list"
  cl_sent :: string
  cl_console :: string

text \<open>\<open>fgets\<close> and \<open>strlen\<close> of the C library.\<close>

definition fgets :: "string \<Rightarrow> nat \<Rightarrow> string \<Rightarrow> (string \<times> string) option" where
  "fgets u m input =
     (if input = [] then None
      else (let l = take (m - 1) (line_of input)
            in Some (l @ NUL # drop (Suc (length l)) u, drop (length l) input)))"

definition strlen :: "string \<Rightarrow> nat result" where
  "strlen u = (if NUL \<in> set u then Inr (length (c_string u)) else Inl OutOfBounds)"

function client_loop :: "client \<Rightarrow> client result" where
  "client_loop s =
     (case fgets (cl_buf s) MAXLINE (cl_stdin s) of
        None \<Rightarrow> Inr s
      | Some (u, input) \<Rightarrow>
          (let ((answers, intr), rest) = next_write (cl_writes s) ([], False) in
           bind_result (strlen u) (\<lambda>n.
           bind_result (Rio_writen_checked answers intr u n) (\<lambda>(rc, written).
           bind_result (Riob_readlineb u MAXLINE (cl_riob s)) (\<lambda>(rc, u, r).
           bind_result (strlen u) (\<lambda>n.
           client_loop \<lparr>cl_buf = u, cl_stdin = input, cl_riob = r, cl_writes = rest,
             cl_sent = cl_sent s @ written, cl_console = cl_console s @ take n u\<rparr>))))))"
  by auto
termination
proof (relation "measure (\<lambda>s. length (cl_stdin s))", goal_cases)
  case (2 s x u input)
  then show ?case using MAXLINE_bounds
    by (cases "cl_stdin s") (auto simp: fgets_def Let_def line_of_Cons split: if_splits)
qed simp

declare client_loop.simps [simp del]

text \<open>\<open>main\<close>: the descriptor is open; the arrays have any contents.\<close>

definition client_main :: "string \<Rightarrow> string \<Rightarrow> descriptor \<Rightarrow> (write_answer list \<times> bool) list \<Rightarrow> string \<Rightarrow> client result" where
  "client_main u array fd writes input =
     client_loop \<lparr>cl_buf = u, cl_stdin = input, cl_riob = Riob_new array fd, cl_writes = writes,
       cl_sent = [], cl_console = []\<rparr>"


lemma strlen_line: "NUL \<notin> set l \<Longrightarrow> strlen (l @ NUL # x) = Inr (length l)"
  by (simp add: strlen_def c_string_def takeWhile_neq_append)

definition text_line :: "string \<Rightarrow> bool" where
  "text_line l \<longleftrightarrow> short_line l \<and> NUL \<notin> set l"

lemma text_line_of: "text_line l \<Longrightarrow> take (MAXLINE - 1) (line_of (l @ w)) = l"
proof -
  assume l: "text_line l"
  then obtain b where b: "l = b @ [CHR 0x0A]" "CHR 0x0A \<notin> set b"
    unfolding text_line_def short_line_def by (metis append_butlast_last_id)
  have "line_of (l @ w) = l" using b line_of_line [of b w] by simp
  moreover have "length l \<le> MAXLINE - 1" using l by (auto simp: text_line_def short_line_def)
  ultimately show ?thesis by simp
qed

text \<open>One round: a line goes to the server, \<open>reply\<close> is what \<open>readlineb\<close> leaves in the array.\<close>

lemma client_round:
  assumes l: "text_line l" and s: "length (cl_buf s) = MAXLINE" "cl_stdin s = l @ w"
    and rd: "Riob_readlineb (l @ NUL # drop (Suc (length l)) (cl_buf s)) MAXLINE (cl_riob s) = Inr (rc, reply @ NUL # x, r)"
    and reply: "NUL \<notin> set reply"
  shows "\<exists>ws out. client_loop s = client_loop \<lparr>cl_buf = reply @ NUL # x, cl_stdin = w, cl_riob = r, cl_writes = ws,
      cl_sent = cl_sent s @ out, cl_console = cl_console s @ reply\<rparr>
    \<and> (writes_ok (cl_writes s) \<longrightarrow> writes_ok ws \<and> out = l)"
proof -
  obtain as intr rest where nw: "next_write (cl_writes s) ([], False) = ((as, intr), rest)"
    by (metis prod.exhaust)
  let ?u = "l @ NUL # drop (Suc (length l)) (cl_buf s)"
  have ne: "l \<noteq> []" "NUL \<notin> set l" "length l < MAXLINE" using l by (auto simp: text_line_def short_line_def)
  have f: "fgets (cl_buf s) MAXLINE (cl_stdin s) = Some (?u, w)"
    using ne text_line_of [OF l, of w] by (simp add: fgets_def s Let_def)
  obtain k out where w: "Rio_writen as intr ?u (length l) = (k, out)" by (cases "Rio_writen as intr ?u (length l)")
  have len: "length l < 2 ^ 63" using ne MAXLINE_bounds by simp
  then have ck: "Rio_writen_checked as intr ?u (length l) = Inr (k, out)"
    using w by (simp add: Rio_writen_checked_def)
  have out: "out = l" if "WFail \<notin> set as" "Takes 0 \<notin> set as"
    using writen_loop_exact [of 0 "length l" "length l" ?u "[]" as intr k out] w that
    by (auto simp: Rio_writen_def)
  have "client_loop s = client_loop \<lparr>cl_buf = reply @ NUL # x, cl_stdin = w, cl_riob = r, cl_writes = rest,
      cl_sent = cl_sent s @ out, cl_console = cl_console s @ reply\<rparr>"
    using f nw ck rd strlen_line [OF ne(2)] strlen_line [OF reply]
    by (subst client_loop.simps) (simp add: Let_def)
  then show ?thesis using next_write_ok [OF _ nw] out by blast
qed

lemma client_loop_echoed:
  assumes "list_all text_line ls" "length (cl_buf s) = MAXLINE" "cl_stdin s = concat ls" "riob_ok (cl_riob s)"
    and "riob_stream (cl_riob s) = concat ls @ w"
  shows "\<exists>s'. client_loop s = Inr s' \<and> cl_console s' = cl_console s @ concat ls
    \<and> (writes_ok (cl_writes s) \<longrightarrow> cl_sent s' = cl_sent s @ concat ls)"
  using assms
proof (induction ls arbitrary: s)
  case Nil
  then show ?case by (subst client_loop.simps) (simp add: fgets_def)
next
  case (Cons l ls)
  have l: "text_line l" using Cons.prems by simp
  then have ne: "l \<noteq> []" "NUL \<notin> set l" "length l < MAXLINE" "CHR 0x0A \<in> set l"
    using last_in_set [of l] by (auto simp: text_line_def short_line_def)
  let ?u = "l @ NUL # drop (Suc (length l)) (cl_buf s)"
  have u: "length ?u = MAXLINE" using Cons.prems(2) ne by simp
  have t: "take (MAXLINE - 1) (line_of (riob_stream (cl_riob s))) = l"
    using text_line_of [OF l, of "concat ls @ w"] Cons.prems(5) by simp
  obtain r' u' where r': "Riob_readlineb ?u MAXLINE (cl_riob s) = Inr (line_result MAXLINE l (riob_fails (cl_riob s)), u', r')"
      "riob_ok r'" "length u' = MAXLINE" "take (length l) u' = l" "u' ! length l = NUL"
      "riob_stream r' = concat ls @ w"
    using readlineb_echo [OF Cons.prems(4) u] ne Cons.prems(5) unfolding t by (auto simp: line_stored_def)
  have u': "u' = l @ NUL # drop (Suc (length l)) u'"
    using r'(3-5) ne(3) id_take_nth_drop [of "length l" u'] by simp
  obtain ws out where step: "client_loop s = client_loop \<lparr>cl_buf = u', cl_stdin = concat ls, cl_riob = r',
      cl_writes = ws, cl_sent = cl_sent s @ out, cl_console = cl_console s @ l\<rparr>"
      "writes_ok (cl_writes s) \<longrightarrow> writes_ok ws \<and> out = l"
    using client_round [OF l Cons.prems(2), of "concat ls" "line_result MAXLINE l (riob_fails (cl_riob s))" l
        "drop (Suc (length l)) u'" r'] Cons.prems(3) r'(1) ne(2) u' by auto
  let ?s = "\<lparr>cl_buf = u', cl_stdin = concat ls, cl_riob = r', cl_writes = ws, cl_sent = cl_sent s @ out,
      cl_console = cl_console s @ l\<rparr>"
  obtain s' where "client_loop ?s = Inr s'" "cl_console s' = cl_console s @ l @ concat ls"
      "writes_ok ws \<longrightarrow> cl_sent s' = cl_sent s @ out @ concat ls"
    using Cons.IH [of ?s] Cons.prems(1) r' by auto
  then show ?case using step by auto
qed

text \<open>When the server has closed the connection \<open>readlineb\<close> leaves the array as it is.\<close>

lemma readlineb_drained:
  assumes "riob_ok r" "length u = MAXLINE" "lasting r" "riob_stream r = []"
  shows "\<exists>r'. Riob_readlineb u MAXLINE r = Inr (0, u, r') \<and> riob_ok r' \<and> lasting r' \<and> riob_stream r' = []"
proof -
  have res: "line_result MAXLINE [] False = 0" "\<not> line_stored MAXLINE [] False"
    using MAXLINE_bounds by (simp_all add: line_result_def line_stored_def)
  obtain r' where r': "Riob_readlineb u MAXLINE r = Inr (0, u, r')" "riob_ok r'"
    using readline_loop_exact [OF assms(1), of "[]" MAXLINE u "[]"] assms MAXLINE_bounds res
    by (auto simp: Riob_readlineb_def lasting_def)
  have sol: "solid r" "\<not> riob_fails r" using assms(3) by (simp_all add: lasting_def)
  have "solid r'" "drained r'"
    using readline_solid [OF r'(1) [unfolded Riob_readlineb_def] sol(1)]
      readline_eof [OF r'(1) [unfolded Riob_readlineb_def] sol(1) assms(1) _ sol(2)] assms(4) MAXLINE_bounds
    by simp_all
  then show ?thesis using r' drained_stream by (auto simp: lasting_def)
qed

lemma client_loop_closed:
  assumes "list_all text_line ls" "length (cl_buf s) = MAXLINE" "cl_stdin s = concat ls" "riob_ok (cl_riob s)"
    and "lasting (cl_riob s)" "riob_stream (cl_riob s) = []"
  shows "\<exists>s'. client_loop s = Inr s' \<and> cl_console s' = cl_console s @ concat ls"
  using assms
proof (induction ls arbitrary: s)
  case Nil
  then show ?case by (subst client_loop.simps) (simp add: fgets_def)
next
  case (Cons l ls)
  have l: "text_line l" using Cons.prems by simp
  then have ne: "NUL \<notin> set l" "length l < MAXLINE" by (auto simp: text_line_def short_line_def)
  let ?u = "l @ NUL # drop (Suc (length l)) (cl_buf s)"
  have u: "length ?u = MAXLINE" using Cons.prems(2) ne by simp
  obtain r' where r': "Riob_readlineb ?u MAXLINE (cl_riob s) = Inr (0, ?u, r')" "riob_ok r'" "lasting r'" "riob_stream r' = []"
    using readlineb_drained [OF Cons.prems(4) u Cons.prems(5,6)] by blast
  obtain ws out where step: "client_loop s = client_loop \<lparr>cl_buf = ?u, cl_stdin = concat ls, cl_riob = r',
      cl_writes = ws, cl_sent = cl_sent s @ out, cl_console = cl_console s @ l\<rparr>"
    using client_round [OF l Cons.prems(2) _ r'(1) ne(1), of "concat ls"] Cons.prems(3) by auto
  let ?s = "\<lparr>cl_buf = ?u, cl_stdin = concat ls, cl_riob = r', cl_writes = ws, cl_sent = cl_sent s @ out,
      cl_console = cl_console s @ l\<rparr>"
  obtain s' where "client_loop ?s = Inr s'" "cl_console s' = cl_console s @ l @ concat ls"
    using Cons.IH [of ?s] Cons.prems(1) r' u by auto
  then show ?case using step by auto
qed


section \<open>Client and server together\<close>

text \<open>
  C32. A user who types lines of at most 8191 bytes gets them back: the client sends exactly what was typed,
  the server's \<open>echo\<close> of these bytes is the same bytes, in whatever pieces the kernel delivers them, and
  a client that reads this echo shows exactly what was typed.
\<close>

theorem echo_roundtrip:
  assumes "list_all text_line ls"
    and "length u = MAXLINE" "length array = RIO_BUFSIZE" "length u2 = MAXLINE" "length array2 = RIO_BUFSIZE"
    and "writes_ok ws" "writes_ok ws2"
    and "descr_lasting fd" "data_of (de_answers fd) = concat ls"
    and "data_of (de_answers fd2) = echo_text (concat ls)"
  shows "\<exists>s c. echo u array fd ws = Some (Inr s) \<and> ec_out s = data_of (de_answers fd2)
    \<and> client_main u2 array2 fd2 ws2 (concat ls) = Inr c
    \<and> cl_sent c = data_of (de_answers fd) \<and> cl_console c = concat ls"
proof -
  have id: "echo_text (concat ls) = concat ls"
    using assms(1) by (intro echo_text_lines) (auto simp: list_all_iff text_line_def)
  let ?c = "\<lparr>cl_buf = u2, cl_stdin = concat ls, cl_riob = Riob_new array2 fd2, cl_writes = ws2,
      cl_sent = [], cl_console = []\<rparr>"
  obtain s where "echo u array fd ws = Some (Inr s)" "ec_out s = echo_text (concat ls)"
    using echo_total [OF assms(2,3), of fd ws] assms(6,8,9) by auto
  moreover obtain c where "client_loop ?c = Inr c" "cl_console c = concat ls" "cl_sent c = concat ls"
    using client_loop_echoed [OF assms(1), of ?c "[]"] assms(4,5,7,10) riob_ok_new
    by (auto simp: riob_stream_new id)
  ultimately show ?thesis using assms(9,10) by (auto simp: client_main_def)
qed

theorem echo_roundtrip_witness:
  "\<exists>s c. echo (replicate MAXLINE NUL) (replicate RIO_BUFSIZE NUL)
        \<lparr>de_answers = [Data ''a'', Intr, Data [CHR ''b'', CHR 0x0A, CHR 0x0A]], de_intr = False\<rparr> []
      = Some (Inr s)
    \<and> ec_out s = [CHR ''a'', CHR ''b'', CHR 0x0A, CHR 0x0A]
    \<and> client_main (replicate MAXLINE NUL) (replicate RIO_BUFSIZE NUL)
        \<lparr>de_answers = [Data [CHR ''a'', CHR ''b'', CHR 0x0A], Data [CHR 0x0A]], de_intr = False\<rparr>
        [([Takes 1, WIntr], False)] [CHR ''a'', CHR ''b'', CHR 0x0A, CHR 0x0A]
      = Inr c
    \<and> cl_console c = [CHR ''a'', CHR ''b'', CHR 0x0A, CHR 0x0A]"
proof -
  let ?ls = "[[CHR ''a'', CHR ''b'', CHR 0x0A], [CHR 0x0A]]"
  have ls: "list_all text_line ?ls" by (simp add: text_line_def short_line_def MAXLINE_def)
  then have id: "echo_text (concat ?ls) = concat ?ls"
    by (intro echo_text_lines) (auto simp: text_line_def)
  show ?thesis
    using echo_roundtrip [OF ls, of "replicate MAXLINE NUL" "replicate RIO_BUFSIZE NUL" "replicate MAXLINE NUL"
        "replicate RIO_BUFSIZE NUL" "[]" "[([Takes 1, WIntr], False)]"
        "\<lparr>de_answers = [Data ''a'', Intr, Data [CHR ''b'', CHR 0x0A, CHR 0x0A]], de_intr = False\<rparr>"
        "\<lparr>de_answers = [Data [CHR ''a'', CHR ''b'', CHR 0x0A], Data [CHR 0x0A]], de_intr = False\<rparr>"] id
    by (simp add: writes_ok_def descr_lasting_def) blast
qed

text \<open>
  C33. When the server has closed the connection the client does not notice: \<open>readlineb\<close> returns 0 and
  stores nothing, so the array still holds what the user typed, and the client shows every line as if it
  had come back.
\<close>

theorem client_echoes_itself:
  assumes "list_all text_line ls" "length u = MAXLINE" "length array = RIO_BUFSIZE"
    and "descr_lasting fd" "data_of (de_answers fd) = []"
  shows "\<exists>c. client_main u array fd ws (concat ls) = Inr c \<and> cl_console c = concat ls"
proof -
  let ?c = "\<lparr>cl_buf = u, cl_stdin = concat ls, cl_riob = Riob_new array fd, cl_writes = ws,
      cl_sent = [], cl_console = []\<rparr>"
  have "lasting (cl_riob ?c)" "riob_stream (cl_riob ?c) = []" "riob_ok (cl_riob ?c)"
    using assms(3-5) riob_ok_new
    by (simp_all add: lasting_def descr_lasting_def solid_def riob_stream_new) (simp add: Riob_new_def)
  then show ?thesis using client_loop_closed [OF assms(1), of ?c] assms(2) by (auto simp: client_main_def)
qed

theorem client_echoes_itself_witness:
  "\<exists>c. client_main (replicate MAXLINE NUL) (replicate RIO_BUFSIZE NUL) \<lparr>de_answers = [], de_intr = False\<rparr>
        [([WFail], False)] [CHR ''x'', CHR 0x0A] = Inr c
    \<and> cl_console c = [CHR ''x'', CHR 0x0A]"
proof -
  have "list_all text_line [[CHR ''x'', CHR 0x0A]]" by (simp add: text_line_def short_line_def MAXLINE_def)
  from client_echoes_itself [OF this, of "replicate MAXLINE NUL" "replicate RIO_BUFSIZE NUL"] show ?thesis
    by (simp add: descr_lasting_def)
qed

end
