(* ===== verification/EchoSelect.thy ===== *)
theory EchoSelect
  imports Echo
begin

text \<open>
  \<^verbatim>\<open>application/echoServerm.cpp\<close>: one thread that waits with \<open>select\<close> for the listening descriptor, the standard
  input and all connections, and reads one line from each that is ready. The pool of clients is a
  record; the order in which the hash map is traversed is an argument, like the kernel's answers.
\<close>

section \<open>The pool of clients\<close>

record clientPool =
  cp_fds :: "int \<rightharpoonup> Riob"
  cp_readSet :: "int set"
  cp_readySet :: "int set"
  cp_maxfd :: int

record 'h select_state =
  se_pool :: clientPool
  se_count :: int                  \<comment> \<open>\<open>byte_count\<close>\<close>
  se_buf :: string                 \<comment> \<open>\<open>usrbuf\<close>\<close>
  se_proc :: "'h process"
  se_out :: "int \<Rightarrow> string"    \<comment> \<open>what was written to each descriptor\<close>

definition FD_SETSIZE :: int where
  "FD_SETSIZE = 1024"

text \<open>\<open>FD_SET\<close> with a descriptor outside the set's array is undefined.\<close>

definition FD_SET :: "int \<Rightarrow> int set \<Rightarrow> int set result" where
  "FD_SET fd s = (if 0 \<le> fd \<and> fd < FD_SETSIZE then Inr (insert fd s) else Inl OutOfBounds)"

definition pool_new :: "int \<Rightarrow> string \<Rightarrow> descriptor \<Rightarrow> clientPool result" where
  "pool_new listenfd array input =
     bind_result (FD_SET listenfd {}) (\<lambda>s.
     bind_result (FD_SET 0 s) (\<lambda>s.
     Inr \<lparr>cp_fds = [0 \<mapsto> Riob_new array input], cp_readSet = s, cp_readySet = {}, cp_maxfd = listenfd\<rparr>))"

section \<open>One round\<close>

text \<open>The answers in one round: of \<open>select\<close>, for a new connection and for each descriptor.\<close>

record select_round =
  sr_select :: "int + int set"
  sr_accept :: sys_answer
  sr_input :: descriptor
  sr_array :: string
  sr_order :: "int list"
  sr_writes :: "int \<Rightarrow> write_answer list \<times> bool"
  sr_close :: "int \<Rightarrow> sys_answer"

definition pool_select :: "(int \<Rightarrow> string) \<Rightarrow> select_round \<Rightarrow> 'h select_state \<Rightarrow> 'h select_state" where
  "pool_select strerror a s =
     (let answer = (case sr_select a of Inl e \<Rightarrow> Inl e | Inr ready \<Rightarrow> Inr (ready, {}, {}));
          (ret, (rd, wr, er), p) =
            un_Select strerror answer (cp_maxfd (se_pool s) + 1) (Some (cp_readSet (se_pool s)), None, None) (se_proc s)
      in s\<lparr>se_pool := (se_pool s)\<lparr>cp_readySet := (case rd of Some r \<Rightarrow> r | None \<Rightarrow> {})\<rparr>, se_proc := p\<rparr>)"

definition pool_accept ::
  "(int \<Rightarrow> string) \<Rightarrow> int \<Rightarrow> select_round \<Rightarrow> 'h select_state \<Rightarrow> 'h select_state result" where
  "pool_accept strerror listenfd a s =
     (if listenfd \<in> cp_readySet (se_pool s) then
        (let (connfd, addr, p) = un_Accept strerror (sr_accept a) () () (se_proc s); pool = se_pool s in
         bind_result (FD_SET connfd (cp_readSet pool)) (\<lambda>rs.
         Inr (s\<lparr>se_pool := pool\<lparr>cp_readSet := rs, cp_maxfd := max connfd (cp_maxfd pool),
                  cp_fds := (cp_fds pool)(connfd \<mapsto> Riob_new (sr_array a) (sr_input a))\<rparr>,
                se_proc := p, se_out := (se_out s)(connfd := [])\<rparr>)))
      else Inr s)"

text \<open>The body of the loop over the pool; an overflow of \<open>byte_count\<close> is undefined.\<close>

definition pool_serve ::
  "(int \<Rightarrow> string) \<Rightarrow> select_round \<Rightarrow> int \<Rightarrow> 'h select_state \<Rightarrow> 'h select_state result" where
  "pool_serve strerror a fd s =
     (case cp_fds (se_pool s) fd of
        None \<Rightarrow> Inl OutOfBounds
      | Some riob \<Rightarrow>
          if fd \<in> cp_readySet (se_pool s) then
            bind_result (Riob_readlineb (se_buf s) MAXLINE riob) (\<lambda>(rc, u, r).
            (let n = to_int32 rc;
                 s = s\<lparr>se_buf := u, se_pool := (se_pool s)\<lparr>cp_fds := (cp_fds (se_pool s))(fd \<mapsto> r)\<rparr>\<rparr>
             in if n > 0 then
                  if se_count s + n \<ge> 2 ^ 63 then Inl Arithmetic
                  else
                    bind_result (Rio_writen_checked (fst (sr_writes a fd)) (snd (sr_writes a fd)) u (nat n)) (\<lambda>(k, written).
                    Inr (s\<lparr>se_count := se_count s + n, se_out := (se_out s)(fd := se_out s fd @ written)\<rparr>))
                else if n = 0 then
                  Inr (s\<lparr>se_proc := snd (un_Close strerror (sr_close a fd) fd (se_proc s)),
                         se_pool := (se_pool s)\<lparr>cp_readSet := cp_readSet (se_pool s) - {fd}\<rparr>\<rparr>)
                else Inr s))
          else Inr s)"

fun pool_serve_all ::
  "(int \<Rightarrow> string) \<Rightarrow> select_round \<Rightarrow> int list \<Rightarrow> 'h select_state \<Rightarrow> 'h select_state result" where
  "pool_serve_all strerror a [] s = Inr s"
| "pool_serve_all strerror a (fd # fds) s =
     bind_result (pool_serve strerror a fd s) (pool_serve_all strerror a fds)"

definition pool_round ::
  "(int \<Rightarrow> string) \<Rightarrow> int \<Rightarrow> select_round \<Rightarrow> 'h select_state \<Rightarrow> 'h select_state result" where
  "pool_round strerror listenfd a s =
     bind_result (pool_accept strerror listenfd a (pool_select strerror a s))
       (pool_serve_all strerror a (sr_order a))"

fun pool_rounds ::
  "(int \<Rightarrow> string) \<Rightarrow> int \<Rightarrow> select_round list \<Rightarrow> 'h select_state \<Rightarrow> 'h select_state result" where
  "pool_rounds strerror listenfd [] s = Inr s"
| "pool_rounds strerror listenfd (a # as) s =
     bind_result (pool_round strerror listenfd a s) (pool_rounds strerror listenfd as)"


text \<open>\<open>main\<close>: \<open>u\<close> and \<open>array\<close> are arrays without initial values, \<open>input\<close> is the standard input.\<close>

definition echoServerm_main ::
  "(int \<Rightarrow> string) \<Rightarrow> string list \<Rightarrow> int \<times> addr_try list \<times> int \<times> int \<Rightarrow> string \<Rightarrow> string \<Rightarrow> descriptor
    \<Rightarrow> select_round list \<Rightarrow> 'h process \<Rightarrow> 'h select_state option result" where
  "echoServerm_main strerror args listening u array input rounds p =
     (if length args < 2 then Inr None
      else
        (case listening of (gai, addrs, listen_answer, close_answer) \<Rightarrow>
           bind_result (OpenListenFd gai addrs listen_answer close_answer (pr_fds p)) (\<lambda>(listenfd, fds).
           bind_result (pool_new listenfd array input) (\<lambda>pool.
           bind_result
             (pool_rounds strerror listenfd rounds
               \<lparr>se_pool = pool, se_count = 0, se_buf = u, se_proc = p\<lparr>pr_fds := fds\<rparr>, se_out = (\<lambda>_. [])\<rparr>) (\<lambda>s.
           Inr (Some s))))))"

text \<open>A listening descriptor that could not be opened is put into the set without a test.\<close>

lemma echoServerm_unchecked:
  "length args \<ge> 2 \<Longrightarrow> gai \<noteq> 0 \<Longrightarrow>
   echoServerm_main strerror args (gai, addrs, la, ca) u array input rounds p = Inl OutOfBounds"
  by (simp add: echoServerm_main_def OpenListenFd_def openListenFd_def pool_new_def FD_SET_def)

section \<open>Invariant\<close>

text \<open>One call of \<open>readlineb\<close> on a connection takes one piece off the text that is still to be echoed.\<close>

lemma readlineb_piece:
  assumes "riob_ok r" "length u = MAXLINE"
  shows "\<exists>rc u' r'. Riob_readlineb u MAXLINE r = Inr (rc, u', r') \<and> riob_ok r' \<and> length u' = MAXLINE
    \<and> - 1 \<le> rc \<and> rc \<le> int MAXLINE
    \<and> (lasting r \<longrightarrow> lasting r' \<and> 0 \<le> rc \<and> (rc = 0 \<longrightarrow> riob_stream r' = [])
        \<and> take (nat rc) u' @ echo_text (riob_stream r') = echo_text (riob_stream r))"
proof -
  let ?s = "\<lparr>ec_n = 0, ec_buf = u, ec_riob = r, ec_writes = [], ec_out = []\<rparr>"
  let ?l = "take (MAXLINE - 1) (line_of (riob_stream r))"
  obtain r' u' where rd: "Riob_readlineb u MAXLINE r = Inr (line_result MAXLINE ?l (riob_fails r), u', r')"
      "riob_ok r'" "length u' = MAXLINE"
    using readlineb_echo [OF assms] by blast
  define rc where "rc = line_result MAXLINE ?l (riob_fails r)"
  have "length ?l < MAXLINE" using MAXLINE_bounds by simp
  then have rc: "- 1 \<le> rc" "rc \<le> int MAXLINE" unfolding rc_def line_result_def by auto
  have fails: "0 \<le> rc" if "lasting r" using that unfolding rc_def line_result_def lasting_def by auto
  have size: "to_size rc = nat rc" if "0 \<le> rc" using that rc MAXLINE_bounds by (simp add: to_size_nonneg)
  have "echo_read ?s = Inr (?s\<lparr>ec_n := to_size rc, ec_buf := u', ec_riob := r'\<rparr>)"
    using rd(1) by (simp add: echo_read_def rc_def)
  then have "lasting r \<longrightarrow> lasting r' \<and> to_size rc \<le> MAXLINE \<and> (to_size rc = 0 \<longrightarrow> riob_stream r' = [])
      \<and> take (to_size rc) u' @ echo_text (riob_stream r') = echo_text (riob_stream r)"
    using echo_read_exact [of ?s] assms by (auto simp: pending_def)
  then show ?thesis using rd rc fails size unfolding rc_def [symmetric] by auto
qed

text \<open>
  \<open>B\<close> are the descriptors that do not belong to the server. \<open>given fd\<close> is everything that the peer of
  \<open>fd\<close> sends, if its stream ends without a failure and every write to it went through.
\<close>

definition pool_inv :: "int set \<Rightarrow> int \<Rightarrow> (int \<rightharpoonup> string) \<Rightarrow> 'h select_state \<Rightarrow> bool" where
  "pool_inv B listenfd given s \<longleftrightarrow>
     (let pool = se_pool s in
      length (se_buf s) = MAXLINE \<and> 0 \<le> se_count s
      \<and> (\<forall>fd r. cp_fds pool fd = Some r \<longrightarrow> riob_ok r \<and> 0 \<le> fd \<and> fd < FD_SETSIZE)
      \<and> listenfd \<in> cp_readSet pool \<and> cp_fds pool listenfd = None
      \<and> cp_readSet pool \<subseteq> insert listenfd (dom (cp_fds pool))
      \<and> (\<forall>fd \<in> cp_readSet pool. fd \<le> cp_maxfd pool)
      \<and> pr_fds (se_proc s) = B \<union> cp_readSet pool \<and> B \<inter> insert listenfd (dom (cp_fds pool)) = {}
      \<and> (\<forall>fd r w. cp_fds pool fd = Some r \<and> given fd = Some w \<longrightarrow> lasting r
           \<and> se_out s fd @ echo_text (riob_stream r) = echo_text w
           \<and> (fd \<notin> cp_readSet pool \<longrightarrow> riob_stream r = [])))"

lemma pool_inv_weaken: "pool_inv B listenfd given s \<Longrightarrow> (\<And>fd. given' fd = given fd \<or> given' fd = None) \<Longrightarrow>
    pool_inv B listenfd given' s"
  unfolding pool_inv_def Let_def by (metis option.distinct(1))

lemma pool_inv_given: "pool_inv B listenfd given s \<Longrightarrow> cp_fds (se_pool s) fd = Some r \<Longrightarrow> given fd = Some w \<Longrightarrow>
    lasting r \<and> se_out s fd @ echo_text (riob_stream r) = echo_text w"
  by (simp add: pool_inv_def Let_def)

lemma pool_inv_closed: "pool_inv B listenfd given s \<Longrightarrow> cp_fds (se_pool s) fd = Some r \<Longrightarrow> given fd = Some w \<Longrightarrow>
    fd \<notin> cp_readSet (se_pool s) \<Longrightarrow> riob_stream r = []"
  by (simp add: pool_inv_def Let_def)

definition one_write_ok :: "select_round \<Rightarrow> int \<Rightarrow> bool" where
  "one_write_ok a fd \<longleftrightarrow> writes_ok [sr_writes a fd]"

lemma writen_piece:
  assumes "n \<le> length u" "length u = MAXLINE"
  shows "\<exists>k out. Rio_writen_checked (fst w) (snd w) u n = Inr (k, out) \<and> (writes_ok [w] \<longrightarrow> out = take n u)"
proof -
  obtain k out where w: "Rio_writen (fst w) (snd w) u n = (k, out)" by (cases "Rio_writen (fst w) (snd w) u n")
  have "Rio_writen_checked (fst w) (snd w) u n = Inr (k, out)"
    using assms MAXLINE_bounds w by (simp add: Rio_writen_checked_def)
  moreover have "out = take n u" if "writes_ok [w]"
    using writen_loop_exact [of 0 n n u "[]" "fst w" "snd w" k out] w that assms
    by (auto simp: Rio_writen_def writes_ok_def split: prod.splits)
  ultimately show ?thesis by blast
qed

text \<open>Serving \<open>fd\<close> replaces its reader, appends to its output and closes the descriptor or not.\<close>

lemma pool_inv_serve:
  assumes inv: "pool_inv B listenfd given s" and r: "cp_fds (se_pool s) fd = Some r"
    and r': "riob_ok r'" "length (se_buf s') = MAXLINE" "0 \<le> se_count s'"
    and pool: "cp_fds (se_pool s') = (cp_fds (se_pool s))(fd \<mapsto> r')" "cp_maxfd (se_pool s') = cp_maxfd (se_pool s)"
    and rs: "cp_readSet (se_pool s') = cp_readSet (se_pool s) - X" "pr_fds (se_proc s') = pr_fds (se_proc s) - X"
      "X \<subseteq> {fd}" "fd \<notin> X \<Longrightarrow> fd \<in> cp_readSet (se_pool s)"
    and out: "\<And>fd'. fd' \<noteq> fd \<Longrightarrow> se_out s' fd' = se_out s fd'"
    and giv: "\<And>w. given fd = Some w \<Longrightarrow> lasting r' \<and> se_out s' fd @ echo_text (riob_stream r') = echo_text w
        \<and> (fd \<in> X \<longrightarrow> riob_stream r' = [])"
  shows "pool_inv B listenfd given s'"
proof -
  note i = inv [unfolded pool_inv_def Let_def]
  have X: "X = {} \<or> X = {fd}" using rs(3) by blast
  have dom: "dom (cp_fds (se_pool s')) = dom (cp_fds (se_pool s))" using r by (auto simp: pool(1))
  have ne: "fd \<noteq> listenfd" "fd \<notin> B" using i r by auto
  have "lasting r0 \<and> se_out s' f @ echo_text (riob_stream r0) = echo_text w \<and> (f \<notin> cp_readSet (se_pool s') \<longrightarrow> riob_stream r0 = [])"
    if "cp_fds (se_pool s') f = Some r0" "given f = Some w" for f r0 w
  proof (cases "f = fd")
    case True
    then show ?thesis using that giv rs pool(1) by auto
  next
    case False
    have "cp_fds (se_pool s) f = Some r0" using that(1) False by (simp add: pool(1))
    moreover have "f \<notin> X" using False rs(3) by blast
    ultimately show ?thesis using i that(2) out [OF False] rs(1) by auto
  qed
  moreover have "pr_fds (se_proc s') = B \<union> cp_readSet (se_pool s')" using i rs(1,2) X ne by auto
  moreover have "cp_readSet (se_pool s') \<subseteq> insert listenfd (dom (cp_fds (se_pool s')))" using i rs(1) by (auto simp: dom)
  moreover have "\<forall>f r. cp_fds (se_pool s') f = Some r \<longrightarrow> riob_ok r \<and> 0 \<le> f \<and> f < FD_SETSIZE"
    using i r r'(1) by (auto simp: pool(1))
  moreover have "listenfd \<in> cp_readSet (se_pool s')" "cp_fds (se_pool s') listenfd = None"
    using i rs(1) X ne by (auto simp: pool(1))
  moreover have "\<forall>f \<in> cp_readSet (se_pool s'). f \<le> cp_maxfd (se_pool s')" using i rs(1) by (auto simp: pool(2))
  moreover have "B \<inter> insert listenfd (dom (cp_fds (se_pool s'))) = {}" using i by (simp add: dom)
  ultimately show ?thesis using r'(2,3) unfolding pool_inv_def Let_def by blast
qed

lemma pool_serve_ok:
  assumes inv: "pool_inv B listenfd given s" and fd: "fd \<in> dom (cp_fds (se_pool s))"
    and ready: "cp_readySet (se_pool s) \<subseteq> cp_readSet (se_pool s) \<union> D" "fd \<notin> D"
    and wr: "\<not> one_write_ok a fd \<longrightarrow> given fd = None" and cl: "sr_close a fd = Ok 0"
    and cnt: "se_count s + int MAXLINE < 2 ^ 63"
  shows "\<exists>s'. pool_serve strerror a fd s = Inr s' \<and> pool_inv B listenfd given s'
    \<and> dom (cp_fds (se_pool s')) = dom (cp_fds (se_pool s))
    \<and> cp_readySet (se_pool s') = cp_readySet (se_pool s)
    \<and> cp_readSet (se_pool s) - {fd} \<subseteq> cp_readSet (se_pool s') \<and> se_count s' \<le> se_count s + int MAXLINE"
proof -
  obtain r where r: "cp_fds (se_pool s) fd = Some r" using fd by auto
  have ok: "riob_ok r" "length (se_buf s) = MAXLINE" "0 \<le> se_count s" "fd \<noteq> listenfd" "fd \<notin> B"
    using inv r by (auto simp: pool_inv_def Let_def)
  show ?thesis
  proof (cases "fd \<in> cp_readySet (se_pool s)")
    case False
    then show ?thesis using inv r MAXLINE_bounds by (intro exI [of _ s]) (simp add: pool_serve_def)
  next
    case True
    then have open_fd: "fd \<in> cp_readSet (se_pool s)" using ready by blast
    obtain rc u' r' where rd: "Riob_readlineb (se_buf s) MAXLINE r = Inr (rc, u', r')" "riob_ok r'" "length u' = MAXLINE"
        "- 1 \<le> rc" "rc \<le> int MAXLINE"
        "lasting r \<longrightarrow> lasting r' \<and> 0 \<le> rc \<and> (rc = 0 \<longrightarrow> riob_stream r' = [])
          \<and> take (nat rc) u' @ echo_text (riob_stream r') = echo_text (riob_stream r)"
      using readlineb_piece [OF ok(1,2)] by blast
    have n: "to_int32 rc = rc" using rd(4,5) MAXLINE_bounds by (intro to_int32_small) auto
    consider "rc > 0" | "rc = 0" | "rc < 0" by linarith
    then show ?thesis
    proof cases
      case 1
      obtain k out where w: "Rio_writen_checked (fst (sr_writes a fd)) (snd (sr_writes a fd)) u' (nat rc) = Inr (k, out)"
          "writes_ok [sr_writes a fd] \<longrightarrow> out = take (nat rc) u'"
        using writen_piece [of "nat rc" u' "sr_writes a fd"] rd(3,5) nat_le_iff [of rc MAXLINE] by auto
      let ?s = "s\<lparr>se_buf := u', se_pool := (se_pool s)\<lparr>cp_fds := (cp_fds (se_pool s))(fd \<mapsto> r')\<rparr>,
          se_count := se_count s + rc, se_out := (se_out s)(fd := se_out s fd @ out)\<rparr>"
      have run: "pool_serve strerror a fd s = Inr ?s"
        using True r rd(1) n 1 w(1) cnt rd(5) by (simp add: pool_serve_def)
      have "lasting r' \<and> (se_out s fd @ out) @ echo_text (riob_stream r') = echo_text x" if "given fd = Some x" for x
        using pool_inv_given [OF inv r that] that wr w(2) rd(6) by (auto simp: one_write_ok_def)
      then have "pool_inv B listenfd given ?s"
        using rd(2,3) 1 ok(3) open_fd by (intro pool_inv_serve [OF inv r, of r' _ "{}"]) simp_all
      then show ?thesis using run r rd(5) by (intro exI [of _ ?s]) (simp add: insert_absorb domI)
    next
      case 2
      let ?s = "s\<lparr>se_buf := u', se_pool := (se_pool s)\<lparr>cp_fds := (cp_fds (se_pool s))(fd \<mapsto> r'),
          cp_readSet := cp_readSet (se_pool s) - {fd}\<rparr>, se_proc := (se_proc s)\<lparr>pr_fds := pr_fds (se_proc s) - {fd}\<rparr>\<rparr>"
      have run: "pool_serve strerror a fd s = Inr ?s"
        using True r rd(1) n 2 cl by (simp add: pool_serve_def un_Close_def sys_call_def)
      have "lasting r' \<and> se_out s fd @ echo_text (riob_stream r') = echo_text x \<and> riob_stream r' = []"
        if "given fd = Some x" for x
        using pool_inv_given [OF inv r that] rd(6) 2 by auto
      then have "pool_inv B listenfd given ?s"
        using rd(2,3) ok(3) by (intro pool_inv_serve [OF inv r, of r' _ "{fd}"]) auto
      then show ?thesis using run r MAXLINE_bounds by (intro exI [of _ ?s]) (simp add: insert_absorb domI)
    next
      case 3
      let ?s = "s\<lparr>se_buf := u', se_pool := (se_pool s)\<lparr>cp_fds := (cp_fds (se_pool s))(fd \<mapsto> r')\<rparr>\<rparr>"
      have run: "pool_serve strerror a fd s = Inr ?s"
        using True r rd(1) n 3 by (simp add: pool_serve_def)
      have "\<not> lasting r" using rd(6) 3 by auto
      then have "given fd = None" using pool_inv_given [OF inv r] by (cases "given fd") auto
      then have "pool_inv B listenfd given ?s"
        using rd(2,3) ok(3) open_fd by (intro pool_inv_serve [OF inv r, of r' _ "{}"]) simp_all
      then show ?thesis using run r MAXLINE_bounds by (intro exI [of _ ?s]) (simp add: insert_absorb domI)
    qed
  qed
qed


lemma pool_select_frame:
  "\<exists>e log rdy. pool_select strerror a s = s\<lparr>se_pool := (se_pool s)\<lparr>cp_readySet := rdy\<rparr>,
      se_proc := (se_proc s)\<lparr>pr_errno := e, pr_log := log\<rparr>\<rparr> \<and> rdy \<subseteq> cp_readSet (se_pool s)"
proof (cases "sr_select a")
  case (Inl e)
  then show ?thesis
    by (cases "se_proc s") (auto simp: pool_select_def un_Select_def unix_error_def log_line_def)
next
  case (Inr ready)
  then show ?thesis
    by (cases "se_proc s") (auto simp: pool_select_def un_Select_def selected_def Let_def)
qed

text \<open>
  What is assumed of one round: \<open>accept\<close> fails or gives a descriptor that is not in use, \<open>close\<close>
  succeeds, the traversal visits every entry of the hash map once and \<open>byte_count\<close> does not overflow.
\<close>

definition round_ok :: "(int \<Rightarrow> string) \<Rightarrow> int \<Rightarrow> select_round \<Rightarrow> 'h select_state \<Rightarrow> bool" where
  "round_ok strerror listenfd a s \<longleftrightarrow>
     (let s0 = pool_select strerror a s in
      (listenfd \<in> cp_readySet (se_pool s0) \<longrightarrow>
         (\<forall>fd. sr_accept a = Ok fd \<longrightarrow> 0 \<le> fd \<and> fd \<notin> pr_fds (se_proc s)))
      \<and> length (sr_array a) = RIO_BUFSIZE \<and> (\<forall>fd. sr_close a fd = Ok 0) \<and> distinct (sr_order a)
      \<and> (\<forall>s1. pool_accept strerror listenfd a s0 = Inr s1 \<longrightarrow> set (sr_order a) = dom (cp_fds (se_pool s1)))
      \<and> se_count s + int (MAXLINE * length (sr_order a)) < 2 ^ 63)"

text \<open>
  The new connection of a round does not fit a descriptor set: \<open>accept\<close> failed and its \<open>-1\<close> is used, or the
  descriptor is too large. The program tests neither, and the set is written outside its array.
\<close>

definition accept_unfit :: "(int \<Rightarrow> string) \<Rightarrow> int \<Rightarrow> select_round \<Rightarrow> 'h select_state \<Rightarrow> bool" where
  "accept_unfit strerror listenfd a s \<longleftrightarrow>
     listenfd \<in> cp_readySet (se_pool (pool_select strerror a s))
     \<and> (case sr_accept a of Ok fd \<Rightarrow> FD_SETSIZE \<le> fd | Err e \<Rightarrow> True)"

lemma pool_round_unfit:
  "accept_unfit strerror listenfd a s \<Longrightarrow> pool_round strerror listenfd a s = Inl OutOfBounds"
  by (auto simp: accept_unfit_def pool_round_def pool_accept_def un_Accept_def sys_call_def FD_SET_def
      case_prod_unfold Let_def split: sys_answer.splits)

definition given_after ::
  "(int \<Rightarrow> string) \<Rightarrow> int \<Rightarrow> select_round \<Rightarrow> 'h select_state \<Rightarrow> (int \<rightharpoonup> string) \<Rightarrow> int \<rightharpoonup> string" where
  "given_after strerror listenfd a s given fd =
     (if \<not> one_write_ok a fd then None
      else if listenfd \<in> cp_readySet (se_pool (pool_select strerror a s)) \<and> sr_accept a = Ok fd
      then (if descr_lasting (sr_input a) then Some (data_of (de_answers (sr_input a))) else None)
      else given fd)"

lemma riob_new_lasting: "descr_lasting fd \<Longrightarrow> lasting (Riob_new array fd)"
  by (simp add: lasting_def descr_lasting_def solid_def riob_stream_new) (simp add: Riob_new_def)

lemma pool_accept_ok:
  assumes inv: "pool_inv B listenfd given s" and ok: "round_ok strerror listenfd a s"
    and fit: "\<not> accept_unfit strerror listenfd a s"
  defines "s0 \<equiv> pool_select strerror a s"
  shows "\<exists>s1. pool_accept strerror listenfd a s0 = Inr s1
    \<and> pool_inv B listenfd (given_after strerror listenfd a s given) s1
    \<and> cp_readySet (se_pool s1) \<subseteq> cp_readSet (se_pool s1) \<and> se_count s1 = se_count s"
proof -
  obtain e log rdy where s0: "s0 = s\<lparr>se_pool := (se_pool s)\<lparr>cp_readySet := rdy\<rparr>,
      se_proc := (se_proc s)\<lparr>pr_errno := e, pr_log := log\<rparr>\<rparr>" "rdy \<subseteq> cp_readSet (se_pool s)"
    using pool_select_frame unfolding s0_def by blast
  note i = inv [unfolded pool_inv_def Let_def]
  show ?thesis
  proof (cases "listenfd \<in> rdy")
    case False
    have "pool_inv B listenfd given s0" using inv unfolding s0(1) by (simp add: pool_inv_def Let_def)
    then have "pool_inv B listenfd (given_after strerror listenfd a s given) s0"
      by (rule pool_inv_weaken) (use False s0 in \<open>auto simp: given_after_def s0_def [symmetric]\<close>)
    then show ?thesis using False s0 by (intro exI [of _ s0]) (simp add: pool_accept_def)
  next
    case True
    obtain fd where fd: "sr_accept a = Ok fd" "0 \<le> fd" "fd < FD_SETSIZE" "fd \<notin> pr_fds (se_proc s)"
      using ok fit True s0(1)
      by (auto simp: round_ok_def accept_unfit_def Let_def s0_def [symmetric] split: sys_answer.splits)
    let ?r = "Riob_new (sr_array a) (sr_input a)"
    let ?pool = "(se_pool s)\<lparr>cp_readySet := rdy, cp_readSet := insert fd (cp_readSet (se_pool s)),
        cp_maxfd := max fd (cp_maxfd (se_pool s)), cp_fds := (cp_fds (se_pool s))(fd \<mapsto> ?r)\<rparr>"
    let ?s = "s0\<lparr>se_pool := ?pool, se_out := (se_out s)(fd := []),
        se_proc := (se_proc s0)\<lparr>pr_fds := insert fd (pr_fds (se_proc s))\<rparr>\<rparr>"
    have run: "pool_accept strerror listenfd a s0 = Inr ?s"
      using True fd s0(1) by (simp add: pool_accept_def un_Accept_def sys_call_def FD_SET_def)
    have r: "riob_ok ?r" using ok by (intro riob_ok_new) (simp add: round_ok_def Let_def)
    have ne: "fd \<noteq> listenfd" "fd \<notin> B" using i fd(4) by auto
    have giv: "lasting r0 \<and> se_out ?s f @ echo_text (riob_stream r0) = echo_text w
        \<and> (f \<notin> cp_readSet (se_pool ?s) \<longrightarrow> riob_stream r0 = [])"
      if "cp_fds (se_pool ?s) f = Some r0" "given_after strerror listenfd a s given f = Some w" for f r0 w
    proof (cases "f = fd")
      case True
      have "descr_lasting (sr_input a)" "w = data_of (de_answers (sr_input a))"
        using that(2) True \<open>listenfd \<in> rdy\<close> s0(1) fd(1)
        by (auto simp: given_after_def s0_def [symmetric] split: if_splits)
      then show ?thesis using that(1) True riob_new_lasting by (auto simp: riob_stream_new)
    next
      case False
      have "given f = Some w" "cp_fds (se_pool s) f = Some r0"
        using that False fd(1) by (auto simp: given_after_def split: if_splits)
      then show ?thesis using i False by auto
    qed
    have fds: "\<forall>f r0. cp_fds ?pool f = Some r0 \<longrightarrow> riob_ok r0 \<and> 0 \<le> f \<and> f < FD_SETSIZE"
      using i r fd(2,3) by auto
    have "pool_inv B listenfd (given_after strerror listenfd a s given) ?s"
      unfolding pool_inv_def Let_def
    proof (intro conjI)
      show "\<forall>f r0 w. cp_fds (se_pool ?s) f = Some r0 \<and> given_after strerror listenfd a s given f = Some w \<longrightarrow>
          lasting r0 \<and> se_out ?s f @ echo_text (riob_stream r0) = echo_text w
          \<and> (f \<notin> cp_readSet (se_pool ?s) \<longrightarrow> riob_stream r0 = [])"
        using giv by blast
      show "\<forall>f r0. cp_fds (se_pool ?s) f = Some r0 \<longrightarrow> riob_ok r0 \<and> 0 \<le> f \<and> f < FD_SETSIZE"
        using fds by simp
    qed (use i ne s0(1) in \<open>auto simp: le_max_iff_disj\<close>)
    then show ?thesis using run s0 by (intro exI [of _ ?s]) auto
  qed
qed

lemma pool_serve_all_ok:
  assumes "pool_inv B listenfd given s" "set fds \<subseteq> dom (cp_fds (se_pool s))" "distinct fds"
    and "cp_readySet (se_pool s) \<subseteq> cp_readSet (se_pool s) \<union> D" "D \<inter> set fds = {}"
    and "\<forall>fd. \<not> one_write_ok a fd \<longrightarrow> given fd = None" "\<forall>fd. sr_close a fd = Ok 0"
    and "se_count s + int (MAXLINE * length fds) < 2 ^ 63"
  shows "\<exists>s'. pool_serve_all strerror a fds s = Inr s' \<and> pool_inv B listenfd given s'"
  using assms
proof (induction fds arbitrary: s D)
  case (Cons fd fds)
  have "MAXLINE \<le> MAXLINE * length (fd # fds)" by simp
  then have "int MAXLINE \<le> int (MAXLINE * length (fd # fds))" by (simp only: of_nat_le_iff)
  then have cnt: "se_count s + int MAXLINE < 2 ^ 63" using Cons.prems(8) by linarith
  have fd: "fd \<in> dom (cp_fds (se_pool s))" "fd \<notin> D" "\<not> one_write_ok a fd \<longrightarrow> given fd = None" "sr_close a fd = Ok 0"
    using Cons.prems by auto
  obtain s1 where s1: "pool_serve strerror a fd s = Inr s1" "pool_inv B listenfd given s1"
      "dom (cp_fds (se_pool s1)) = dom (cp_fds (se_pool s))" "cp_readySet (se_pool s1) = cp_readySet (se_pool s)"
      "cp_readSet (se_pool s) - {fd} \<subseteq> cp_readSet (se_pool s1)" "se_count s1 \<le> se_count s + int MAXLINE"
    using pool_serve_ok [OF Cons.prems(1) fd(1) Cons.prems(4) fd(2-4) cnt] by blast
  have "cp_readySet (se_pool s1) \<subseteq> cp_readSet (se_pool s1) \<union> insert fd D" using s1(4,5) Cons.prems(4) by blast
  moreover have "insert fd D \<inter> set fds = {}" "set fds \<subseteq> dom (cp_fds (se_pool s1))" "distinct fds"
    using Cons.prems(2,3,5) s1(3) by auto
  moreover have "se_count s1 + int (MAXLINE * length fds) < 2 ^ 63" using s1(6) Cons.prems(8) by simp
  ultimately obtain s' where "pool_serve_all strerror a fds s1 = Inr s'" "pool_inv B listenfd given s'"
    using Cons.IH [OF s1(2)] Cons.prems(6,7) by blast
  then show ?case using s1(1) by simp
qed simp

lemma pool_round_ok:
  assumes "pool_inv B listenfd given s" "round_ok strerror listenfd a s" "\<not> accept_unfit strerror listenfd a s"
  shows "\<exists>s'. pool_round strerror listenfd a s = Inr s'
    \<and> pool_inv B listenfd (given_after strerror listenfd a s given) s'"
proof -
  let ?g = "given_after strerror listenfd a s given"
  obtain s1 where s1: "pool_accept strerror listenfd a (pool_select strerror a s) = Inr s1" "pool_inv B listenfd ?g s1"
      "cp_readySet (se_pool s1) \<subseteq> cp_readSet (se_pool s1)" "se_count s1 = se_count s"
    using pool_accept_ok [OF assms] by blast
  have "set (sr_order a) = dom (cp_fds (se_pool s1))" "distinct (sr_order a)" "\<forall>fd. sr_close a fd = Ok 0"
      "se_count s1 + int (MAXLINE * length (sr_order a)) < 2 ^ 63"
    using assms(2) s1(1,4) by (simp_all add: round_ok_def Let_def)
  then obtain s' where "pool_serve_all strerror a (sr_order a) s1 = Inr s'" "pool_inv B listenfd ?g s'"
    using pool_serve_all_ok [OF s1(2), of "sr_order a" "{}" a strerror] s1(3) by (auto simp: given_after_def)
  then show ?thesis using s1(1) by (simp add: pool_round_def)
qed


section \<open>All runs\<close>

text \<open>
  After undefined behaviour a run keeps the round and the state in which it happened; with the state goes
  what the peers send. At the start the pool has the listening descriptor and the standard input.
\<close>

type_synonym 'h select_run = "((select_round \<times> 'h select_state) + 'h select_state) \<times> (int \<rightharpoonup> string)"

definition select_start :: "int set \<Rightarrow> int \<Rightarrow> 'h select_run \<Rightarrow> bool" where
  "select_start B listenfd x \<longleftrightarrow>
     (\<exists>s array input. fst x = Inr s \<and> pool_new listenfd array input = Inr (se_pool s)
        \<and> length array = RIO_BUFSIZE \<and> length (se_buf s) = MAXLINE \<and> se_count s = 0 \<and> se_out s = (\<lambda>_. [])
        \<and> pr_fds (se_proc s) = B \<union> {0, listenfd} \<and> B \<inter> {0, listenfd} = {} \<and> 0 < listenfd
        \<and> snd x = (if descr_lasting input then [0 \<mapsto> data_of (de_answers input)] else Map.empty))"

inductive select_step :: "(int \<Rightarrow> string) \<Rightarrow> int \<Rightarrow> 'h select_run \<Rightarrow> 'h select_run \<Rightarrow> bool"
  for strerror listenfd where
  round: "round_ok strerror listenfd a s \<Longrightarrow>
    select_step strerror listenfd (Inr s, given)
      (case pool_round strerror listenfd a s of Inr s' \<Rightarrow> Inr s' | Inl e \<Rightarrow> Inl (a, s),
       given_after strerror listenfd a s given)"

inductive_cases select_stepE: "select_step strerror listenfd x y"

definition select_inv :: "(int \<Rightarrow> string) \<Rightarrow> int set \<Rightarrow> int \<Rightarrow> 'h select_run \<Rightarrow> bool" where
  "select_inv strerror B listenfd x \<longleftrightarrow>
     (case fst x of
        Inl (a, s) \<Rightarrow> accept_unfit strerror listenfd a s
      | Inr s \<Rightarrow> pool_inv B listenfd (snd x) s)"

lemma select_inv_start: "select_start B listenfd x \<Longrightarrow> select_inv strerror B listenfd x"
proof -
  assume "select_start B listenfd x"
  then obtain s array input where x: "fst x = Inr s" "pool_new listenfd array input = Inr (se_pool s)"
      "length array = RIO_BUFSIZE" "length (se_buf s) = MAXLINE" "se_count s = 0" "se_out s = (\<lambda>_. [])"
      "pr_fds (se_proc s) = B \<union> {0, listenfd}" "B \<inter> {0, listenfd} = {}" "0 < listenfd"
      "snd x = (if descr_lasting input then [0 \<mapsto> data_of (de_answers input)] else Map.empty)"
    unfolding select_start_def by blast
  have p: "se_pool s = \<lparr>cp_fds = [0 \<mapsto> Riob_new array input], cp_readSet = {0, listenfd}, cp_readySet = {},
      cp_maxfd = listenfd\<rparr>"
    using x(2,9) by (simp add: pool_new_def FD_SET_def split: if_splits)
  have "pool_inv B listenfd (snd x) s"
    using x p riob_ok_new [OF x(3)] riob_new_lasting [of input array]
    by (auto simp: pool_inv_def Let_def riob_stream_new FD_SETSIZE_def)
  then show ?thesis using x(1) by (auto simp: select_inv_def)
qed

lemma select_inv_step:
  "select_inv strerror B listenfd x \<Longrightarrow> select_step strerror listenfd x y \<Longrightarrow> select_inv strerror B listenfd y"
proof (erule select_stepE)
  fix a s given
  assume "select_inv strerror B listenfd x" "x = (Inr s, given)" "round_ok strerror listenfd a s"
    "y = (case pool_round strerror listenfd a s of Inr s' \<Rightarrow> Inr s' | Inl e \<Rightarrow> Inl (a, s), given_after strerror listenfd a s given)"
  then show ?thesis
    using pool_round_ok [of B listenfd given s strerror a] pool_round_unfit [of strerror listenfd a s]
    by (cases "accept_unfit strerror listenfd a s") (auto simp: select_inv_def)
qed

interpretation selecting: step_invariant "select_start B listenfd" "select_step strerror listenfd"
    "select_inv strerror B listenfd" for B listenfd strerror
  by unfold_locales (fact select_inv_start, fact select_inv_step)

section \<open>Properties\<close>

text \<open>
  C34. In every run of the multiplexing server, whatever \<open>select\<close> reports and in whatever order the pool is
  traversed, as long as every new connection gets a descriptor below \<open>FD_SETSIZE\<close> no access leaves an
  array or a descriptor set. The open descriptors are exactly the registered ones besides those the server
  was started with, and \<open>select\<close> is asked for all of them. What was written to a peer whose stream lasts is
  its echo up to what is still unread; after the peer has ended its stream and was closed, it is all of it.
  The program does not test the result of \<open>accept\<close>: the only undefined behaviour is the round in which
  \<open>accept\<close> fails or gives a descriptor of \<open>FD_SETSIZE\<close> or more.
\<close>

theorem select_server_echoes:
  assumes "reachable (select_start B listenfd) (select_step strerror listenfd) x"
  shows "case fst x of
      Inl (a, s) \<Rightarrow> pool_round strerror listenfd a s = Inl OutOfBounds
        \<and> listenfd \<in> cp_readySet (se_pool (pool_select strerror a s))
        \<and> (\<forall>fd. sr_accept a = Ok fd \<longrightarrow> FD_SETSIZE \<le> fd)
    | Inr s \<Rightarrow> pr_fds (se_proc s) = B \<union> cp_readSet (se_pool s)
        \<and> cp_readSet (se_pool s) \<subseteq> insert listenfd (dom (cp_fds (se_pool s)))
        \<and> (\<forall>fd \<in> cp_readSet (se_pool s). fd < cp_maxfd (se_pool s) + 1)
        \<and> (\<forall>fd r w. cp_fds (se_pool s) fd = Some r \<and> snd x fd = Some w \<longrightarrow>
            se_out s fd @ echo_text (riob_stream r) = echo_text w
            \<and> (fd \<notin> cp_readSet (se_pool s) \<longrightarrow> se_out s fd = echo_text w))"
proof (cases "fst x")
  case (Inl y)
  obtain a s where y: "y = (a, s)" by (cases y)
  have "accept_unfit strerror listenfd a s"
    using selecting.reachable_inv [OF assms] Inl y by (simp add: select_inv_def)
  then show ?thesis using Inl y pool_round_unfit [of strerror listenfd a s] by (auto simp: accept_unfit_def)
next
  case (Inr s)
  have s: "pool_inv B listenfd (snd x) s" using selecting.reachable_inv [OF assms] Inr by (simp add: select_inv_def)
  note i = s [unfolded pool_inv_def Let_def]
  have "se_out s fd @ echo_text (riob_stream r) = echo_text w \<and> (fd \<notin> cp_readSet (se_pool s) \<longrightarrow> se_out s fd = echo_text w)"
    if "cp_fds (se_pool s) fd = Some r" "snd x fd = Some w" for fd r w
    using pool_inv_given [OF s that] pool_inv_closed [OF s that] by auto
  moreover have "fd < cp_maxfd (se_pool s) + 1" if "fd \<in> cp_readSet (se_pool s)" for fd using i that by simp
  ultimately show ?thesis using Inr i by simp
qed

text \<open>
  A run of three rounds: a client connects and gets descriptor 4, its line \<^verbatim>\<open>hi\<close> is echoed, and after the end
  of its stream it is closed. In another run the client gets descriptor 1024.
\<close>

definition no_input :: descriptor where
  "no_input = \<lparr>de_answers = [], de_intr = False\<rparr>"

definition hi :: string where
  "hi = [CHR ''h'', CHR ''i'', CHR 0x0A]"

definition demo_select :: "unit select_state" where
  "demo_select =
     \<lparr>se_pool = \<lparr>cp_fds = [0 \<mapsto> Riob_new (replicate RIO_BUFSIZE NUL) no_input],
        cp_readSet = {0, 3}, cp_readySet = {}, cp_maxfd = 3\<rparr>,
      se_count = 0, se_buf = replicate MAXLINE NUL, se_proc = demo_process\<lparr>pr_fds := {0, 1, 2, 3}\<rparr>, se_out = (\<lambda>_. [])\<rparr>"

definition demo_round :: "int set \<Rightarrow> int \<Rightarrow> select_round" where
  "demo_round ready fd =
     \<lparr>sr_select = Inr ready, sr_accept = Ok fd, sr_input = \<lparr>de_answers = [Data hi], de_intr = False\<rparr>,
      sr_array = replicate RIO_BUFSIZE NUL, sr_order = [0, 4], sr_writes = (\<lambda>_. ([], False)), sr_close = (\<lambda>_. Ok 0)\<rparr>"

lemma demo_round_simps:
  "sr_order (demo_round ready fd) = [0, 4]" "sr_writes (demo_round ready fd) = (\<lambda>_. ([], False))"
  "sr_close (demo_round ready fd) = (\<lambda>_. Ok 0)"
  by (simp_all add: demo_round_def)

lemma pool_select_demo:
  assumes "ready \<subseteq> cp_readSet (se_pool s)" "\<forall>fd \<in> ready. 0 \<le> fd \<and> fd \<le> cp_maxfd (se_pool s)"
  shows "pool_select strerror (demo_round ready fd) s = s\<lparr>se_pool := (se_pool s)\<lparr>cp_readySet := ready\<rparr>\<rparr>"
proof -
  have "selected (cp_maxfd (se_pool s) + 1) ready (Some (cp_readSet (se_pool s))) = Some ready"
    using assms by (auto simp: selected_def)
  then show ?thesis by (simp add: pool_select_def demo_round_def un_Select_def Let_def)
qed

lemma demo_select_starts: "select_start {1, 2} 3 (Inr demo_select, [0 \<mapsto> []])"
proof -
  have "pool_new 3 (replicate RIO_BUFSIZE NUL) no_input = Inr (se_pool demo_select)"
    by (auto simp: pool_new_def FD_SET_def FD_SETSIZE_def demo_select_def)
  then show ?thesis
    unfolding select_start_def
    by (intro exI [of _ demo_select] exI [of _ "replicate RIO_BUFSIZE NUL"] exI [of _ no_input])
      (auto simp: demo_select_def descr_lasting_def no_input_def)
qed

text \<open>The state with the client at descriptor 4: what is ready, whether it is open, its reader and its echo.\<close>

definition demo_pool :: "int set \<Rightarrow> bool \<Rightarrow> Riob \<Rightarrow> string \<Rightarrow> int \<Rightarrow> string \<Rightarrow> unit select_state" where
  "demo_pool ready is_open r u n out =
     \<lparr>se_pool = \<lparr>cp_fds = [0 \<mapsto> Riob_new (replicate RIO_BUFSIZE NUL) no_input, 4 \<mapsto> r],
        cp_readSet = (if is_open then insert 4 {0, 3} else {0, 3}), cp_readySet = ready, cp_maxfd = 4\<rparr>,
      se_count = n, se_buf = u,
      se_proc = demo_process\<lparr>pr_fds := (if is_open then insert 4 {0, 1, 2, 3} else {0, 1, 2, 3})\<rparr>,
      se_out = (\<lambda>fd. if fd = 4 then out else [])\<rparr>"

definition client :: Riob where
  "client = Riob_new (replicate RIO_BUFSIZE NUL) \<lparr>de_answers = [Data hi], de_intr = False\<rparr>"

lemma accept_round:
  "round_ok strerror 3 (demo_round {3} 4) demo_select"
  "pool_round strerror 3 (demo_round {3} 4) demo_select = Inr (demo_pool {3} True client (replicate MAXLINE NUL) 0 [])"
proof -
  let ?s = "demo_select\<lparr>se_pool := (se_pool demo_select)\<lparr>cp_readySet := {3}\<rparr>\<rparr>"
  have sel: "pool_select strerror (demo_round {3} 4) demo_select = ?s"
    by (rule pool_select_demo) (simp_all add: demo_select_def)
  have acc: "pool_accept strerror 3 (demo_round {3} 4) ?s
      = Inr (demo_pool {3} True client (replicate MAXLINE NUL) 0 [])"
    by (auto simp: pool_accept_def un_Accept_def sys_call_def FD_SET_def FD_SETSIZE_def demo_round_def demo_select_def
        demo_pool_def client_def no_input_def fun_eq_iff)
  show "round_ok strerror 3 (demo_round {3} 4) demo_select"
    unfolding round_ok_def Let_def sel acc
    by (auto simp: demo_round_def demo_select_def demo_pool_def MAXLINE_def)
  show "pool_round strerror 3 (demo_round {3} 4) demo_select
      = Inr (demo_pool {3} True client (replicate MAXLINE NUL) 0 [])"
    unfolding pool_round_def sel acc
    by (simp add: demo_round_def pool_serve_def demo_pool_def)
qed

lemma line_read:
  "\<exists>u r. Riob_readlineb (replicate MAXLINE NUL) MAXLINE client = Inr (3, u, r) \<and> riob_ok r
    \<and> length u = MAXLINE \<and> take 3 u = hi \<and> lasting r \<and> riob_stream r = []"
proof -
  have ok: "riob_ok client" "lasting client" "riob_stream client = hi" "riob_fails client = False"
    by (auto simp: client_def riob_stream_new intro!: riob_ok_new riob_new_lasting)
      (simp_all add: descr_lasting_def hi_def)
  have line: "take (MAXLINE - 1) (line_of hi) = hi" "CHR 0x0A \<in> set hi" "length hi = 3"
    by (simp_all add: hi_def line_of_Cons MAXLINE_def)
  obtain r u where r: "Riob_readlineb (replicate MAXLINE NUL) MAXLINE client = Inr (3, u, r)" "riob_ok r"
      "length u = MAXLINE" "take 3 u = hi" "riob_stream r = []"
    using readlineb_echo [OF ok(1), of "replicate MAXLINE NUL", unfolded ok(3,4) line(1,3)] line(2,3)
    by (auto simp: line_result_def)
  then have "lasting r" using readlineb_piece [OF ok(1), of "replicate MAXLINE NUL"] ok(2) by auto
  then show ?thesis using r by blast
qed

lemma serve_round_ok:
  assumes "0 \<le> n" "n < 1000"
  shows "round_ok strerror 3 (demo_round {4} 4) (demo_pool ready True r u n out)"
    and "pool_round strerror 3 (demo_round {4} 4) (demo_pool ready True r u n out)
      = pool_serve strerror (demo_round {4} 4) 4 (demo_pool {4} True r u n out)"
proof -
  have sel: "pool_select strerror (demo_round {4} 4) (demo_pool ready True r u n out) = demo_pool {4} True r u n out"
    by (subst pool_select_demo) (simp_all add: demo_pool_def)
  have acc: "pool_accept strerror 3 (demo_round {4} 4) (demo_pool {4} True r u n out) = Inr (demo_pool {4} True r u n out)"
    by (simp add: pool_accept_def demo_pool_def)
  have idle: "pool_serve strerror (demo_round {4} 4) 0 (demo_pool {4} True r u n out) = Inr (demo_pool {4} True r u n out)"
    by (simp add: pool_serve_def demo_pool_def)
  show "round_ok strerror 3 (demo_round {4} 4) (demo_pool ready True r u n out)"
    unfolding round_ok_def Let_def sel acc
    using assms by (auto simp: demo_round_def demo_pool_def MAXLINE_def)
  show "pool_round strerror 3 (demo_round {4} 4) (demo_pool ready True r u n out)
      = pool_serve strerror (demo_round {4} 4) 4 (demo_pool {4} True r u n out)"
    unfolding pool_round_def sel acc using idle
    by (cases "pool_serve strerror (demo_round {4} 4) 4 (demo_pool {4} True r u n out)")
      (simp_all add: demo_round_simps)
qed

lemma serve_round:
  assumes "Riob_readlineb u0 MAXLINE r0 = Inr (3, u, r)" "length u = MAXLINE" "take 3 u = hi"
  shows "pool_round strerror 3 (demo_round {4} 4) (demo_pool {3} True r0 u0 0 []) = Inr (demo_pool {4} True r u 3 hi)"
proof -
  have "to_int32 3 = 3" by (simp add: to_int32_small)
  moreover have "\<exists>k. Rio_writen_checked [] False u 3 = Inr (k, hi)"
    using writen_piece [of 3 u "([], False)"] assms(2,3) by (auto simp: MAXLINE_def writes_ok_def)
  ultimately show ?thesis
    using assms(1)
    by (auto simp: serve_round_ok pool_serve_def)
      (auto simp: demo_pool_def demo_round_simps fun_eq_iff)
qed

lemma close_round:
  assumes "Riob_readlineb u MAXLINE r = Inr (0, u', r')"
  shows "pool_round strerror 3 (demo_round {4} 4) (demo_pool {4} True r u 3 hi) = Inr (demo_pool {4} False r' u' 3 hi)"
proof -
  have "to_int32 0 = 0" by (simp add: to_int32_small)
  then show ?thesis
    using assms
    by (simp add: serve_round_ok pool_serve_def)
      (auto simp: demo_pool_def demo_round_simps un_Close_def sys_call_def fun_eq_iff)
qed

theorem select_server_echoes_witness:
  "(\<exists>s r given. reachable (select_start {1, 2} 3) (select_step (\<lambda>_. []) 3) (Inr (s :: unit select_state), given)
     \<and> cp_fds (se_pool s) 4 = Some r \<and> 4 \<notin> cp_readSet (se_pool s)
     \<and> pr_fds (se_proc s) = {1, 2} \<union> {0, 3} \<and> se_out s 4 = hi)
   \<and> pool_round (\<lambda>_. []) 3 (demo_round {3} 1024) demo_select = Inl OutOfBounds"
proof -
  let ?reach = "reachable (select_start {1, 2} 3) (select_step (\<lambda>_. []) 3)"
  obtain u r where r: "Riob_readlineb (replicate MAXLINE NUL) MAXLINE client = Inr (3, u, r)" "riob_ok r"
      "length u = MAXLINE" "take 3 u = hi" "lasting r" "riob_stream r = []"
    using line_read by blast
  obtain r' where r': "Riob_readlineb u MAXLINE r = Inr (0, u, r')"
    using readlineb_drained [OF r(2,3,5,6)] by blast
  define g where "g = (\<lambda>a s. given_after (\<lambda>_. []) 3 a (s :: unit select_state))"
  let ?s1 = "demo_pool {3} True client (replicate MAXLINE NUL) 0 []" and ?s2 = "demo_pool {4} True r u 3 hi"
  let ?s3 = "demo_pool {4} False r' u 3 hi"
  let ?g1 = "g (demo_round {3} 4) demo_select [0 \<mapsto> []]"
  let ?g2 = "g (demo_round {4} 4) ?s1 ?g1" let ?g3 = "g (demo_round {4} 4) ?s2 ?g2"
  have r0: "?reach (Inr demo_select, [0 \<mapsto> []])" using demo_select_starts by (rule reachable_start)
  have "?reach (Inr ?s1, ?g1)"
    using reachable_step [OF r0 round [OF accept_round(1)]] by (simp add: accept_round(2) g_def)
  from reachable_step [OF this round [OF serve_round_ok(1)]] have "?reach (Inr ?s2, ?g2)"
    by (simp add: serve_round [OF r(1,3,4)] g_def)
  from reachable_step [OF this round [OF serve_round_ok(1)]] have r3: "?reach (Inr ?s3, ?g3)"
    by (simp add: close_round [OF r'] g_def)
  have w: "one_write_ok (demo_round ready fd) 4" for ready fd
    by (simp add: one_write_ok_def writes_ok_def demo_round_simps)
  have sel: "pool_select (\<lambda>_. []) (demo_round {3} 4) demo_select
        = demo_select\<lparr>se_pool := (se_pool demo_select)\<lparr>cp_readySet := {3}\<rparr>\<rparr>"
      "pool_select (\<lambda>_. []) (demo_round {4} 4) (demo_pool ready True q v n out) = demo_pool {4} True q v n out"
    for ready q v n out
    by (rule pool_select_demo; simp add: demo_select_def) (subst pool_select_demo; simp add: demo_pool_def)
  have "?g1 4 = Some hi"
    by (simp add: g_def given_after_def w sel) (simp add: demo_round_def descr_lasting_def hi_def)
  moreover have "g (demo_round {4} 4) (demo_pool ready True q v n out) given 4 = given 4" for ready q v n out given
    by (simp add: g_def given_after_def w sel) (simp add: demo_pool_def)
  ultimately have g: "?g3 4 = Some hi" by simp
  have s3: "cp_fds (se_pool ?s3) 4 = Some r'" "4 \<notin> cp_readSet (se_pool ?s3)" "cp_readSet (se_pool ?s3) = {0, 3}"
    by (simp_all add: demo_pool_def)
  note c = select_server_echoes [OF r3, unfolded fst_conv snd_conv sum.case]
  have "echo_text hi = hi" using echo_text_line [of hi "[]"] by (simp add: short_line_def hi_def MAXLINE_def)
  then have "se_out ?s3 4 = hi" "pr_fds (se_proc ?s3) = {1, 2} \<union> {0, 3}"
    using c s3 g by metis+
  moreover have "pool_round (\<lambda>_. []) 3 (demo_round {3} 1024) demo_select = Inl OutOfBounds"
    by (rule pool_round_unfit, unfold accept_unfit_def, subst pool_select_demo)
      (simp_all add: demo_select_def demo_round_def FD_SETSIZE_def)
  ultimately show ?thesis using r3 s3(1,2)
    by blast
qed

text \<open>
  A peer that sends two lines in one piece gets one of them back; the second waits in the buffer of \<open>Riob\<close>,
  where \<open>select\<close> cannot see it, until the peer sends more.
\<close>

lemma second_line_waits:
  assumes "riob_ok r" "length u = MAXLINE" "short_line l" "short_line l2"
    and "riob_bytes r = l @ l2" "de_answers (rb_fd r) = []"
  shows "\<exists>u' r'. Riob_readlineb u MAXLINE r = Inr (int (length l), u', r') \<and> take (length l) u' = l
    \<and> riob_stream r' = l2"
proof -
  have st: "riob_stream r = l @ l2" using assms(5,6) by (simp add: riob_stream_def)
  obtain b where b: "l = b @ [CHR 0x0A]" "CHR 0x0A \<notin> set b"
    using assms(3) unfolding short_line_def by (metis append_butlast_last_id)
  have "line_of (riob_stream r) = l" using b line_of_line [of b l2] st by simp
  moreover have "length l \<le> MAXLINE - 1" using assms(3) by (auto simp: short_line_def)
  ultimately have "take (MAXLINE - 1) (line_of (riob_stream r)) = l" by simp
  then show ?thesis using readlineb_echo [OF assms(1,2)] b(1) st by (auto simp: line_result_def)
qed

end
