(* ===== verification/EchoThreads.thy ===== *)
theory EchoThreads
  imports Echo SharedBuf
begin

text \<open>
  \<^verbatim>\<open>application/echoServert.cpp\<close>: the main thread accepts connections and puts their descriptors into the
  shared buffer; ten worker threads take them out, echo one connection at a time and close it. The
  steps of the buffer are those of SharedBuf; a worker's round of \<open>echo\<close> is cut at the mutex that
  protects the common byte counter.
\<close>

section \<open>The program\<close>

definition NTHREADS :: nat where
  "NTHREADS = 10"

text \<open>Where a worker is: outside the buffer and \<open>echo\<close>, in \<open>remove\<close>, or in a round for a connection.\<close>

datatype work = Idle | Taking | Reading int | Counting int | Writing int | Closing int

text \<open>
  The last four fields are history: what a connection has to be answered when its stream lasts and the
  kernel takes everything, the amounts counted, the connections closed with that answer and what they were
  sent, and whether an array was left.
\<close>

record et_system =
  et_sb :: sb_system
  et_work :: "nat \<Rightarrow> work"
  et_conn :: "int \<Rightarrow> echo_state"
  et_open :: "int set"
  et_bytes :: nat                                    \<comment> \<open>\<open>byte_cnt\<close>\<close>
  et_given :: "int \<rightharpoonup> string"
  et_counted :: "nat list"
  et_done :: "(string option \<times> string) list"
  et_error :: bool

definition set_work :: "nat \<Rightarrow> work \<Rightarrow> et_system \<Rightarrow> et_system" where
  "set_work t w s = s\<lparr>et_work := (et_work s)(t := w)\<rparr>"

text \<open>\<open>main\<close>: a new connection; the thread is 0.\<close>

definition et_accept ::
  "int \<Rightarrow> string \<Rightarrow> string \<Rightarrow> descriptor \<Rightarrow> (write_answer list \<times> bool) list \<Rightarrow> et_system \<Rightarrow> et_system" where
  "et_accept fd u array input writes s =
     s\<lparr>et_sb := goto 0 (SlotsWait fd) (et_sb s), et_open := insert fd (et_open s),
       et_conn := (et_conn s)(fd := echo_start u array input writes),
       et_given := (et_given s)(fd := (if descr_lasting input \<and> writes_ok writes
                                       then Some (data_of (de_answers input)) else None))\<rparr>"

text \<open>A step inside the buffer; a worker that returns from \<open>remove\<close> calls \<open>echo\<close>.\<close>

definition et_returned :: "sb_system \<Rightarrow> sb_system \<Rightarrow> (nat \<Rightarrow> work) \<Rightarrow> nat \<Rightarrow> work" where
  "et_returned b b' w t =
     (case sy_pc b t of SlotsPost fd \<Rightarrow> if sy_pc b' t = Outside then Reading fd else w t | _ \<Rightarrow> w t)"

definition et_read :: "nat \<Rightarrow> int \<Rightarrow> et_system \<Rightarrow> et_system" where
  "et_read t fd s =
     (case echo_read (et_conn s fd) of
        Inl e \<Rightarrow> s\<lparr>et_error := True\<rparr>
      | Inr c \<Rightarrow> set_work t (if ec_n c \<noteq> 0 then Counting fd else Closing fd) (s\<lparr>et_conn := (et_conn s)(fd := c)\<rparr>))"

definition et_count :: "nat \<Rightarrow> int \<Rightarrow> et_system \<Rightarrow> et_system" where
  "et_count t fd s =
     (let n = ec_n (et_conn s fd)
      in set_work t (Writing fd) (s\<lparr>et_bytes := size_add (et_bytes s) n, et_counted := et_counted s @ [n]\<rparr>))"

definition et_write :: "nat \<Rightarrow> int \<Rightarrow> et_system \<Rightarrow> et_system" where
  "et_write t fd s =
     (case echo_write (et_conn s fd) of
        Inl e \<Rightarrow> s\<lparr>et_error := True\<rparr>
      | Inr c \<Rightarrow> set_work t (Reading fd) (s\<lparr>et_conn := (et_conn s)(fd := c)\<rparr>))"

definition et_close :: "nat \<Rightarrow> int \<Rightarrow> et_system \<Rightarrow> et_system" where
  "et_close t fd s =
     set_work t Idle
       (s\<lparr>et_open := snd (Close 0 fd (et_open s)),
          et_done := et_done s @ [(et_given s fd, ec_out (et_conn s fd))]\<rparr>)"

inductive et_step :: "et_system \<Rightarrow> et_system \<Rightarrow> bool" where
  accept: "sy_pc (et_sb s) 0 = Outside \<Longrightarrow> fd \<notin> et_open s \<Longrightarrow> length u = MAXLINE \<Longrightarrow>
    length array = RIO_BUFSIZE \<Longrightarrow> et_step s (et_accept fd u array input writes s)"
| remove: "1 \<le> t \<Longrightarrow> t \<le> NTHREADS \<Longrightarrow> et_work s t = Idle \<Longrightarrow>
    et_step s (set_work t Taking (s\<lparr>et_sb := goto t ItemsWait (et_sb s)\<rparr>))"
| buffer: "sb_step (et_sb s) b \<Longrightarrow> (\<And>t. sy_pc (et_sb s) t = Outside \<Longrightarrow> sy_pc b t = Outside) \<Longrightarrow>
    et_step s (s\<lparr>et_sb := b, et_work := et_returned (et_sb s) b (et_work s)\<rparr>)"
| read: "et_work s t = Reading fd \<Longrightarrow> et_step s (et_read t fd s)"
| count: "et_work s t = Counting fd \<Longrightarrow> et_step s (et_count t fd s)"
| "write": "et_work s t = Writing fd \<Longrightarrow> et_step s (et_write t fd s)"
| "close": "et_work s t = Closing fd \<Longrightarrow> et_step s (et_close t fd s)"

inductive_cases et_stepE: "et_step s s'"

definition et_start :: "et_system \<Rightarrow> bool" where
  "et_start s \<longleftrightarrow> sb_start (et_sb s) \<and> sy_buf (et_sb s) = SharedBuf_new 10 \<and> (\<forall>t. et_work s t = Idle)
     \<and> et_open s = {} \<and> et_bytes s = 0 \<and> et_counted s = [] \<and> et_done s = [] \<and> \<not> et_error s"

section \<open>Who has a connection\<close>

fun carried :: "sb_pc \<Rightarrow> int option" where
  "carried (SlotsWait x) = Some x"
| "carried (SlotsSleep x) = Some x"
| "carried (Push x) = Some x"
| "carried (SlotsPost x) = Some x"
| "carried pc = None"

fun served :: "work \<Rightarrow> int option" where
  "served (Reading fd) = Some fd"
| "served (Counting fd) = Some fd"
| "served (Writing fd) = Some fd"
| "served (Closing fd) = Some fd"
| "served w = None"

definition held :: "et_system \<Rightarrow> nat \<Rightarrow> int option" where
  "held s t = (case carried (sy_pc (et_sb s) t) of Some fd \<Rightarrow> Some fd | None \<Rightarrow> served (et_work s t))"

definition queue :: "et_system \<Rightarrow> int list" where
  "queue s = sb_buf (sy_buf (et_sb s))"

text \<open>Every connection is in the queue or with exactly one thread.\<close>

definition owns :: "(nat \<Rightarrow> int option) \<Rightarrow> int list \<Rightarrow> int set \<Rightarrow> bool" where
  "owns h q A \<longleftrightarrow> distinct q \<and> set q \<subseteq> A
     \<and> (\<forall>t x. h t = Some x \<longrightarrow> x \<in> A \<and> x \<notin> set q)
     \<and> (\<forall>t u x. h t = Some x \<and> h u = Some x \<longrightarrow> t = u)
     \<and> (\<forall>x \<in> A. x \<in> set q \<or> (\<exists>t. h t = Some x))"

lemma owns_new: "owns h q A \<Longrightarrow> h t = None \<Longrightarrow> x \<notin> A \<Longrightarrow> owns (h(t := Some x)) q (insert x A)"
  unfolding owns_def by (auto split: if_splits) (metis option.inject option.distinct(1))

lemma owns_push: "owns h q A \<Longrightarrow> h t = Some x \<Longrightarrow> owns (h(t := None)) (q @ [x]) A"
  unfolding owns_def by (auto split: if_splits) (metis option.inject option.distinct(1))

lemma owns_pop: "owns h (x # q) A \<Longrightarrow> h t = None \<Longrightarrow> owns (h(t := Some x)) q A"
  unfolding owns_def by (auto split: if_splits) (metis option.inject option.distinct(1))

lemma owns_close: "owns h q A \<Longrightarrow> h t = Some x \<Longrightarrow> owns (h(t := None)) q (A - {x})"
  unfolding owns_def by (auto split: if_splits) (metis option.inject option.distinct(1))

section \<open>Steps of the buffer\<close>

text \<open>1 for a thread in \<open>insert\<close>, 2 for one in \<open>remove\<close>.\<close>

fun role :: "sb_pc \<Rightarrow> nat" where
  "role Outside = 0"
| "role (SlotsWait x) = 1"
| "role (SlotsSleep x) = 1"
| "role (Push x) = 1"
| "role ItemsPost = 1"
| "role pc = 2"

definition moved :: "sb_pc \<Rightarrow> sb_pc \<Rightarrow> bool" where
  "moved pc pc' \<longleftrightarrow> (carried pc' = carried pc \<and> role pc' = role pc)
     \<or> pc' = Outside \<and> (pc = ItemsPost \<or> (\<exists>x. pc = SlotsPost x))"

lemma moved_refl [simp]: "moved pc pc"
  by (simp add: moved_def)

lemma moved_wake [simp]: "moved pc (wake pc)"
  by (cases pc) (simp_all add: moved_def)

lemma wake_Outside [simp]: "wake pc = Outside \<longleftrightarrow> pc = Outside"
  by (cases pc) simp_all

lemma notified_moved:
  assumes "notified asleep s s'"
  shows "sy_buf s' = sy_buf s" "moved (sy_pc s t) (sy_pc s' t)" "sy_pc s' t = Outside \<longleftrightarrow> sy_pc s t = Outside"
  using assms
  by (auto elim!: notifiedE simp: goto_def split: if_splits)


lemma notified_after_goto:
  assumes "notified asleep (goto t Outside (s\<lparr>sy_buf := b\<rparr>)) s'" "sy_pc s t = ItemsPost \<or> (\<exists>x. sy_pc s t = SlotsPost x)"
  shows "sy_buf s' = b \<and> moved (sy_pc s u) (sy_pc s' u)"
proof (cases "u = t")
  case True
  then have "sy_pc s' u = Outside" using notified_moved(3) [OF assms(1), of u] by (simp add: goto_def)
  then show ?thesis using notified_moved(1) [OF assms(1)] assms(2) True by (simp add: goto_def moved_def)
next
  case False
  then show ?thesis using notified_moved(1) [OF assms(1)] notified_moved(2) [OF assms(1), of u] by (simp add: goto_def)
qed

lemma sb_step_moves:
  assumes step: "sb_step b b'" and inv: "sb_inv b" and calls: "\<And>t. sy_pc b t = Outside \<Longrightarrow> sy_pc b' t = Outside"
  obtains (inside) "sb_buf (sy_buf b') = sb_buf (sy_buf b)" "\<And>t. moved (sy_pc b t) (sy_pc b' t)"
  | (push) t x where "sy_pc b t = Push x" "sy_pc b' = (sy_pc b)(t := ItemsPost)"
      "sb_buf (sy_buf b') = sb_buf (sy_buf b) @ [x]"
  | (pop) t x where "sy_pc b t = Pop" "sy_pc b' = (sy_pc b)(t := SlotsPost x)"
      "sb_buf (sy_buf b) = x # sb_buf (sy_buf b')"
  using step
proof (cases rule: sb_step.cases)
  case (call_insert t item)
  then show ?thesis using calls [of t] by (simp add: goto_def)
next
  case (call_remove t)
  then show ?thesis using calls [of t] by (simp add: goto_def)
next
  case (slots_wait t item slots)
  then show ?thesis by (intro inside) (auto simp: goto_def moved_def)
next
  case (slots_sleep t item)
  then show ?thesis by (intro inside) (auto simp: goto_def moved_def)
next
  case (items_wait t items)
  then show ?thesis by (intro inside) (auto simp: goto_def moved_def)
next
  case (items_sleep t)
  then show ?thesis by (intro inside) (auto simp: goto_def moved_def)
next
  case (spurious t)
  then show ?thesis by (intro inside) (auto simp: goto_def)
next
  case (push t item)
  then show ?thesis by (intro that(2) [of t item]) (simp_all add: goto_def SharedBuf_push_def)
next
  case (items_post t)
  have "sy_buf b' = (sy_buf b)\<lparr>sb_items := Sem_post (sb_items (sy_buf b))\<rparr> \<and> moved (sy_pc b u) (sy_pc b' u)" for u
    using notified_after_goto [OF items_post(2)] items_post(1) by blast
  then show ?thesis by (intro inside) auto
next
  case (slots_post t item)
  have "sy_buf b' = (sy_buf b)\<lparr>sb_slots := Sem_post (sb_slots (sy_buf b))\<rparr> \<and> moved (sy_pc b u) (sy_pc b' u)" for u
    using notified_after_goto [OF slots_post(2)] slots_post(1) by blast
  then show ?thesis by (intro inside) auto
next
  case (pop t item c)
  then obtain rest where rest: "SharedBuf_pop (sy_buf b) = Inr (item, (sy_buf b)\<lparr>sb_buf := rest\<rparr>)" "sb_buf (sy_buf b) = item # rest"
    using sb_inv_pop [OF inv pop(2)] by (metis Inr_inject prod.inject)
  then have "sb_buf c = rest" using pop(3) rest(1) by auto
  with pop rest show ?thesis by (intro that(3) [of t item]) (simp_all add: goto_def)
next
  case (pop_fault t e)
  then show ?thesis using sb_inv_pop [OF inv pop_fault(2)] by (metis Inl_Inr_False)
qed

section \<open>Invariant\<close>

text \<open>The four kinds of places in the round of a connection with the text \<open>g\<close> to be answered.\<close>

definition before_read :: "string option \<Rightarrow> echo_state \<Rightarrow> bool" where
  "before_read g c \<longleftrightarrow> riob_ok (ec_riob c) \<and> length (ec_buf c) = MAXLINE
     \<and> (\<forall>w. g = Some w \<longrightarrow> lasting (ec_riob c) \<and> writes_ok (ec_writes c)
          \<and> ec_out c @ echo_text (riob_stream (ec_riob c)) = echo_text w)"

definition after_read :: "string option \<Rightarrow> echo_state \<Rightarrow> bool" where
  "after_read g c \<longleftrightarrow> echo_inv c
     \<and> (\<forall>w. g = Some w \<longrightarrow> lasting (ec_riob c) \<and> writes_ok (ec_writes c) \<and> ec_n c \<le> MAXLINE
          \<and> ec_out c @ pending c @ echo_text (riob_stream (ec_riob c)) = echo_text w)"

definition all_sent :: "string option \<Rightarrow> echo_state \<Rightarrow> bool" where
  "all_sent g c \<longleftrightarrow> (\<forall>w. g = Some w \<longrightarrow> ec_out c = echo_text w)"

definition place_ok :: "et_system \<Rightarrow> int \<Rightarrow> bool" where
  "place_ok s fd \<longleftrightarrow>
     (if \<exists>t. et_work s t = Closing fd then all_sent (et_given s fd) (et_conn s fd)
      else if \<exists>t. et_work s t = Counting fd \<or> et_work s t = Writing fd then after_read (et_given s fd) (et_conn s fd)
      else before_read (et_given s fd) (et_conn s fd))"

definition roles_ok :: "et_system \<Rightarrow> bool" where
  "roles_ok s \<longleftrightarrow> (\<forall>t. (role (sy_pc (et_sb s) t) = 1 \<longrightarrow> t = 0)
     \<and> (role (sy_pc (et_sb s) t) = 2 \<longleftrightarrow> et_work s t = Taking) \<and> (t = 0 \<longrightarrow> et_work s t = Idle))"

definition et_inv :: "et_system \<Rightarrow> bool" where
  "et_inv s \<longleftrightarrow> sb_inv (et_sb s) \<and> sb_capacity (sy_buf (et_sb s)) = 10 \<and> roles_ok s
     \<and> owns (held s) (queue s) (et_open s) \<and> (\<forall>fd \<in> et_open s. place_ok s fd)
     \<and> et_bytes s = sum_list (et_counted s) mod 2 ^ 64
     \<and> (\<forall>(g, out) \<in> set (et_done s). \<forall>w. g = Some w \<longrightarrow> out = echo_text w) \<and> \<not> et_error s"

lemma echo_read_place:
  assumes "before_read g c"
  shows "\<exists>c'. echo_read c = Inr c' \<and> (if ec_n c' \<noteq> 0 then after_read g c' else all_sent g c')"
proof -
  obtain c' where c': "echo_read c = Inr c'" "echo_inv c'" "ec_writes c' = ec_writes c" "ec_out c' = ec_out c"
      "lasting (ec_riob c) \<longrightarrow> lasting (ec_riob c') \<and> ec_n c' \<le> MAXLINE
        \<and> (ec_n c' = 0 \<longrightarrow> riob_stream (ec_riob c') = [])
        \<and> pending c' @ echo_text (riob_stream (ec_riob c')) = echo_text (riob_stream (ec_riob c))"
    using echo_read_exact [of c] assms by (auto simp: before_read_def)
  then show ?thesis using assms by (auto simp: before_read_def after_read_def all_sent_def pending_def)
qed

lemma echo_write_place:
  assumes "after_read g c"
  shows "\<exists>c'. echo_write c = Inr c' \<and> before_read g c'"
proof -
  obtain ws out where w: "echo_write c = Inr (c\<lparr>ec_writes := ws, ec_out := ec_out c @ out\<rparr>)"
      "writes_ok (ec_writes c) \<longrightarrow> writes_ok ws"
      "writes_ok (ec_writes c) \<and> ec_n c \<le> MAXLINE \<longrightarrow> out = pending c"
    using echo_write_exact [of c] assms by (auto simp: after_read_def)
  then show ?thesis using assms by (auto simp: before_read_def after_read_def echo_inv_def)
qed

lemma place_new:
  assumes "length u = MAXLINE" "length array = RIO_BUFSIZE"
  shows "before_read (if descr_lasting fd \<and> writes_ok ws then Some (data_of (de_answers fd)) else None)
      (echo_start u array fd ws)"
  using assms riob_ok_new
  by (auto simp: before_read_def echo_start_def riob_stream_new lasting_def descr_lasting_def solid_def)
    (simp add: Riob_new_def)


lemma served_outside:
  assumes "roles_ok s" "served (et_work s t) = Some fd"
  shows "sy_pc (et_sb s) t = Outside" "held s t = Some fd" "t \<noteq> 0"
proof -
  have "et_work s t \<noteq> Taking" "et_work s t \<noteq> Idle" using assms(2) by auto
  then have "role (sy_pc (et_sb s) t) \<noteq> 2" "t \<noteq> 0" using assms(1) unfolding roles_ok_def by blast+
  moreover have "role (sy_pc (et_sb s) t) \<noteq> 1" using assms(1) \<open>t \<noteq> 0\<close> unfolding roles_ok_def by blast
  ultimately show "sy_pc (et_sb s) t = Outside" "t \<noteq> 0" by (cases "sy_pc (et_sb s) t"; simp)+
  then show "held s t = Some fd" using assms(2) by (simp add: held_def)
qed

fun stage :: "work \<Rightarrow> string option \<Rightarrow> echo_state \<Rightarrow> bool" where
  "stage (Closing fd) g c = all_sent g c"
| "stage (Counting fd) g c = after_read g c"
| "stage (Writing fd) g c = after_read g c"
| "stage w g c = before_read g c"

text \<open>The place of a connection that a worker serves is decided by this worker alone.\<close>

lemma place_served:
  assumes "roles_ok s" "owns (held s) q A" "served (et_work s t) = Some fd"
  shows "place_ok s fd \<longleftrightarrow> stage (et_work s t) (et_given s fd) (et_conn s fd)"
proof -
  have "u = t" if "served (et_work s u) = Some fd" for u
    using served_outside(2) [OF assms(1) that] served_outside(2) [OF assms(1,3)] assms(2)
    unfolding owns_def by blast
  then have "(\<exists>u. et_work s u = w) \<longleftrightarrow> et_work s t = w" if "served w = Some fd" for w using that by metis
  then show ?thesis using assms(3) by (cases "et_work s t") (simp_all add: place_ok_def ex_disj_distrib)
qed

lemma place_other:
  assumes "et_given s' fd = et_given s fd" "et_conn s' fd = et_conn s fd"
    and "\<And>u w. served w = Some fd \<Longrightarrow> (\<forall>x. w \<noteq> Reading x) \<Longrightarrow> et_work s' u = w \<longleftrightarrow> et_work s u = w"
  shows "place_ok s' fd \<longleftrightarrow> place_ok s fd"
  unfolding place_ok_def using assms by simp

lemma worker_step:
  assumes inv: "et_inv s" and w: "served (et_work s t) = Some fd" "served w = Some fd"
    and st: "stage w (et_given s fd) c"
  shows "et_inv (set_work t w (s\<lparr>et_conn := (et_conn s)(fd := c)\<rparr>))"
proof -
  let ?s = "set_work t w (s\<lparr>et_conn := (et_conn s)(fd := c)\<rparr>)"
  have r: "roles_ok s" and o: "owns (held s) (queue s) (et_open s)" using inv by (simp_all add: et_inv_def)
  note out = served_outside [OF r w(1)]
  have held: "held ?s = held s" using out w by (intro ext) (auto simp: held_def set_work_def split: option.split)
  have "et_work s t \<noteq> Taking" "w \<noteq> Taking" using w by auto
  then have r': "roles_ok ?s" using r out(3) by (simp add: roles_ok_def set_work_def)
  have q: "queue ?s = queue s" "et_open ?s = et_open s" by (simp_all add: queue_def set_work_def)
  have o': "owns (held ?s) (queue ?s) (et_open ?s)" using o by (simp add: held q)
  have "place_ok ?s x" if "x \<in> et_open s" for x
  proof (cases "x = fd")
    case True
    have "served (et_work ?s t) = Some fd" using w(2) by (simp add: set_work_def)
    from place_served [OF r' o' this] show ?thesis using st True by (simp add: set_work_def)
  next
    case False
    have "place_ok ?s x \<longleftrightarrow> place_ok s x"
      using False w by (intro place_other) (auto simp: set_work_def)
    then show ?thesis using inv that by (simp add: et_inv_def)
  qed
  then show ?thesis using inv r' o' q by (simp add: et_inv_def) (simp add: set_work_def)
qed

lemma served_stage:
  assumes "et_inv s" "served (et_work s t) = Some fd"
  shows "fd \<in> et_open s \<and> stage (et_work s t) (et_given s fd) (et_conn s fd)"
proof -
  have r: "roles_ok s" and o: "owns (held s) (queue s) (et_open s)" using assms(1) by (simp_all add: et_inv_def)
  have "fd \<in> et_open s" using served_outside(2) [OF r assms(2)] o unfolding owns_def by blast
  then show ?thesis using place_served [OF r o assms(2)] assms(1) by (simp add: et_inv_def)
qed

lemma et_inv_read:
  assumes "et_inv s" "et_work s t = Reading fd"
  shows "et_inv (et_read t fd s)"
proof -
  have w: "served (et_work s t) = Some fd" using assms(2) by simp
  have "before_read (et_given s fd) (et_conn s fd)"
    using served_stage [OF assms(1) w] assms(2) by simp
  then obtain c where "echo_read (et_conn s fd) = Inr c"
      "if ec_n c \<noteq> 0 then after_read (et_given s fd) c else all_sent (et_given s fd) c"
    using echo_read_place by blast
  then show ?thesis using worker_step [OF assms(1) w, of "if ec_n c \<noteq> 0 then Counting fd else Closing fd" c]
    by (auto simp: et_read_def split: if_splits)
qed

lemma et_inv_write:
  assumes "et_inv s" "et_work s t = Writing fd"
  shows "et_inv (et_write t fd s)"
proof -
  have w: "served (et_work s t) = Some fd" using assms(2) by simp
  have "after_read (et_given s fd) (et_conn s fd)"
    using served_stage [OF assms(1) w] assms(2) by simp
  then obtain c where "echo_write (et_conn s fd) = Inr c" "before_read (et_given s fd) c"
    using echo_write_place by blast
  then show ?thesis using worker_step [OF assms(1) w, of "Reading fd" c] by (simp add: et_write_def)
qed

lemma et_inv_counts:
  assumes "et_inv s" "x = sum_list ns mod 2 ^ 64"
  shows "et_inv (s\<lparr>et_bytes := x, et_counted := ns\<rparr>)"
proof -
  let ?s = "s\<lparr>et_bytes := x, et_counted := ns\<rparr>"
  have "held ?s = held s" by (intro ext) (simp add: held_def split: option.split)
  moreover have "place_ok ?s fd = place_ok s fd" for fd by (intro place_other) simp_all
  ultimately show ?thesis using assms by (simp add: et_inv_def roles_ok_def queue_def)
qed

lemma et_inv_count:
  assumes "et_inv s" "et_work s t = Counting fd"
  shows "et_inv (et_count t fd s)"
proof -
  have w: "served (et_work s t) = Some fd" using assms(2) by simp
  have "after_read (et_given s fd) (et_conn s fd)"
    using served_stage [OF assms(1) w] assms(2) by simp
  then have i: "et_inv (set_work t (Writing fd) (s\<lparr>et_conn := (et_conn s)(fd := et_conn s fd)\<rparr>))"
    using assms(1) w by (intro worker_step) simp_all
  let ?n = "ec_n (et_conn s fd)"
  have n: "size_add (et_bytes s) ?n = sum_list (et_counted s @ [?n]) mod 2 ^ 64"
    using assms(1) by (simp add: et_inv_def size_add_def mod_add_left_eq)
  have "et_count t fd s = (set_work t (Writing fd) s)\<lparr>et_bytes := size_add (et_bytes s) ?n, et_counted := et_counted s @ [?n]\<rparr>"
    by (simp add: et_count_def set_work_def Let_def)
  moreover have "et_inv (set_work t (Writing fd) s)" using i by simp
  ultimately show ?thesis using et_inv_counts [OF _ n] by metis
qed

lemma et_inv_close:
  assumes "et_inv s" "et_work s t = Closing fd"
  shows "et_inv (et_close t fd s)"
proof -
  have w: "served (et_work s t) = Some fd" using assms(2) by simp
  have r: "roles_ok s" and o: "owns (held s) (queue s) (et_open s)" using assms(1) by (simp_all add: et_inv_def)
  note out = served_outside [OF r w]
  have "all_sent (et_given s fd) (et_conn s fd)" using served_stage [OF assms(1) w] assms(2) by simp
  moreover have "held (et_close t fd s) = (held s)(t := None)"
    using out by (intro ext) (auto simp: held_def et_close_def set_work_def split: option.split)
  moreover have "queue (et_close t fd s) = queue s" "et_open (et_close t fd s) = et_open s - {fd}"
    by (simp_all add: queue_def et_close_def set_work_def Close_def)
  moreover have "roles_ok (et_close t fd s)"
    using r out assms(2) by (auto simp: roles_ok_def et_close_def set_work_def)
  moreover have "place_ok (et_close t fd s) x" if "x \<in> et_open s - {fd}" for x
  proof -
    have "place_ok (et_close t fd s) x \<longleftrightarrow> place_ok s x"
      using that assms(2) by (intro place_other) (auto simp: et_close_def set_work_def)
    then show ?thesis using assms(1) that by (simp add: et_inv_def)
  qed
  ultimately show ?thesis using assms(1) owns_close [OF o out(2)] unfolding et_inv_def
    by (auto simp: all_sent_def) (auto simp: et_close_def set_work_def)
qed


lemma et_inv_accept:
  assumes inv: "et_inv s" and new: "sy_pc (et_sb s) 0 = Outside" "fd \<notin> et_open s" "length u = MAXLINE"
    "length array = RIO_BUFSIZE"
  shows "et_inv (et_accept fd u array input writes s)"
proof -
  let ?s = "et_accept fd u array input writes s"
  have r: "roles_ok s" and o: "owns (held s) (queue s) (et_open s)" using inv by (simp_all add: et_inv_def)
  have idle: "et_work s 0 = Idle" using r by (simp add: roles_ok_def)
  have "held s 0 = None" using new(1) idle by (simp add: held_def)
  moreover have h: "held ?s = (held s)(0 := Some fd)"
    by (intro ext) (simp add: held_def et_accept_def goto_def split: option.split)
  moreover have q: "queue ?s = queue s" "et_open ?s = insert fd (et_open s)"
    by (simp_all add: queue_def et_accept_def goto_def)
  ultimately have o': "owns (held ?s) (queue ?s) (et_open ?s)" using owns_new [OF o _ new(2)] by simp
  have r': "roles_ok ?s" using r idle by (auto simp: roles_ok_def et_accept_def goto_def)
  have "sb_inv (et_sb ?s)"
    using sb_inv_step [OF _ call_insert [of "et_sb s" 0 fd]] inv new(1) by (simp add: et_inv_def et_accept_def)
  moreover have "place_ok ?s x" if "x \<in> et_open ?s" for x
  proof (cases "x = fd")
    case True
    have "served (et_work s t) \<noteq> Some fd" for t
      using served_outside(2) [OF r, of t fd] o new(2) unfolding owns_def by blast
    then have "et_work s t \<noteq> Closing fd" "et_work s t \<noteq> Counting fd" "et_work s t \<noteq> Writing fd" for t
      by (metis served.simps)+
    then show ?thesis using True place_new [OF new(3,4)] by (simp add: place_ok_def et_accept_def)
  next
    case False
    have "place_ok ?s x \<longleftrightarrow> place_ok s x" using False by (intro place_other) (simp_all add: et_accept_def)
    then show ?thesis using False that inv q by (simp add: et_inv_def)
  qed
  ultimately show ?thesis using inv o' r' by (simp add: et_inv_def) (simp add: et_accept_def goto_def)
qed

lemma et_inv_remove:
  assumes inv: "et_inv s" and t: "1 \<le> t" "et_work s t = Idle"
  shows "et_inv (set_work t Taking (s\<lparr>et_sb := goto t ItemsWait (et_sb s)\<rparr>))"
proof -
  let ?s = "set_work t Taking (s\<lparr>et_sb := goto t ItemsWait (et_sb s)\<rparr>)"
  have r: "roles_ok s" and o: "owns (held s) (queue s) (et_open s)" using inv by (simp_all add: et_inv_def)
  have "role (sy_pc (et_sb s) t) \<noteq> 1" "role (sy_pc (et_sb s) t) \<noteq> 2"
    using r t unfolding roles_ok_def by (metis not_one_le_zero, metis work.distinct(1))
  then have out: "sy_pc (et_sb s) t = Outside" by (cases "sy_pc (et_sb s) t") simp_all
  have "held ?s = held s"
    using out t by (intro ext) (auto simp: held_def set_work_def goto_def split: option.split)
  moreover have "queue ?s = queue s" "et_open ?s = et_open s" by (simp_all add: queue_def set_work_def goto_def)
  moreover have "roles_ok ?s" using r t by (auto simp: roles_ok_def set_work_def goto_def)
  moreover have "sb_inv (et_sb ?s)"
    using sb_inv_step [OF _ call_remove [of "et_sb s" t]] inv out by (simp add: et_inv_def set_work_def)
  moreover have "place_ok ?s x \<longleftrightarrow> place_ok s x" for x using t by (intro place_other) (auto simp: set_work_def)
  ultimately show ?thesis using inv by (simp add: et_inv_def) (simp add: set_work_def goto_def)
qed

lemma capacity_step: "sb_step b b' \<Longrightarrow> sb_capacity (sy_buf b') = sb_capacity (sy_buf b)"
  by (erule sb_step.cases)
    (auto elim!: notifiedE simp: goto_def SharedBuf_push_def SharedBuf_pop_def split: list.splits)

lemma returned_same: "(\<And>x. sy_pc b t = SlotsPost x \<Longrightarrow> sy_pc b' t \<noteq> Outside) \<Longrightarrow> et_returned b b' w t = w t"
  by (cases "sy_pc b t") (simp_all add: et_returned_def)

lemma et_inv_buffer:
  assumes inv: "et_inv s" and step: "sb_step (et_sb s) b"
    and calls: "\<And>t. sy_pc (et_sb s) t = Outside \<Longrightarrow> sy_pc b t = Outside"
  shows "et_inv (s\<lparr>et_sb := b, et_work := et_returned (et_sb s) b (et_work s)\<rparr>)"
proof -
  let ?s = "s\<lparr>et_sb := b, et_work := et_returned (et_sb s) b (et_work s)\<rparr>"
  let ?pc = "sy_pc (et_sb s)" and ?w = "et_returned (et_sb s) b (et_work s)"
  have r: "roles_ok s" and o: "owns (held s) (queue s) (et_open s)" and i: "sb_inv (et_sb s)"
    using inv by (simp_all add: et_inv_def)
  have taking: "et_work s t = Taking" if "?pc t = SlotsPost x" for t x
    using r that unfolding roles_ok_def by (metis role.simps(9))
  have serv: "?w t = et_work s t \<or> (\<exists>x. ?pc t = SlotsPost x \<and> sy_pc b t = Outside \<and> et_work s t = Taking \<and> ?w t = Reading x)" for t
    using taking [of t] by (cases "?pc t") (simp_all add: et_returned_def)
  have place: "place_ok ?s x \<longleftrightarrow> place_ok s x" for x
  proof (intro place_other)
    fix u w
    assume "served w = Some x" "\<forall>x. w \<noteq> Reading x"
    then show "et_work ?s u = w \<longleftrightarrow> et_work s u = w" using serv [of u] by auto
  qed simp_all
  consider (inside) "sb_buf (sy_buf b) = sb_buf (sy_buf (et_sb s))" "\<forall>t. moved (?pc t) (sy_pc b t)"
    | (push) t x where "?pc t = Push x" "sy_pc b = ?pc(t := ItemsPost)"
        "sb_buf (sy_buf b) = sb_buf (sy_buf (et_sb s)) @ [x]"
    | (pop) t x where "?pc t = Pop" "sy_pc b = ?pc(t := SlotsPost x)"
        "sb_buf (sy_buf (et_sb s)) = x # sb_buf (sy_buf b)"
    using sb_step_moves [OF step i calls] by metis
  then have "owns (held ?s) (queue ?s) (et_open s) \<and> roles_ok ?s"
  proof cases
    case inside
    have "held ?s t = held s t" for t
      using spec [OF inside(2), of t] serv [of t] taking [of t] returned_same [of "et_sb s" t b "et_work s"]
      by (cases "?pc t") (auto simp: held_def moved_def et_returned_def split: option.split)
    then have "held ?s = held s" by (intro ext)
    moreover have m: "role (sy_pc b t) = role (?pc t) \<and> ?w t = et_work s t
        \<or> role (sy_pc b t) = 0 \<and> role (?pc t) \<noteq> 0 \<and> ?w t \<noteq> Taking \<and> (?w t = et_work s t \<or> t \<noteq> 0)" for t
    proof -
      have "t \<noteq> 0" if "et_work s t = Taking" using r that unfolding roles_ok_def by (metis work.distinct(1))
      moreover have "et_work s t \<noteq> Taking" if "?pc t = ItemsPost"
        using r that unfolding roles_ok_def by (metis role.simps(5) num.distinct(1) one_eq_numeral_iff)
      ultimately show ?thesis
        using spec [OF inside(2), of t] taking [of t] by (cases "?pc t") (auto simp: moved_def et_returned_def)
    qed
    have "(role (sy_pc b t) = 1 \<longrightarrow> t = 0) \<and> (role (sy_pc b t) = 2 \<longleftrightarrow> ?w t = Taking) \<and> (t = 0 \<longrightarrow> ?w t = Idle)" for t
    proof -
      have "(role (?pc t) = 1 \<longrightarrow> t = 0) \<and> (role (?pc t) = 2 \<longleftrightarrow> et_work s t = Taking) \<and> (t = 0 \<longrightarrow> et_work s t = Idle)"
        using r unfolding roles_ok_def by blast
      then show ?thesis using m [of t] by auto
    qed
    then have "roles_ok ?s" by (simp add: roles_ok_def)
    ultimately show ?thesis using o inside(1) by (simp add: queue_def)
  next
    case (push t x)
    have w: "?w = et_work s" using push by (intro ext returned_same) (auto split: if_splits)
    have "t = 0" "et_work s 0 = Idle" using r push(1) unfolding roles_ok_def by (metis role.simps(4), metis)
    then have "held s t = Some x" using push(1) by (simp add: held_def)
    moreover have "held ?s = (held s)(t := None)"
      using \<open>t = 0\<close> \<open>et_work s 0 = Idle\<close> by (intro ext) (simp add: held_def push(2) w split: option.split)
    moreover have "roles_ok ?s" using r push w \<open>t = 0\<close> by (auto simp: roles_ok_def)
    ultimately show ?thesis using owns_push [OF o] push(3) by (simp add: queue_def)
  next
    case (pop t x)
    have w: "?w = et_work s" using pop by (intro ext returned_same) (auto split: if_splits)
    have k: "et_work s t = Taking" using r pop(1) unfolding roles_ok_def by (metis role.simps(8))
    then have "held s t = None" using pop(1) by (simp add: held_def)
    moreover have "held ?s = (held s)(t := Some x)"
      using k by (intro ext) (simp add: held_def pop(2) w split: option.split)
    moreover have "roles_ok ?s" using r pop w k by (auto simp: roles_ok_def)
    ultimately show ?thesis using owns_pop [of "held s" x "sb_buf (sy_buf b)"] o pop(3) by (simp add: queue_def)
  qed
  then show ?thesis using inv sb_inv_step [OF i step] capacity_step [OF step] place by (simp add: et_inv_def)
qed


lemma et_inv_start: "et_start s \<Longrightarrow> et_inv s"
proof -
  assume s: "et_start s"
  then have out: "sy_pc (et_sb s) t = Outside" "et_work s t = Idle" for t by (simp_all add: et_start_def sb_start_def)
  have "held s = (\<lambda>_. None)" by (intro ext) (simp add: held_def out)
  moreover have "queue s = []" "et_open s = {}" using s by (simp_all add: et_start_def queue_def SharedBuf_new_def)
  moreover have "roles_ok s" by (simp add: roles_ok_def out)
  moreover have "sb_inv (et_sb s)" using s sb_inv_start by (simp add: et_start_def)
  ultimately show ?thesis using s by (simp add: et_inv_def owns_def) (simp add: et_start_def SharedBuf_new_def)
qed

lemma et_inv_step: "et_inv s \<Longrightarrow> et_step s s' \<Longrightarrow> et_inv s'"
  by (erule et_stepE)
    (auto intro: et_inv_accept et_inv_remove et_inv_buffer et_inv_read et_inv_count et_inv_write et_inv_close)

interpretation threads: step_invariant et_start et_step et_inv
  by unfold_locales (fact et_inv_start, fact et_inv_step)

section \<open>The main function\<close>

text \<open>\<open>answers\<close> are the results of \<open>pthread_create\<close>, which are logged and not used.\<close>

fun create_workers :: "(int \<Rightarrow> string) \<Rightarrow> int list \<Rightarrow> 'h process \<Rightarrow> 'h process" where
  "create_workers strerror [] p = p"
| "create_workers strerror (a # answers) p =
     create_workers strerror answers (snd (un_Pthread_create strerror a p))"

definition echoServert_main ::
  "(int \<Rightarrow> string) \<Rightarrow> string list \<Rightarrow> int \<times> addr_try list \<times> int \<times> int \<Rightarrow> (nat \<Rightarrow> int) \<Rightarrow> 'h process
    \<Rightarrow> (int option \<times> 'h process) result" where
  "echoServert_main strerror args listening answers p =
     (if length args < 2 then Inr (None, p)
      else
        (case listening of (gai, addrs, listen_answer, close_answer) \<Rightarrow>
           bind_result (OpenListenFd gai addrs listen_answer close_answer (pr_fds p)) (\<lambda>(listenfd, fds).
           Inr (Some listenfd, create_workers strerror (map answers [0..<NTHREADS]) (p\<lparr>pr_fds := fds\<rparr>)))))"

section \<open>Properties\<close>

text \<open>
  C35. In every interleaving of the prethreaded server, each open connection waits once in the queue of at
  most ten or is with exactly one thread, so no two workers serve the same one; no array is left and the
  queue is never popped when empty. The byte counter is the sum of what the workers counted, modulo
  \<open>2 ^ 64\<close>. A connection whose stream lasts and whose peer takes everything has been sent its whole echo when
  it is closed.
\<close>

theorem threads_serve_once:
  assumes "reachable et_start et_step s"
  shows "(\<forall>fd \<in> et_open s. if fd \<in> set (queue s) then \<forall>t. held s t \<noteq> Some fd else \<exists>!t. held s t = Some fd)
    \<and> distinct (queue s) \<and> set (queue s) \<subseteq> et_open s \<and> length (queue s) \<le> 10
    \<and> (\<forall>t fd. held s t = Some fd \<longrightarrow> fd \<in> et_open s)
    \<and> \<not> et_error s \<and> \<not> sy_fault (et_sb s)
    \<and> et_bytes s = sum_list (et_counted s) mod 2 ^ 64
    \<and> (\<forall>(g, out) \<in> set (et_done s). g = None \<or> out = echo_text (the g))"
proof -
  have inv: "et_inv s" using assms by (rule threads.reachable_inv)
  then have o: "owns (held s) (queue s) (et_open s)" and b: "sb_inv (et_sb s)" by (simp_all add: et_inv_def)
  have "if fd \<in> set (queue s) then \<forall>t. held s t \<noteq> Some fd else \<exists>!t. held s t = Some fd" if "fd \<in> et_open s" for fd
    using o that unfolding owns_def by (auto split: if_split)
  moreover have "distinct (queue s)" "set (queue s) \<subseteq> et_open s" "\<forall>t fd. held s t = Some fd \<longrightarrow> fd \<in> et_open s"
    using o unfolding owns_def by blast+
  moreover have "int (length (queue s)) \<le> 10"
    using inv num_nonneg [of in_push "sy_pc (et_sb s)"] num_nonneg [of in_slots_post "sy_pc (et_sb s)"]
    unfolding et_inv_def sb_inv_def queue_def by linarith
  then have "length (queue s) \<le> 10" by simp
  moreover have "\<not> et_error s" "\<not> sy_fault (et_sb s)" "et_bytes s = sum_list (et_counted s) mod 2 ^ 64"
    using inv b unfolding et_inv_def sb_inv_def by blast+
  moreover have "g = None \<or> out = echo_text (the g)" if "(g, out) \<in> set (et_done s)" for g out
    using inv that unfolding et_inv_def by (cases g) auto
  ultimately show ?thesis by blast
qed

text \<open>A connection that the main thread is about to put into the queue.\<close>

definition demo_threads :: et_system where
  "demo_threads =
     \<lparr>et_sb = \<lparr>sy_buf = SharedBuf_new 10, sy_pc = (\<lambda>_. Outside), sy_pushed = [], sy_popped = [], sy_fault = False\<rparr>,
      et_work = (\<lambda>_. Idle), et_conn = (\<lambda>_. echo_start [] [] \<lparr>de_answers = [], de_intr = False\<rparr> []), et_open = {},
      et_bytes = 0, et_given = Map.empty, et_counted = [], et_done = [], et_error = False\<rparr>"

theorem threads_serve_once_witness:
  "\<exists>s. et_open s = {5} \<and> queue s = [] \<and> (\<exists>!t. held s t = Some 5) \<and> held s 0 = Some 5
    \<and> length (queue s) \<le> 10 \<and> et_bytes s = sum_list (et_counted s) mod 2 ^ 64"
proof -
  let ?s = "et_accept 5 (replicate MAXLINE NUL) (replicate RIO_BUFSIZE NUL) \<lparr>de_answers = [Data ''x''], de_intr = False\<rparr> []
      demo_threads"
  have r0: "reachable et_start et_step demo_threads"
    by (rule reachable_start) (auto simp: et_start_def demo_threads_def sb_start_def intro: exI [of _ 10])
  have "et_step demo_threads ?s" by (rule accept) (simp_all add: demo_threads_def)
  with r0 have r1: "reachable et_start et_step ?s" by (rule reachable_step)
  have q: "et_open ?s = {5}" "queue ?s = []" "held ?s 0 = Some 5"
    by (simp_all add: et_accept_def demo_threads_def queue_def SharedBuf_new_def held_def goto_def)
  have "if 5 \<in> set (queue ?s) then \<forall>t. held ?s t \<noteq> Some 5 else \<exists>!t. held ?s t = Some 5" "length (queue ?s) \<le> 10"
      "et_bytes ?s = sum_list (et_counted ?s) mod 2 ^ 64"
    using threads_serve_once [OF r1] unfolding q(1) by blast+
  then show ?thesis using q by (intro exI [of _ ?s]) simp
qed

end
