(* ===== verification/Spec2Isabelle.thy ===== *)
theory Spec2Isabelle
  imports Prelude HyBuffer Format StdMap Timestamp HttpRequest HttpContext HttpParser HttpParserProps
    HttpResponse Channel Poller TimerQueue EventLoop TcpConnection HttpServer Sio RobustIO SharedBuf
    EventLoopThreadPool SocketDetail TcpServer ServerLife ServerSteps ServerHttp Application
    ServerRun HydrogenMain ServerAnswers UnixUtility Echo EchoSelect EchoThreads
begin

text \<open>
  \<^bold>\<open>hydrogenWeb\<close>, a web server in C++: a reactor (one event loop per thread, \<^verbatim>\<open>poll\<close>, timers, functors from
  other threads), TCP connections with buffers, an HTTP layer, an application with files, accounts
  and a book list, and small libraries for robust I/O and a bounded buffer. This development
  translates the code under \<^verbatim>\<open>src/\<close> into definitions with the names of the source and proves what
  they do.

  \<^bold>\<open>Conventions.\<close> A class is a record of its members, in the source's order, an enumeration a datatype; a
  method is a function from the object to its result and the new object. Every operation that can
  fail returns \<open>cpp_error + 'a\<close>: \<open>AssertFail\<close> (the build keeps assertions), \<open>Abort\<close>, the exceptions of
  the library, \<open>OutOfBounds\<close> for an access outside an object or through a dangling pointer and
  \<open>Arithmetic\<close> for an overflow of a signed integer; the last two stand for undefined behaviour.
  \<^verbatim>\<open>size_t\<close> is \<open>nat\<close> with \<open>size_add\<close> and \<open>size_sub\<close> modulo \<open>2 ^ 64\<close>, event masks and ports are words,
  other integers \<open>int\<close> with the range stated where it matters, \<^verbatim>\<open>double\<close> a significand and an exponent
  with rounding. Objects that several owners share live in stores, maps from addresses. What the
  kernel, the clock, SQLite and BCrypt answer is an argument. A loop that may not end is
  \<open>cpp_while\<close>, whose value \<open>None\<close> is a call that does not return; loops of the kernel's making run
  over the list of its answers. Logging is left out, except in UnixUtility, where the lines of the log are
  part of what a wrapper does.

  \<^bold>\<open>Theories.\<close>
  \<^item> Prelude: errors, integers, byte ranges, \<open>cpp_while\<close>, reachable states and their invariants.
    StdMap: \<^verbatim>\<open>std::map\<close>, with a locale of what its users need. Format: the C library's number
    formats, \<^verbatim>\<open>stoi\<close>, \<^verbatim>\<open>isspace\<close>.
  \<^item> HyBuffer (\<^verbatim>\<open>HyBuffer.hpp/.cpp\<close>): the read and write buffer, the exact conditions under which \<open>append\<close> and
    \<open>readFd\<close> stay in their memory, and its use as a byte queue (locale \<open>byte_queue\<close>).
  \<^item> Timestamp, TimerQueue: time points, the set of timers and its timerfd.
  \<^item> HttpRequest, HttpContext, HttpResponse, HttpServer (\<^verbatim>\<open>include/network/http\<close>): requests, the incremental
    parser, responses, and the callbacks that join them to connections. HttpParser relates the
    parser to a reference parser on strings; HttpParserProps has its properties: printed requests
    parse back, a request that is waited for is read on as if it had come at once, which errors are possible.
  \<^item> Channel, Poller, EventLoop: event masks and their dispatch, the array of \<^verbatim>\<open>poll(2)\<close> with the map
    from descriptors to channels, the loop and the functors from other threads. The locale
    \<open>channel_registry\<close> is what the owner of a channel relies on; Poller and EventLoop both provide
    it. The wake-up protocol is a step relation with one step per access to shared state.
  \<^item> TcpConnection: buffers and states of one connection; while it is open the bytes go out in order,
    whatever part of them the kernel takes.
  \<^item> SocketDetail (\<^verbatim>\<open>socketDetail.cpp\<close>, \<^verbatim>\<open>Socket\<close>, \<^verbatim>\<open>InetAddr\<close>): opening, owning and naming descriptors.
  \<^item> EventLoopThreadPool: handing out loops in turn, and the start of a thread as a step relation.
  \<^item> TcpServer (\<^verbatim>\<open>TcpServer\<close>, \<^verbatim>\<open>Acceptor\<close>): accepting connections and the callbacks and functors of a
    server. ServerLife: the invariant of a server with many connections, and each handler keeps it.
    ServerHttp: the message callback of a connection, \<^verbatim>\<open>HttpServer::onMessage\<close>, keeps it or ends in an error of
    the parser. ServerSteps: the step relation of the main thread and the theorem about all its runs.
    ServerRun: the loop of the whole server with its channels and functors; an iteration keeps the invariant
    and leaves nothing behind, or ends in an error of the parser. HydrogenMain: the constructors and \<open>main\<close>;
    the program reaches its loop and stays there until such an error ends it.
    ServerAnswers: a request that a client sends to the running server is answered at once.
  \<^item> Sio, RobustIO (\<^verbatim>\<open>sio.cpp\<close>, \<^verbatim>\<open>robustio.cpp\<close>): signal-safe printing and reading and writing in spite of short
    counts. SharedBuf (\<^verbatim>\<open>sem\<close>, \<^verbatim>\<open>sharedBuf\<close>): semaphores and the bounded buffer for any number of threads.
  \<^item> UnixUtility (\<^verbatim>\<open>unixUtility.cpp\<close>, the plain wrappers of \<^verbatim>\<open>socketDetail.cpp\<close>): what each wrapper of a
    system call returns, changes in the process and writes to the log.
  \<^item> Echo, EchoSelect, EchoThreads (\<^verbatim>\<open>application/echo*.cpp\<close>): the echo loop with the iterative and the forking
    server and the client; the server around \<^verbatim>\<open>select\<close> with its pool of descriptors; the server with ten
    threads and a shared buffer as a step relation over the one of SharedBuf.
  \<^item> Application (\<^verbatim>\<open>application/hydrogenWeb.cpp\<close>): the pages, the accounts and their SQL. The path of the
    database is an argument, since \<^verbatim>\<open>include/config.h\<close> leaves it empty for the user to set.
  \<^item> This theory: a request on the wire is answered with the file on the wire, through all layers.

  \<^bold>\<open>Interfaces.\<close> \<open>string_map\<close>, \<open>byte_queue\<close>, \<open>channel_registry\<close> and \<open>step_invariant\<close> are locales; they are
  interpreted on the code's own definitions in the theory of the provider, and the clients' lemmas
  come from these interpretations.

  \<^bold>\<open>Bounds.\<close> Vectors are smaller than \<open>2 ^ 63\<close> bytes and the array of \<^verbatim>\<open>poll\<close> than \<open>2 ^ 31\<close> entries; the number of
  accepted connections stays below \<open>2 ^ 31 - 1\<close>, the range of the counter in their names. No
  definition takes fuel: \<open>cpp_while\<close> is the least fixed point of the loop, and the theorems about the
  parser show when it ends.

  The input of an echo program is a finite list of the kernel's answers, and its end is the end of
  the file, so the echo loop ends; on a descriptor that fails forever it would not, since it takes -1 as data. In the theorem about the
  server around \<^verbatim>\<open>select\<close> a failed \<^verbatim>\<open>accept\<close>, whose -1 is put into a descriptor set, ends the run with an
  access outside the set; the theorems about the other servers assume that \<^verbatim>\<open>accept\<close> succeeds.

  \<^bold>\<open>Conditions of the server's theorems.\<close> \<open>accept\<close> gives new descriptors; \<open>write\<close> returns and takes no more than it is
  offered; a hang-up is reported together with \<^verbatim>\<open>POLLIN\<close> or without \<^verbatim>\<open>POLLPRI\<close> and \<^verbatim>\<open>POLLRDHUP\<close> (otherwise the
  code closes the connection and goes on to read from it). Where a read or an answer does not fit its
  buffer the program writes past it (HyBuffer, HttpResponse say exactly when), so the theorems about runs
  take \<open>read_fits\<close>, \<open>response_fits\<close> and \<open>data_fits\<close> as conditions. What they do not assume is that the parser
  succeeds: its errors, and the buffer that it leaves behind a POST, are part of the runs.

  \<^bold>\<open>Not modelled.\<close> Console output and logging outside UnixUtility; \<^verbatim>\<open>FreeAddrInfo\<close> and \<^verbatim>\<open>Pthread_self\<close>, which pass
  a value on; callback types, which have no code; memory exhaustion; signals, except for the handler of
  the forking server. The program leaves \<^verbatim>\<open>SIGPIPE\<close> at its default, which ends it when it writes to a
  connection that the peer has closed; the theorems are about a \<^verbatim>\<open>write\<close> that returns. The application's
  callback is a function of the request: its database does not change in a run of the server. Connections that live in other loops than the main one do not occur, since
  \<open>TcpServer::run\<close> never starts the thread pool; the operations are still translated for any loop, and only
  the step relation of ServerSteps is about one.
\<close>

section \<open>From the request on the wire to the file on the wire\<close>

text \<open>
  The callback that \<open>main\<close> gives to the server, for a database that stays as it is. When \<open>onRequest\<close> has no
  result the response is the one it was given; the theorem below is not about this case.
\<close>

definition app_callback :: "'db services \<Rightarrow> 'db \<Rightarrow> HttpRequest \<Rightarrow> HttpResponse \<Rightarrow> HttpResponse" where
  "app_callback sv db req resp =
     (case onRequest sv req resp db of Inr (r, _) \<Rightarrow> r | Inl _ \<Rightarrow> resp)"

definition file_message :: "string \<Rightarrow> string \<Rightarrow> string" where
  "file_message contentType body =
     ''HTTP/1.1 200 OK'' @ CRLF @ ''Connection: close'' @ CRLF @ ''Content-Type: '' @ contentType @ CRLF
     @ ''Server: HydrogenWeb'' @ CRLF @ CRLF @ body"

lemma page_headers: "map_assign ''Server'' x [(''Content-Type'', ct)] = [(''Content-Type'', ct), (''Server'', x)]"
proof -
  have "\<not> ''Server'' < ''Content-Type''" by code_simp
  then show ?thesis by simp
qed

lemma page_message: "response_text (page (HttpResponse_new close) ct body) = file_message ct body"
proof -
  have "fmt_d 200 = ''200''" by code_simp
  then show ?thesis
    by (simp add: response_text_def response_head_def page_def HttpResponse_new_def page_headers file_message_def)
qed

lemma content_type_short: "length (content_type path) \<le> 10"
  by (simp add: content_type_def Let_def)

lemma page_fits:
  assumes "length (file_message (content_type path) body) \<le> 1024 \<or> 1024 < length body" "length body < 10 ^ 13"
  shows "response_fits (page (HttpResponse_new close) (content_type path) body)"
proof -
  let ?r = "page (HttpResponse_new close) (content_type path) body"
  have body: "resp_body ?r = body" by (simp add: page_def)
  have msg: "response_text ?r = file_message (content_type path) body" by (rule page_message)
  have "length (response_text ?r) \<le> 100 + length body"
    using content_type_short [of path] by (simp add: msg file_message_def CRLF_def)
  then have "length (response_head ?r) \<le> 100" by (simp add: response_text_def body)
  moreover have "length (response_text ?r) = length (response_head ?r) + length body" by (simp add: response_text_def body)
  ultimately show ?thesis using assms msg body by (auto simp: response_fits_def)
qed

lemma static_callback:
  assumes "path = CHR ''/'' # name" "CHR ''.'' \<in> set name" "length path < 2 ^ 64"
    and "sv_open sv (c_string path) = Some (Mappable body)" and "req_path req = path"
  shows "app_callback sv db req resp = page resp (content_type path) body"
proof -
  have "onRequest sv req resp db = with_db db (serveStatic sv path resp)"
    using assms by (auto simp: onRequest_def Let_def find_char_None)
  then show ?thesis
    using serveStatic_exact [OF assms(1-3), of sv resp] assms(4) by (simp add: app_callback_def with_db_def)
qed

text \<open>
  C1. A browser that asks the running server for a static file by a well-formed GET request gets exactly
  this file: when the loop has handled the event, the bytes sent to this browser or waiting for its
  socket are those of before followed by the status line, the headers and the bytes of the file, the
  connection is shutting down, the bytes behind the request are still in the input buffer, and no other
  connection is touched. What is read has to fit the input buffer (\<open>read_fits\<close>; an empty buffer of 1024
  bytes is written past its end by 1025 to 2048 bytes, C11), the last request on the connection was not a
  POST with a body, and the response has to fit: it is at most 1024 bytes long or the file is longer than
  1024 bytes (for a file between about 920 and 1024 bytes the response buffer is written past its end,
  C12), and what still waits for the socket leaves room for it (\<open>data_fits\<close>).
\<close>

theorem static_file_served:
  assumes "request_event t base (ans (sr_events w)) ch b k c w"
    and "sr_httpCallback w = app_callback sv db"
    and "path = CHR ''/'' # name" "CHR ''.'' \<in> set name" "target_ok path None" "length path < 2 ^ 64"
    and "v \<noteq> UNKNOWN" and "list_all header_ok hs"
    and "ev_read (ans (sr_events w)) = Some d" "d \<noteq> []" "read_fits (Some d) (cn_inputBuffer c)"
    and "contents (cn_inputBuffer c) @ d = request_line GET path None v @ CRLF @ headers_text hs @ rest"
    and "sv_open sv (c_string path) = Some (Mappable body)"
    and "length (file_message (content_type path) body) \<le> 1024 \<or> 1024 < length body" "length body < 10 ^ 13"
    and "data_fits (snd (ev_sends (ans (sr_events w)))) (file_message (content_type path) body) c"
  shows "\<exists>w' c'. run_event ans t ch now w = Inr w' \<and> run_inv t base w'
    \<and> ss_conns (sr_sys w') b = Some (k, c')
    \<and> wire c' = wire c @ file_message (content_type path) body
    \<and> cn_state c' = DISCONNECTING \<and> contents (cn_inputBuffer c') = rest
    \<and> (\<forall>b'. b' \<noteq> b \<longrightarrow> ss_conns (sr_sys w') b' = ss_conns (sr_sys w) b')"
proof -
  let ?q = "parsed now GET path None v hs"
  let ?r = "sr_httpCallback w ?q (HttpResponse_new (closes_connection ?q))"
  have r: "?r = page (HttpResponse_new (closes_connection ?q)) (content_type path) body"
    using assms(2,3,4,6,13) by (simp add: static_callback parsed_def)
  have msg: "response_text ?r = file_message (content_type path) body" and cl: "HttpResponse_nonPersistent ?r"
    unfolding r by (simp_all add: page_message) (simp add: page_def HttpResponse_nonPersistent_def)
  have "response_fits ?r" using page_fits [OF assms(14,15)] r by simp
  moreover have "data_fits (snd (ev_sends (ans (sr_events w)))) (response_text ?r) c" using assms(16) msg by simp
  ultimately show ?thesis
    using served [where ans = ans and now = now, OF assms(1,9-12,5,7,8) refl refl] msg cl by auto
qed

text \<open>The program has just started, a browser has connected and asks for \<open>/logo.png\<close>.\<close>

definition logo_request :: string where
  "logo_request = request_line GET ''/logo.png'' None HTTP11 @ CRLF @ headers_text [(''Host'', ''h'')] @ []"

theorem static_file_served_witness:
  "\<exists>w w' c'. sr_httpCallback w = app_callback demo_services []
    \<and> run_event (\<lambda>_. demo_read logo_request) 0 13 (Timestamp 10) w = Inr w' \<and> ss_conns (sr_sys w') 20 = Some (0, c')
    \<and> wire c' = file_message ''image/png'' ''PNG'' \<and> cn_state c' = DISCONNECTING"
proof -
  let ?cb = "app_callback demo_services []" and ?h = "[(''Host'', ''h'')]"
  have len: "length logo_request \<le> 1024" "logo_request \<noteq> []" unfolding logo_request_def by code_simp+
  have t: "target_ok ''/logo.png'' None" "list_all header_ok ?h" by code_simp+
  have ct: "content_type ''/logo.png'' = ''image/png''" by (simp add: content_type_def)
  have f: "sv_open demo_services (c_string ''/logo.png'') = Some (Mappable ''PNG'')"
    by (simp add: demo_services_def c_string_def)
  let ?m = "file_message (content_type ''/logo.png'') ''PNG''"
  have l: "7 \<le> length ?m" "length ?m < 2000" "length ?m \<le> 1024" by (simp_all add: ct file_message_def CRLF_def)
  note sizes = demo_sizes [OF len(1) l(1,2)]
  obtain w base where
    w: "request_event 0 base (demo_read logo_request) 13 20 0 demo_connected w" "sr_httpCallback w = ?cb"
    using demo_request_event [of logo_request ?cb] by blast
  have req: "contents (cn_inputBuffer demo_connected) @ logo_request =
      request_line GET ''/logo.png'' None HTTP11 @ CRLF @ headers_text ?h @ []"
    by (simp add: wire_connected logo_request_def)
  have rd: "ev_read (demo_read logo_request) = Some logo_request" by (simp add: demo_read_def)
  obtain w' c' where "run_event (\<lambda>_. demo_read logo_request) 0 13 (Timestamp 10) w = Inr w'"
      "ss_conns (sr_sys w') 20 = Some (0, c')" "cn_state c' = DISCONNECTING"
      "wire c' = wire demo_connected @ file_message (content_type ''/logo.png'') ''PNG''"
    using static_file_served [where ans = "\<lambda>_. demo_read logo_request" and now = "Timestamp 10",
        OF w(1,2) refl _ t(1) _ _ t(2) rd len(2) sizes(1) req f _ _ sizes(2)] l(3) by auto
  then show ?thesis unfolding wire_connected ct using w(2) by auto
qed

end
